(* ===== verification/Prelude.thy ===== *)
theory Prelude
  imports Main "HOL-Library.Word" "HOL-Library.Multiset"
begin

text \<open>
  Shared vocabulary of the development.

  A C function that reads and writes memory is a value of type \<open>('s, 'a) M\<close>: from a state it
  gives either an \<open>error\<close> or a result and the next state. Sequencing is \<open>bnd\<close> (with a result) and
  \<open>block\<close> (a list of statements). The error values are the ways in which the C program stops
  making sense or stops altogether: a failed \<open>assert\<close>, a dereference of NULL or of a freed
  block, behaviour the C standard leaves undefined, a mutex held by another thread, a loop that
  was cut off, and \<open>exit\<close> after an allocation failure.

  Below them: Hoare triples over \<open>M\<close> (partial correctness), the frame predicate \<open>keeps\<close>, and
  the schedule of allocator outcomes that \<open>malloc\<close> and \<open>calloc\<close> draw from.
\<close>

unbundle bit_operations_syntax

named_theorems keeps_intros
named_theorems hoare_intros

section \<open>Errors and the state monad\<close>

datatype error =
    Assert_failed
  | Bad_pointer
  | Undefined_behaviour
  | Would_block
  | Out_of_fuel
  | Out_of_memory

type_synonym ('s, 'a) M = "'s \<Rightarrow> error + 'a \<times> 's"

definition ret :: "'a \<Rightarrow> ('s, 'a) M" where
  "ret x s = Inr (x, s)"

definition fail :: "error \<Rightarrow> ('s, 'a) M" where
  "fail e s = Inl e"

definition bnd :: "('s, 'a) M \<Rightarrow> ('a \<Rightarrow> ('s, 'b) M) \<Rightarrow> ('s, 'b) M" where
  "bnd m f s = (case m s of Inl e \<Rightarrow> Inl e | Inr r \<Rightarrow> f (fst r) (snd r))"

primrec block :: "('s, unit) M list \<Rightarrow> ('s, unit) M" where
  "block [] = ret ()"
| "block (m # ms) = bnd m (\<lambda>_. block ms)"

definition gets :: "('s \<Rightarrow> 'a) \<Rightarrow> ('s, 'a) M" where
  "gets f s = Inr (f s, s)"

definition modify :: "('s \<Rightarrow> 's) \<Rightarrow> ('s, unit) M" where
  "modify f s = Inr ((), f s)"

text \<open>The C macro \<open>assert\<close>, in a build without \<open>NDEBUG\<close>.\<close>

definition assertM :: "bool \<Rightarrow> ('s, unit) M" where
  "assertM b = (if b then ret () else fail Assert_failed)"

definition whenM :: "bool \<Rightarrow> ('s, unit) M \<Rightarrow> ('s, unit) M" where
  "whenM b m = (if b then m else ret ())"

text \<open>A \<open>for\<close> loop over an array, and a loop whose body says whether to leave it: \<open>Inr r\<close>
  leaves with \<open>r\<close>, \<open>Inl x\<close> goes round again with \<open>x\<close>. The first argument bounds the rounds.\<close>

primrec forM :: "'a list \<Rightarrow> ('a \<Rightarrow> ('s, unit) M) \<Rightarrow> ('s, unit) M" where
  "forM [] f = ret ()"
| "forM (x # xs) f = bnd (f x) (\<lambda>_. forM xs f)"

primrec loopM :: "nat \<Rightarrow> ('x \<Rightarrow> ('s, 'x + 'r) M) \<Rightarrow> 'x \<Rightarrow> ('s, 'r) M" where
  "loopM 0 body x = fail Out_of_fuel"
| "loopM (Suc n) body x =
     bnd (body x) (\<lambda>r. case r of Inl y \<Rightarrow> loopM n body y | Inr z \<Rightarrow> ret z)"

lemmas monad_defs = ret_def fail_def bnd_def gets_def modify_def assertM_def whenM_def

lemma bnd_Inr:
  "bnd m f s = Inr r \<longleftrightarrow> (\<exists>x s1. m s = Inr (x, s1) \<and> f x s1 = Inr r)"
  by (auto simp: bnd_def split: sum.splits)

lemma ret_Inr [simp]: "ret x s = Inr r \<longleftrightarrow> r = (x, s)"
  by (auto simp: ret_def)

lemma fail_Inr [simp]: "fail e s \<noteq> Inr r"
  by (simp add: fail_def)

lemma gets_Inr [simp]: "gets f s = Inr r \<longleftrightarrow> r = (f s, s)"
  by (auto simp: gets_def)

lemma modify_Inr [simp]: "modify f s = Inr r \<longleftrightarrow> r = ((), f s)"
  by (auto simp: modify_def)

lemma assertM_Inr [simp]: "assertM b s = Inr r \<longleftrightarrow> b \<and> r = ((), s)"
  by (auto simp: assertM_def)

lemma whenM_Inr [simp]:
  "whenM b m s = Inr r \<longleftrightarrow> (if b then m s = Inr r else r = ((), s))"
  by (auto simp: whenM_def)

lemma bnd_Inr_step: "m s = Inr (x, s1) \<Longrightarrow> bnd m f s = f x s1"
  by (simp add: bnd_def)

lemma bnd_ret [simp]: "bnd (ret x) f = f x"
  by (rule ext) (simp add: bnd_def ret_def)

lemma bnd_gets: "bnd (gets g) f s = f (g s) s"
  by (simp add: bnd_def gets_def)

lemma bnd_assoc: "bnd (bnd m f) g = bnd m (\<lambda>x. bnd (f x) g)"
  by (rule ext) (auto simp: bnd_def split: sum.splits)

section \<open>Fuel\<close>

text \<open>More fuel never changes the outcome of a loop that ended.\<close>

lemma loopM_mono:
  assumes "loopM n body x s = Inr r"
  shows "loopM (n + k) body x s = Inr r"
  using assms
proof (induction n arbitrary: x s)
  case 0
  then show ?case by simp
next
  case (Suc n)
  from Suc.prems obtain y s1 where
    body: "body x s = Inr (y, s1)" and
    rest: "(case y of Inl z \<Rightarrow> loopM n body z | Inr z \<Rightarrow> ret z) s1 = Inr r"
    by (auto simp: bnd_Inr)
  show ?case
  proof (cases y)
    case (Inl z)
    with rest have "loopM (n + k) body z s1 = Inr r" by (auto intro: Suc.IH)
    with body Inl show ?thesis by (simp add: bnd_def)
  next
    case (Inr z)
    with body rest show ?thesis by (simp add: bnd_def)
  qed
qed

text \<open>A loop ends within its fuel when a natural number falls in every further round.\<close>

lemma loopM_ends:
  assumes step: "\<And>x s. I x s \<Longrightarrow> \<exists>y s1. body x s = Inr (y, s1) \<and>
      (case y of Inl z \<Rightarrow> I z s1 \<and> \<mu> z s1 < \<mu> x s | Inr r \<Rightarrow> Q r s1)"
    and "I x s" and "\<mu> x s < n"
  shows "\<exists>r s'. loopM n body x s = Inr (r, s') \<and> Q r s'"
  using assms(2,3)
proof (induction n arbitrary: x s)
  case 0
  then show ?case by simp
next
  case (Suc n)
  from step [OF Suc.prems(1)] obtain y s1 where
    body: "body x s = Inr (y, s1)" and
    y: "case y of Inl z \<Rightarrow> I z s1 \<and> \<mu> z s1 < \<mu> x s | Inr r \<Rightarrow> Q r s1"
    by blast
  show ?case
  proof (cases y)
    case (Inl z)
    with y Suc.prems(2) have "I z s1" and "\<mu> z s1 < n" by auto
    from Suc.IH [OF this] body Inl show ?thesis by (simp add: bnd_def)
  next
    case (Inr r)
    with y body show ?thesis by (simp add: bnd_def ret_def)
  qed
qed

section \<open>Hoare triples and frames\<close>

text \<open>Partial correctness: what holds after the run, if the run produces a result.\<close>

definition hoare :: "('s \<Rightarrow> bool) \<Rightarrow> ('s, 'a) M \<Rightarrow> ('a \<Rightarrow> 's \<Rightarrow> bool) \<Rightarrow> bool" where
  "hoare P m Q \<longleftrightarrow> (\<forall>s x s'. P s \<longrightarrow> m s = Inr (x, s') \<longrightarrow> Q x s')"

lemma hoareI: "(\<And>s x s'. P s \<Longrightarrow> m s = Inr (x, s') \<Longrightarrow> Q x s') \<Longrightarrow> hoare P m Q"
  by (auto simp: hoare_def)

lemma hoareD: "hoare P m Q \<Longrightarrow> P s \<Longrightarrow> m s = Inr (x, s') \<Longrightarrow> Q x s'"
  by (auto simp: hoare_def)

lemma hoare_pre: "hoare P' m Q \<Longrightarrow> (\<And>s. P s \<Longrightarrow> P' s) \<Longrightarrow> hoare P m Q"
  by (auto simp: hoare_def)

lemma hoare_post: "hoare P m Q' \<Longrightarrow> (\<And>x s. Q' x s \<Longrightarrow> Q x s) \<Longrightarrow> hoare P m Q"
  by (auto simp: hoare_def)

lemma hoare_bnd:
  "hoare P m R \<Longrightarrow> (\<And>x. hoare (R x) (f x) Q) \<Longrightarrow> hoare P (bnd m f) Q"
  by (fastforce simp: hoare_def bnd_Inr)

lemma hoare_ret: "(\<And>s. P s \<Longrightarrow> Q x s) \<Longrightarrow> hoare P (ret x) Q"
  by (auto simp: hoare_def)

lemma hoare_fail: "hoare P (fail e) Q"
  by (auto simp: hoare_def)

lemma hoare_if:
  "(b \<Longrightarrow> hoare P m Q) \<Longrightarrow> (\<not> b \<Longrightarrow> hoare P m' Q) \<Longrightarrow> hoare P (if b then m else m') Q"
  by auto

lemma hoare_forM:
  "(\<And>x. x \<in> set xs \<Longrightarrow> hoare P (f x) (\<lambda>_. P)) \<Longrightarrow> hoare P (forM xs f) (\<lambda>_. P)"
  by (induction xs) (auto intro: hoare_ret intro!: hoare_bnd [where R = "\<lambda>_. P"])

lemma hoare_loopM:
  assumes "\<And>x. hoare (I x) (body x) (\<lambda>y s. case y of Inl z \<Rightarrow> I z s | Inr r \<Rightarrow> Q r s)"
  shows "hoare (I x) (loopM n body x) Q"
proof (induction n arbitrary: x)
  case 0
  show ?case by (simp add: hoare_fail)
next
  case (Suc n)
  show ?case
    unfolding loopM.simps
    by (rule hoare_bnd [OF assms], rule hoareI)
       (auto split: sum.splits dest: hoareD [OF Suc.IH])
qed

text \<open>\<open>keeps f m\<close>: whatever \<open>m\<close> does, the part \<open>f\<close> of the state is as before.\<close>

definition keeps :: "('s \<Rightarrow> 'v) \<Rightarrow> ('s, 'a) M \<Rightarrow> bool" where
  "keeps f m \<longleftrightarrow> (\<forall>s x s'. m s = Inr (x, s') \<longrightarrow> f s' = f s)"

lemma keepsI: "(\<And>s x s'. m s = Inr (x, s') \<Longrightarrow> f s' = f s) \<Longrightarrow> keeps f m"
  by (auto simp: keeps_def)

lemma keepsD: "keeps f m \<Longrightarrow> m s = Inr (x, s') \<Longrightarrow> f s' = f s"
  by (auto simp: keeps_def)

lemma keeps_ret [keeps_intros]: "keeps f (ret x)"
  and keeps_fail [keeps_intros]: "keeps f (fail e)"
  and keeps_gets [keeps_intros]: "keeps f (gets g)"
  and keeps_assertM [keeps_intros]: "keeps f (assertM b)"
  by (auto simp: keeps_def)

lemma keeps_modify: "(\<And>s. f (g s) = f s) \<Longrightarrow> keeps f (modify g)"
  by (auto simp: keeps_def)

lemma keeps_bnd [keeps_intros]: "keeps f m \<Longrightarrow> (\<And>x. keeps f (g x)) \<Longrightarrow> keeps f (bnd m g)"
  by (fastforce simp: keeps_def bnd_Inr)

lemma keeps_if [keeps_intros]: "(b \<Longrightarrow> keeps f m) \<Longrightarrow> (\<not> b \<Longrightarrow> keeps f m') \<Longrightarrow> keeps f (if b then m else m')"
  by auto

lemma keeps_whenM [keeps_intros]: "(b \<Longrightarrow> keeps f m) \<Longrightarrow> keeps f (whenM b m)"
  by (auto simp: whenM_def intro: keeps_ret)

lemma keeps_block_Nil [keeps_intros]: "keeps f (block [])"
  and keeps_block_Cons [keeps_intros]: "keeps f m \<Longrightarrow> keeps f (block ms) \<Longrightarrow> keeps f (block (m # ms))"
  by (auto intro: keeps_intros)

lemma keeps_forM [keeps_intros]: "(\<And>x. keeps f (g x)) \<Longrightarrow> keeps f (forM xs g)"
  by (induction xs) (auto intro: keeps_intros)

lemma keeps_case_sum [keeps_intros]:
  "(\<And>y. x = Inl y \<Longrightarrow> keeps f (g y)) \<Longrightarrow> (\<And>y. x = Inr y \<Longrightarrow> keeps f (h y)) \<Longrightarrow>
   keeps f (case x of Inl y \<Rightarrow> g y | Inr y \<Rightarrow> h y)"
  by (auto split: sum.splits)

lemma keeps_case_option [keeps_intros]:
  "(x = None \<Longrightarrow> keeps f g) \<Longrightarrow> (\<And>y. x = Some y \<Longrightarrow> keeps f (h y)) \<Longrightarrow>
   keeps f (case x of None \<Rightarrow> g | Some y \<Rightarrow> h y)"
  by (auto split: option.splits)

lemma keeps_case_prod [keeps_intros]:
  "(\<And>a b. x = (a, b) \<Longrightarrow> keeps f (g a b)) \<Longrightarrow> keeps f (case x of (a, b) \<Rightarrow> g a b)"
  by (auto split: prod.splits)

lemma keeps_case_list [keeps_intros]:
  "(x = [] \<Longrightarrow> keeps f g) \<Longrightarrow> (\<And>y ys. x = y # ys \<Longrightarrow> keeps f (h y ys)) \<Longrightarrow>
   keeps f (case x of [] \<Rightarrow> g | y # ys \<Rightarrow> h y ys)"
  by (auto split: list.splits)

lemma keeps_loopM [keeps_intros]:
  assumes "\<And>x. keeps f (body x)"
  shows "keeps f (loopM n body x)"
proof (induction n arbitrary: x)
  case 0
  show ?case by (simp add: keeps_fail)
next
  case (Suc n)
  show ?case
    unfolding loopM.simps by (intro keeps_intros assms Suc.IH)
qed

lemma keeps_hoare: "keeps f m \<Longrightarrow> hoare (\<lambda>s. P (f s)) m (\<lambda>_ s. P (f s))"
  by (auto simp: keeps_def hoare_def)

lemma hoare_keeps: "(\<And>v. hoare (\<lambda>s. f s = v) m (\<lambda>_ s. f s = v)) \<Longrightarrow> keeps f m"
  unfolding keeps_def hoare_def by blast

section \<open>Allocation outcomes\<close>

text \<open>
  The allocator of the C library is outside the repository. What the code relies on is that each
  call either gives a fresh block or fails. A schedule lists the outcomes of the coming
  calls (\<open>True\<close>: a block); once it is used up every call succeeds.
\<close>

type_synonym mem_schedule = "bool list"

fun draw :: "mem_schedule \<Rightarrow> bool \<times> mem_schedule" where
  "draw [] = (True, [])"
| "draw (b # bs) = (b, bs)"

definition draw_block :: "(mem_schedule, bool) M" where
  "draw_block s = Inr (draw s)"

lemma draw_block_Nil [simp]: "draw_block [] = Inr (True, [])"
  by (simp add: draw_block_def)

text \<open>Running an operation of a part of the state inside the whole state.\<close>

definition zoom :: "('s \<Rightarrow> 't) \<Rightarrow> ('t \<Rightarrow> 's \<Rightarrow> 's) \<Rightarrow> ('t, 'a) M \<Rightarrow> ('s, 'a) M" where
  "zoom g p m s = (case m (g s) of Inl e \<Rightarrow> Inl e | Inr r \<Rightarrow> Inr (fst r, p (snd r) s))"

lemma zoom_Inr:
  "zoom g p m s = Inr r \<longleftrightarrow> (\<exists>x t. m (g s) = Inr (x, t) \<and> r = (x, p t s))"
  by (auto simp: zoom_def split: sum.splits)

section \<open>Lists\<close>

lemma concat_split_at:
  assumes "i < length xss"
  shows "concat xss = concat (take i xss) @ xss ! i @ concat (drop (Suc i) xss)"
proof -
  have "concat xss = concat (take i xss @ xss ! i # drop (Suc i) xss)"
    using assms by (simp add: id_take_nth_drop [symmetric])
  then show ?thesis by simp
qed

lemma concat_list_update:
  assumes "i < length xss"
  shows "concat (xss[i := ys]) = concat (take i xss) @ ys @ concat (drop (Suc i) xss)"
  using assms concat_split_at [of i "xss[i := ys]"] by simp

lemma length_concat_update:
  assumes "i < length xss"
  shows "length (concat (xss[i := ys])) + length (xss ! i) = length (concat xss) + length ys"
  using concat_split_at [OF assms] concat_list_update [OF assms, of ys] by simp

text \<open>An association list in buckets: only the bucket a key belongs to matters for it.\<close>

lemma map_of_concat_at:
  assumes "i < length xss"
    and "\<And>j. j < length xss \<Longrightarrow> j \<noteq> i \<Longrightarrow> k \<notin> fst ` set (xss ! j)"
  shows "map_of (concat xss) k = map_of (xss ! i) k"
proof -
  have before: "k \<notin> fst ` set (concat (take i xss))"
  proof
    assume "k \<in> fst ` set (concat (take i xss))"
    then obtain xs where "xs \<in> set (take i xss)" and k: "k \<in> fst ` set xs" by auto
    then obtain j where "j < i" and "xs = xss ! j" by (auto simp: in_set_conv_nth)
    with k assms show False by auto
  qed
  have after: "k \<notin> fst ` set (concat (drop (Suc i) xss))"
  proof
    assume "k \<in> fst ` set (concat (drop (Suc i) xss))"
    then obtain xs where "xs \<in> set (drop (Suc i) xss)" and k: "k \<in> fst ` set xs" by auto
    then obtain j where "j < length (drop (Suc i) xss)" and "xs = drop (Suc i) xss ! j"
      by (metis in_set_conv_nth)
    then have "Suc i + j < length xss" and "xs = xss ! (Suc i + j)" by auto
    with k assms show False by auto
  qed
  have b: "map_of (concat (take i xss)) k = None" and a: "map_of (concat (drop (Suc i) xss)) k = None"
    using before after by (simp_all add: map_of_eq_None_iff)
  show ?thesis
    by (subst concat_split_at [OF assms(1)]) (simp add: map_add_def a b split: option.splits)
qed

lemma map_of_filter_neq:
  "map_of (filter (\<lambda>e. fst e \<noteq> k) xs) = (map_of xs)(k := None)"
  by (induction xs) auto

end
