(* ===== verification/Hashtable.thy ===== *)
theory Hashtable
  imports Prelude
begin

text \<open>
  The hash table of Collections-C (lib/collectc/hashtable.c), with separate chaining, which each
  managed object uses to map a field offset to the link stored there. A bucket is the chain of
  its entries from the first to the last. The status codes are those of lib/collectc/common.h.

  After the operations: the invariant \<open>ht_inv\<close> (every entry sits in the bucket its hash selects,
  no key twice, the size is the number of entries), the map \<open>ht_map\<close> a table stands for, and
  the refinement of each operation to the map. The locale \<open>link_table\<close> states what the object
  model relies on; it is interpreted on the operations themselves.
\<close>

section \<open>Status codes and comparison\<close>

datatype cc_stat =
    CC_OK
  | CC_ERR_ALLOC
  | CC_ERR_INVALID_CAPACITY
  | CC_ERR_INVALID_RANGE
  | CC_ERR_MAX_CAPACITY
  | CC_ERR_KEY_NOT_FOUND
  | CC_ERR_VALUE_NOT_FOUND
  | CC_ERR_OUT_OF_RANGE
  | CC_ITER_END

type_synonym key = "64 word"

definition cc_common_cmp_ptr :: "key \<Rightarrow> key \<Rightarrow> int" where
  "cc_common_cmp_ptr ptr1 ptr2 = (if ptr1 < ptr2 then -1 else if ptr1 > ptr2 then 1 else 0)"

section \<open>The table\<close>

record 'v table_entry =
  te_key :: key
  te_value :: 'v
  te_hash :: "64 word"

type_synonym hash_fn = "key \<Rightarrow> int \<Rightarrow> 32 word \<Rightarrow> 64 word"

text \<open>The load factor is a \<open>float\<close>; 0.75 is kept as the fraction \<open>(3, 4)\<close>, which is its exact
  value. A function pointer that may be NULL is an \<open>option\<close>.\<close>

record hashtable_conf =
  conf_load_factor :: "nat \<times> nat"
  conf_initial_capacity :: "64 word"
  conf_key_length :: int
  conf_hash_seed :: "32 word"
  conf_hash :: "hash_fn option"
  conf_key_compare :: "key \<Rightarrow> key \<Rightarrow> int"

record 'v hashtable =
  ht_capacity :: "64 word"
  ht_size :: nat
  ht_threshold :: nat
  ht_hash_seed :: "32 word"
  ht_key_len :: int
  ht_load_factor :: "nat \<times> nat"
  ht_buckets :: "'v table_entry list list"
  ht_hash :: "hash_fn option"
  ht_key_cmp :: "key \<Rightarrow> key \<Rightarrow> int"

definition DEFAULT_CAPACITY :: "64 word" where
  "DEFAULT_CAPACITY = 16"

definition DEFAULT_LOAD_FACTOR :: "nat \<times> nat" where
  "DEFAULT_LOAD_FACTOR = (3, 4)"

definition KEY_LENGTH_VARIABLE :: int where
  "KEY_LENGTH_VARIABLE = -1"

text \<open>\<open>ARCH_64\<close> is defined nowhere in the build, so the limit is the 32-bit one.\<close>

definition MAX_POW_TWO :: "64 word" where
  "MAX_POW_TWO = push_bit 31 1"

definition load_threshold :: "64 word \<Rightarrow> nat \<times> nat \<Rightarrow> nat" where
  "load_threshold cap lf = unat cap * fst lf div snd lf"

text \<open>The default key comparison is a string comparison, which is a parameter here.\<close>

definition hashtable_conf_init :: "(key \<Rightarrow> key \<Rightarrow> int) \<Rightarrow> hashtable_conf" where
  "hashtable_conf_init cc_common_cmp_str =
     \<lparr>conf_load_factor = DEFAULT_LOAD_FACTOR,
      conf_initial_capacity = DEFAULT_CAPACITY,
      conf_key_length = KEY_LENGTH_VARIABLE,
      conf_hash_seed = 0,
      conf_hash = None,
      conf_key_compare = cc_common_cmp_str\<rparr>"

definition round_pow_two :: "64 word \<Rightarrow> 64 word" where
  "round_pow_two n0 =
     (if n0 \<ge> MAX_POW_TWO then MAX_POW_TWO
      else if n0 = 0 then 2
      else
        let n = n0 - 1;
            n = n OR drop_bit 1 n;
            n = n OR drop_bit 2 n;
            n = n OR drop_bit 4 n;
            n = n OR drop_bit 8 n;
            n = n OR drop_bit 16 n
        in n + 1)"

definition hashtable_new_conf ::
  "hashtable_conf \<Rightarrow> (mem_schedule, cc_stat \<times> 'v hashtable option) M" where
  "hashtable_new_conf conf =
     bnd draw_block (\<lambda>table_ok.
     if \<not> table_ok then ret (CC_ERR_ALLOC, None) else
     let cap = round_pow_two (conf_initial_capacity conf) in
     bnd draw_block (\<lambda>buckets_ok.
     if \<not> buckets_ok then ret (CC_ERR_ALLOC, None) else
     ret (CC_OK, Some
       \<lparr>ht_capacity = cap,
        ht_size = 0,
        ht_threshold = load_threshold cap (conf_load_factor conf),
        ht_hash_seed = conf_hash_seed conf,
        ht_key_len = conf_key_length conf,
        ht_load_factor = conf_load_factor conf,
        ht_buckets = replicate (unat cap) [],
        ht_hash = conf_hash conf,
        ht_key_cmp = conf_key_compare conf\<rparr>)))"

definition hashtable_new ::
  "(key \<Rightarrow> key \<Rightarrow> int) \<Rightarrow> (mem_schedule, cc_stat \<times> 'v hashtable option) M" where
  "hashtable_new cc_common_cmp_str = hashtable_new_conf (hashtable_conf_init cc_common_cmp_str)"

section \<open>Buckets\<close>

definition call_hash :: "'v hashtable \<Rightarrow> key \<Rightarrow> ('s, 64 word) M" where
  "call_hash t k =
     (case ht_hash t of
        None \<Rightarrow> fail Bad_pointer
      | Some h \<Rightarrow> ret (h k (ht_key_len t) (ht_hash_seed t)))"

definition get_table_index :: "'v hashtable \<Rightarrow> key \<Rightarrow> ('s, nat) M" where
  "get_table_index t k = bnd (call_hash t k) (\<lambda>h. ret (unat (h AND (ht_capacity t - 1))))"

definition bucket_at :: "'v hashtable \<Rightarrow> nat \<Rightarrow> ('s, 'v table_entry list) M" where
  "bucket_at t i =
     (if i < length (ht_buckets t) then ret (ht_buckets t ! i) else fail Undefined_behaviour)"

text \<open>The loops over a chain. \<open>f\<close> decides which entry is meant.\<close>

fun chain_find :: "('v table_entry \<Rightarrow> bool) \<Rightarrow> 'v table_entry list \<Rightarrow> 'v option" where
  "chain_find f [] = None"
| "chain_find f (e # es) = (if f e then Some (te_value e) else chain_find f es)"

fun chain_replace ::
  "('v table_entry \<Rightarrow> bool) \<Rightarrow> 'v \<Rightarrow> 'v table_entry list \<Rightarrow> 'v table_entry list option" where
  "chain_replace f v [] = None"
| "chain_replace f v (e # es) =
     (if f e then Some (e\<lparr>te_value := v\<rparr> # es)
      else map_option ((#) e) (chain_replace f v es))"

fun chain_remove ::
  "('v table_entry \<Rightarrow> bool) \<Rightarrow> 'v table_entry list \<Rightarrow> ('v \<times> 'v table_entry list) option" where
  "chain_remove f [] = None"
| "chain_remove f (e # es) =
     (if f e then Some (te_value e, es)
      else map_option (apsnd ((#) e)) (chain_remove f es))"

definition is_null_key :: "'v table_entry \<Rightarrow> bool" where
  "is_null_key e \<longleftrightarrow> te_key e = 0"

definition is_key :: "'v hashtable \<Rightarrow> key \<Rightarrow> 'v table_entry \<Rightarrow> bool" where
  "is_key t k e \<longleftrightarrow> te_key e \<noteq> 0 \<and> ht_key_cmp t (te_key e) k = 0"

section \<open>Operations\<close>

fun move_chain ::
  "'v table_entry list \<Rightarrow> 'v table_entry list list \<Rightarrow> 64 word \<Rightarrow> 'v table_entry list list" where
  "move_chain [] dest n = dest"
| "move_chain (e # es) dest n =
     (let i = unat (te_hash e AND (n - 1)) in move_chain es (dest[i := e # dest ! i]) n)"

fun move_entries ::
  "'v table_entry list list \<Rightarrow> 'v table_entry list list \<Rightarrow> 64 word \<Rightarrow> 'v table_entry list list" where
  "move_entries [] dest n = dest"
| "move_entries (b # bs) dest n = move_entries bs (move_chain b dest n) n"

definition ht_resize ::
  "'v hashtable \<Rightarrow> 64 word \<Rightarrow> (mem_schedule, cc_stat \<times> 'v hashtable) M" where
  "ht_resize t new_capacity =
     (if ht_capacity t = MAX_POW_TWO then ret (CC_ERR_MAX_CAPACITY, t) else
      bnd draw_block (\<lambda>ok.
      if \<not> ok then ret (CC_ERR_ALLOC, t) else
      ret (CC_OK, t\<lparr>
        ht_buckets := move_entries (ht_buckets t) (replicate (unat new_capacity) []) new_capacity,
        ht_capacity := new_capacity,
        ht_threshold := load_threshold new_capacity (ht_load_factor t)\<rparr>)))"

definition put_new_entry ::
  "'v hashtable \<Rightarrow> nat \<Rightarrow> 'v table_entry \<Rightarrow> (mem_schedule, cc_stat \<times> 'v hashtable) M" where
  "put_new_entry t i e =
     bnd draw_block (\<lambda>ok.
     if \<not> ok then ret (CC_ERR_ALLOC, t) else
     ret (CC_OK, t\<lparr>ht_buckets := (ht_buckets t)[i := e # ht_buckets t ! i],
                    ht_size := ht_size t + 1\<rparr>))"

definition add_null_key ::
  "'v hashtable \<Rightarrow> 'v \<Rightarrow> (mem_schedule, cc_stat \<times> 'v hashtable) M" where
  "add_null_key t v =
     bnd (bucket_at t 0) (\<lambda>b.
     case chain_replace is_null_key v b of
       Some b' \<Rightarrow> ret (CC_OK, t\<lparr>ht_buckets := (ht_buckets t)[0 := b']\<rparr>)
     | None \<Rightarrow> put_new_entry t 0 \<lparr>te_key = 0, te_value = v, te_hash = 0\<rparr>)"

definition grow_if_full :: "'v hashtable \<Rightarrow> (mem_schedule, cc_stat \<times> 'v hashtable) M" where
  "grow_if_full t =
     (if ht_size t \<ge> ht_threshold t then ht_resize t (push_bit 1 (ht_capacity t))
      else ret (CC_OK, t))"

definition hashtable_add ::
  "'v hashtable \<Rightarrow> key \<Rightarrow> 'v \<Rightarrow> (mem_schedule, cc_stat \<times> 'v hashtable) M" where
  "hashtable_add t0 k v =
     bnd (grow_if_full t0) (\<lambda>(stat, t).
     if stat \<noteq> CC_OK then ret (stat, t) else
     if k = 0 then add_null_key t v else
     bnd (call_hash t k) (\<lambda>h.
     let i = unat (h AND (ht_capacity t - 1)) in
     bnd (bucket_at t i) (\<lambda>b.
     case chain_replace (is_key t k) v b of
       Some b' \<Rightarrow> ret (CC_OK, t\<lparr>ht_buckets := (ht_buckets t)[i := b']\<rparr>)
     | None \<Rightarrow> put_new_entry t i \<lparr>te_key = k, te_value = v, te_hash = h\<rparr>)))"

definition get_null_key :: "'v hashtable \<Rightarrow> ('s, cc_stat \<times> 'v option) M" where
  "get_null_key t =
     bnd (bucket_at t 0) (\<lambda>b.
     case chain_find is_null_key b of
       Some v \<Rightarrow> ret (CC_OK, Some v)
     | None \<Rightarrow> ret (CC_ERR_KEY_NOT_FOUND, None))"

definition hashtable_get :: "'v hashtable \<Rightarrow> key \<Rightarrow> ('s, cc_stat \<times> 'v option) M" where
  "hashtable_get t k =
     (if k = 0 then get_null_key t else
      bnd (get_table_index t k) (\<lambda>i.
      bnd (bucket_at t i) (\<lambda>b.
      case chain_find (is_key t k) b of
        Some v \<Rightarrow> ret (CC_OK, Some v)
      | None \<Rightarrow> ret (CC_ERR_KEY_NOT_FOUND, None))))"

definition take_entry ::
  "'v hashtable \<Rightarrow> nat \<Rightarrow> ('v table_entry \<Rightarrow> bool) \<Rightarrow> ('s, cc_stat \<times> 'v option \<times> 'v hashtable) M" where
  "take_entry t i f =
     bnd (bucket_at t i) (\<lambda>b.
     case chain_remove f b of
       Some (v, b') \<Rightarrow>
         ret (CC_OK, Some v,
              t\<lparr>ht_buckets := (ht_buckets t)[i := b'], ht_size := ht_size t - 1\<rparr>)
     | None \<Rightarrow> ret (CC_ERR_KEY_NOT_FOUND, None, t))"

definition remove_null_key :: "'v hashtable \<Rightarrow> ('s, cc_stat \<times> 'v option \<times> 'v hashtable) M" where
  "remove_null_key t = take_entry t 0 is_null_key"

definition hashtable_remove ::
  "'v hashtable \<Rightarrow> key \<Rightarrow> ('s, cc_stat \<times> 'v option \<times> 'v hashtable) M" where
  "hashtable_remove t k =
     (if k = 0 then remove_null_key t else
      bnd (get_table_index t k) (\<lambda>i.
      take_entry t i (\<lambda>e. te_key e \<noteq> 0 \<and> ht_key_cmp t k (te_key e) = 0)))"

definition hashtable_remove_all :: "'v hashtable \<Rightarrow> 'v hashtable" where
  "hashtable_remove_all t =
     t\<lparr>ht_size := ht_size t - length (concat (ht_buckets t)),
       ht_buckets := map (\<lambda>_. []) (ht_buckets t)\<rparr>"

definition hashtable_size :: "'v hashtable \<Rightarrow> nat" where
  "hashtable_size t = ht_size t"

definition hashtable_capacity :: "'v hashtable \<Rightarrow> 64 word" where
  "hashtable_capacity t = ht_capacity t"

text \<open>Unlike \<open>hashtable_get\<close>, this one hands the NULL key to the hash function.\<close>

definition hashtable_contains_key :: "'v hashtable \<Rightarrow> key \<Rightarrow> ('s, bool) M" where
  "hashtable_contains_key t k =
     bnd (get_table_index t k) (\<lambda>i.
     bnd (bucket_at t i) (\<lambda>b.
     ret (list_ex (\<lambda>e. ht_key_cmp t k (te_key e) = 0) b)))"

section \<open>Iteration\<close>

text \<open>An entry pointer is the entry's bucket and its place in the chain.\<close>

type_synonym entry_ref = "nat \<times> nat"

record ht_iter =
  it_bucket_index :: nat
  it_prev_entry :: "entry_ref option"
  it_next_entry :: "entry_ref option"

definition next_bucket :: "'v hashtable \<Rightarrow> nat \<Rightarrow> nat option" where
  "next_bucket t i = find (\<lambda>j. ht_buckets t ! j \<noteq> []) [i..<unat (ht_capacity t)]"

text \<open>On a table without entries the iterator's fields are never written: \<open>None\<close>.\<close>

definition hashtable_iter_init :: "'v hashtable \<Rightarrow> ht_iter option" where
  "hashtable_iter_init t =
     map_option (\<lambda>i. \<lparr>it_bucket_index = i, it_prev_entry = None, it_next_entry = Some (i, 0)\<rparr>)
       (next_bucket t 0)"

definition hashtable_iter_next ::
  "'v hashtable \<Rightarrow> ht_iter option \<Rightarrow> ('s, cc_stat \<times> entry_ref option \<times> ht_iter option) M" where
  "hashtable_iter_next t iter =
     (case iter of
        None \<Rightarrow> fail Undefined_behaviour
      | Some it \<Rightarrow>
        (case it_next_entry it of
           None \<Rightarrow> ret (CC_ITER_END, None, Some it)
         | Some (b, p) \<Rightarrow>
             if p + 1 < length (ht_buckets t ! b) then
               ret (CC_OK, Some (b, p),
                    Some (it\<lparr>it_prev_entry := Some (b, p), it_next_entry := Some (b, p + 1)\<rparr>))
             else
               (case next_bucket t (it_bucket_index it + 1) of
                  Some i \<Rightarrow>
                    ret (CC_OK, Some (b, p),
                         Some (it\<lparr>it_prev_entry := Some (b, p), it_next_entry := Some (i, 0),
                                  it_bucket_index := i\<rparr>))
                | None \<Rightarrow>
                    ret (CC_OK, Some (b, p),
                         Some (it\<lparr>it_prev_entry := Some (b, p), it_next_entry := None\<rparr>)))))"

text \<open>The macro \<open>HASHTABLE_FOREACH\<close>, as the list of entries its body sees.\<close>

definition foreach_body ::
  "'v hashtable \<Rightarrow> ht_iter option \<times> 'v table_entry list \<Rightarrow>
   ('s, (ht_iter option \<times> 'v table_entry list) + 'v table_entry list) M" where
  "foreach_body t = (\<lambda>(it, seen).
     bnd (hashtable_iter_next t it) (\<lambda>(stat, e, it').
     if stat = CC_ITER_END then ret (Inr seen) else
     case e of
       None \<Rightarrow> fail Undefined_behaviour
     | Some (b, p) \<Rightarrow> ret (Inl (it', seen @ [ht_buckets t ! b ! p]))))"

definition hashtable_foreach :: "'v hashtable \<Rightarrow> ('s, 'v table_entry list) M" where
  "hashtable_foreach t =
     loopM (length (concat (ht_buckets t)) + 1) (foreach_body t) (hashtable_iter_init t, [])"

text \<open>The entry that \<open>hashtable_iter_next\<close> returned last; without one the code reads through NULL.\<close>

definition hashtable_iter_remove ::
  "'v hashtable \<Rightarrow> ht_iter option \<Rightarrow> ('s, cc_stat \<times> 'v option \<times> 'v hashtable) M" where
  "hashtable_iter_remove t iter =
     (case iter of
        None \<Rightarrow> fail Undefined_behaviour
      | Some it \<Rightarrow>
        (case it_prev_entry it of
           None \<Rightarrow> fail Bad_pointer
         | Some (b, p) \<Rightarrow> hashtable_remove t (te_key (ht_buckets t ! b ! p))))"

text \<open>The callbacks may read and write the memory, but not the table.\<close>

definition hashtable_foreach_key :: "'v hashtable \<Rightarrow> (key \<Rightarrow> ('s, unit) M) \<Rightarrow> ('s, unit) M" where
  "hashtable_foreach_key t fn =
     forM [0..<unat (ht_capacity t)] (\<lambda>i.
     bnd (bucket_at t i) (\<lambda>b. forM b (\<lambda>e. fn (te_key e))))"

definition hashtable_foreach_value :: "'v hashtable \<Rightarrow> ('v \<Rightarrow> ('s, unit) M) \<Rightarrow> ('s, unit) M" where
  "hashtable_foreach_value t fn =
     forM [0..<unat (ht_capacity t)] (\<lambda>i.
     bnd (bucket_at t i) (\<lambda>b. forM b (\<lambda>e. fn (te_value e))))"

section \<open>The invariant and the map of a table\<close>

definition key_hash :: "'v hashtable \<Rightarrow> key \<Rightarrow> 64 word" where
  "key_hash t k = (if k = 0 then 0 else the (ht_hash t) k (ht_key_len t) (ht_hash_seed t))"

definition home :: "'v hashtable \<Rightarrow> key \<Rightarrow> nat" where
  "home t k = unat (key_hash t k AND (ht_capacity t - 1))"

definition chain_ok :: "'v hashtable \<Rightarrow> nat \<Rightarrow> 'v table_entry list \<Rightarrow> bool" where
  "chain_ok t i es \<longleftrightarrow>
     (\<forall>e\<in>set es. te_hash e = key_hash t (te_key e) \<and> home t (te_key e) = i) \<and>
     distinct (map te_key es)"

definition ht_inv :: "'v hashtable \<Rightarrow> bool" where
  "ht_inv t \<longleftrightarrow>
     ht_hash t \<noteq> None \<and>
     (\<forall>a b. ht_key_cmp t a b = 0 \<longleftrightarrow> a = b) \<and>
     (\<exists>j\<le>31. ht_capacity t = push_bit j 1) \<and>
     length (ht_buckets t) = unat (ht_capacity t) \<and>
     (\<forall>i<length (ht_buckets t). chain_ok t i (ht_buckets t ! i)) \<and>
     ht_size t = length (concat (ht_buckets t))"

definition te_assoc :: "'v table_entry \<Rightarrow> key \<times> 'v" where
  "te_assoc e = (te_key e, te_value e)"

definition ht_map :: "'v hashtable \<Rightarrow> key \<Rightarrow> 'v option" where
  "ht_map t = map_of (concat (map (map te_assoc) (ht_buckets t)))"

lemma fst_te_assoc [simp]: "fst (te_assoc e) = te_key e"
  and map_fst_te_assoc [simp]: "map (fst \<circ> te_assoc) es = map te_key es"
  by (simp_all add: te_assoc_def)

lemma push_bit_1_nonzero: "j \<le> 31 \<Longrightarrow> push_bit j (1 :: 64 word) \<noteq> 0"
  by (simp add: push_bit_eq_mult word_neq_0_conv [symmetric])

lemma ht_inv_capacity: "ht_inv t \<Longrightarrow> ht_capacity t \<noteq> 0"
  by (auto simp: ht_inv_def push_bit_1_nonzero)

lemma and_mask_less:
  fixes x n :: "64 word"
  assumes "n \<noteq> 0"
  shows "unat (x AND (n - 1)) < unat n"
proof -
  have "unat (x AND (n - 1)) \<le> unat (n - 1)"
    using word_and_le1 [of x "n - 1"] by (simp add: word_le_nat_alt)
  also have "\<dots> = unat n - 1" using assms by (simp add: unat_minus_one)
  also have "\<dots> < unat n" using assms by (simp add: unat_gt_0)
  finally show ?thesis .
qed

lemma home_less:
  assumes "ht_inv t"
  shows "home t k < length (ht_buckets t)"
proof -
  have "length (ht_buckets t) = unat (ht_capacity t)" using assms by (simp add: ht_inv_def)
  then show ?thesis
    unfolding home_def using and_mask_less [OF ht_inv_capacity [OF assms]] by metis
qed

lemma ht_inv_chain: "ht_inv t \<Longrightarrow> i < length (ht_buckets t) \<Longrightarrow> chain_ok t i (ht_buckets t ! i)"
  by (simp add: ht_inv_def)

text \<open>A key is found, if at all, in its home bucket.\<close>

lemma map_of_home:
  assumes "\<forall>i<length bs. chain_ok t i (bs ! i)" and "home t k < length bs"
  shows "map_of (concat (map (map te_assoc) bs)) k = map_of (map te_assoc (bs ! home t k)) k"
proof -
  have "map_of (concat (map (map te_assoc) bs)) k = map_of (map (map te_assoc) bs ! home t k) k"
  proof (rule map_of_concat_at)
    show "home t k < length (map (map te_assoc) bs)" using assms(2) by simp
  next
    fix j assume j: "j < length (map (map te_assoc) bs)" "j \<noteq> home t k"
    then have "chain_ok t j (bs ! j)" using assms(1) by simp
    with j show "k \<notin> fst ` set (map (map te_assoc) bs ! j)" by (auto simp: chain_ok_def)
  qed
  then show ?thesis using assms(2) by simp
qed

lemma ht_map_home: "ht_inv t \<Longrightarrow> ht_map t k = map_of (map te_assoc (ht_buckets t ! home t k)) k"
  unfolding ht_map_def by (rule map_of_home) (auto intro: ht_inv_chain home_less)

lemma ht_map_None_iff: "ht_map t k = None \<longleftrightarrow> (\<forall>e\<in>set (concat (ht_buckets t)). te_key e \<noteq> k)"
  by (auto simp: ht_map_def map_of_eq_None_iff te_assoc_def image_iff)

subsection \<open>Chains\<close>

lemma chain_find_map:
  "(\<And>e. e \<in> set es \<Longrightarrow> f e \<longleftrightarrow> te_key e = k) \<Longrightarrow> chain_find f es = map_of (map te_assoc es) k"
  by (induction es) (auto simp: te_assoc_def)

lemma chain_replace_None:
  "chain_replace f v es = None \<longleftrightarrow> (\<forall>e\<in>set es. \<not> f e)"
  by (induction es) auto

lemma chain_replace_Some:
  assumes "chain_replace f v es = Some es'" and "\<And>e. e \<in> set es \<Longrightarrow> f e \<longleftrightarrow> te_key e = k"
  shows "map te_key es' = map te_key es \<and> map te_hash es' = map te_hash es \<and>
    map_of (map te_assoc es') = (map_of (map te_assoc es))(k \<mapsto> v)"
  using assms
proof (induction es arbitrary: es')
  case Nil
  then show ?case by simp
next
  case (Cons e es)
  show ?case
  proof (cases "f e")
    case True
    with Cons.prems show ?thesis by (auto simp: te_assoc_def)
  next
    case False
    with Cons.prems obtain es1 where es1: "chain_replace f v es = Some es1" "es' = e # es1"
      by auto
    have "te_key e \<noteq> k" using False Cons.prems(2) by auto
    with Cons.IH [OF es1(1)] Cons.prems(2) es1(2) show ?thesis
      by (auto simp: te_assoc_def fun_upd_twist)
  qed
qed

lemma chain_remove_None: "chain_remove f es = None \<longleftrightarrow> (\<forall>e\<in>set es. \<not> f e)"
  by (induction es) auto

lemma chain_remove_Some:
  assumes "chain_remove f es = Some (v, es')" and "\<And>e. e \<in> set es \<Longrightarrow> f e \<longleftrightarrow> te_key e = k"
    and "distinct (map te_key es)"
  shows "map_of (map te_assoc es) k = Some v \<and> es' = filter (\<lambda>e. te_key e \<noteq> k) es \<and>
    length es = Suc (length es')"
  using assms
proof (induction es arbitrary: es')
  case Nil
  then show ?case by simp
next
  case (Cons e es)
  show ?case
  proof (cases "f e")
    case True
    then have k: "te_key e = k" using Cons.prems(2) by simp
    moreover have "filter (\<lambda>e. te_key e \<noteq> k) es = es"
      using Cons.prems(3) k by (auto simp: filter_id_conv image_iff)
    ultimately show ?thesis using Cons.prems True by (auto simp: te_assoc_def)
  next
    case False
    with Cons.prems obtain es1 where es1: "chain_remove f es = Some (v, es1)" "es' = e # es1"
      by (auto simp: apsnd_def map_prod_def split: prod.splits)
    have "te_key e \<noteq> k" using False Cons.prems(2) by auto
    with Cons.IH [OF es1(1)] Cons.prems(2,3) es1(2) show ?thesis by (auto simp: te_assoc_def)
  qed
qed

lemma map_of_filter_key:
  "map_of (map te_assoc (filter (\<lambda>e. te_key e \<noteq> k) es)) = (map_of (map te_assoc es))(k := None)"
  by (induction es) (auto simp: te_assoc_def)

lemma is_null_key_iff: "is_null_key e \<longleftrightarrow> te_key e = 0"
  by (simp add: is_null_key_def)

lemma is_key_iff: "ht_inv t \<Longrightarrow> k \<noteq> 0 \<Longrightarrow> is_key t k e \<longleftrightarrow> te_key e = k"
  by (auto simp: is_key_def ht_inv_def)

subsection \<open>Writing one bucket\<close>

definition with_bucket :: "'v hashtable \<Rightarrow> nat \<Rightarrow> 'v table_entry list \<Rightarrow> nat \<Rightarrow> 'v hashtable" where
  "with_bucket t i es n = t\<lparr>ht_buckets := (ht_buckets t)[i := es], ht_size := n\<rparr>"

lemma key_hash_with_bucket [simp]: "key_hash (with_bucket t i es n) = key_hash t"
  by (rule ext) (simp add: key_hash_def with_bucket_def)

lemma home_with_bucket [simp]: "home (with_bucket t i es n) = home t"
  by (rule ext) (simp add: home_def, simp add: with_bucket_def)

lemma chain_ok_with_bucket [simp]: "chain_ok (with_bucket t i es n) = chain_ok t"
  by (intro ext) (simp add: chain_ok_def)

lemma with_bucket_inv:
  assumes "ht_inv t" and "i < length (ht_buckets t)" and "chain_ok t i es"
    and "n + length (ht_buckets t ! i) = ht_size t + length es"
  shows "ht_inv (with_bucket t i es n)"
proof -
  have len: "n = length (concat ((ht_buckets t)[i := es]))"
    using length_concat_update [OF assms(2), of es] assms(1,4) by (simp add: ht_inv_def)
  have "\<forall>j<length ((ht_buckets t)[i := es]). chain_ok t j ((ht_buckets t)[i := es] ! j)"
    using assms by (auto simp: ht_inv_def nth_list_update)
  then show ?thesis
    using assms(1) chain_ok_with_bucket [of t i es n] len by (simp add: ht_inv_def, simp add: with_bucket_def)
qed

lemma with_bucket_map:
  assumes "ht_inv t" and "i < length (ht_buckets t)" and "chain_ok t i es"
  shows "ht_map (with_bucket t i es n) k =
    (if home t k = i then map_of (map te_assoc es) k else ht_map t k)"
proof -
  have "\<forall>j<length ((ht_buckets t)[i := es]). chain_ok t j ((ht_buckets t)[i := es] ! j)"
    using assms by (auto simp: ht_inv_def nth_list_update)
  from map_of_home [OF this, of k] home_less [OF assms(1), of k]
  have "ht_map (with_bucket t i es n) k =
      map_of (map te_assoc ((ht_buckets t)[i := es] ! home t k)) k"
    by (simp add: ht_map_def with_bucket_def)
  then show ?thesis
    using assms(1,2) by (auto simp: nth_list_update ht_map_home)
qed

section \<open>Refinement to the map\<close>

lemma call_hash_ok: "ht_inv t \<Longrightarrow> k \<noteq> 0 \<Longrightarrow> call_hash t k = ret (key_hash t k)"
  by (auto simp: call_hash_def key_hash_def ht_inv_def)

lemma bucket_at_ok: "i < length (ht_buckets t) \<Longrightarrow> bucket_at t i = ret (ht_buckets t ! i)"
  by (simp add: bucket_at_def)

lemma get_table_index_ok: "ht_inv t \<Longrightarrow> k \<noteq> 0 \<Longrightarrow> get_table_index t k = ret (home t k)"
  by (simp add: get_table_index_def call_hash_ok home_def)

lemma home_0: "home t 0 = 0"
  by (simp add: home_def key_hash_def)

definition get_result :: "'v option \<Rightarrow> cc_stat \<times> 'v option" where
  "get_result r = (case r of Some v \<Rightarrow> (CC_OK, Some v) | None \<Rightarrow> (CC_ERR_KEY_NOT_FOUND, None))"

lemma hashtable_get_map:
  assumes "ht_inv t"
  shows "hashtable_get t k = ret (get_result (ht_map t k))"
proof (cases "k = 0")
  case True
  have "chain_find is_null_key (ht_buckets t ! 0) = ht_map t 0"
    using ht_map_home [OF assms, of 0]
    by (simp add: home_0 chain_find_map [where k = 0] is_null_key_iff)
  then show ?thesis
    using home_less [OF assms, of 0] True
    by (auto simp: hashtable_get_def get_null_key_def bucket_at_ok home_0 get_result_def
        split: option.splits)
next
  case False
  have "chain_find (is_key t k) (ht_buckets t ! home t k) = ht_map t k"
    using ht_map_home [OF assms, of k] is_key_iff [OF assms False]
    by (simp add: chain_find_map [where k = k])
  then show ?thesis
    using home_less [OF assms, of k] False
    by (auto simp: hashtable_get_def get_table_index_ok [OF assms] bucket_at_ok get_result_def
        split: option.splits)
qed

text \<open>What writing a value for \<open>k\<close> into its home bucket does.\<close>

lemma replace_in_home:
  assumes inv: "ht_inv t" and f: "\<And>e. f e \<longleftrightarrow> te_key e = k"
    and es': "chain_replace f v (ht_buckets t ! home t k) = Some es'"
  shows "ht_inv (t\<lparr>ht_buckets := (ht_buckets t)[home t k := es']\<rparr>) \<and>
    ht_map (t\<lparr>ht_buckets := (ht_buckets t)[home t k := es']\<rparr>) = (ht_map t)(k \<mapsto> v)"
proof -
  let ?i = "home t k"
  have i: "?i < length (ht_buckets t)" by (rule home_less [OF inv])
  have c: "chain_ok t ?i (ht_buckets t ! ?i)" by (rule ht_inv_chain [OF inv i])
  note r = chain_replace_Some [OF es' f]
  have len: "length es' = length (ht_buckets t ! ?i)" using r by (metis length_map)
  have "chain_ok t ?i es'"
    unfolding chain_ok_def
  proof (intro conjI ballI)
    fix e assume "e \<in> set es'"
    then obtain j where j: "j < length es'" "e = es' ! j" by (metis in_set_conv_nth)
    define e0 where "e0 = ht_buckets t ! ?i ! j"
    have "te_key e = te_key e0" "te_hash e = te_hash e0" "e0 \<in> set (ht_buckets t ! ?i)"
      using r j len by (metis nth_map e0_def) (metis r j len nth_map e0_def, simp add: e0_def j len [symmetric])
    with c show "te_hash e = key_hash t (te_key e)" "home t (te_key e) = ?i"
      by (auto simp: chain_ok_def)
  next
    show "distinct (map te_key es')" using c r by (simp add: chain_ok_def)
  qed
  moreover have "t\<lparr>ht_buckets := (ht_buckets t)[?i := es']\<rparr> = with_bucket t ?i es' (ht_size t)"
    by (simp add: with_bucket_def)
  ultimately show ?thesis
    using with_bucket_inv [OF inv i, of es' "ht_size t"] with_bucket_map [OF inv i, of es' "ht_size t"]
      r ht_map_home [OF inv] len by (auto simp: fun_eq_iff)
qed

lemma insert_in_home:
  fixes t :: "'v hashtable" and v :: 'v
  assumes inv: "ht_inv t" and new: "\<forall>e\<in>set (ht_buckets t ! home t k). te_key e \<noteq> k"
  defines "t' \<equiv> t\<lparr>ht_buckets := (ht_buckets t)[home t k :=
      \<lparr>te_key = k, te_value = v, te_hash = key_hash t k\<rparr> # ht_buckets t ! home t k],
      ht_size := ht_size t + 1\<rparr>"
  shows "ht_inv t' \<and> ht_map t' = (ht_map t)(k \<mapsto> v)"
proof -
  let ?i = "home t k"
  let ?es = "\<lparr>te_key = k, te_value = v, te_hash = key_hash t k\<rparr> # ht_buckets t ! ?i"
  have i: "?i < length (ht_buckets t)" by (rule home_less [OF inv])
  have c: "chain_ok t ?i ?es"
    using ht_inv_chain [OF inv i] new by (auto simp: chain_ok_def)
  have t': "t' = with_bucket t ?i ?es (ht_size t + 1)"
    by (simp add: t'_def with_bucket_def)
  show ?thesis
    unfolding t'
    using with_bucket_inv [OF inv i c] with_bucket_map [OF inv i c] ht_map_home [OF inv]
    by (auto simp: fun_eq_iff te_assoc_def)
qed

lemma remove_in_home:
  fixes t :: "'v hashtable" and es' :: "'v table_entry list"
  assumes inv: "ht_inv t" and f: "\<And>e. f e \<longleftrightarrow> te_key e = k"
    and es': "chain_remove f (ht_buckets t ! home t k) = Some (v, es')"
  defines "t' \<equiv> t\<lparr>ht_buckets := (ht_buckets t)[home t k := es'], ht_size := ht_size t - 1\<rparr>"
  shows "ht_inv t' \<and> ht_map t' = (ht_map t)(k := None) \<and> ht_map t k = Some v"
proof -
  let ?i = "home t k"
  have i: "?i < length (ht_buckets t)" by (rule home_less [OF inv])
  have c: "chain_ok t ?i (ht_buckets t ! ?i)" by (rule ht_inv_chain [OF inv i])
  then have d: "distinct (map te_key (ht_buckets t ! ?i))" by (simp add: chain_ok_def)
  note r = chain_remove_Some [OF es' f d]
  have c': "chain_ok t ?i es'"
    using c r by (auto simp: chain_ok_def intro: distinct_map_filter)
  have "ht_size t \<ge> length (ht_buckets t ! ?i)"
    using length_concat_update [OF i, of "[]"] inv by (simp add: ht_inv_def)
  then have n: "ht_size t - 1 + length (ht_buckets t ! ?i) = ht_size t + length es'"
    using r by simp
  have t': "t' = with_bucket t ?i es' (ht_size t - 1)"
    by (simp add: t'_def with_bucket_def)
  show ?thesis
    unfolding t'
    using with_bucket_inv [OF inv i c' n] with_bucket_map [OF inv i c'] ht_map_home [OF inv] r
    by (auto simp: fun_eq_iff map_of_filter_key)
qed

subsection \<open>Resizing\<close>

lemma mset_move_chain:
  assumes "n \<noteq> 0" and "length dest = unat n"
  shows "mset (concat (move_chain es dest n)) = mset es + mset (concat dest) \<and>
    length (move_chain es dest n) = unat n"
  using assms(2)
proof (induction es arbitrary: dest)
  case Nil
  then show ?case by simp
next
  case (Cons e es)
  let ?i = "unat (te_hash e AND (n - 1))"
  have i: "?i < length dest" using and_mask_less [OF assms(1)] Cons.prems by metis
  have "mset (concat (dest[?i := e # dest ! ?i])) = add_mset e (mset (concat dest))"
    using concat_split_at [OF i] concat_list_update [OF i, of "e # dest ! ?i"] by simp
  with Cons.IH [of "dest[?i := e # dest ! ?i]"] Cons.prems show ?case by (simp add: Let_def)
qed

lemma mset_move_entries:
  assumes "n \<noteq> 0" and "length dest = unat n"
  shows "mset (concat (move_entries src dest n)) = mset (concat src) + mset (concat dest) \<and>
    length (move_entries src dest n) = unat n"
  using assms(2)
proof (induction src arbitrary: dest)
  case Nil
  then show ?case by simp
next
  case (Cons b bs)
  from mset_move_chain [OF assms(1) Cons.prems, of b]
  have "length (move_chain b dest n) = unat n"
    and m: "mset (concat (move_chain b dest n)) = mset b + mset (concat dest)" by simp_all
  from Cons.IH [OF this(1)] m show ?case by simp
qed

definition placed :: "64 word \<Rightarrow> 'v table_entry list list \<Rightarrow> bool" where
  "placed n dest \<longleftrightarrow> (\<forall>i<length dest. \<forall>e\<in>set (dest ! i). unat (te_hash e AND (n - 1)) = i)"

lemma placed_update:
  assumes "placed n dest" and "unat (te_hash e AND (n - 1)) = i"
  shows "placed n (dest[i := e # dest ! i])"
  unfolding placed_def
proof (intro allI impI ballI)
  fix j e' assume j: "j < length (dest[i := e # dest ! i])" and e': "e' \<in> set (dest[i := e # dest ! i] ! j)"
  show "unat (te_hash e' AND (n - 1)) = j"
  proof (cases "j = i")
    case True
    then have "e' = e \<or> e' \<in> set (dest ! j)" using j e' by simp
    then show ?thesis using True assms j by (auto simp: placed_def)
  next
    case False
    then show ?thesis using assms j e' by (simp add: placed_def)
  qed
qed

lemma placed_move_chain: "placed n dest \<Longrightarrow> placed n (move_chain es dest n)"
proof (induction es arbitrary: dest)
  case Nil
  then show ?case by simp
next
  case (Cons e es)
  from Cons.IH [OF placed_update [OF Cons.prems refl]] show ?case by (simp add: Let_def)
qed

lemma placed_move_entries: "placed n dest \<Longrightarrow> placed n (move_entries src dest n)"
  by (induction src arbitrary: dest) (auto intro: placed_move_chain)

lemma chain_index_unique:
  assumes "\<forall>i<length bs. chain_ok t i (bs ! i)"
  shows "distinct (map te_key (concat bs))"
  using assms
proof (induction bs rule: rev_induct)
  case Nil
  then show ?case by simp
next
  case (snoc b bs)
  have "\<forall>i<length bs. chain_ok t i (bs ! i)"
    using snoc.prems by (auto simp: nth_append split: if_splits)
  moreover have "chain_ok t (length bs) b"
    using snoc.prems by auto
  moreover have "te_key e \<noteq> te_key e'" if "e \<in> set (concat bs)" "e' \<in> set b" for e e'
  proof -
    from that(1) obtain b0 where "b0 \<in> set bs" "e \<in> set b0" by auto
    then obtain i where "i < length bs" "e \<in> set (bs ! i)" by (metis in_set_conv_nth)
    then have "home t (te_key e) = i" "i < length bs" using calculation(1) by (auto simp: chain_ok_def)
    moreover have "home t (te_key e') = length bs"
      using \<open>chain_ok t (length bs) b\<close> that by (auto simp: chain_ok_def)
    ultimately show ?thesis by auto
  qed
  ultimately show ?case using snoc.IH by (fastforce simp: chain_ok_def)
qed

lemma ht_entries_distinct: "ht_inv t \<Longrightarrow> distinct (map te_key (concat (ht_buckets t)))"
  using chain_index_unique [of "ht_buckets t" t] ht_inv_chain [of t] by blast

lemma ht_map_eq: "ht_map t = map_of (map te_assoc (concat (ht_buckets t)))"
  by (simp add: ht_map_def map_concat)

lemma distinct_concat_nth: "distinct (concat xss) \<Longrightarrow> i < length xss \<Longrightarrow> distinct (xss ! i)"
  by (simp add: distinct_concat_iff)

lemma ht_inv_hash: "ht_inv t \<Longrightarrow> e \<in> set (concat (ht_buckets t)) \<Longrightarrow> te_hash e = key_hash t (te_key e)"
  unfolding set_concat UN_iff using ht_inv_chain [of t] by (metis chain_ok_def in_set_conv_nth)

definition rehashed :: "'v hashtable \<Rightarrow> 64 word \<Rightarrow> 'v hashtable" where
  "rehashed t n = t\<lparr>
     ht_buckets := move_entries (ht_buckets t) (replicate (unat n) []) n,
     ht_capacity := n,
     ht_threshold := load_threshold n (ht_load_factor t)\<rparr>"

lemma key_hash_rehashed [simp]: "key_hash (rehashed t n) = key_hash t"
  by (rule ext) (simp add: key_hash_def rehashed_def)

lemma rehashed_entries:
  assumes "n \<noteq> 0"
  shows "mset (concat (ht_buckets (rehashed t n))) = mset (concat (ht_buckets t))"
    and "length (ht_buckets (rehashed t n)) = unat n"
    and "placed n (ht_buckets (rehashed t n))"
proof -
  have empty: "concat (replicate m []) = []" for m by (induction m) auto
  show "mset (concat (ht_buckets (rehashed t n))) = mset (concat (ht_buckets t))"
    and "length (ht_buckets (rehashed t n)) = unat n"
    using mset_move_entries [OF assms, of "replicate (unat n) []" "ht_buckets t"] empty
    by (simp_all add: rehashed_def)
  show "placed n (ht_buckets (rehashed t n))"
    unfolding rehashed_def by (simp, rule placed_move_entries) (simp add: placed_def)
qed

lemma rehashed_ok:
  assumes inv: "ht_inv t" and j: "j \<le> 31" "n = push_bit j 1"
  shows "ht_inv (rehashed t n) \<and> ht_map (rehashed t n) = ht_map t"
proof -
  let ?t = "rehashed t n"
  have n0: "n \<noteq> 0" using j by (simp add: push_bit_1_nonzero)
  note e = rehashed_entries [OF n0, of t]
  have keys: "distinct (map te_key (concat (ht_buckets ?t)))"
    using ht_entries_distinct [OF inv] e(1) by (metis mset_eq_imp_distinct_iff mset_map)
  have chain: "chain_ok ?t i (ht_buckets ?t ! i)" if i: "i < length (ht_buckets ?t)" for i
    unfolding chain_ok_def
  proof (intro conjI ballI)
    fix x assume x: "x \<in> set (ht_buckets ?t ! i)"
    then have "x \<in> set (concat (ht_buckets ?t))" using i by auto
    then have "x \<in> set (concat (ht_buckets t))" using e(1) by (metis set_mset_mset)
    then show h: "te_hash x = key_hash ?t (te_key x)" using ht_inv_hash [OF inv] by simp
    have "unat (te_hash x AND (n - 1)) = i" using e(3) i x by (simp add: placed_def)
    then show "home ?t (te_key x) = i" using h by (simp add: home_def, simp add: rehashed_def)
  next
    have "distinct (concat (map (map te_key) (ht_buckets ?t)))" using keys by (simp add: map_concat)
    from distinct_concat_nth [OF this, of i] i show "distinct (map te_key (ht_buckets ?t ! i))" by simp
  qed
  have len: "length (concat (ht_buckets ?t)) = length (concat (ht_buckets t))"
    using e(1) by (metis size_mset)
  have fields: "ht_hash ?t = ht_hash t" "ht_key_cmp ?t = ht_key_cmp t" "ht_capacity ?t = n"
    "ht_size ?t = ht_size t" by (simp_all add: rehashed_def)
  have parts: "ht_hash t \<noteq> None" "\<forall>a b. ht_key_cmp t a b = 0 \<longleftrightarrow> a = b"
    "ht_size t = length (concat (ht_buckets t))"
    using inv unfolding ht_inv_def by blast+
  have "ht_inv ?t"
    unfolding ht_inv_def fields
    by (intro conjI exI [of _ j] allI impI) (use parts j chain e(2) len in \<open>simp_all only: simp_thms\<close>)
  moreover have "set (map te_assoc (concat (ht_buckets ?t))) = set (map te_assoc (concat (ht_buckets t)))"
    using e(1) by (metis mset_map set_mset_mset)
  then have "ht_map ?t = ht_map t"
    unfolding ht_map_eq
    using map_of_inject_set [of "map te_assoc (concat (ht_buckets ?t))" "map te_assoc (concat (ht_buckets t))"]
      keys ht_entries_distinct [OF inv] by simp
  ultimately show ?thesis by simp
qed

lemma ht_resize_ok:
  assumes "ht_inv t" and "ht_resize t (push_bit 1 (ht_capacity t)) m = Inr ((st, t'), m')"
  shows "ht_inv t' \<and> ht_map t' = ht_map t"
proof -
  obtain j where j: "j \<le> 31" "ht_capacity t = push_bit j 1" using assms(1) by (auto simp: ht_inv_def)
  have new: "push_bit 1 (ht_capacity t) = push_bit (Suc j) 1" by (simp add: j(2))
  have "Suc j \<le> 31" if "ht_capacity t \<noteq> MAX_POW_TWO"
    using that j by (cases "j = 31") (simp_all add: MAX_POW_TWO_def)
  then have "ht_inv (rehashed t (push_bit 1 (ht_capacity t))) \<and>
      ht_map (rehashed t (push_bit 1 (ht_capacity t))) = ht_map t"
    if "ht_capacity t \<noteq> MAX_POW_TWO"
    using rehashed_ok [OF assms(1) _ new] that by simp
  then show ?thesis
    using assms by (auto simp: ht_resize_def bnd_Inr rehashed_def split: if_splits)
qed

lemma ht_resize_total: "\<exists>st t' m'. ht_resize t n m = Inr ((st, t'), m')"
  by (cases m) (auto simp: ht_resize_def bnd_def ret_def draw_block_def)

lemma grow_if_full_ok:
  assumes "ht_inv t" and "grow_if_full t m = Inr ((st, t'), m')"
  shows "ht_inv t' \<and> ht_map t' = ht_map t"
  using assms ht_resize_ok [OF assms(1)] by (auto simp: grow_if_full_def split: if_splits)

lemma grow_if_full_total: "\<exists>st t' m'. grow_if_full t m = Inr ((st, t'), m')"
  using ht_resize_total by (auto simp: grow_if_full_def ret_def)

section \<open>Adding and removing\<close>

lemma put_new_entry_cases:
  "put_new_entry t i e m = Inr ((st, t'), m') \<Longrightarrow>
   st = CC_ERR_ALLOC \<and> t' = t \<or>
   st = CC_OK \<and> t' = t\<lparr>ht_buckets := (ht_buckets t)[i := e # ht_buckets t ! i], ht_size := ht_size t + 1\<rparr>"
  by (auto simp: put_new_entry_def bnd_Inr split: if_splits)

lemma put_new_entry_total: "\<exists>st t' m'. put_new_entry t i e m = Inr ((st, t'), m')"
  by (auto simp: put_new_entry_def bnd_def ret_def draw_block_def)

text \<open>Storing into the home bucket, whichever of the two copies of the loop does it.\<close>

lemma store_home_ok:
  assumes inv: "ht_inv t" and f: "\<And>e. f e \<longleftrightarrow> te_key e = k"
    and run: "(case chain_replace f v (ht_buckets t ! home t k) of
        Some b' \<Rightarrow> ret (CC_OK, t\<lparr>ht_buckets := (ht_buckets t)[home t k := b']\<rparr>)
      | None \<Rightarrow> put_new_entry t (home t k) \<lparr>te_key = k, te_value = v, te_hash = key_hash t k\<rparr>) m
      = Inr ((st, t'), m')"
  shows "ht_inv t' \<and> ht_map t' = (if st = CC_OK then (ht_map t)(k \<mapsto> v) else ht_map t)"
proof (cases "chain_replace f v (ht_buckets t ! home t k)")
  case (Some b')
  with run replace_in_home [OF inv f Some] show ?thesis by auto
next
  case None
  then have new: "\<forall>e\<in>set (ht_buckets t ! home t k). te_key e \<noteq> k"
    using f by (simp add: chain_replace_None)
  from None run put_new_entry_cases [of t "home t k" "\<lparr>te_key = k, te_value = v, te_hash = key_hash t k\<rparr>" m st t' m']
    insert_in_home [OF inv new, of v] inv
  show ?thesis by auto
qed

lemma store_total:
  "\<exists>st t' m'. (case r of
        Some b' \<Rightarrow> ret (CC_OK, g b')
      | None \<Rightarrow> put_new_entry t i e) m = Inr ((st, t'), m')"
  by (cases r) (auto simp: ret_def put_new_entry_total)

lemma add_null_key_unfold:
  assumes "ht_inv t"
  shows "add_null_key t v =
    (case chain_replace is_null_key v (ht_buckets t ! home t 0) of
       Some b' \<Rightarrow> ret (CC_OK, t\<lparr>ht_buckets := (ht_buckets t)[home t 0 := b']\<rparr>)
     | None \<Rightarrow> put_new_entry t (home t 0) \<lparr>te_key = 0, te_value = v, te_hash = key_hash t 0\<rparr>)"
  using home_less [OF assms, of 0]
  by (simp add: add_null_key_def bucket_at_ok home_0 key_hash_def split: option.split)

lemma add_key_unfold:
  assumes "ht_inv t" and "k \<noteq> 0"
  shows "bnd (call_hash t k) (\<lambda>h.
     let i = unat (h AND (ht_capacity t - 1)) in
     bnd (bucket_at t i) (\<lambda>b.
     case chain_replace (is_key t k) v b of
       Some b' \<Rightarrow> ret (CC_OK, t\<lparr>ht_buckets := (ht_buckets t)[i := b']\<rparr>)
     | None \<Rightarrow> put_new_entry t i \<lparr>te_key = k, te_value = v, te_hash = h\<rparr>)) =
    (case chain_replace (is_key t k) v (ht_buckets t ! home t k) of
       Some b' \<Rightarrow> ret (CC_OK, t\<lparr>ht_buckets := (ht_buckets t)[home t k := b']\<rparr>)
     | None \<Rightarrow> put_new_entry t (home t k) \<lparr>te_key = k, te_value = v, te_hash = key_hash t k\<rparr>)"
  using home_less [OF assms(1), of k]
  by (simp add: call_hash_ok [OF assms] Let_def home_def bucket_at_ok split: option.split)

lemma hashtable_add_map:
  assumes inv: "ht_inv t" and run: "hashtable_add t k v m = Inr ((st, t'), m')"
  shows "ht_inv t' \<and> ht_map t' = (if st = CC_OK then (ht_map t)(k \<mapsto> v) else ht_map t)"
proof -
  from run obtain st1 t1 m1 where
    first: "grow_if_full t m = Inr ((st1, t1), m1)"
    and rest: "(if st1 \<noteq> CC_OK then ret (st1, t1) else
       if k = 0 then add_null_key t1 v else
       bnd (call_hash t1 k) (\<lambda>h.
       let i = unat (h AND (ht_capacity t1 - 1)) in
       bnd (bucket_at t1 i) (\<lambda>b.
       case chain_replace (is_key t1 k) v b of
         Some b' \<Rightarrow> ret (CC_OK, t1\<lparr>ht_buckets := (ht_buckets t1)[i := b']\<rparr>)
       | None \<Rightarrow> put_new_entry t1 i \<lparr>te_key = k, te_value = v, te_hash = h\<rparr>))) m1
      = Inr ((st, t'), m')"
    unfolding hashtable_add_def bnd_Inr by (auto split: prod.splits)
  have t1: "ht_inv t1 \<and> ht_map t1 = ht_map t"
    by (rule grow_if_full_ok [OF inv first])
  show ?thesis
  proof (cases "st1 = CC_OK")
    case False
    with rest t1 show ?thesis by auto
  next
    case ok: True
    show ?thesis
    proof (cases "k = 0")
      case True
      with rest ok add_null_key_unfold [of t1 v] t1
        store_home_ok [of t1 is_null_key 0 v m1 st t' m', OF _ is_null_key_iff]
      show ?thesis by simp
    next
      case False
      with rest ok add_key_unfold [of t1 k v] t1
        store_home_ok [of t1 "is_key t1 k" k v m1 st t' m', OF _ is_key_iff]
      show ?thesis by simp
    qed
  qed
qed

lemma hashtable_add_total:
  assumes inv: "ht_inv t"
  shows "\<exists>st t' m'. hashtable_add t k v m = Inr ((st, t'), m')"
proof -
  obtain st1 t1 m1 where
    first: "grow_if_full t m = Inr ((st1, t1), m1)"
    using grow_if_full_total by blast
  then have t1: "ht_inv t1" using grow_if_full_ok [OF inv] by blast
  show ?thesis
    unfolding hashtable_add_def bnd_Inr_step [where m = "grow_if_full t", OF first]
    using add_null_key_unfold [OF t1, of v] add_key_unfold [OF t1, of k v] store_total
    by (auto simp: ret_def)
qed

lemma hashtable_add_stat:
  assumes "ht_inv t" and "hashtable_add t k v [] = Inr ((st, t'), m')"
  shows "m' = [] \<and> (ht_capacity t \<noteq> MAX_POW_TWO \<longrightarrow> st = CC_OK)"
  using assms
  by (auto simp: hashtable_add_def grow_if_full_def add_null_key_def put_new_entry_def ht_resize_def bnd_Inr
      bucket_at_def call_hash_def Let_def split: if_splits option.splits)

lemma hashtable_remove_map:
  fixes t :: "'v hashtable"
  assumes inv: "ht_inv t"
  shows "\<exists>t'. hashtable_remove t k =
      ret (if ht_map t k = None then CC_ERR_KEY_NOT_FOUND else CC_OK, ht_map t k, t') \<and>
    ht_inv t' \<and> ht_map t' = (ht_map t)(k := None)"
proof -
  define f :: "'v table_entry \<Rightarrow> bool" where "f = (if k = 0 then is_null_key
    else (\<lambda>e. te_key e \<noteq> 0 \<and> ht_key_cmp t k (te_key e) = 0))"
  have f: "f e \<longleftrightarrow> te_key e = k" for e
    using inv by (auto simp: f_def is_null_key_def ht_inv_def)
  have unfold: "hashtable_remove t k = take_entry t (home t k) f"
    by (auto simp: hashtable_remove_def remove_null_key_def home_0 f_def get_table_index_ok [OF inv])
  show ?thesis
  proof (cases "chain_remove f (ht_buckets t ! home t k)")
    case None
    then have "ht_map t k = None"
      using f ht_map_home [OF inv, of k]
      by (auto simp: chain_remove_None map_of_eq_None_iff te_assoc_def)
    moreover from this have "(ht_map t)(k := None) = ht_map t" by auto
    ultimately show ?thesis
      unfolding unfold using None inv home_less [OF inv, of k]
      by (auto simp: take_entry_def bucket_at_ok)
  next
    case (Some r)
    obtain v es' where r: "r = (v, es')" by (cases r)
    from remove_in_home [OF inv f Some [unfolded r]] show ?thesis
      unfolding unfold using Some r home_less [OF inv, of k]
      by (auto simp: take_entry_def bucket_at_ok)
  qed
qed

lemma hashtable_remove_all_map:
  assumes "ht_inv t"
  shows "ht_inv (hashtable_remove_all t) \<and> ht_map (hashtable_remove_all t) = Map.empty \<and>
    hashtable_size (hashtable_remove_all t) = 0"
proof -
  have empty: "concat (map (\<lambda>_. []) xs) = []" for xs :: "'b list" by (induction xs) auto
  have "chain_ok (hashtable_remove_all t) i []" for i by (simp add: chain_ok_def)
  then show ?thesis
    using assms empty
    by (auto simp: ht_inv_def hashtable_remove_all_def ht_map_def hashtable_size_def comp_def)
qed

lemma hashtable_size_map:
  assumes "ht_inv t"
  shows "hashtable_size t = card (dom (ht_map t))"
proof -
  have "dom (ht_map t) = set (map te_key (concat (ht_buckets t)))"
    by (simp add: ht_map_eq dom_map_of_conv_image_fst image_UN image_image)
  then have "card (dom (ht_map t)) = length (map te_key (concat (ht_buckets t)))"
    using distinct_card [OF ht_entries_distinct [OF assms]] by simp
  then show ?thesis using assms by (simp add: hashtable_size_def ht_inv_def)
qed

lemma hashtable_size_0: "ht_inv t \<Longrightarrow> hashtable_size t = 0 \<longleftrightarrow> ht_map t = Map.empty"
  by (auto simp: hashtable_size_def ht_inv_def ht_map_eq)

section \<open>Creation and iteration\<close>

lemma round_pow_two_default: "round_pow_two DEFAULT_CAPACITY = 16"
  by (simp add: round_pow_two_def DEFAULT_CAPACITY_def MAX_POW_TWO_def)

lemma hashtable_new_conf_ok:
  assumes "conf_hash conf \<noteq> None" and "\<forall>a b. conf_key_compare conf a b = 0 \<longleftrightarrow> a = b"
    and "conf_initial_capacity conf = DEFAULT_CAPACITY"
    and "hashtable_new_conf conf m = Inr ((st, r), m')"
  shows "(st = CC_OK \<and> (\<exists>t. r = Some t \<and> ht_inv t \<and> ht_map t = Map.empty \<and>
      ht_hash t = conf_hash conf \<and> ht_key_cmp t = conf_key_compare conf)) \<or>
    (st = CC_ERR_ALLOC \<and> r = None)"
proof -
  have empty: "concat (replicate n []) = []" for n by (induction n) auto
  have cap: "\<exists>j\<le>31. (16 :: 64 word) = push_bit j 1" by (rule exI [of _ 4]) simp
  show ?thesis
    using assms cap empty
    by (auto simp: hashtable_new_conf_def bnd_Inr Let_def round_pow_two_default ht_inv_def ht_map_def
        chain_ok_def map_replicate_const split: if_splits)
qed

lemma concat_drop_skip:
  assumes "i \<le> j" and "j \<le> length bs" and "\<And>k. i \<le> k \<Longrightarrow> k < j \<Longrightarrow> bs ! k = []"
  shows "concat (drop i bs) = concat (drop j bs)"
  using assms(1,3)
proof (induction i rule: inc_induct)
  case base
  show ?case by simp
next
  case (step i)
  then have "drop i bs = [] # drop (Suc i) bs"
    using assms(2) by (metis Cons_nth_drop_Suc order_refl order_less_le_trans)
  with step show ?case by simp
qed

lemma next_bucket_Some:
  assumes "next_bucket t i = Some j" and "unat (ht_capacity t) = length (ht_buckets t)"
  shows "i \<le> j \<and> j < length (ht_buckets t) \<and> ht_buckets t ! j \<noteq> [] \<and>
    concat (drop i (ht_buckets t)) = ht_buckets t ! j @ concat (drop (Suc j) (ht_buckets t))"
proof -
  from assms obtain d where d: "d < length (ht_buckets t) - i" "j = i + d" "ht_buckets t ! j \<noteq> []"
    "\<forall>d'<d. ht_buckets t ! (i + d') = []"
    by (auto simp: next_bucket_def find_Some_iff)
  have "ht_buckets t ! k = []" if "i \<le> k" "k < j" for k
    using that d(2,4) by (metis le_add_diff_inverse nat_add_left_cancel_less)
  then have "concat (drop i (ht_buckets t)) = concat (drop j (ht_buckets t))"
    using d(1,2) by (intro concat_drop_skip) auto
  also have "\<dots> = ht_buckets t ! j @ concat (drop (Suc j) (ht_buckets t))"
    using d(1,2) by (simp add: Cons_nth_drop_Suc [symmetric])
  finally show ?thesis using d by auto
qed

lemma next_bucket_None:
  assumes "next_bucket t i = None" and "unat (ht_capacity t) = length (ht_buckets t)"
  shows "concat (drop i (ht_buckets t)) = []"
  using assms by (fastforce simp: next_bucket_def find_None_iff in_set_conv_nth)

text \<open>The entries from position \<open>(b, p)\<close> on.\<close>

definition entries_from :: "'v hashtable \<Rightarrow> entry_ref \<Rightarrow> 'v table_entry list" where
  "entries_from t r =
     drop (snd r) (ht_buckets t ! fst r) @ concat (drop (Suc (fst r)) (ht_buckets t))"

lemma foreach_loop:
  assumes "unat (ht_capacity t) = length (ht_buckets t)"
    and "it_next_entry it = Some (b, p)" and "it_bucket_index it = b"
    and "b < length (ht_buckets t)" and "p < length (ht_buckets t ! b)"
    and "length (entries_from t (b, p)) < n"
  shows "loopM n (foreach_body t) (Some it, seen) s = Inr (seen @ entries_from t (b, p), s)"
  using assms(2-)
proof (induction n arbitrary: it b p seen)
  case 0
  then show ?case by simp
next
  case (Suc n)
  let ?e = "ht_buckets t ! b ! p"
  have here: "drop p (ht_buckets t ! b) = ?e # drop (Suc p) (ht_buckets t ! b)"
    using Suc.prems(4) by (simp add: Cons_nth_drop_Suc)
  show ?case
  proof (cases "p + 1 < length (ht_buckets t ! b)")
    case True
    let ?it = "it\<lparr>it_prev_entry := Some (b, p), it_next_entry := Some (b, p + 1)\<rparr>"
    have from': "entries_from t (b, p) = ?e # entries_from t (b, p + 1)"
      using here by (simp add: entries_from_def)
    have "loopM n (foreach_body t) (Some ?it, seen @ [?e]) s =
        Inr ((seen @ [?e]) @ entries_from t (b, p + 1), s)"
      by (rule Suc.IH) (use Suc.prems True from' in auto)
    then show ?thesis
      using Suc.prems(1) True from'
      by (simp add: foreach_body_def hashtable_iter_next_def bnd_def ret_def)
  next
    case last: False
    then have rest: "drop (Suc p) (ht_buckets t ! b) = []" by simp
    show ?thesis
    proof (cases "next_bucket t (b + 1)")
      case None
      then have "concat (drop (Suc b) (ht_buckets t)) = []"
        using next_bucket_None [OF _ assms(1), of "b + 1"] by simp
      then have from': "entries_from t (b, p) = [?e]"
        unfolding entries_from_def using here rest by simp
      obtain n' where "n = Suc n'" using Suc.prems(5) from' by (cases n) auto
      then show ?thesis
        using Suc.prems(1,2) last None from'
        by (simp add: foreach_body_def hashtable_iter_next_def bnd_def ret_def)
    next
      case (Some i)
      let ?it = "it\<lparr>it_prev_entry := Some (b, p), it_next_entry := Some (i, 0), it_bucket_index := i\<rparr>"
      note i = next_bucket_Some [OF Some assms(1)]
      have from': "entries_from t (b, p) = ?e # entries_from t (i, 0)"
        unfolding entries_from_def using here rest i by simp
      have "loopM n (foreach_body t) (Some ?it, seen @ [?e]) s =
          Inr ((seen @ [?e]) @ entries_from t (i, 0), s)"
        by (rule Suc.IH) (use Suc.prems i from' in auto)
      then show ?thesis
        using Suc.prems(1,2) last Some from'
        by (simp add: foreach_body_def hashtable_iter_next_def bnd_def ret_def)
    qed
  qed
qed

lemma hashtable_foreach_entries:
  assumes "ht_inv t" and "hashtable_size t > 0"
  shows "hashtable_foreach t = ret (concat (ht_buckets t))"
proof
  fix s :: 's
  have cap: "unat (ht_capacity t) = length (ht_buckets t)" using assms(1) by (simp add: ht_inv_def)
  have "concat (ht_buckets t) \<noteq> []" using assms by (auto simp: ht_inv_def hashtable_size_def)
  then have "next_bucket t 0 \<noteq> None" using next_bucket_None [OF _ cap, of 0] by auto
  then obtain i where i: "next_bucket t 0 = Some i" by auto
  note n = next_bucket_Some [OF i cap]
  then have all: "entries_from t (i, 0) = concat (ht_buckets t)" by (simp add: entries_from_def)
  have "loopM (length (concat (ht_buckets t)) + 1) (foreach_body t)
      (Some \<lparr>it_bucket_index = i, it_prev_entry = None, it_next_entry = Some (i, 0)\<rparr>, []) s
      = Inr ([] @ entries_from t (i, 0), s)"
    by (rule foreach_loop [OF cap]) (use n all in auto)
  then show "hashtable_foreach t s = ret (concat (ht_buckets t)) s"
    unfolding hashtable_foreach_def
    using i all by (simp add: hashtable_iter_init_def ret_def)
qed

section \<open>Rounding up to a power of two\<close>

lemma not_bit_small:
  assumes "unat (m :: 64 word) < 2 ^ j"
  shows "\<not> bit m j"
proof
  assume b: "bit m j"
  then have "bit (unat m) j" by (simp add: bit_unsigned_iff bit_imp_possible_bit)
  then show False using assms by (simp add: bit_iff_odd)
qed

lemma bit_large: "bit (m :: 64 word) j \<Longrightarrow> 2 ^ j \<le> unat m"
  using not_bit_small not_le_imp_less by blast

lemma bits_below:
  assumes "\<forall>j\<ge>k. \<not> bit (m :: 64 word) j"
  shows "unat m < 2 ^ k"
proof -
  have "take_bit k (unat m) = unat m"
    by (rule bit_eqI) (use assms in \<open>auto simp: bit_take_bit_iff bit_unsigned_iff not_le [symmetric]\<close>)
  then show ?thesis using take_bit_nat_less_exp [of k "unat m"] by simp
qed

text \<open>\<open>y\<close> is \<open>m\<close> smeared downwards over a window of \<open>w\<close> bits.\<close>

definition smeared :: "nat \<Rightarrow> 64 word \<Rightarrow> 64 word \<Rightarrow> bool" where
  "smeared w m y \<longleftrightarrow> (\<forall>i. bit y i \<longleftrightarrow> (\<exists>j<w. bit m (i + j)))"

lemma smeared_1: "smeared 1 m m"
  by (simp add: smeared_def)

lemma smeared_double:
  assumes "smeared w m y"
  shows "smeared (2 * w) m (y OR drop_bit w y)"
  unfolding smeared_def
proof
  fix i
  have "bit (y OR drop_bit w y) i \<longleftrightarrow> (\<exists>j<w. bit m (i + j)) \<or> (\<exists>j<w. bit m (w + i + j))"
    using assms by (simp add: bit_or_iff bit_drop_bit_eq smeared_def)
  also have "\<dots> \<longleftrightarrow> (\<exists>j<2 * w. bit m (i + j))"
  proof
    assume "(\<exists>j<w. bit m (i + j)) \<or> (\<exists>j<w. bit m (w + i + j))"
    then show "\<exists>j<2 * w. bit m (i + j)"
    proof
      assume "\<exists>j<w. bit m (i + j)"
      then obtain j where "j < w" "bit m (i + j)" by blast
      then show ?thesis by (intro exI [of _ j]) simp
    next
      assume "\<exists>j<w. bit m (w + i + j)"
      then obtain j where "j < w" "bit m (i + (w + j))" by (auto simp: ac_simps)
      then show ?thesis by (intro exI [of _ "w + j"]) simp
    qed
  next
    assume "\<exists>j<2 * w. bit m (i + j)"
    then obtain j where j: "j < 2 * w" "bit m (i + j)" by blast
    show "(\<exists>j<w. bit m (i + j)) \<or> (\<exists>j<w. bit m (w + i + j))"
    proof (cases "j < w")
      case True
      with j show ?thesis by blast
    next
      case False
      then have "j - w < w" "w + i + (j - w) = i + j" using j by auto
      with j show ?thesis by metis
    qed
  qed
  finally show "bit (y OR drop_bit w y) i \<longleftrightarrow> (\<exists>j<2 * w. bit m (i + j))" .
qed

lemma smeared_mask:
  assumes "unat m < 2 ^ 31" and "smeared 32 m y"
  shows "\<exists>k\<le>31. y = mask k \<and> unat m < 2 ^ k \<and> (k = 0 \<or> 2 ^ (k - 1) \<le> unat m)"
proof -
  define k where "k = (LEAST k. \<forall>j\<ge>k. \<not> bit m j)"
  have ex: "\<forall>j\<ge>31. \<not> bit m j"
  proof (intro allI impI)
    fix j :: nat assume "31 \<le> j"
    then have "unat m < 2 ^ j" using assms(1) by (meson less_le_trans one_le_numeral power_increasing)
    then show "\<not> bit m j" by (rule not_bit_small)
  qed
  then have k: "\<forall>j\<ge>k. \<not> bit m j" unfolding k_def by (rule LeastI)
  have le: "k \<le> 31" unfolding k_def by (rule Least_le) (rule ex)
  have top: "bit m (k - 1)" if "k \<noteq> 0"
  proof (rule ccontr)
    assume "\<not> bit m (k - 1)"
    then have "\<forall>j\<ge>k - 1. \<not> bit m j"
      using k by (metis Suc_diff_1 le_antisym not_less_eq_eq bot_nat_0.not_eq_extremum that)
    then have "k \<le> k - 1" unfolding k_def by (rule Least_le)
    with that show False by simp
  qed
  have "y = mask k"
  proof (rule bit_word_eqI)
    fix i assume "i < LENGTH(64)"
    have "bit y i \<longleftrightarrow> i < k"
    proof
      assume "bit y i"
      then obtain j where "bit m (i + j)" using assms(2) by (auto simp: smeared_def)
      then show "i < k" using k by (meson le_add1 le_trans not_le_imp_less)
    next
      assume "i < k"
      then have "k - 1 - i < 32" "bit m (i + (k - 1 - i))" using le top by auto
      then show "bit y i" using assms(2) by (auto simp: smeared_def)
    qed
    then show "bit y i \<longleftrightarrow> bit (mask k :: 64 word) i"
      using \<open>i < LENGTH(64)\<close> by (simp add: bit_mask_iff)
  qed
  moreover have "k = 0 \<or> 2 ^ (k - 1) \<le> unat m" using top bit_large by blast
  ultimately show ?thesis using le bits_below [OF k] by blast
qed

lemma round_pow_two_least:
  assumes "0 < n" and "n \<le> MAX_POW_TWO"
  shows "\<exists>k\<le>31. round_pow_two n = push_bit k 1 \<and> unat n \<le> 2 ^ k \<and> (k = 0 \<or> 2 ^ (k - 1) < unat n)"
proof (cases "n = MAX_POW_TWO")
  case True
  then show ?thesis by (intro exI [of _ 31]) (simp add: round_pow_two_def MAX_POW_TWO_def)
next
  case False
  then have lt: "n < MAX_POW_TWO" using assms(2) by simp
  define m where "m = n - 1"
  have m: "unat m = unat n - 1" using assms(1) by (simp add: m_def unat_minus_one word_neq_0_conv)
  have n: "unat n \<ge> 1" using assms(1) by (simp add: word_less_nat_alt)
  have "unat n < 2 ^ 31" using lt by (simp add: MAX_POW_TWO_def word_less_nat_alt)
  then have small: "unat m < 2 ^ 31" using m by simp
  define y where "y = (let n = m; n = n OR drop_bit 1 n; n = n OR drop_bit 2 n;
      n = n OR drop_bit 4 n; n = n OR drop_bit 8 n; n = n OR drop_bit 16 n in n)"
  have "smeared 32 m y"
    unfolding y_def Let_def
    using smeared_double [OF smeared_double [OF smeared_double [OF smeared_double
      [OF smeared_double [OF smeared_1 [of m]]]]]] by simp
  from smeared_mask [OF small this] obtain k where k: "k \<le> 31" "y = mask k" "unat m < 2 ^ k"
    "k = 0 \<or> 2 ^ (k - 1) \<le> unat m" by blast
  have "round_pow_two n = y + 1"
    using lt assms(1) unfolding round_pow_two_def y_def m_def Let_def by auto
  also have "\<dots> = push_bit k 1" using k(2) by (simp add: mask_eq_exp_minus_1)
  finally show ?thesis using k m n by (intro exI [of _ k]) auto
qed

section \<open>The interface the object model relies on\<close>

text \<open>A table of links: a map from field offsets, with a size, none of whose operations faults on
  a table in order. The laws are stated for an allocator that does not fail.\<close>

locale link_table =
  fixes ok :: "'t \<Rightarrow> bool"
    and abs :: "'t \<Rightarrow> key \<Rightarrow> 'v option"
    and get :: "'t \<Rightarrow> key \<Rightarrow> (mem_schedule, cc_stat \<times> 'v option) M"
    and remove :: "'t \<Rightarrow> key \<Rightarrow> (mem_schedule, cc_stat \<times> 'v option \<times> 't) M"
    and add :: "'t \<Rightarrow> key \<Rightarrow> 'v \<Rightarrow> (mem_schedule, cc_stat \<times> 't) M"
    and clear :: "'t \<Rightarrow> 't"
    and size_of :: "'t \<Rightarrow> nat"
  assumes get_law: "ok t \<Longrightarrow> get t k = ret (get_result (abs t k))"
    and remove_law: "ok t \<Longrightarrow> \<exists>t' st. remove t k = ret (st, abs t k, t') \<and> ok t' \<and>
      abs t' = (abs t)(k := None)"
    and add_law: "ok t \<Longrightarrow> add t k v m = Inr ((st, t'), m') \<Longrightarrow>
      ok t' \<and> abs t' = (if st = CC_OK then (abs t)(k \<mapsto> v) else abs t)"
    and add_runs: "ok t \<Longrightarrow> \<exists>r. add t k v m = Inr r"
    and clear_law: "ok t \<Longrightarrow> ok (clear t) \<and> abs (clear t) = Map.empty"
    and size_law: "ok t \<Longrightarrow> size_of t = card (dom (abs t))"
begin

lemma get_after_add:
  assumes "ok t" and "add t k v m = Inr ((CC_OK, t'), m')"
  shows "get t' j = ret (if j = k then (CC_OK, Some v) else get_result (abs t j))"
  using add_law [OF assms] get_law [of t' j] by (simp add: get_result_def)

lemma get_after_failed_add:
  assumes "ok t" and "add t k v m = Inr ((st, t'), m')" and "st \<noteq> CC_OK"
  shows "get t' j = get t j"
  using add_law [OF assms(1,2)] assms(1,3) get_law by simp

lemma get_after_remove:
  assumes "ok t" and "remove t k m = Inr ((st, r, t'), m')"
  shows "m' = m \<and> r = abs t k \<and>
    get t' j = (if j = k then ret (CC_ERR_KEY_NOT_FOUND, None) else get t j)"
proof -
  obtain t1 st1 where "remove t k = ret (st1, abs t k, t1)" "ok t1" "abs t1 = (abs t)(k := None)"
    using remove_law [OF assms(1)] by blast
  with assms(2) show ?thesis using get_law [of t1 j] get_law [OF assms(1), of j]
    by (auto simp: get_result_def)
qed

lemma add_then_remove:
  assumes "ok t" and "abs t k = None"
    and "add t k v m = Inr ((CC_OK, t'), m')" and "remove t' k m' = Inr ((st, r, t''), m'')"
  shows "r = Some v \<and> ok t'' \<and> abs t'' = abs t"
proof -
  from add_law [OF assms(1,3)] have t': "ok t'" "abs t' = (abs t)(k \<mapsto> v)" by auto
  from remove_law [OF t'(1), of k] obtain t1 st1 where
    "remove t' k = ret (st1, abs t' k, t1)" "ok t1" "abs t1 = (abs t')(k := None)" by blast
  with assms(2,4) t'(2) show ?thesis by auto
qed

lemma size_clear: "ok t \<Longrightarrow> size_of (clear t) = 0"
  using clear_law [of t] size_law [of "clear t"] by simp

end

interpretation ht: link_table ht_inv ht_map hashtable_get hashtable_remove hashtable_add
  hashtable_remove_all hashtable_size
proof unfold_locales
  fix t :: "'v hashtable" and k :: key
  assume "ht_inv t"
  then show "\<exists>t' st. hashtable_remove t k = ret (st, ht_map t k, t') \<and> ht_inv t' \<and>
      ht_map t' = (ht_map t)(k := None)"
    using hashtable_remove_map by blast
next
  fix t :: "'v hashtable" and k :: key and v :: 'v and m :: mem_schedule
  assume "ht_inv t"
  then show "\<exists>r. hashtable_add t k v m = Inr r" using hashtable_add_total [of t k v m] by auto
qed (simp_all add: hashtable_get_map hashtable_add_map hashtable_remove_all_map hashtable_size_map)

section \<open>What the object model gets from its tables\<close>

lemma hashtable_add_stats:
  assumes "hashtable_add t k v m = Inr ((st, t'), m')"
  shows "st \<in> {CC_OK, CC_ERR_ALLOC, CC_ERR_MAX_CAPACITY}"
  using assms
  by (auto simp: hashtable_add_def grow_if_full_def add_null_key_def put_new_entry_def ht_resize_def bnd_Inr
      bucket_at_def call_hash_def Let_def split: if_splits option.splits)

lemma round_pow_two_power: "\<exists>j\<le>31. round_pow_two n = push_bit j 1"
proof (cases "n = 0 \<or> n > MAX_POW_TWO")
  case True
  then show ?thesis
  proof
    assume "n = 0"
    then show ?thesis by (intro exI [of _ 1]) (simp add: round_pow_two_def MAX_POW_TWO_def)
  next
    assume "n > MAX_POW_TWO"
    then show ?thesis by (intro exI [of _ 31]) (auto simp: round_pow_two_def MAX_POW_TWO_def)
  qed
next
  case False
  then have "0 < n" "n \<le> MAX_POW_TWO" by (auto simp: word_neq_0_conv)
  from round_pow_two_least [OF this] show ?thesis by blast
qed

lemma forM_append: "forM (xs @ ys) f = bnd (forM xs f) (\<lambda>_. forM ys f)"
  by (induction xs) (simp_all add: bnd_assoc)

lemma forM_map: "forM (map g xs) f = forM xs (\<lambda>x. f (g x))"
  by (induction xs) simp_all

lemma forM_rows:
  "n = length (ht_buckets t) \<Longrightarrow> j \<le> n \<Longrightarrow>
   forM [j..<n] (\<lambda>i. bnd (bucket_at t i) (\<lambda>b. forM b f)) = forM (concat (drop j (ht_buckets t))) f"
proof (induction "n - j" arbitrary: j)
  case 0
  then show ?case by simp
next
  case (Suc d)
  then have "j < n" "d = n - Suc j" by auto
  with Suc have "forM [Suc j..<n] (\<lambda>i. bnd (bucket_at t i) (\<lambda>b. forM b f)) =
    forM (concat (drop (Suc j) (ht_buckets t))) f" by auto
  with \<open>j < n\<close> Suc.prems(1) show ?case
    by (simp add: upt_conv_Cons bucket_at_def forM_append Cons_nth_drop_Suc [symmetric])
qed

text \<open>\<open>hashtable_foreach_key\<close> and \<open>_value\<close> call back once for each entry, in the order of \<open>HASHTABLE_FOREACH\<close>.\<close>

lemma foreach_forM:
  assumes "ht_inv t"
  shows "hashtable_foreach_key t fn = forM (map te_key (concat (ht_buckets t))) fn"
    "hashtable_foreach_value t gn = forM (map te_value (concat (ht_buckets t))) gn"
  using assms forM_rows [of "unat (ht_capacity t)" t 0]
  by (simp_all add: hashtable_foreach_key_def hashtable_foreach_value_def forM_map ht_inv_def)

lemma hashtable_new_conf_inv:
  assumes "conf_hash conf \<noteq> None" and "\<forall>a b. conf_key_compare conf a b = 0 \<longleftrightarrow> a = b"
    and "hashtable_new_conf conf m = Inr ((st, r), m')"
  shows "st = CC_OK \<and> (\<exists>t. r = Some t \<and> ht_inv t \<and> ht_map t = Map.empty) \<or> st = CC_ERR_ALLOC \<and> r = None"
proof -
  have empty: "concat (replicate n []) = []" for n by (induction n) auto
  show ?thesis
    using assms empty round_pow_two_power [of "conf_initial_capacity conf"]
    by (auto simp: hashtable_new_conf_def bnd_Inr Let_def ht_inv_def ht_map_def
        chain_ok_def map_replicate_const split: if_splits)
qed

text \<open>A table of two buckets and one of its entries, to apply the theorems to.\<close>

definition tiny_table :: "nat hashtable" where
  "tiny_table =
     \<lparr>ht_capacity = 2, ht_size = 1, ht_threshold = 1, ht_hash_seed = 0, ht_key_len = -1,
      ht_load_factor = DEFAULT_LOAD_FACTOR,
      ht_buckets = [[\<lparr>te_key = 8, te_value = 70, te_hash = 8\<rparr>], []],
      ht_hash = Some (\<lambda>k _ _. k), ht_key_cmp = cc_common_cmp_ptr\<rparr>"

lemma all_less_two: "(\<forall>i<Suc (Suc 0). P i) \<longleftrightarrow> P 0 \<and> P 1"
  by (auto simp: less_Suc_eq)

lemma tiny_table_inv: "ht_inv tiny_table"
proof -
  have cap: "\<exists>j\<le>31. (2 :: 64 word) = push_bit j 1" by (rule exI [of _ 1]) simp
  have len: "unat (2 :: 64 word) = 2" by simp
  show ?thesis
    using cap len
    by (auto simp add: ht_inv_def tiny_table_def cc_common_cmp_ptr_def chain_ok_def key_hash_def home_def all_less_two
        less_Suc_eq)
qed

section \<open>Properties\<close>

text \<open>C23: After a successful \<open>hashtable_add\<close>, also when it resized the table, \<open>hashtable_get\<close> finds the
  new value under its key and under every other key what it found before.\<close>

theorem hashtable_add_get:
  fixes s :: mem_schedule
  assumes "ht_inv t" and "hashtable_add t k v m = Inr ((CC_OK, t'), m')"
  shows "ht_inv t' \<and> hashtable_get t' j s = (if j = k then Inr ((CC_OK, Some v), s) else hashtable_get t j s)"
  using ht.get_after_add [OF assms] ht.add_law [OF assms] ht.get_law [OF assms(1), of j]
  by (auto simp: ret_def)

theorem hashtable_add_get_witness:
  "\<exists>t' m'. hashtable_add tiny_table 16 71 [] = Inr ((CC_OK, t'), m') \<and>
     hashtable_get t' 8 ([] :: mem_schedule) = hashtable_get tiny_table 8 []"
proof -
  have "case hashtable_add tiny_table 16 71 [] of Inr ((st, _), _) \<Rightarrow> st = CC_OK | Inl _ \<Rightarrow> False" by code_simp
  then obtain t' m' where run: "hashtable_add tiny_table 16 71 [] = Inr ((CC_OK, t'), m')"
    by (auto split: sum.splits prod.splits)
  from hashtable_add_get [OF tiny_table_inv run, of 8 "[]"] run show ?thesis by auto
qed

text \<open>C24: \<open>hashtable_add\<close> never crashes on a well-formed table. When it fails, for lack of memory or because
  the table has reached its largest capacity, every lookup gives what it gave before.\<close>

theorem hashtable_add_outcome:
  fixes s :: mem_schedule
  assumes "ht_inv t"
  shows "\<exists>st t' m'. hashtable_add t k v m = Inr ((st, t'), m') \<and> ht_inv t' \<and>
    (st = CC_OK \<or> st \<in> {CC_ERR_ALLOC, CC_ERR_MAX_CAPACITY} \<and> (\<forall>j. hashtable_get t' j s = hashtable_get t j s))"
proof -
  obtain st t' m' where run: "hashtable_add t k v m = Inr ((st, t'), m')"
    using hashtable_add_total [OF assms] by blast
  with hashtable_add_stats [OF run] hashtable_add_map [OF assms run] ht.get_after_failed_add [OF assms run]
  show ?thesis by (intro exI [of _ st] exI [of _ t'] exI [of _ m']) auto
qed

theorem hashtable_add_outcome_witness:
  "\<exists>st t' m'. hashtable_add tiny_table 16 71 [False] = Inr ((st, t'), m') \<and> ht_inv t'"
  using hashtable_add_outcome [OF tiny_table_inv, of 16 71 "[False]" "[]"] by blast

text \<open>C25: \<open>hashtable_remove\<close> returns exactly what \<open>hashtable_get\<close> would, the key is gone afterwards, every
  other key keeps its value, and the size goes down by one when there was an entry.\<close>

theorem hashtable_remove_get:
  fixes t :: "'v hashtable" and s :: mem_schedule
  assumes "ht_inv t"
  shows "\<exists>st r t'. hashtable_remove t k s = Inr ((st, r, t'), s) \<and> hashtable_get t k s = Inr ((st, r), s) \<and>
    ht_inv t' \<and> (\<forall>j. hashtable_get t' j s =
      (if j = k then Inr ((CC_ERR_KEY_NOT_FOUND, None), s) else hashtable_get t j s)) \<and>
    hashtable_size t = hashtable_size t' + (if st = CC_OK then 1 else 0)"
proof -
  obtain t' where t': "(hashtable_remove t k :: (mem_schedule, _) M) =
      ret (if ht_map t k = None then CC_ERR_KEY_NOT_FOUND else CC_OK, ht_map t k, t')"
    "ht_inv t'" "ht_map t' = (ht_map t)(k := None)" using hashtable_remove_map [OF assms, of k] by blast
  have fin: "finite (dom (ht_map t))" by (simp add: ht_map_def finite_dom_map_of)
  have "card (dom (ht_map t)) = card (dom (ht_map t')) + (if ht_map t k = None then 0 else 1)"
    using fin card_Suc_Diff1 [OF fin, of k] by (auto simp: t'(3) domIff)
  then have "hashtable_size t = hashtable_size t' + (if ht_map t k = None then 0 else 1)"
    by (simp add: hashtable_size_map assms t'(2))
  with t' show ?thesis
    by (cases "ht_map t k") (simp_all add: ret_def hashtable_get_map assms get_result_def)
qed

theorem hashtable_remove_get_witness:
  "\<exists>st r t'. hashtable_remove tiny_table 8 ([] :: mem_schedule) = Inr ((st, r, t'), []) \<and> ht_inv t'"
  using hashtable_remove_get [OF tiny_table_inv, of 8 "[]"] by blast

text \<open>C26: \<open>HASHTABLE_FOREACH\<close> on a table that is not empty ends and visits every entry exactly once:
  as many entries as the size says, no key twice, each with the value that \<open>hashtable_get\<close> finds.\<close>

theorem hashtable_foreach_visits:
  fixes t :: "'v hashtable"
  assumes "ht_inv t" and "0 < hashtable_size t"
  shows "\<exists>es. hashtable_foreach t s = Inr (es, s) \<and> length es = hashtable_size t \<and> distinct (map te_key es) \<and>
    (\<forall>k v. hashtable_get t k s = Inr ((CC_OK, Some v), s) \<longleftrightarrow> (\<exists>e\<in>set es. te_key e = k \<and> te_value e = v))"
proof -
  let ?es = "concat (ht_buckets t)"
  have d: "distinct (map te_key ?es)" by (rule ht_entries_distinct [OF assms(1)])
  have m: "ht_map t = map_of (map te_assoc ?es)" by (simp add: ht_map_def map_concat)
  have "ht_map t k = Some v \<longleftrightarrow> (\<exists>e\<in>set ?es. te_key e = k \<and> te_value e = v)" for k v
    using d by (subst m, subst map_of_eq_Some_iff) (auto simp: te_assoc_def image_iff)
  moreover have "hashtable_get t k s = Inr ((CC_OK, Some v), s) \<longleftrightarrow> ht_map t k = Some v" for k v
    by (auto simp: hashtable_get_map assms(1) get_result_def ret_def split: option.splits)
  moreover have "length ?es = hashtable_size t" using assms(1) by (simp add: ht_inv_def hashtable_size_def)
  ultimately show ?thesis
    using d by (intro exI [of _ ?es]) (simp add: hashtable_foreach_entries [OF assms] ret_def)
qed

theorem hashtable_foreach_visits_witness:
  "\<exists>es. hashtable_foreach tiny_table [] = Inr (es, []) \<and> length es = hashtable_size tiny_table"
proof -
  have "0 < hashtable_size tiny_table" by (simp add: hashtable_size_def tiny_table_def)
  from hashtable_foreach_visits [OF tiny_table_inv this, of "[]"] show ?thesis by blast
qed

text \<open>C27: \<open>round_pow_two\<close> always gives a power of two, so that masking a hash with \<open>capacity - 1\<close> reaches every bucket: 2 for zero, the
  least power of two that is not below its argument for every other argument up to the largest capacity, and the largest capacity
  beyond that.\<close>

theorem round_pow_two_bounds:
  "\<exists>k. k \<le> 31 \<and> round_pow_two n = push_bit k 1 \<and>
    (if n = 0 then k = 1 else if n \<le> MAX_POW_TWO then unat n \<le> 2 ^ k \<and> (k = 0 \<or> 2 ^ (k - 1) < unat n) else k = 31)"
proof (cases "n = 0 \<or> MAX_POW_TWO < n")
  case True
  then have "k = (if n = 0 then 1 else 31) \<Longrightarrow> round_pow_two n = push_bit k 1" for k
    by (auto simp: round_pow_two_def MAX_POW_TWO_def)
  with True show ?thesis by (intro exI [of _ "if n = 0 then 1 else 31"]) auto
next
  case False
  then have "0 < n" "n \<le> MAX_POW_TWO" by (auto simp: word_neq_0_conv)
  from round_pow_two_least [OF this] False show ?thesis by auto
qed

theorem round_pow_two_bounds_witness:
  "\<exists>k\<le>31. round_pow_two 100 = push_bit k 1 \<and> unat (100 :: 64 word) \<le> 2 ^ k"
proof -
  have "(100 :: 64 word) \<noteq> 0" "(100 :: 64 word) \<le> MAX_POW_TWO" by (simp_all add: MAX_POW_TWO_def)
  with round_pow_two_bounds [of 100] show ?thesis by auto
qed

text \<open>whatever initial capacity a configuration asks for, also zero or one beyond the limit, \<open>hashtable_new_conf\<close>
  makes a well-formed table in which no key is found, or reports that there is no memory.\<close>

lemma hashtable_new_conf_empty:
  assumes "conf_hash conf \<noteq> None" and "\<forall>a b. conf_key_compare conf a b = 0 \<longleftrightarrow> a = b"
    and "hashtable_new_conf conf m = Inr ((st, r), m')"
  shows "st = CC_OK \<and> (\<exists>t. r = Some t \<and> ht_inv t \<and> (\<forall>k. hashtable_get t k s = Inr ((CC_ERR_KEY_NOT_FOUND, None), s))) \<or>
    st = CC_ERR_ALLOC \<and> r = None"
  using hashtable_new_conf_inv [OF assms] by (auto simp: hashtable_get_map get_result_def ret_def)

end
