(* ===== verification/World.thy ===== *)
theory World
  imports Hashtable
begin

text \<open>
  The memory of a running program that uses the collector: the structs of src/*.h as records, one
  heap per struct type, and the file-scope variables of src/*.c. Addresses are integers, NULL is
  0, and a heap is a partial map, so that dereferencing NULL or a freed block is the error
  \<open>Bad_pointer\<close>. The lists and mutexes inside the structs are kept by value: a \<open>List\<close> is the
  list of the pointers it holds (theory \<open>Clist\<close> verifies the linked lists themselves), and the state
  of the mutex of an \<open>idlock_t\<close> is in \<open>mutexes\<close>, indexed by the address of the lock.
\<close>

section \<open>The structs\<close>

type_synonym addr = int
type_synonym thread_id = nat
type_synonym bit_t = "8 word"

abbreviation NULL :: addr where
  "NULL \<equiv> 0"

text \<open>counter.h; each counter function holds the counter's own mutex for its single access.\<close>

record counter =
  ref_count :: "64 word"
  store_count :: "64 word"

text \<open>The five lists of a collector; a \<open>safelist_t *\<close> is a collector's address and the field.\<close>

datatype slfield = Collect | Merged_list | Recovery_list | Rebuild_list | Clean_list

type_synonym slref = "addr \<times> slfield"

text \<open>safelist.h; a \<open>List *\<close> that \<open>list_new\<close> could not allocate stays uninitialised: \<open>None\<close>.\<close>

record safelist =
  sl_lock :: "64 word"
  sl_count :: addr
  sl_data :: "addr list option"
  sl_forward :: "slref option"

text \<open>collector.h\<close>

record collector =
  co_lock :: "64 word"
  co_count :: addr
  co_collect :: safelist
  co_merged_list :: safelist
  co_recovery_list :: safelist
  co_rebuild_list :: safelist
  co_clean_list :: safelist
  co_forward :: addr

text \<open>link.h\<close>

record link =
  lk_which :: bit_t
  lk_phantomized :: bool
  lk_target :: addr
  lk_src :: addr

text \<open>object.h; \<open>links\<close> is \<open>None\<close> while the pointer is not initialised, and a destructor is known
  by a number.\<close>

record obj =
  o_lock :: "64 word"
  o_links :: "addr hashtable option"
  o_which :: bit_t
  o_phantomized :: bool
  o_count :: "nat \<Rightarrow> int"
  o_collector :: addr
  o_complete :: bool
  o_dtor :: "nat option"
  o_data :: addr
  o_magic :: "64 word"

text \<open>task.h; the only functions that are ever put into a task.\<close>

datatype task_fn = Collector_run | Object_request_delete_task_run

record task =
  t_run :: task_fn
  t_runarg :: addr

text \<open>Whatever conforms to \<open>lockable_t\<close> starts with its \<open>idlock_t\<close>.\<close>

datatype lockref = LObj addr | LColl addr | LSafe slref

text \<open>locker.c: an entry is the array of the locks one \<open>locker_start\<close> took, a locker is its
  stack of entries, last pushed last.\<close>

type_synonym locker_entry = "lockref list"

record locker =
  stack :: "locker_entry list option"

record world =
  objs :: "addr \<Rightarrow> obj option"
  lnks :: "addr \<Rightarrow> link option"
  colls :: "addr \<Rightarrow> collector option"
  ctrs :: "addr \<Rightarrow> counter option"
  tsks :: "addr \<Rightarrow> task option"
  next_addr :: addr
  mem :: mem_schedule
  id_count :: "64 word"
  num_collector :: "64 word"
  acid_world_count :: "64 word"
  acid_collect_count :: "64 word"
  mutexes :: "lockref \<Rightarrow> (thread_id \<times> nat) option"
  lockers :: "thread_id \<Rightarrow> locker option"
  self :: thread_id
  work :: "addr list option"
  endtime :: bool
  task_count :: "32 word"
  zero_broadcasts :: nat
  dtor_calls :: "(nat \<times> addr) list"
  fuel :: nat

type_synonym 'a W = "(world, 'a) M"

text \<open>The memory when \<open>main\<close> starts, with the initial values of the file-scope variables. Thread 0 is
  the main thread; \<open>fuel\<close> bounds the rounds of a loop and is never written.\<close>

definition boot :: "nat \<Rightarrow> world" where
  "boot n = \<lparr>objs = (\<lambda>_. None), lnks = (\<lambda>_. None), colls = (\<lambda>_. None), ctrs = (\<lambda>_. None),
     tsks = (\<lambda>_. None), next_addr = 4096, mem = [], id_count = 1, num_collector = 0,
     acid_world_count = 0, acid_collect_count = 0, mutexes = (\<lambda>_. None), lockers = (\<lambda>_. None),
     self = 0, work = None, endtime = False, task_count = 0, zero_broadcasts = 0, dtor_calls = [],
     fuel = n\<rparr>"

text \<open>The layout on a 64-bit system with glibc, where a \<open>mtx_t\<close> has 40 bytes and
  \<open>atomic_uint_fast8_t\<close> one.\<close>

definition sizeof_Object :: int where "sizeof_Object = 112"
definition sizeof_link :: int where "sizeof_link = 24"
definition sizeof_counter :: int where "sizeof_counter = 56"
definition sizeof_collector :: int where "sizeof_collector = 424"
definition sizeof_task :: int where "sizeof_task = 16"
definition sizeof_locker :: int where "sizeof_locker = 8"
definition sizeof_locker_entry :: int where "sizeof_locker_entry = 40"
definition sizeof_pointer :: int where "sizeof_pointer = 8"

section \<open>Reading and writing structs\<close>

definition get_obj :: "addr \<Rightarrow> obj W" where
  "get_obj p w = (case objs w p of None \<Rightarrow> Inl Bad_pointer | Some ob \<Rightarrow> Inr (ob, w))"

definition upd_obj :: "addr \<Rightarrow> (obj \<Rightarrow> obj) \<Rightarrow> unit W" where
  "upd_obj p f w =
     (case objs w p of
        None \<Rightarrow> Inl Bad_pointer
      | Some ob \<Rightarrow> Inr ((), w\<lparr>objs := (objs w)(p \<mapsto> f ob)\<rparr>))"

definition get_link :: "addr \<Rightarrow> link W" where
  "get_link p w = (case lnks w p of None \<Rightarrow> Inl Bad_pointer | Some lk \<Rightarrow> Inr (lk, w))"

definition upd_link :: "addr \<Rightarrow> (link \<Rightarrow> link) \<Rightarrow> unit W" where
  "upd_link p f w =
     (case lnks w p of
        None \<Rightarrow> Inl Bad_pointer
      | Some lk \<Rightarrow> Inr ((), w\<lparr>lnks := (lnks w)(p \<mapsto> f lk)\<rparr>))"

definition get_coll :: "addr \<Rightarrow> collector W" where
  "get_coll p w = (case colls w p of None \<Rightarrow> Inl Bad_pointer | Some c \<Rightarrow> Inr (c, w))"

definition upd_coll :: "addr \<Rightarrow> (collector \<Rightarrow> collector) \<Rightarrow> unit W" where
  "upd_coll p f w =
     (case colls w p of
        None \<Rightarrow> Inl Bad_pointer
      | Some c \<Rightarrow> Inr ((), w\<lparr>colls := (colls w)(p \<mapsto> f c)\<rparr>))"

definition get_ctr :: "addr \<Rightarrow> counter W" where
  "get_ctr p w = (case ctrs w p of None \<Rightarrow> Inl Bad_pointer | Some c \<Rightarrow> Inr (c, w))"

definition upd_ctr :: "addr \<Rightarrow> (counter \<Rightarrow> counter) \<Rightarrow> unit W" where
  "upd_ctr p f w =
     (case ctrs w p of
        None \<Rightarrow> Inl Bad_pointer
      | Some c \<Rightarrow> Inr ((), w\<lparr>ctrs := (ctrs w)(p \<mapsto> f c)\<rparr>))"

definition get_task :: "addr \<Rightarrow> task W" where
  "get_task p w = (case tsks w p of None \<Rightarrow> Inl Bad_pointer | Some t \<Rightarrow> Inr (t, w))"

text \<open>The safelists inside a collector.\<close>

fun sl_of :: "collector \<Rightarrow> slfield \<Rightarrow> safelist" where
  "sl_of c Collect = co_collect c"
| "sl_of c Merged_list = co_merged_list c"
| "sl_of c Recovery_list = co_recovery_list c"
| "sl_of c Rebuild_list = co_rebuild_list c"
| "sl_of c Clean_list = co_clean_list c"

fun sl_put :: "slfield \<Rightarrow> safelist \<Rightarrow> collector \<Rightarrow> collector" where
  "sl_put Collect s c = c\<lparr>co_collect := s\<rparr>"
| "sl_put Merged_list s c = c\<lparr>co_merged_list := s\<rparr>"
| "sl_put Recovery_list s c = c\<lparr>co_recovery_list := s\<rparr>"
| "sl_put Rebuild_list s c = c\<lparr>co_rebuild_list := s\<rparr>"
| "sl_put Clean_list s c = c\<lparr>co_clean_list := s\<rparr>"

definition get_sl :: "slref \<Rightarrow> safelist W" where
  "get_sl r w =
     (case colls w (fst r) of None \<Rightarrow> Inl Bad_pointer | Some c \<Rightarrow> Inr (sl_of c (snd r), w))"

definition upd_sl :: "slref \<Rightarrow> (safelist \<Rightarrow> safelist) \<Rightarrow> unit W" where
  "upd_sl r f = upd_coll (fst r) (\<lambda>c. sl_put (snd r) (f (sl_of c (snd r))) c)"

lemma sl_of_put [simp]: "sl_of (sl_put f s c) g = (if f = g then s else sl_of c g)"
  by (cases f; cases g) simp_all

lemma co_put [simp]:
  "co_lock (sl_put f s c) = co_lock c"
  "co_count (sl_put f s c) = co_count c"
  "co_forward (sl_put f s c) = co_forward c"
  by (cases f; simp)+

lemma sl_of_co_forward [simp]: "sl_of (c\<lparr>co_forward := x\<rparr>) f = sl_of c f"
  by (cases f) simp_all

text \<open>\<open>count[i] += d\<close> on the \<open>int[3]\<close> of an object: an index past the array and a signed overflow
  are undefined.\<close>

definition count_add :: "addr \<Rightarrow> bit_t \<Rightarrow> int \<Rightarrow> unit W" where
  "count_add p i d =
     bnd (get_obj p) (\<lambda>ob.
     let c = o_count ob (unat i) + d in
     if unat i < 3 \<and> - (2 ^ 31) \<le> c \<and> c < 2 ^ 31
     then upd_obj p (\<lambda>ob. ob\<lparr>o_count := (o_count ob)(unat i := c)\<rparr>)
     else fail Undefined_behaviour)"

definition BIT_FLIP :: "bit_t \<Rightarrow> bit_t" where
  "BIT_FLIP b = b XOR 1"

section \<open>What the accessors do\<close>

lemma get_obj_Inr: "get_obj p w = Inr (x, w') \<longleftrightarrow> objs w p = Some x \<and> w' = w"
  by (auto simp: get_obj_def split: option.splits)

lemma upd_obj_Inr:
  "upd_obj p f w = Inr (x, w') \<longleftrightarrow> (\<exists>ob. objs w p = Some ob \<and> w' = w\<lparr>objs := (objs w)(p \<mapsto> f ob)\<rparr>)"
  by (auto simp: upd_obj_def split: option.splits)

lemma get_link_Inr: "get_link p w = Inr (x, w') \<longleftrightarrow> lnks w p = Some x \<and> w' = w"
  by (auto simp: get_link_def split: option.splits)

lemma upd_link_Inr:
  "upd_link p f w = Inr (x, w') \<longleftrightarrow> (\<exists>lk. lnks w p = Some lk \<and> w' = w\<lparr>lnks := (lnks w)(p \<mapsto> f lk)\<rparr>)"
  by (auto simp: upd_link_def split: option.splits)

lemma get_coll_Inr: "get_coll p w = Inr (x, w') \<longleftrightarrow> colls w p = Some x \<and> w' = w"
  by (auto simp: get_coll_def split: option.splits)

lemma upd_coll_Inr:
  "upd_coll p f w = Inr (x, w') \<longleftrightarrow> (\<exists>c. colls w p = Some c \<and> w' = w\<lparr>colls := (colls w)(p \<mapsto> f c)\<rparr>)"
  by (auto simp: upd_coll_def split: option.splits)

lemma get_ctr_Inr: "get_ctr p w = Inr (x, w') \<longleftrightarrow> ctrs w p = Some x \<and> w' = w"
  by (auto simp: get_ctr_def split: option.splits)

lemma upd_ctr_Inr:
  "upd_ctr p f w = Inr (x, w') \<longleftrightarrow> (\<exists>c. ctrs w p = Some c \<and> w' = w\<lparr>ctrs := (ctrs w)(p \<mapsto> f c)\<rparr>)"
  by (auto simp: upd_ctr_def split: option.splits)

lemma get_task_Inr: "get_task p w = Inr (x, w') \<longleftrightarrow> tsks w p = Some x \<and> w' = w"
  by (auto simp: get_task_def split: option.splits)

lemma get_sl_Inr:
  "get_sl r w = Inr (x, w') \<longleftrightarrow> (\<exists>c. colls w (fst r) = Some c \<and> x = sl_of c (snd r)) \<and> w' = w"
  by (auto simp: get_sl_def split: option.splits)

lemma upd_sl_Inr:
  "upd_sl r f w = Inr (x, w') \<longleftrightarrow>
     (\<exists>c. colls w (fst r) = Some c \<and>
       w' = w\<lparr>colls := (colls w)(fst r \<mapsto> sl_put (snd r) (f (sl_of c (snd r))) c)\<rparr>)"
  by (auto simp: upd_sl_def upd_coll_Inr)

lemma count_add_Inr:
  "count_add p i d w = Inr (x, w') \<longleftrightarrow>
     (\<exists>ob. objs w p = Some ob \<and> unat i < 3 \<and>
       - (2 ^ 31) \<le> o_count ob (unat i) + d \<and> o_count ob (unat i) + d < 2 ^ 31 \<and>
       w' = w\<lparr>objs := (objs w)(p \<mapsto>
         ob\<lparr>o_count := (o_count ob)(unat i := o_count ob (unat i) + d)\<rparr>)\<rparr>)"
  by (auto simp: count_add_def bnd_Inr get_obj_Inr upd_obj_Inr Let_def split: if_splits)

lemmas access_Inr = get_obj_Inr upd_obj_Inr get_link_Inr upd_link_Inr get_coll_Inr upd_coll_Inr
  get_ctr_Inr upd_ctr_Inr get_task_Inr get_sl_Inr upd_sl_Inr count_add_Inr

lemma BIT_FLIP_0 [simp]: "BIT_FLIP 0 = 1" and BIT_FLIP_1 [simp]: "BIT_FLIP 1 = 0"
  by (simp_all add: BIT_FLIP_def)

lemma BIT_FLIP_BIT_FLIP [simp]: "BIT_FLIP (BIT_FLIP b) = b"
  by (simp add: BIT_FLIP_def xor.assoc)

lemma BIT_FLIP_neq [simp]: "BIT_FLIP b \<noteq> b"
proof
  assume "BIT_FLIP b = b"
  then have "b XOR (b XOR 1) = b XOR b" by (simp add: BIT_FLIP_def)
  moreover have "b XOR (b XOR 1) = 1" by (simp flip: xor.assoc)
  ultimately show False by simp
qed

subsection \<open>Frames\<close>

lemma keeps_get_obj [keeps_intros]: "keeps f (get_obj p)"
  and keeps_get_link [keeps_intros]: "keeps f (get_link p)"
  and keeps_get_coll [keeps_intros]: "keeps f (get_coll p)"
  and keeps_get_ctr [keeps_intros]: "keeps f (get_ctr p)"
  and keeps_get_task [keeps_intros]: "keeps f (get_task p)"
  and keeps_get_sl [keeps_intros]: "keeps f (get_sl r)"
  by (auto simp: keeps_def access_Inr)

lemma keeps_upd_obj: "(\<And>w g. f (objs_update g w) = f w) \<Longrightarrow> keeps f (upd_obj p h)"
  and keeps_upd_link: "(\<And>w g. f (lnks_update g w) = f w) \<Longrightarrow> keeps f (upd_link p h')"
  and keeps_upd_coll: "(\<And>w g. f (colls_update g w) = f w) \<Longrightarrow> keeps f (upd_coll p h'')"
  and keeps_upd_ctr: "(\<And>w g. f (ctrs_update g w) = f w) \<Longrightarrow> keeps f (upd_ctr p h''')"
  and keeps_upd_sl: "(\<And>w g. f (colls_update g w) = f w) \<Longrightarrow> keeps f (upd_sl r h'''')"
  and keeps_count_add: "(\<And>w g. f (objs_update g w) = f w) \<Longrightarrow> keeps f (count_add p i d)"
  by (auto simp: keeps_def access_Inr)

end
