(* ===== verification/Memory.thy ===== *)
theory Memory
  imports World
begin

text \<open>
  src/memory.c: \<open>xmalloc\<close>, which waits for the collector when \<open>malloc\<close> fails and exits the
  program when no task is left that could free anything. The other allocations of the
  program are the ones inside Collections-C, which report \<open>CC_ERR_ALLOC\<close>.

  A block is never handed out twice: addresses only grow. \<open>xmalloc_total\<close> shows that the
  loop ends: it either returns a block or exits.
\<close>

section \<open>Allocation\<close>

definition malloc :: "int \<Rightarrow> addr W" where
  "malloc sz w =
     (case draw (mem w) of
        (True, m) \<Rightarrow> Inr (next_addr w, w\<lparr>mem := m, next_addr := next_addr w + max 1 sz\<rparr>)
      | (False, m) \<Rightarrow> Inr (NULL, w\<lparr>mem := m\<rparr>))"

text \<open>task.c: the number of tasks started and not finished.\<close>

definition task_get_running_count :: "32 word W" where
  "task_get_running_count = gets task_count"

definition xmalloc_round :: "int \<Rightarrow> addr \<Rightarrow> (addr + addr) W" where
  "xmalloc_round sz ptr =
     (if ptr \<noteq> NULL then ret (Inr ptr) else
      bnd task_get_running_count (\<lambda>n.
      if n = 0 then fail Out_of_memory else
      bnd (malloc sz) (\<lambda>ptr'. ret (Inl ptr'))))"

text \<open>Each round uses up one scheduled outcome, so the schedule bounds the rounds.\<close>

definition xmalloc :: "int \<Rightarrow> addr W" where
  "xmalloc sz =
     bnd (malloc sz) (\<lambda>ptr.
     bnd (gets (\<lambda>w. length (mem w) + 2)) (\<lambda>n.
     loopM n (xmalloc_round sz) ptr))"

text \<open>An allocation inside Collections-C, and a hash table operation inside the program.\<close>

definition calloc_ok :: "bool W" where
  "calloc_ok = zoom mem (\<lambda>m w. w\<lparr>mem := m\<rparr>) draw_block"

definition in_table :: "(mem_schedule, 'a) M \<Rightarrow> 'a W" where
  "in_table = zoom mem (\<lambda>m w. w\<lparr>mem := m\<rparr>)"

section \<open>What they do\<close>

lemma malloc_Inr:
  "malloc sz w = Inr (p, w') \<Longrightarrow>
   p = NULL \<and> w' = w\<lparr>mem := mem w'\<rparr> \<or>
   p = next_addr w \<and> w' = w\<lparr>mem := mem w', next_addr := next_addr w + max 1 sz\<rparr>"
  by (auto simp: malloc_def split: prod.splits bool.splits)

lemma malloc_mono:
  "malloc sz w = Inr (p, w') \<Longrightarrow> next_addr w \<le> next_addr w' \<and> task_count w' = task_count w"
  by (auto simp: malloc_def split: prod.splits bool.splits)

lemma malloc_Nil:
  "mem w = [] \<Longrightarrow> malloc sz w = Inr (next_addr w, w\<lparr>next_addr := next_addr w + max 1 sz\<rparr>)"
  by (simp add: malloc_def)

lemma xmalloc_loop_total:
  assumes "length (mem w) + 2 \<le> n" and "0 < next_addr w"
  shows "(\<exists>p w'. loopM n (xmalloc_round sz) ptr w = Inr (p, w') \<and> p \<noteq> NULL) \<or>
    (loopM n (xmalloc_round sz) ptr w = Inl Out_of_memory \<and> task_count w = 0)"
  using assms
proof (induction n arbitrary: w ptr)
  case 0
  then show ?case by simp
next
  case (Suc n)
  show ?case
  proof (cases "ptr = NULL")
    case False
    then show ?thesis by (simp add: xmalloc_round_def bnd_def ret_def)
  next
    case ptr: True
    show ?thesis
    proof (cases "task_count w = 0")
      case True
      then show ?thesis using ptr
        by (simp add: xmalloc_round_def task_get_running_count_def bnd_def gets_def fail_def)
    next
      case tc: False
      show ?thesis
      proof (cases "mem w")
        case Nil
        then obtain n' where "n = Suc n'" using Suc.prems(1) by (cases n) auto
        with ptr tc Nil Suc.prems(2) show ?thesis
          by (simp add: xmalloc_round_def task_get_running_count_def malloc_def bnd_def gets_def ret_def)
      next
        case (Cons b m)
        define p' where "p' = (if b then next_addr w else NULL)"
        define w1 where "w1 = (if b then w\<lparr>mem := m, next_addr := next_addr w + max 1 sz\<rparr> else w\<lparr>mem := m\<rparr>)"
        have step: "loopM (Suc n) (xmalloc_round sz) ptr w = loopM n (xmalloc_round sz) p' w1"
          using ptr tc Cons
          by (simp add: xmalloc_round_def task_get_running_count_def malloc_def bnd_def gets_def ret_def
              p'_def w1_def)
        have "length (mem w1) + 2 \<le> n" "0 < next_addr w1" "task_count w1 = task_count w"
          using Suc.prems Cons by (auto simp: w1_def)
        with Suc.IH [of w1 p'] step show ?thesis by simp
      qed
    qed
  qed
qed

lemma xmalloc_total:
  assumes "0 < next_addr w"
  shows "(\<exists>p w'. xmalloc sz w = Inr (p, w') \<and> p \<noteq> NULL) \<or>
    (xmalloc sz w = Inl Out_of_memory \<and> task_count w = 0)"
proof -
  obtain p w1 where m: "malloc sz w = Inr (p, w1)"
    by (cases "draw (mem w)"; cases "fst (draw (mem w))") (auto simp: malloc_def)
  then have w1: "0 < next_addr w1" "task_count w1 = task_count w"
    using assms malloc_mono [OF m] by auto
  have "xmalloc sz w = loopM (length (mem w1) + 2) (xmalloc_round sz) p w1"
    using m by (simp add: xmalloc_def bnd_def gets_def)
  with xmalloc_loop_total [where w = w1 and n = "length (mem w1) + 2" and ptr = p and sz = sz] w1
  show ?thesis by (simp del: loopM.simps)
qed

lemma xmalloc_Nil:
  assumes "mem w = []" and "next_addr w \<noteq> 0"
  shows "xmalloc sz w = Inr (next_addr w, w\<lparr>next_addr := next_addr w + max 1 sz\<rparr>)"
  using assms
  by (simp add: xmalloc_def bnd_def gets_def malloc_Nil xmalloc_round_def ret_def numeral_2_eq_2)

lemma xmalloc_not_NULL: "hoare P (xmalloc sz) (\<lambda>p _. p \<noteq> NULL)"
proof -
  have body: "hoare (\<lambda>_. True) (xmalloc_round sz p) (\<lambda>r _. case r of Inl q \<Rightarrow> True | Inr q \<Rightarrow> q \<noteq> NULL)" for p
    by (rule hoareI)
      (auto simp: xmalloc_round_def task_get_running_count_def bnd_Inr split: if_splits)
  have l: "hoare (\<lambda>_. True) (loopM n (xmalloc_round sz) p) (\<lambda>p _. p \<noteq> NULL)" for n p
    by (rule hoare_loopM [OF body])
  show ?thesis
    unfolding xmalloc_def
    by (rule hoareI) (auto simp: bnd_Inr simp del: loopM.simps dest: hoareD [OF l, rotated])
qed

text \<open>Allocation touches nothing but the allocator.\<close>


lemma keeps_malloc [keeps_intros]:
  assumes "\<And>w m a. f (w\<lparr>mem := m, next_addr := a\<rparr>) = f w"
  shows "keeps f (malloc sz)"
proof (rule keepsI)
  fix w x w' assume "malloc sz w = Inr (x, w')"
  moreover have "w\<lparr>mem := m\<rparr> = w\<lparr>mem := m, next_addr := next_addr w\<rparr>" for m
    by (cases w) simp
  ultimately obtain m a where "w' = w\<lparr>mem := m, next_addr := a\<rparr>"
    using malloc_Inr by metis
  then show "f w' = f w" using assms by simp
qed

lemma keeps_xmalloc:
  assumes "\<And>w m a. f (w\<lparr>mem := m, next_addr := a\<rparr>) = f w"
  shows "keeps f (xmalloc sz)"
  unfolding xmalloc_def xmalloc_round_def task_get_running_count_def
  by (intro keeps_intros assms)

lemma in_table_Inr:
  "in_table m w = Inr (x, w') \<longleftrightarrow> (\<exists>t. m (mem w) = Inr (x, t) \<and> w' = w\<lparr>mem := t\<rparr>)"
  by (auto simp: in_table_def zoom_Inr)

lemma calloc_ok_Inr:
  "calloc_ok w = Inr (b, w') \<longleftrightarrow> b = fst (draw (mem w)) \<and> w' = w\<lparr>mem := snd (draw (mem w))\<rparr>"
  by (auto simp: calloc_ok_def zoom_Inr draw_block_def prod_eq_iff)

lemma keeps_in_table: "(\<And>w m. f (w\<lparr>mem := m\<rparr>) = f w) \<Longrightarrow> keeps f (in_table op)"
  by (auto simp: keeps_def in_table_Inr)

lemma keeps_calloc_ok: "(\<And>w m. f (w\<lparr>mem := m\<rparr>) = f w) \<Longrightarrow> keeps f calloc_ok"
  by (auto simp: keeps_def calloc_ok_Inr)

section \<open>Properties\<close>

lemma malloc_block: "hoare (\<lambda>w. a \<le> next_addr w) (malloc sz)
    (\<lambda>p w. (p = NULL \<or> a \<le> p \<and> p + max 1 sz \<le> next_addr w) \<and> a \<le> next_addr w)"
  by (auto simp: hoare_def malloc_def split: prod.splits bool.splits)

lemma xmalloc_fresh_block:
  "hoare (\<lambda>w. a \<le> next_addr w) (xmalloc sz) (\<lambda>p w. p = NULL \<or> a \<le> p \<and> p + max 1 sz \<le> next_addr w)"
proof -
  let ?I = "\<lambda>p w. (p = NULL \<or> a \<le> p \<and> p + max 1 sz \<le> next_addr w) \<and> a \<le> next_addr w"
  have round: "hoare (?I p) (xmalloc_round sz p) (\<lambda>r w. case r of Inl q \<Rightarrow> ?I q w | Inr q \<Rightarrow> ?I q w)" for p
    by (rule hoareI)
      (auto simp: xmalloc_round_def task_get_running_count_def bnd_Inr split: if_splits
        dest: hoareD [OF malloc_block, rotated])
  have loop: "hoare (?I p) (loopM n (xmalloc_round sz) p) ?I" for n p
    by (rule hoare_loopM [OF round])
  show ?thesis
  proof (rule hoareI)
    fix w p w' assume a: "a \<le> next_addr w" and run: "xmalloc sz w = Inr (p, w')"
    from run obtain q w1 n where q: "malloc sz w = Inr (q, w1)" "loopM n (xmalloc_round sz) q w1 = Inr (p, w')"
      by (auto simp: xmalloc_def bnd_Inr simp del: loopM.simps)
    from hoareD [OF loop hoareD [OF malloc_block a q(1)] q(2)]
    show "p = NULL \<or> a \<le> p \<and> p + max 1 sz \<le> next_addr w'" by simp
  qed
qed

text \<open>\<open>xmalloc\<close> always comes to an end, however often \<open>malloc\<close> fails: it returns a block that is not NULL
  and lies beyond everything handed out before, or the program exits because no task is left that could free memory.\<close>

lemma xmalloc_returns_or_exits:
  assumes "0 < next_addr w"
  shows "(\<exists>p w'. xmalloc sz w = Inr (p, w') \<and> p \<noteq> NULL \<and> next_addr w \<le> p \<and> p + max 1 sz \<le> next_addr w') \<or>
    (xmalloc sz w = Inl Out_of_memory \<and> task_count w = 0)"
  using xmalloc_total [OF assms, of sz] hoareD [OF xmalloc_fresh_block, of "next_addr w" w sz] by fastforce

end
