(* ===== verification/Locker.thy ===== *)
theory Locker
  imports Memory
begin

text \<open>
  src/idlock.c and src/locker.c. An \<open>idlock_t\<close> is a recursive mutex with a unique number;
  \<open>locker_start\<close> takes up to four locks at once, in the order of their numbers and each once, and
  pushes them as one entry on the thread's own stack; \<open>locker_end\<close> releases the top entry.

  \<open>isort\<close> and \<open>remove_duplicate_complocks\<close> work on an array in place, as in C; the lemmas show that
  they sort and that they leave one lock of each number. \<open>at_locks\<close> and \<open>in_section\<close> are the
  assertions with which the later theories prove that every operation of the collector leaves
  the mutexes and the stack as it found them.
\<close>

section \<open>idlock.c\<close>

record idlock =
  il_id :: "64 word"
  il_ref :: lockref

definition idlock_init :: "64 word W" where
  "idlock_init =
     bnd (gets id_count) (\<lambda>i. bnd (modify (\<lambda>w. w\<lparr>id_count := id_count w + 1\<rparr>)) (\<lambda>_. ret i))"

definition idlock_compare :: "idlock \<Rightarrow> idlock \<Rightarrow> int" where
  "idlock_compare lock1 lock2 =
     (if il_id lock1 < il_id lock2 then -1 else if il_id lock1 > il_id lock2 then 1 else 0)"

definition idlock_equals :: "idlock \<Rightarrow> idlock \<Rightarrow> bool" where
  "idlock_equals c1 c2 \<longleftrightarrow> il_id c1 = il_id c2"

text \<open>The mutex is recursive: its owner and how often the owner has taken it beyond the first
  time. A mutex of another thread makes the caller wait.\<close>

definition mtx_lock :: "lockref \<Rightarrow> unit W" where
  "mtx_lock r w =
     (case mutexes w r of
        None \<Rightarrow> Inr ((), w\<lparr>mutexes := (mutexes w)(r \<mapsto> (self w, 0))\<rparr>)
      | Some (t, n) \<Rightarrow>
          if t = self w then Inr ((), w\<lparr>mutexes := (mutexes w)(r \<mapsto> (t, n + 1))\<rparr>)
          else Inl Would_block)"

text \<open>Releasing a mutex one does not hold is an error code, which the caller drops.\<close>

definition mtx_unlock :: "lockref \<Rightarrow> unit W" where
  "mtx_unlock r w =
     (case mutexes w r of
        None \<Rightarrow> Inr ((), w)
      | Some (t, n) \<Rightarrow>
          if t = self w
          then Inr ((), w\<lparr>mutexes := (mutexes w)(r := (if n = 0 then None else Some (t, n - 1)))\<rparr>)
          else Inr ((), w))"

text \<open>Following a \<open>lockable_t *\<close> to its lock.\<close>

definition deref_lock :: "lockref \<Rightarrow> idlock W" where
  "deref_lock r =
     (case r of
        LObj p \<Rightarrow> bnd (get_obj p) (\<lambda>ob. ret \<lparr>il_id = o_lock ob, il_ref = r\<rparr>)
      | LColl p \<Rightarrow> bnd (get_coll p) (\<lambda>c. ret \<lparr>il_id = co_lock c, il_ref = r\<rparr>)
      | LSafe s \<Rightarrow> bnd (get_sl s) (\<lambda>sl. ret \<lparr>il_id = sl_lock sl, il_ref = r\<rparr>))"

definition is_NULL_lock :: "lockref \<Rightarrow> bool" where
  "is_NULL_lock r \<longleftrightarrow> r = LObj NULL \<or> r = LColl NULL"

definition idlock_lock :: "idlock \<Rightarrow> unit W" where
  "idlock_lock c = bnd (deref_lock (il_ref c)) (\<lambda>_. mtx_lock (il_ref c))"

definition idlock_unlock :: "lockref \<Rightarrow> unit W" where
  "idlock_unlock r = bnd (deref_lock r) (\<lambda>_. mtx_unlock r)"

section \<open>locker.c\<close>

definition locker_create :: "locker W" where
  "locker_create =
     bnd (xmalloc sizeof_locker) (\<lambda>_.
     bnd calloc_ok (\<lambda>ok. ret \<lparr>stack = (if ok then Some [] else None)\<rparr>))"

definition stack_of :: "locker \<Rightarrow> locker_entry list W" where
  "stack_of lk = (case stack lk of None \<Rightarrow> fail Undefined_behaviour | Some st \<Rightarrow> ret st)"

definition locker_setup :: "unit W" where
  "locker_setup =
     bnd locker_create (\<lambda>l. modify (\<lambda>w. w\<lparr>lockers := (lockers w)(self w \<mapsto> l)\<rparr>))"

text \<open>The pointer \<open>current_locks\<close> dangles afterwards, which is NULL to the next access here.\<close>

definition locker_teardown :: "unit W" where
  "locker_teardown =
     bnd (gets (\<lambda>w. lockers w (self w))) (\<lambda>l.
     case l of
       None \<Rightarrow> fail Bad_pointer
     | Some lk \<Rightarrow>
         bnd (stack_of lk) (\<lambda>_. modify (\<lambda>w. w\<lparr>lockers := (lockers w)(self w := None)\<rparr>)))"

definition locker_entry_create :: "locker_entry W" where
  "locker_entry_create = bnd (xmalloc sizeof_locker_entry) (\<lambda>_. ret [])"

definition locker_entry_add :: "locker_entry \<Rightarrow> lockref \<Rightarrow> locker_entry W" where
  "locker_entry_add le elem =
     (if length le < 4 then ret (le @ [elem]) else fail Undefined_behaviour)"

text \<open>The inner loop of the insertion sort; the last argument is \<open>j + 1\<close>.\<close>

fun isort_shift :: "idlock list \<Rightarrow> idlock \<Rightarrow> nat \<Rightarrow> idlock list" where
  "isort_shift arr key 0 = arr[0 := key]"
| "isort_shift arr key (Suc j) =
     (if idlock_compare (arr ! j) key = 1
      then isort_shift (arr[Suc j := arr ! j]) key j
      else arr[Suc j := key])"

fun isort_from :: "idlock list \<Rightarrow> nat list \<Rightarrow> idlock list" where
  "isort_from arr [] = arr"
| "isort_from arr (i # is) = isort_from (isort_shift arr (arr ! i) i) is"

definition isort :: "idlock list \<Rightarrow> idlock list" where
  "isort arr = isort_from arr [1..<length arr]"

fun dedup_from :: "idlock list \<Rightarrow> nat \<Rightarrow> nat list \<Rightarrow> idlock list \<times> nat" where
  "dedup_from nums r [] = (nums, r)"
| "dedup_from nums r (i # is) =
     (if idlock_compare (nums ! r) (nums ! i) \<noteq> 0
      then dedup_from (nums[Suc r := nums ! i]) (Suc r) is
      else dedup_from nums r is)"

text \<open>The prefix of the array that the returned count keeps.\<close>

definition remove_duplicate_complocks :: "idlock list \<Rightarrow> idlock list" where
  "remove_duplicate_complocks nums =
     (if nums = [] then []
      else case dedup_from nums 0 [1..<length nums] of (nums', r) \<Rightarrow> take (r + 1) nums')"

fun filter_locks :: "lockref list \<Rightarrow> idlock list W" where
  "filter_locks [] = ret []"
| "filter_locks (r # rs) =
     (if is_NULL_lock r then filter_locks rs
      else bnd (deref_lock r) (\<lambda>l. bnd (filter_locks rs) (\<lambda>ls. ret (l # ls))))"

fun lock_each :: "idlock list \<Rightarrow> locker_entry \<Rightarrow> locker_entry W" where
  "lock_each [] le = ret le"
| "lock_each (l # ls) le =
     bnd (idlock_lock l) (\<lambda>_. bnd (locker_entry_add le (il_ref l)) (\<lambda>le'. lock_each ls le'))"

text \<open>\<open>list_add_last\<close> on the stack; its status is not looked at.\<close>

definition push_entry :: "locker_entry \<Rightarrow> unit W" where
  "push_entry le =
     bnd (gets (\<lambda>w. lockers w (self w))) (\<lambda>l.
     case l of
       None \<Rightarrow> fail Bad_pointer
     | Some lk \<Rightarrow>
         bnd (stack_of lk) (\<lambda>st.
         bnd calloc_ok (\<lambda>ok.
         whenM ok (modify (\<lambda>w. w\<lparr>lockers := (lockers w)(self w \<mapsto> \<lparr>stack = Some (st @ [le])\<rparr>)\<rparr>)))))"

definition lock_order :: "idlock list \<Rightarrow> idlock list" where
  "lock_order filtered =
     (if length filtered > 1 then remove_duplicate_complocks (isort filtered) else filtered)"

definition locker_start :: "lockref list \<Rightarrow> unit W" where
  "locker_start locks =
     bnd (filter_locks locks) (\<lambda>filtered.
     bnd locker_entry_create (\<lambda>new_locks.
     bnd (lock_each (lock_order filtered) new_locks) push_entry))"

definition locker_start1 :: "lockref \<Rightarrow> unit W" where
  "locker_start1 lock = locker_start [lock]"

definition locker_start2 :: "lockref \<Rightarrow> lockref \<Rightarrow> unit W" where
  "locker_start2 lock1 lock2 = locker_start [lock1, lock2]"

definition locker_start3 :: "lockref \<Rightarrow> lockref \<Rightarrow> lockref \<Rightarrow> unit W" where
  "locker_start3 lock1 lock2 lock3 = locker_start [lock1, lock2, lock3]"

definition locker_start4 :: "lockref \<Rightarrow> lockref \<Rightarrow> lockref \<Rightarrow> lockref \<Rightarrow> unit W" where
  "locker_start4 lock1 lock2 lock3 lock4 = locker_start [lock1, lock2, lock3, lock4]"

text \<open>\<open>list_remove_last\<close> on an empty stack leaves the NULL entry in place, which is then read.\<close>

definition locker_end :: "unit W" where
  "locker_end =
     bnd (gets (\<lambda>w. lockers w (self w))) (\<lambda>l.
     case l of
       None \<Rightarrow> fail Bad_pointer
     | Some lk \<Rightarrow>
         bnd (stack_of lk) (\<lambda>st.
         if st = [] then fail Bad_pointer
         else
           bnd (modify (\<lambda>w. w\<lparr>lockers := (lockers w)(self w \<mapsto> \<lparr>stack = Some (butlast st)\<rparr>)\<rparr>))
             (\<lambda>_. forM (last st) idlock_unlock)))"

section \<open>Sorting the locks\<close>

text \<open>Insertion into an array that is sorted downwards: what the inner loop does, read from the
  right.\<close>

fun insert_down :: "idlock \<Rightarrow> idlock list \<Rightarrow> idlock list" where
  "insert_down key [] = [key]"
| "insert_down key (l # ls) = (if il_id l > il_id key then l # insert_down key ls else key # l # ls)"

lemma mset_insert_down: "mset (insert_down key ls) = add_mset key (mset ls)"
  by (induction ls) auto

lemma set_insert_down: "set (insert_down key ls) = insert key (set ls)"
  by (induction ls) auto

lemma sorted_insert_down:
  "sorted_wrt (\<lambda>a b. il_id a \<ge> il_id b) ls \<Longrightarrow> sorted_wrt (\<lambda>a b. il_id a \<ge> il_id b) (insert_down key ls)"
  by (induction ls) (auto simp: set_insert_down)

lemma idlock_compare_1: "idlock_compare a b = 1 \<longleftrightarrow> il_id a > il_id b"
  by (auto simp: idlock_compare_def)

lemma idlock_compare_0: "idlock_compare a b = 0 \<longleftrightarrow> il_id a = il_id b"
  by (auto simp: idlock_compare_def)

lemma isort_shift_insert:
  "j < length arr \<Longrightarrow>
   isort_shift arr key j = rev (insert_down key (rev (take j arr))) @ drop (Suc j) arr"
proof (induction j arbitrary: arr)
  case 0
  then show ?case by (cases arr) auto
next
  case (Suc j)
  have taken: "take (Suc j) arr = take j arr @ [arr ! j]"
    using Suc.prems by (simp add: take_Suc_conv_app_nth)
  show ?case
  proof (cases "idlock_compare (arr ! j) key = 1")
    case True
    have "drop (Suc j) (arr[Suc j := arr ! j]) = arr ! j # drop (Suc (Suc j)) arr"
      using Suc.prems by (metis Cons_nth_drop_Suc drop_update_cancel length_list_update lessI nth_list_update_eq)
    with Suc.IH [of "arr[Suc j := arr ! j]"] Suc.prems True taken show ?thesis
      by (simp add: idlock_compare_1)
  next
    case False
    then have "insert_down key (rev (take (Suc j) arr)) = key # rev (take (Suc j) arr)"
      by (simp add: taken idlock_compare_1)
    with False show ?thesis
      using Suc.prems by (simp add: upd_conv_take_nth_drop)
  qed
qed

lemma isort_from_sorts:
  assumes "i \<le> length arr" and "sorted (map il_id (take i arr))"
  shows "sorted (map il_id (isort_from arr [i..<length arr])) \<and>
    mset (isort_from arr [i..<length arr]) = mset arr"
  using assms
proof (induction "length arr - i" arbitrary: i arr)
  case 0
  then show ?case by simp
next
  case (Suc d)
  then have i: "i < length arr" by simp
  let ?arr = "isort_shift arr (arr ! i) i"
  have eq: "?arr = rev (insert_down (arr ! i) (rev (take i arr))) @ drop (Suc i) arr"
    using isort_shift_insert [OF i] .
  have len: "length (insert_down key ls) = Suc (length ls)" for key ls
    by (induction ls) auto
  have len': "length ?arr = length arr" unfolding eq using i by (simp add: len)
  have ms: "mset ?arr = mset arr"
  proof -
    have "mset ?arr = mset (take i arr @ arr ! i # drop (Suc i) arr)"
      unfolding eq by (simp add: mset_insert_down)
    then show ?thesis using i by (simp add: id_take_nth_drop [symmetric])
  qed
  have "sorted_wrt (\<lambda>a b. il_id a \<ge> il_id b) (rev (take i arr))"
    using Suc.prems(2) by (simp add: sorted_wrt_rev sorted_map)
  then have "sorted (map il_id (rev (insert_down (arr ! i) (rev (take i arr)))))"
    using sorted_insert_down by (simp add: sorted_map sorted_wrt_rev)
  then have "sorted (map il_id (take (Suc i) ?arr))"
    unfolding eq using i by (simp add: len)
  from Suc.hyps(1) [of ?arr "Suc i"] this len' i Suc.hyps(2) ms
  show ?case by (simp add: upt_conv_Cons)
qed

lemma isort_sorts: "sorted (map il_id (isort arr)) \<and> mset (isort arr) = mset arr"
proof (cases arr)
  case Nil
  then show ?thesis by (simp add: isort_def)
next
  case (Cons l ls)
  then show ?thesis unfolding isort_def by (intro isort_from_sorts) simp_all
qed

text \<open>The loop that keeps one lock of each number, on a sorted array \<open>nums\<close>.\<close>

definition dedup_inv :: "idlock list \<Rightarrow> nat \<Rightarrow> idlock list \<Rightarrow> nat \<Rightarrow> bool" where
  "dedup_inv nums i nums' r \<longleftrightarrow>
     length nums' = length nums \<and> r < i \<and> i \<le> length nums \<and>
     drop i nums' = drop i nums \<and>
     sorted_wrt (<) (map il_id (take (Suc r) nums')) \<and>
     set (take (Suc r) nums') \<subseteq> set (take i nums) \<and>
     il_id ` set (take (Suc r) nums') = il_id ` set (take i nums)"

lemma dedup_from_inv:
  assumes "sorted (map il_id nums)" and "dedup_inv nums i nums' r"
    and "dedup_from nums' r [i..<length nums] = (res, r')"
  shows "dedup_inv nums (length nums) res r'"
  using assms(2,3)
proof (induction "length nums - i" arbitrary: i nums' r)
  case 0
  then show ?case by (auto simp: dedup_inv_def)
next
  case (Suc d)
  then have i: "i < length nums" by simp
  note inv = Suc.prems(1) [unfolded dedup_inv_def]
  have here: "nums' ! i = nums ! i"
    using inv i by (metis drop_eq_nths Cons_nth_drop_Suc list.inject)
  have here': "drop (Suc i) nums' = drop (Suc i) nums"
    using inv i by (metis Cons_nth_drop_Suc list.inject)
  have taken: "take (Suc i) nums = take i nums @ [nums ! i]"
    using i by (simp add: take_Suc_conv_app_nth)
  have r: "r < length nums'" using inv i by simp
  have kept: "take (Suc r) nums' = take r nums' @ [nums' ! r]"
    using r by (simp add: take_Suc_conv_app_nth)
  have rest: "[i..<length nums] = i # [Suc i..<length nums]" using i by (simp add: upt_conv_Cons)
  have below: "il_id l \<le> il_id (nums ! i)" if "l \<in> set (take i nums)" for l
  proof -
    from that obtain j where "j < i" "l = nums ! j" using i by (auto simp: in_set_conv_nth)
    with assms(1) i show ?thesis by (simp add: sorted_iff_nth_mono)
  qed
  show ?case
  proof (cases "idlock_compare (nums' ! r) (nums' ! i) \<noteq> 0")
    case False
    then have same: "il_id (nums ! i) = il_id (nums' ! r)" by (simp add: idlock_compare_0 here)
    then have "il_id (nums ! i) \<in> il_id ` set (take (Suc r) nums')" by (simp add: kept)
    then have "dedup_inv nums (Suc i) nums' r"
      unfolding dedup_inv_def using inv i here' taken by auto
    moreover have "dedup_from nums' r [Suc i..<length nums] = (res, r')"
      using Suc.prems(2) False by (simp add: rest)
    ultimately show ?thesis using Suc.hyps by (intro Suc.hyps(1)) auto
  next
    case True
    let ?nums = "nums'[Suc r := nums' ! i]"
    have "nums' ! r \<in> set (take i nums)" using inv kept by auto
    then have gt: "il_id (nums' ! r) < il_id (nums ! i)"
      using below True here by (force simp: idlock_compare_0)
    have new: "take (Suc (Suc r)) ?nums = take (Suc r) nums' @ [nums ! i]"
      using r inv i here by (simp add: take_Suc_conv_app_nth)
    have srt: "sorted_wrt (<) (map il_id (take (Suc r) nums' @ [nums ! i]))"
    proof -
      have "il_id l \<le> il_id (nums' ! r)" if "l \<in> set (take (Suc r) nums')" for l
        using inv that unfolding kept by (auto simp: sorted_wrt_append)
      with gt inv show ?thesis by (fastforce simp: sorted_wrt_append)
    qed
    have "drop (Suc i) ?nums = drop (Suc i) nums" using inv here' by simp
    then have "dedup_inv nums (Suc i) ?nums (Suc r)"
      unfolding dedup_inv_def new using inv i taken srt by auto
    moreover have "dedup_from ?nums (Suc r) [Suc i..<length nums] = (res, r')"
      using Suc.prems(2) True by (simp add: rest)
    ultimately show ?thesis using Suc.hyps by (intro Suc.hyps(1)) auto
  qed
qed

lemma remove_duplicates_sorted:
  assumes "sorted (map il_id nums)"
  shows "sorted_wrt (<) (map il_id (remove_duplicate_complocks nums)) \<and>
    set (remove_duplicate_complocks nums) \<subseteq> set nums \<and>
    il_id ` set (remove_duplicate_complocks nums) = il_id ` set nums"
proof (cases "nums = []")
  case True
  then show ?thesis by (simp add: remove_duplicate_complocks_def)
next
  case False
  obtain res r where d: "dedup_from nums 0 [1..<length nums] = (res, r)" by fastforce
  have "dedup_inv nums 1 nums 0"
    using False by (cases nums) (auto simp: dedup_inv_def)
  from dedup_from_inv [OF assms this d] show ?thesis
    using False d by (simp add: dedup_inv_def remove_duplicate_complocks_def)
qed

lemma lock_order_ok:
  "sorted_wrt (<) (map il_id (lock_order ls)) \<and> set (lock_order ls) \<subseteq> set ls \<and>
   il_id ` set (lock_order ls) = il_id ` set ls"
proof (cases "length ls > 1")
  case True
  have "set (isort ls) = set ls" using isort_sorts [of ls] by (metis set_mset_mset)
  then show ?thesis
    using True remove_duplicates_sorted [of "isort ls"] isort_sorts [of ls] by (simp add: lock_order_def)
next
  case False
  then have "ls = [] \<or> (\<exists>l. ls = [l])" by (cases ls) auto
  then show ?thesis by (auto simp: lock_order_def)
qed

section \<open>Lock sections\<close>

named_theorems lock_hoare

definition mtx_inc :: "thread_id \<Rightarrow> lockref \<Rightarrow> (lockref \<Rightarrow> (thread_id \<times> nat) option) \<Rightarrow>
    lockref \<Rightarrow> (thread_id \<times> nat) option" where
  "mtx_inc t r mx = mx(r \<mapsto> (case mx r of None \<Rightarrow> (t, 0) | Some (u, n) \<Rightarrow> (u, n + 1)))"

definition mtx_dec :: "thread_id \<Rightarrow> lockref \<Rightarrow> (lockref \<Rightarrow> (thread_id \<times> nat) option) \<Rightarrow>
    lockref \<Rightarrow> (thread_id \<times> nat) option" where
  "mtx_dec t r mx =
     (case mx r of
        None \<Rightarrow> mx
      | Some (u, n) \<Rightarrow> if u = t then mx(r := (if n = 0 then None else Some (u, n - 1))) else mx)"

definition can_take :: "thread_id \<Rightarrow> (thread_id \<times> nat) option \<Rightarrow> bool" where
  "can_take t m \<longleftrightarrow> (\<forall>u n. m = Some (u, n) \<longrightarrow> u = t)"

lemma mtx_lock_Inr:
  "mtx_lock r w = Inr (x, w') \<longleftrightarrow>
     can_take (self w) (mutexes w r) \<and> w' = w\<lparr>mutexes := mtx_inc (self w) r (mutexes w)\<rparr>"
  by (auto simp: mtx_lock_def mtx_inc_def can_take_def split: option.splits)

lemma mtx_unlock_Inr:
  "mtx_unlock r w = Inr (x, w') \<longleftrightarrow> w' = w\<lparr>mutexes := mtx_dec (self w) r (mutexes w)\<rparr>"
  by (cases w) (auto simp: mtx_unlock_def mtx_dec_def split: option.splits)

lemma mtx_dec_inc:
  assumes "can_take t (mx r)"
  shows "mtx_dec t r (mtx_inc t r mx) = mx"
proof (cases "mx r")
  case None
  then show ?thesis by (intro ext) (simp add: mtx_dec_def mtx_inc_def)
next
  case (Some un)
  then obtain n where "mx r = Some (t, n)" using assms by (cases un) (simp add: can_take_def)
  then show ?thesis by (intro ext) (simp add: mtx_dec_def mtx_inc_def)
qed

lemma can_take_inc: "can_take t (mx s) \<Longrightarrow> can_take t (mtx_inc t r mx s)"
  by (auto simp: mtx_inc_def can_take_def split: option.splits)

lemma mtx_dec_inc_commute:
  assumes "can_take t (mx s)" and "mx r \<noteq> None"
  shows "mtx_dec t r (mtx_inc t s mx) = mtx_inc t s (mtx_dec t r mx)"
proof -
  from assms(2) obtain u n where r: "mx r = Some (u, n)" by auto
  show ?thesis
  proof (cases "r = s")
    case True
    with r assms(1) show ?thesis by (auto simp: mtx_dec_def mtx_inc_def can_take_def)
  next
    case False
    with r show ?thesis
      by (cases "mx s") (auto simp: mtx_dec_def mtx_inc_def fun_upd_twist)
  qed
qed

lemma mtx_inc_Some: "mx r = Some v \<Longrightarrow> \<exists>a b. mtx_inc t s mx r = Some (a, b)"
  by (auto simp: mtx_inc_def split: option.splits)

lemma can_take_inc_self:
  "can_take t (mx r) \<Longrightarrow> can_take t (Some (case mx r of None \<Rightarrow> (t, 0) | Some (u, n) \<Rightarrow> (u, n + 1)))"
  by (auto simp: can_take_def split: option.splits)

lemma dec_fold_inc:
  assumes "\<forall>s\<in>set rs. can_take t (mx s)" and "mx r \<noteq> None"
  shows "mtx_dec t r (fold (mtx_inc t) rs mx) = fold (mtx_inc t) rs (mtx_dec t r mx)"
  using assms
proof (induction rs arbitrary: mx)
  case Nil
  then show ?case by simp
next
  case (Cons s rs)
  have "mtx_dec t r (fold (mtx_inc t) rs (mtx_inc t s mx)) =
      fold (mtx_inc t) rs (mtx_dec t r (mtx_inc t s mx))"
    by (rule Cons.IH) (use Cons.prems in \<open>auto intro: can_take_inc mtx_inc_Some\<close>)
  then show ?case using Cons.prems by (simp add: mtx_dec_inc_commute)
qed

text \<open>Releasing a group of locks undoes taking it, even with a lock twice in the group.\<close>

lemma release_taken:
  assumes "\<forall>s\<in>set rs. can_take t (mx s)"
  shows "fold (mtx_dec t) rs (fold (mtx_inc t) rs mx) = mx"
  using assms
proof (induction rs arbitrary: mx)
  case Nil
  then show ?case by simp
next
  case (Cons r rs)
  have "mtx_dec t r (fold (mtx_inc t) rs (mtx_inc t r mx)) =
      fold (mtx_inc t) rs (mtx_dec t r (mtx_inc t r mx))"
    by (rule dec_fold_inc)
      (use Cons.prems in \<open>auto intro: can_take_inc can_take_inc_self simp: mtx_inc_def\<close>)
  then show ?case using Cons by (simp add: mtx_dec_inc)
qed

text \<open>A part of the memory that neither locks nor the allocator write.\<close>

definition lock_free :: "(world \<Rightarrow> 'v) \<Rightarrow> bool" where
  "lock_free f \<longleftrightarrow> (\<forall>w x l a m.
     f (w\<lparr>mutexes := x\<rparr>) = f w \<and> f (w\<lparr>lockers := l\<rparr>) = f w \<and>
     f (w\<lparr>mem := m\<rparr>) = f w \<and> f (w\<lparr>mem := m, next_addr := a\<rparr>) = f w)"

lemma lock_free_fields [simp]:
  "lock_free objs" "lock_free lnks" "lock_free colls" "lock_free ctrs" "lock_free tsks"
  "lock_free id_count" "lock_free num_collector" "lock_free acid_world_count"
  "lock_free acid_collect_count" "lock_free self" "lock_free work" "lock_free endtime"
  "lock_free task_count" "lock_free zero_broadcasts" "lock_free dtor_calls" "lock_free fuel"
  by (simp_all add: lock_free_def)

lemma lock_free_pair [simp]: "lock_free f \<Longrightarrow> lock_free g \<Longrightarrow> lock_free (\<lambda>w. (f w, g w))"
  by (simp add: lock_free_def)

lemma lock_free_comp: "lock_free f \<Longrightarrow> lock_free (\<lambda>w. h (f w))"
  by (simp add: lock_free_def)

lemma keeps_deref_lock [keeps_intros]: "keeps f (deref_lock r)"
  by (cases r) (auto simp: deref_lock_def intro: keeps_intros)

lemma deref_lock_same: "deref_lock r w = Inr (l, w') \<Longrightarrow> w' = w"
  using keepsD [OF keeps_deref_lock [where f = id]] by fastforce

lemma keeps_filter_locks [keeps_intros]: "keeps f (filter_locks rs)"
  by (induction rs) (auto intro!: keeps_intros)

lemma filter_locks_same: "filter_locks rs w = Inr (ls, w') \<Longrightarrow> w' = w"
  using keepsD [OF keeps_filter_locks [where f = id]] by fastforce

lemma keeps_locker_entry_add [keeps_intros]: "keeps f (locker_entry_add le r)"
  unfolding locker_entry_add_def by (intro keeps_intros)

lemma lock_each_Inr:
  "lock_each ls le w = Inr (le', w') \<Longrightarrow>
   le' = le @ map il_ref ls \<and>
   (\<forall>r\<in>il_ref ` set ls. can_take (self w) (mutexes w r)) \<and>
   w' = w\<lparr>mutexes := fold (mtx_inc (self w)) (map il_ref ls) (mutexes w)\<rparr>"
proof (induction ls arbitrary: le w)
  case Nil
  then show ?case by (cases w) auto
next
  case (Cons l ls)
  let ?w = "w\<lparr>mutexes := mtx_inc (self w) (il_ref l) (mutexes w)\<rparr>"
  from Cons.prems have take: "can_take (self w) (mutexes w (il_ref l))"
    and "lock_each ls (le @ [il_ref l]) ?w = Inr (le', w')"
    by (auto simp: bnd_Inr idlock_lock_def locker_entry_add_def mtx_lock_Inr
        dest!: deref_lock_same split: if_splits)
  from Cons.IH [OF this(2)] have
    "le' = (le @ [il_ref l]) @ map il_ref ls"
    "\<forall>r\<in>il_ref ` set ls. can_take (self w) (mtx_inc (self w) (il_ref l) (mutexes w) r)"
    "w' = w\<lparr>mutexes := fold (mtx_inc (self w)) (map il_ref (l # ls)) (mutexes w)\<rparr>"
    by simp_all
  moreover have "can_take (self w) (mutexes w r)"
    if "can_take (self w) (mtx_inc (self w) (il_ref l) (mutexes w) r)" for r
    using that take by (auto simp: mtx_inc_def can_take_def split: option.splits if_splits)
  ultimately show ?case using take by auto
qed

lemma idlock_unlock_Inr:
  "idlock_unlock r w = Inr (x, w') \<Longrightarrow> w' = w\<lparr>mutexes := mtx_dec (self w) r (mutexes w)\<rparr>"
  by (auto simp: idlock_unlock_def bnd_Inr mtx_unlock_Inr dest!: deref_lock_same)

lemma unlock_each_Inr:
  "forM rs idlock_unlock w = Inr (x, w') \<Longrightarrow>
   w' = w\<lparr>mutexes := fold (mtx_dec (self w)) rs (mutexes w)\<rparr>"
proof (induction rs arbitrary: w)
  case Nil
  then show ?case by (cases w) auto
next
  case (Cons r rs)
  from Cons.prems have "forM rs idlock_unlock (w\<lparr>mutexes := mtx_dec (self w) r (mutexes w)\<rparr>) = Inr (x, w')"
    by (auto simp: bnd_Inr dest!: idlock_unlock_Inr)
  from Cons.IH [OF this] show ?case by simp
qed

lemma stack_of_Inr: "stack_of lk w = Inr (st, w') \<longleftrightarrow> lk = \<lparr>stack = Some st\<rparr> \<and> w' = w"
  by (cases lk) (auto simp: stack_of_def split: option.splits)

text \<open>One entry has been pushed and its locks taken.\<close>

type_synonym lock_state =
  "(lockref \<Rightarrow> (thread_id \<times> nat) option) \<times> (thread_id \<Rightarrow> locker option)"

definition opened :: "thread_id \<Rightarrow> lock_state \<Rightarrow> lock_state \<Rightarrow> bool" where
  "opened t st st' \<longleftrightarrow>
     (\<exists>es rs. snd st t = Some \<lparr>stack = Some es\<rparr> \<and>
       (\<forall>r\<in>set rs. can_take t (fst st r)) \<and>
       st' = (fold (mtx_inc t) rs (fst st), (snd st)(t \<mapsto> \<lparr>stack = Some (es @ [rs])\<rparr>)))"

definition at_locks :: "thread_id \<Rightarrow> lock_state \<Rightarrow> world \<Rightarrow> bool" where
  "at_locks t st w \<longleftrightarrow> mem w = [] \<and> next_addr w \<noteq> 0 \<and> 0 < next_addr w \<and> self w = t \<and>
     mutexes w = fst st \<and> lockers w = snd st"

definition in_section :: "thread_id \<Rightarrow> lock_state \<Rightarrow> world \<Rightarrow> bool" where
  "in_section t st w \<longleftrightarrow> (\<exists>st'. opened t st st' \<and> at_locks t st' w)"

definition balanced :: "'a W \<Rightarrow> bool" where
  "balanced m \<longleftrightarrow> (\<forall>t st. hoare (at_locks t st) m (\<lambda>_. at_locks t st))"

lemma locker_start_opens [lock_hoare]:
  "hoare (at_locks t st) (locker_start rs) (\<lambda>_. in_section t st)"
proof (rule hoareI)
  fix w x w' assume at: "at_locks t st w" and run: "locker_start rs w = Inr (x, w')"
  let ?w = "w\<lparr>next_addr := next_addr w + max 1 sizeof_locker_entry\<rparr>"
  from at have w: "mem w = []" "next_addr w \<noteq> 0" by (simp_all add: at_locks_def)
  from run obtain fl le w2 where
    lk: "lock_each (lock_order fl) [] ?w = Inr (le, w2)" and
    push: "push_entry le w2 = Inr (x, w')"
    by (auto simp: locker_start_def bnd_Inr locker_entry_create_def xmalloc_Nil [OF w]
        dest!: filter_locks_same)
  note l = lock_each_Inr [OF lk]
  then have w2: "mem w2 = []" using w by simp
  with push obtain es where es: "lockers w2 (self w2) = Some \<lparr>stack = Some es\<rparr>"
    and w': "w' = w2\<lparr>lockers := (lockers w2)(self w2 \<mapsto> \<lparr>stack = Some (es @ [le])\<rparr>)\<rparr>"
    by (cases w2) (auto simp: push_entry_def bnd_Inr calloc_ok_Inr stack_of_Inr split: option.splits)
  have "opened t st (mutexes w', lockers w')"
    unfolding opened_def
    by (intro exI [of _ es] exI [of _ le]) (use l es w' at in \<open>auto simp: at_locks_def\<close>)
  moreover have "at_locks t (mutexes w', lockers w') w'"
    using l w' at by (auto simp: at_locks_def sizeof_locker_entry_def)
  ultimately show "in_section t st w'" unfolding in_section_def by blast
qed

lemma locker_end_closes [lock_hoare]:
  "hoare (in_section t st) locker_end (\<lambda>_. at_locks t st)"
proof (rule hoareI)
  fix w x w' assume sec: "in_section t st w" and run: "locker_end w = Inr (x, w')"
  from sec obtain es rs where lk: "snd st t = Some \<lparr>stack = Some es\<rparr>"
    and take: "\<forall>r\<in>set rs. can_take t (fst st r)"
    and at: "at_locks t (fold (mtx_inc t) rs (fst st), (snd st)(t \<mapsto> \<lparr>stack = Some (es @ [rs])\<rparr>)) w"
    by (auto simp: in_section_def opened_def)
  from at have w: "self w = t" "lockers w t = Some \<lparr>stack = Some (es @ [rs])\<rparr>"
    by (simp_all add: at_locks_def)
  let ?w = "w\<lparr>lockers := (lockers w)(t \<mapsto> \<lparr>stack = Some es\<rparr>)\<rparr>"
  from run w have "forM rs idlock_unlock ?w = Inr (x, w')"
    by (auto simp: locker_end_def bnd_Inr stack_of_Inr)
  from unlock_each_Inr [OF this] have w': "w' = ?w\<lparr>mutexes := fold (mtx_dec t) rs (mutexes w)\<rparr>"
    using w by simp
  have "mutexes w' = fst st"
    using w' at release_taken [OF take] by (simp add: at_locks_def)
  moreover have "lockers w' = snd st"
    using w' at lk by (auto simp: at_locks_def fun_eq_iff)
  ultimately show "at_locks t st w'" using w' at by (simp add: at_locks_def)
qed

lemmas locker_starts = locker_start1_def locker_start2_def locker_start3_def locker_start4_def

lemma locker_startn_opens [lock_hoare]:
  "hoare (at_locks t st) (locker_start1 a) (\<lambda>_. in_section t st)"
  "hoare (at_locks t st) (locker_start2 a b) (\<lambda>_. in_section t st)"
  "hoare (at_locks t st) (locker_start3 a b c) (\<lambda>_. in_section t st)"
  "hoare (at_locks t st) (locker_start4 a b c d) (\<lambda>_. in_section t st)"
  unfolding locker_starts by (rule locker_start_opens)+

text \<open>Inside a section any balanced operation may run.\<close>

lemma balanced_at: "balanced m \<Longrightarrow> hoare (at_locks t st) m (\<lambda>_. at_locks t st)"
  unfolding balanced_def by blast

lemma balanced_in: "balanced m \<Longrightarrow> hoare (in_section t st) m (\<lambda>_. in_section t st)"
  unfolding balanced_def in_section_def hoare_def by blast

lemma balancedI:
  "(\<And>t st. hoare (at_locks t st) m (\<lambda>_. at_locks t st)) \<Longrightarrow> balanced m"
  by (simp add: balanced_def)

definition lock_view :: "world \<Rightarrow> mem_schedule \<times> addr \<times> thread_id \<times> lock_state" where
  "lock_view w = (mem w, next_addr w, self w, mutexes w, lockers w)"

lemma keeps_balanced:
  assumes "keeps lock_view m"
  shows "balanced m"
proof (rule balancedI, rule hoareI)
  fix t st w x w' assume at: "at_locks t st w" and run: "m w = Inr (x, w')"
  from keepsD [OF assms run] have "lock_view w' = lock_view w" .
  with at show "at_locks t st w'" by (cases st) (simp add: at_locks_def lock_view_def)
qed

section \<open>Rules for composed operations\<close>

lemma keeps_mtx [keeps_intros]:
  "lock_free f \<Longrightarrow> keeps f (mtx_lock r)"
  "lock_free f \<Longrightarrow> keeps f (mtx_unlock r)"
  by (auto simp: keeps_def lock_free_def mtx_lock_Inr mtx_unlock_Inr)

lemma keeps_lock_each: "lock_free f \<Longrightarrow> keeps f (lock_each ls le)"
  by (induction ls arbitrary: le) (auto simp: idlock_lock_def intro!: keeps_intros)

lemma keeps_locker_start [keeps_intros]: "lock_free f \<Longrightarrow> keeps f (locker_start rs)"
  unfolding locker_start_def locker_entry_create_def push_entry_def stack_of_def
  by (intro keeps_intros keeps_lock_each keeps_xmalloc keeps_calloc_ok keeps_modify)
    (auto simp: lock_free_def)

lemma keeps_locker_startn [keeps_intros]:
  "lock_free f \<Longrightarrow> keeps f (locker_start1 a)"
  "lock_free f \<Longrightarrow> keeps f (locker_start2 a b)"
  "lock_free f \<Longrightarrow> keeps f (locker_start3 a b c)"
  "lock_free f \<Longrightarrow> keeps f (locker_start4 a b c d)"
  unfolding locker_starts by (auto intro: keeps_locker_start)

lemma keeps_locker_end [keeps_intros]: "lock_free f \<Longrightarrow> keeps f locker_end"
  unfolding locker_end_def idlock_unlock_def stack_of_def
  by (intro keeps_intros keeps_modify) (auto simp: lock_free_def)

lemma hoare_same:
  "keeps lock_view m \<Longrightarrow> hoare (at_locks t st) m (\<lambda>_. at_locks t st)"
  "keeps lock_view m \<Longrightarrow> hoare (in_section t st) m (\<lambda>_. in_section t st)"
  by (auto intro: balanced_at balanced_in keeps_balanced)

lemma hoare_ret_same [lock_hoare]: "hoare P (ret x) (\<lambda>_. P)"
  by (simp add: hoare_def)

lemma hoare_case_option [lock_hoare]:
  "hoare P g Q \<Longrightarrow> (\<And>y. hoare P (h y) Q) \<Longrightarrow> hoare P (case x of None \<Rightarrow> g | Some y \<Rightarrow> h y) Q"
  by (cases x) auto

lemma hoare_case_list [lock_hoare]:
  "hoare P g Q \<Longrightarrow> (\<And>y ys. hoare P (h y ys) Q) \<Longrightarrow> hoare P (case x of [] \<Rightarrow> g | y # ys \<Rightarrow> h y ys) Q"
  by (cases x) auto

lemma hoare_case_prod [lock_hoare]:
  "(\<And>a b. hoare P (g a b) Q) \<Longrightarrow> hoare P (case x of (a, b) \<Rightarrow> g a b) Q"
  by (cases x) auto

lemma hoare_if_same [lock_hoare]:
  "hoare P m Q \<Longrightarrow> hoare P m' Q \<Longrightarrow> hoare P (if b then m else m') Q"
  by auto

lemma hoare_whenM [lock_hoare]: "hoare P m (\<lambda>_. P) \<Longrightarrow> hoare P (whenM b m) (\<lambda>_. P)"
  by (auto simp: hoare_def split: if_splits)

lemma hoare_block_Nil [lock_hoare]: "hoare P (block []) (\<lambda>_. P)"
  by (simp add: hoare_ret_same)

lemma hoare_block_Cons [lock_hoare]:
  "hoare P m (\<lambda>_. R) \<Longrightarrow> hoare R (block ms) Q \<Longrightarrow> hoare P (block (m # ms)) Q"
  unfolding block.simps by (rule hoare_bnd)

lemma hoare_bnd_same [lock_hoare]:
  "hoare P m (\<lambda>_. R) \<Longrightarrow> (\<And>x. hoare R (f x) Q) \<Longrightarrow> hoare P (bnd m f) Q"
  by (rule hoare_bnd)

lemma hoare_forM_same [lock_hoare]:
  "(\<And>x. hoare P (f x) (\<lambda>_. P)) \<Longrightarrow> hoare P (forM xs f) (\<lambda>_. P)"
  by (rule hoare_forM)

lemma hoare_loopM_same [lock_hoare]:
  assumes "\<And>x. hoare P (body x) (\<lambda>_. P)"
  shows "hoare P (loopM n body x) (\<lambda>_. P)"
proof (rule hoare_loopM)
  fix x show "hoare P (body x) (\<lambda>y s. case y of Inl z \<Rightarrow> P s | Inr r \<Rightarrow> P s)"
    using assms [of x] by (auto simp: hoare_def split: sum.splits)
qed

lemma hoare_fail_any [lock_hoare]: "hoare P (fail e) Q"
  by (rule hoare_fail)

text \<open>Steps that do not touch locks or the allocator.\<close>

lemma quiet_steps [lock_hoare]:
  "hoare P (gets f) (\<lambda>_. P)"
  "hoare P (assertM b) (\<lambda>_. P)"
  "hoare P (get_obj p) (\<lambda>_. P)"
  "hoare P (get_link p) (\<lambda>_. P)"
  "hoare P (get_coll p) (\<lambda>_. P)"
  "hoare P (get_ctr p) (\<lambda>_. P)"
  "hoare P (get_task p) (\<lambda>_. P)"
  "hoare P (get_sl r) (\<lambda>_. P)"
  by (auto simp: hoare_def access_Inr)

lemma balanced_updates:
  "balanced (upd_obj p f1)"
  "balanced (upd_link p f2)"
  "balanced (upd_coll p f3)"
  "balanced (upd_ctr p f4)"
  "balanced (upd_sl r f5)"
  "balanced (count_add p i d)"
  by (auto intro!: keeps_balanced keeps_upd_obj keeps_upd_link keeps_upd_coll keeps_upd_ctr
      keeps_upd_sl keeps_count_add simp: lock_view_def)

lemma balanced_in_table:
  assumes "\<And>r m. op [] = Inr (r, m) \<Longrightarrow> m = []"
  shows "balanced (in_table op)"
  unfolding balanced_def hoare_def using assms by (auto simp: at_locks_def in_table_Inr)

lemma balanced_xmalloc: "balanced (xmalloc sz)"
proof (rule balancedI, rule hoareI)
  fix t st w x w'
  assume at: "at_locks t st w" and run: "xmalloc sz w = Inr (x, w')"
  from at have "mem w = []" "next_addr w \<noteq> 0" by (simp_all add: at_locks_def)
  from xmalloc_Nil [OF this, of sz] run
  have "w' = w\<lparr>next_addr := next_addr w + max 1 sz\<rparr>" by simp
  with at show "at_locks t st w'" by (auto simp: at_locks_def)
qed

lemma balanced_calloc_ok: "balanced calloc_ok"
  unfolding balanced_def hoare_def by (auto simp: at_locks_def calloc_ok_Inr)

lemma balanced_modify:
  assumes "\<And>w. lock_view (g w) = lock_view w"
  shows "balanced (modify g)"
  by (rule keeps_balanced, rule keeps_modify, rule assms)

lemmas balanced_basic = balanced_updates balanced_xmalloc balanced_calloc_ok

lemmas [lock_hoare] = balanced_basic [THEN balanced_at] balanced_basic [THEN balanced_in]

section \<open>Properties\<close>

lemma locker_start_steps:
  assumes "next_addr w \<noteq> 0" and "mem w = m" and "\<not> (\<exists>b bs. m = False # bs)"
    and run: "locker_start rs w = Inr (x, w')"
  obtains fl le w1 where "filter_locks rs w = Inr (fl, w)"
    "lock_each (lock_order fl) [] (w\<lparr>mem := tl m, next_addr := next_addr w + max 1 sizeof_locker_entry\<rparr>) = Inr (le, w1)"
    "push_entry le w1 = Inr (x, w')"
proof -
  from run obtain fl le0 v w0 le w1 where f: "filter_locks rs w = Inr (fl, v)"
    and c: "locker_entry_create v = Inr (le0, w0)"
    and l: "lock_each (lock_order fl) le0 w0 = Inr (le, w1)" and p: "push_entry le w1 = Inr (x, w')"
    by (auto simp: locker_start_def bnd_Inr)
  have [simp]: "v = w" by (rule filter_locks_same [OF f])
  have "le0 = [] \<and> w0 = w\<lparr>mem := tl m, next_addr := next_addr w + max 1 sizeof_locker_entry\<rparr>"
    using c assms(1-3)
    by (cases m) (auto simp: locker_entry_create_def bnd_Inr xmalloc_def malloc_def xmalloc_round_def
        numeral_2_eq_2 ret_def split: if_splits)
  with f l p that show ?thesis by simp
qed

text \<open>C17: When the allocator does not fail (\<open>mem w = []\<close>) and \<open>locker_start\<close> returns, it has taken the mutexes of its locks one after the
  other in strictly increasing order of their ids, each once, whatever the order of the arguments and however often one is repeated, and
  has pushed exactly these locks as one entry on the stack of the thread. (What happens without memory for the entry is shown below.)\<close>

theorem locker_start_in_order:
  assumes "mem w = []" and "next_addr w \<noteq> 0" and "locker_start rs w = Inr ((), w')"
  shows "\<exists>fl ls es. filter_locks rs w = Inr (fl, w) \<and> sorted_wrt (<) (map il_id ls) \<and> set ls \<subseteq> set fl \<and>
    il_id ` set ls = il_id ` set fl \<and> (\<forall>l\<in>set ls. can_take (self w) (mutexes w (il_ref l))) \<and>
    mutexes w' = fold (mtx_inc (self w)) (map il_ref ls) (mutexes w) \<and>
    lockers w (self w) = Some \<lparr>stack = Some es\<rparr> \<and>
    lockers w' = (lockers w)(self w \<mapsto> \<lparr>stack = Some (es @ [map il_ref ls])\<rparr>)"
proof -
  obtain fl le w1 where f: "filter_locks rs w = Inr (fl, w)"
    and l: "lock_each (lock_order fl) [] (w\<lparr>mem := tl [], next_addr := next_addr w + max 1 sizeof_locker_entry\<rparr>) =
      Inr (le, w1)" and p: "push_entry le w1 = Inr ((), w')"
    by (rule locker_start_steps [OF assms(2,1) _ assms(3)]) auto
  note l' = lock_each_Inr [OF l]
  then have w1: "mem w1 = []" "self w1 = self w" "lockers w1 = lockers w" by simp_all
  with p obtain es where "lockers w (self w) = Some \<lparr>stack = Some es\<rparr>"
    "w' = w1\<lparr>lockers := (lockers w)(self w \<mapsto> \<lparr>stack = Some (es @ [le])\<rparr>)\<rparr>"
    by (cases w1) (auto simp: push_entry_def bnd_Inr calloc_ok_Inr stack_of_Inr split: option.splits)
  with f l' lock_order_ok [of fl] show ?thesis
    by (intro exI [of _ fl] exI [of _ "lock_order fl"] exI [of _ es]) auto
qed

definition two_collectors :: world where
  "two_collectors =
     (let sl = (\<lambda>i. \<lparr>sl_lock = i, sl_count = 3, sl_data = Some [], sl_forward = None\<rparr>);
          co = (\<lambda>i. \<lparr>co_lock = i, co_count = 3, co_collect = sl (i + 1), co_merged_list = sl (i + 2),
                     co_recovery_list = sl (i + 3), co_rebuild_list = sl (i + 4), co_clean_list = sl (i + 5),
                     co_forward = NULL\<rparr>)
      in (boot 20)\<lparr>lockers := [0 \<mapsto> \<lparr>stack = Some []\<rparr>], colls := [1 \<mapsto> co 10, 2 \<mapsto> co 20],
           ctrs := [3 \<mapsto> \<lparr>ref_count = 2, store_count = 0\<rparr>]\<rparr>)"

theorem locker_start_in_order_witness:
  "\<exists>w' (ls :: idlock list). locker_start [LColl 2, LColl 1, LColl 2] two_collectors = Inr ((), w') \<and> sorted_wrt (<) (map il_id ls) \<and>
     mutexes w' = fold (mtx_inc 0) (map il_ref ls) (mutexes two_collectors)"
proof -
  have "\<not> isl (locker_start [LColl 2, LColl 1, LColl 2] two_collectors)" by code_simp
  then obtain w' where run: "locker_start [LColl 2, LColl 1, LColl 2] two_collectors = Inr ((), w')"
    by (cases "locker_start [LColl 2, LColl 1, LColl 2] two_collectors") auto
  have w: "mem two_collectors = []" "next_addr two_collectors \<noteq> 0" "self two_collectors = 0"
    by (simp_all add: two_collectors_def boot_def Let_def)
  from locker_start_in_order [OF w(1,2) run] run show ?thesis unfolding w(3) by blast
qed

text \<open>C39: A thread whose \<open>list_add_last\<close> finds no memory for the stack entry has taken the mutexes all the same,
  while its stack is as before: \<open>locker_start\<close> does not look at the status, and no \<open>locker_end\<close> will
  release these mutexes.\<close>

theorem locker_start_loses_entry:
  assumes "mem w = True # False # m" and "next_addr w \<noteq> 0" and "locker_start rs w = Inr ((), w')"
  shows "\<exists>fl. filter_locks rs w = Inr (fl, w) \<and>
    mutexes w' = fold (mtx_inc (self w)) (map il_ref (lock_order fl)) (mutexes w) \<and> lockers w' = lockers w"
proof -
  obtain fl le w1 where f: "filter_locks rs w = Inr (fl, w)"
    and l: "lock_each (lock_order fl) []
      (w\<lparr>mem := tl (True # False # m), next_addr := next_addr w + max 1 sizeof_locker_entry\<rparr>) = Inr (le, w1)"
    and p: "push_entry le w1 = Inr ((), w')"
    by (rule locker_start_steps [OF assms(2,1) _ assms(3)]) auto
  note l' = lock_each_Inr [OF l]
  with p have "mutexes w' = mutexes w1" "lockers w' = lockers w1"
    by (auto simp: push_entry_def bnd_Inr calloc_ok_Inr stack_of_Inr split: option.splits)
  with f l' show ?thesis by simp
qed

theorem locker_start_loses_entry_witness:
  "\<exists>w'. locker_start [LColl 1] (two_collectors\<lparr>mem := [True, False]\<rparr>) = Inr ((), w') \<and>
     lockers w' = lockers two_collectors"
proof -
  let ?w = "two_collectors\<lparr>mem := [True, False]\<rparr>"
  have "\<not> isl (locker_start [LColl 1] ?w)" by code_simp
  then obtain w' where run: "locker_start [LColl 1] ?w = Inr ((), w')"
    by (cases "locker_start [LColl 1] ?w") auto
  have w: "mem ?w = [True, False]" "next_addr ?w \<noteq> 0" by (simp_all add: two_collectors_def boot_def Let_def)
  from locker_start_loses_entry [OF w run] run show ?thesis by auto
qed

end
