(* ===== verification/Sections.thy ===== *)
theory Sections
  imports Locker
begin

text \<open>
  Code between a \<open>locker_start\<close> and its \<open>locker_end\<close>: the bracket \<open>with_locks\<close>, and total
  correctness for operations that use it. \<open>runs P m Q\<close> says that \<open>m\<close>, started where \<open>P\<close> holds in
  a thread that has a locker and waits for nobody, returns with \<open>Q\<close> and with the locks and the
  lock stack as they were. The allocator is taken to succeed, since a stack entry
  that could not be pushed would be missed by the next \<open>locker_end\<close>.
\<close>

section \<open>Brackets\<close>

definition with_locks :: "lockref list \<Rightarrow> 'a W \<Rightarrow> 'a W" where
  "with_locks rs body =
     bnd (locker_start rs) (\<lambda>_. bnd body (\<lambda>x. bnd locker_end (\<lambda>_. ret x)))"

lemma balanced_ret [simp]: "balanced (ret x)"
  by (simp add: balanced_def hoare_ret_same)

lemma balanced_with_locks: "balanced body \<Longrightarrow> balanced (with_locks rs body)"
  unfolding with_locks_def
  by (rule balancedI) (rule lock_hoare balanced_in | assumption)+

lemmas [lock_hoare] = balanced_with_locks [THEN balanced_at] balanced_with_locks [THEN balanced_in]

lemma keeps_with_locks [keeps_intros]:
  "lock_free f \<Longrightarrow> keeps f body \<Longrightarrow> keeps f (with_locks rs body)"
  unfolding with_locks_def by (intro keeps_intros)

section \<open>Total correctness\<close>

definition calm :: "thread_id \<Rightarrow> lock_state \<Rightarrow> world \<Rightarrow> bool" where
  "calm t st w \<longleftrightarrow> at_locks t st w \<and> (\<exists>es. snd st t = Some \<lparr>stack = Some es\<rparr>) \<and>
     (\<forall>r. can_take t (fst st r))"

text \<open>Two states that differ in nothing but locks and the next free address.\<close>

definition lock_eq :: "world \<Rightarrow> world \<Rightarrow> bool" where
  "lock_eq w w' \<longleftrightarrow> (\<exists>mx ls a. w' = w\<lparr>mutexes := mx, lockers := ls, next_addr := a\<rparr> \<and> next_addr w \<le> a)"

definition stable :: "(world \<Rightarrow> bool) \<Rightarrow> bool" where
  "stable P \<longleftrightarrow> (\<forall>w w'. lock_eq w w' \<longrightarrow> P w \<longrightarrow> P w')"

definition lockable :: "world \<Rightarrow> lockref \<Rightarrow> bool" where
  "lockable w r \<longleftrightarrow> is_NULL_lock r \<or>
     (case r of LObj p \<Rightarrow> objs w p \<noteq> None | LColl p \<Rightarrow> colls w p \<noteq> None | LSafe s \<Rightarrow> colls w (fst s) \<noteq> None)"

definition runs :: "(world \<Rightarrow> bool) \<Rightarrow> 'a W \<Rightarrow> ('a \<Rightarrow> world \<Rightarrow> bool) \<Rightarrow> bool" where
  "runs P m Q \<longleftrightarrow> (\<forall>t st w. calm t st w \<longrightarrow> P w \<longrightarrow>
     (\<exists>x w'. m w = Inr (x, w') \<and> calm t st w' \<and> Q x w'))"

lemma lockable_simps [simp]:
  "lockable w (LObj p) \<longleftrightarrow> p = NULL \<or> objs w p \<noteq> None"
  "lockable w (LColl p) \<longleftrightarrow> p = NULL \<or> colls w p \<noteq> None"
  "lockable w (LSafe s) \<longleftrightarrow> colls w (fst s) \<noteq> None"
  by (simp_all add: lockable_def is_NULL_lock_def)

lemma lockable_locks [simp]:
  "lockable (w\<lparr>mutexes := mx\<rparr>) r = lockable w r"
  "lockable (w\<lparr>lockers := ls\<rparr>) r = lockable w r"
  "lockable (w\<lparr>next_addr := a\<rparr>) r = lockable w r"
  by (cases r; simp)+

lemma stableI:
  "(\<And>w mx ls a. P w \<Longrightarrow> next_addr w \<le> a \<Longrightarrow> P (w\<lparr>mutexes := mx, lockers := ls, next_addr := a\<rparr>)) \<Longrightarrow> stable P"
  by (auto simp: stable_def lock_eq_def)

lemma stableD: "stable P \<Longrightarrow> lock_eq w w' \<Longrightarrow> P w \<Longrightarrow> P w'"
  by (auto simp: stable_def)

lemma runsI:
  "(\<And>t st w. calm t st w \<Longrightarrow> P w \<Longrightarrow> \<exists>x w'. m w = Inr (x, w') \<and> calm t st w' \<and> Q x w') \<Longrightarrow> runs P m Q"
  by (auto simp: runs_def)

lemma runsE:
  assumes "runs P m Q" and "calm t st w" and "P w"
  obtains x w' where "m w = Inr (x, w')" and "calm t st w'" and "Q x w'"
  using assms unfolding runs_def by blast

lemma deref_lock_total:
  assumes "lockable w r" and "\<not> is_NULL_lock r"
  obtains l where "deref_lock r w = Inr (l, w)" and "il_ref l = r"
  using assms
  by (cases r) (auto simp: lockable_def deref_lock_def bnd_def get_obj_def get_coll_def get_sl_def ret_def)

lemma filter_locks_total:
  assumes "\<forall>r\<in>set rs. lockable w r"
  shows "\<exists>ls. filter_locks rs w = Inr (ls, w) \<and> length ls \<le> length rs \<and>
    (\<forall>l\<in>set ls. il_ref l \<in> set rs \<and> \<not> is_NULL_lock (il_ref l))"
  using assms
proof (induction rs)
  case Nil
  then show ?case by (simp add: ret_def)
next
  case (Cons r rs)
  then obtain ls where ls: "filter_locks rs w = Inr (ls, w)" "length ls \<le> length rs"
    "\<forall>l\<in>set ls. il_ref l \<in> set rs \<and> \<not> is_NULL_lock (il_ref l)" by auto
  show ?case
  proof (cases "is_NULL_lock r")
    case True
    then show ?thesis using ls by auto
  next
    case False
    with Cons.prems obtain l where "deref_lock r w = Inr (l, w)" "il_ref l = r"
      by (metis deref_lock_total list.set_intros(1))
    then show ?thesis using ls False by (auto simp: bnd_def ret_def)
  qed
qed

lemma lock_each_total:
  assumes "\<forall>l\<in>set ls. lockable w (il_ref l) \<and> \<not> is_NULL_lock (il_ref l)"
    and "\<forall>r. can_take (self w) (mutexes w r)" and "length le + length ls \<le> 4"
  shows "\<exists>le' w'. lock_each ls le w = Inr (le', w')"
  using assms
proof (induction ls arbitrary: le w)
  case Nil
  then show ?case by (simp add: ret_def)
next
  case (Cons l ls)
  let ?w = "w\<lparr>mutexes := mtx_inc (self w) (il_ref l) (mutexes w)\<rparr>"
  from Cons.prems obtain k where "deref_lock (il_ref l) w = Inr (k, w)"
    by (metis deref_lock_total list.set_intros(1))
  moreover have "mtx_lock (il_ref l) w = Inr ((), ?w)"
    using Cons.prems by (simp add: mtx_lock_Inr)
  ultimately have lock: "idlock_lock l w = Inr ((), ?w)" by (simp add: idlock_lock_def bnd_def)
  have "\<exists>le' w'. lock_each ls (le @ [il_ref l]) ?w = Inr (le', w')"
    by (rule Cons.IH) (use Cons.prems in \<open>auto intro: can_take_inc\<close>)
  with lock Cons.prems(3) show ?case
    by (simp add: bnd_def locker_entry_add_def ret_def)
qed

text \<open>Taking locks nobody else holds never fails, and opens a section.\<close>

lemma locker_start_total:
  assumes c: "calm t st w" and ok: "\<forall>r\<in>set rs. lockable w r" and len: "length rs \<le> 4"
  shows "\<exists>es ms w'. locker_start rs w = Inr ((), w') \<and> lock_eq w w' \<and>
    snd st t = Some \<lparr>stack = Some es\<rparr> \<and> set ms \<subseteq> {r \<in> set rs. \<not> is_NULL_lock r} \<and>
    calm t (fold (mtx_inc t) ms (fst st), (snd st)(t \<mapsto> \<lparr>stack = Some (es @ [ms])\<rparr>)) w'"
proof -
  from filter_locks_total [OF ok] obtain fl where fl: "filter_locks rs w = Inr (fl, w)"
    "length fl \<le> length rs" "\<forall>l\<in>set fl. il_ref l \<in> set rs \<and> \<not> is_NULL_lock (il_ref l)" by blast
  from c obtain es where es: "snd st t = Some \<lparr>stack = Some es\<rparr>"
    and at: "at_locks t st w" and take: "\<forall>r. can_take t (fst st r)" by (auto simp: calm_def)
  let ?w = "w\<lparr>next_addr := next_addr w + max 1 sizeof_locker_entry\<rparr>"
  let ?ls = "lock_order fl"
  have w: "self w = t" "mutexes w = fst st" "lockers w = snd st" "mem w = []" "0 < next_addr w"
    using at by (auto simp: at_locks_def)
  have le: "set ?ls \<subseteq> set fl" using lock_order_ok by blast
  have dist: "distinct ?ls"
    using lock_order_ok [of fl] by (metis distinct_map strict_sorted_iff)
  have "length ?ls \<le> length fl"
    using dist le by (metis card_length card_mono distinct_card finite_set le_trans)
  then have len': "length ?ls \<le> 4" using fl(2) len by linarith
  have "\<exists>le' w'. lock_each ?ls [] ?w = Inr (le', w')"
    by (rule lock_each_total) (use fl(3) le ok take w len' in \<open>auto simp: subset_iff\<close>)
  then obtain e w2 where lk: "lock_each ?ls [] ?w = Inr (e, w2)" by blast
  note l = lock_each_Inr [OF lk]
  let ?ms = "map il_ref ?ls"
  let ?w' = "w2\<lparr>lockers := (lockers w2)(self w2 \<mapsto> \<lparr>stack = Some (es @ [?ms])\<rparr>)\<rparr>"
  have "push_entry e w2 = Inr ((), ?w')"
    using l w es
    by (simp add: push_entry_def bnd_def gets_def stack_of_def ret_def calloc_ok_def zoom_def whenM_def
        modify_def)
  with lk have run: "locker_start rs w = Inr ((), ?w')"
    using w by (simp add: locker_start_def bnd_def fl(1) locker_entry_create_def xmalloc_Nil ret_def)
  have "calm t (fold (mtx_inc t) ?ms (fst st), (snd st)(t \<mapsto> \<lparr>stack = Some (es @ [?ms])\<rparr>)) ?w'"
  proof -
    have "can_take t (fold (mtx_inc t) ms mx r)" if "\<forall>r. can_take t (mx r)" for ms mx r
      using that by (induction ms arbitrary: mx) (auto intro: can_take_inc)
    then show ?thesis using l w take by (auto simp: calm_def at_locks_def sizeof_locker_entry_def)
  qed
  moreover have "lock_eq w ?w'"
    unfolding lock_eq_def using l w
    by (intro exI [of _ "mutexes ?w'"] exI [of _ "lockers ?w'"] exI [of _ "next_addr ?w'"])
      (simp add: sizeof_locker_entry_def)
  moreover have "set ?ms \<subseteq> {r \<in> set rs. \<not> is_NULL_lock r}" using fl(3) le by auto
  ultimately show ?thesis using run es by blast
qed

lemma unlock_each_total:
  assumes "\<forall>r\<in>set ms. lockable w r \<and> \<not> is_NULL_lock r"
  shows "\<exists>w'. forM ms idlock_unlock w = Inr ((), w')"
  using assms
proof (induction ms arbitrary: w)
  case Nil
  then show ?case by (simp add: ret_def)
next
  case (Cons r ms)
  let ?w = "w\<lparr>mutexes := mtx_dec (self w) r (mutexes w)\<rparr>"
  from Cons.prems obtain l where "deref_lock r w = Inr (l, w)"
    by (metis deref_lock_total list.set_intros(1))
  moreover have "mtx_unlock r w = Inr ((), ?w)" by (simp add: mtx_unlock_Inr)
  ultimately have "idlock_unlock r w = Inr ((), ?w)" by (simp add: idlock_unlock_def bnd_def)
  moreover have "\<exists>w'. forM ms idlock_unlock ?w = Inr ((), w')"
    by (rule Cons.IH) (use Cons.prems in auto)
  ultimately show ?case by (simp add: bnd_def)
qed

lemma locker_end_total:
  assumes es: "snd st t = Some \<lparr>stack = Some es\<rparr>" and c: "\<forall>r. can_take t (fst st r)"
    and at: "calm t (fold (mtx_inc t) ms (fst st), (snd st)(t \<mapsto> \<lparr>stack = Some (es @ [ms])\<rparr>)) w"
    and ok: "\<forall>r\<in>set ms. lockable w r \<and> \<not> is_NULL_lock r"
  shows "\<exists>w'. locker_end w = Inr ((), w') \<and> lock_eq w w' \<and> calm t st w'"
proof -
  have at': "at_locks t (fold (mtx_inc t) ms (fst st), (snd st)(t \<mapsto> \<lparr>stack = Some (es @ [ms])\<rparr>)) w"
    using at by (simp add: calm_def)
  then have w: "self w = t" "lockers w t = Some \<lparr>stack = Some (es @ [ms])\<rparr>" by (simp_all add: at_locks_def)
  let ?w = "w\<lparr>lockers := (lockers w)(t \<mapsto> \<lparr>stack = Some es\<rparr>)\<rparr>"
  have "\<forall>r\<in>set ms. lockable ?w r \<and> \<not> is_NULL_lock r" using ok by simp
  from unlock_each_total [OF this] obtain w' where run: "forM ms idlock_unlock ?w = Inr ((), w')" by blast
  from unlock_each_Inr [OF run] have w': "w' = ?w\<lparr>mutexes := fold (mtx_dec t) ms (mutexes w)\<rparr>"
    using w by simp
  have "mutexes w' = fst st"
    using w' at' release_taken [of ms t "fst st"] c by (simp add: at_locks_def)
  moreover have "lockers w' = snd st"
    using w' at' es by (auto simp: at_locks_def fun_eq_iff)
  ultimately have "calm t st w'" using w' at' c es by (simp add: calm_def at_locks_def)
  moreover have "locker_end w = Inr ((), w')"
    using w run by (simp add: locker_end_def bnd_def gets_def stack_of_def ret_def modify_def)
  moreover have "lock_eq w w'" unfolding lock_eq_def w' by (cases w) (auto intro!: exI)
  ultimately show ?thesis by blast
qed

section \<open>Rules for total correctness\<close>

lemma runs_with_locks:
  assumes P: "stable P" and Q: "\<And>x. stable (Q x)" and body: "runs P body Q"
    and pre: "\<And>w r. P w \<Longrightarrow> r \<in> set rs \<Longrightarrow> lockable w r"
    and post: "\<And>x w r. Q x w \<Longrightarrow> r \<in> set rs \<Longrightarrow> lockable w r"
    and len: "length rs \<le> 4"
  shows "runs P (with_locks rs body) Q"
proof (rule runsI)
  fix t st w assume c: "calm t st w" and p: "P w"
  have take: "\<forall>r. can_take t (fst st r)" using c by (simp add: calm_def)
  from locker_start_total [OF c _ len] pre [OF p] obtain es ms w1 where
    start: "locker_start rs w = Inr ((), w1)" and eq: "lock_eq w w1" and
    es: "snd st t = Some \<lparr>stack = Some es\<rparr>" and ms: "set ms \<subseteq> {r \<in> set rs. \<not> is_NULL_lock r}" and
    c1: "calm t (fold (mtx_inc t) ms (fst st), (snd st)(t \<mapsto> \<lparr>stack = Some (es @ [ms])\<rparr>)) w1" by blast
  from body c1 stableD [OF P eq p] obtain x w2 where
    b: "body w1 = Inr (x, w2)" and
    c2: "calm t (fold (mtx_inc t) ms (fst st), (snd st)(t \<mapsto> \<lparr>stack = Some (es @ [ms])\<rparr>)) w2" and
    q: "Q x w2" by (rule runsE)
  have "\<forall>r\<in>set ms. lockable w2 r \<and> \<not> is_NULL_lock r" using post [OF q] ms by blast
  from locker_end_total [OF es take c2 this] obtain w3 where
    "locker_end w2 = Inr ((), w3)" "lock_eq w2 w3" "calm t st w3" by blast
  with start b q stableD [OF Q] show "\<exists>x w'. with_locks rs body w = Inr (x, w') \<and> calm t st w' \<and> Q x w'"
    by (auto simp: with_locks_def bnd_def ret_def)
qed

lemma runs_bnd: "runs P m R \<Longrightarrow> (\<And>x. runs (R x) (f x) Q) \<Longrightarrow> runs P (bnd m f) Q"
  unfolding runs_def by (metis bnd_Inr_step)

lemma runs_bnd_eq:
  assumes "runs P m (\<lambda>x w. x = c \<and> R w)" and "runs R (f c) Q"
  shows "runs P (bnd m f) Q"
proof (rule runs_bnd [OF assms(1)])
  fix x show "runs (\<lambda>w. x = c \<and> R w) (f x) Q"
    using assms(2) by (cases "x = c") (simp_all add: runs_def)
qed

lemma runs_pre: "runs P' m Q \<Longrightarrow> (\<And>w. P w \<Longrightarrow> P' w) \<Longrightarrow> runs P m Q"
  unfolding runs_def by blast

lemma runs_post: "runs P m Q' \<Longrightarrow> (\<And>x w. Q' x w \<Longrightarrow> Q x w) \<Longrightarrow> runs P m Q"
  unfolding runs_def by blast

lemma runs_ret: "(\<And>w. P w \<Longrightarrow> Q x w) \<Longrightarrow> runs P (ret x) Q"
  unfolding runs_def ret_def by blast

text \<open>A step that leaves locks and allocator alone runs as it is.\<close>

lemma runs_step:
  assumes "\<And>w. P w \<Longrightarrow> mem w = [] \<Longrightarrow>
    \<exists>x w'. m w = Inr (x, w') \<and> lock_view w' = lock_view w \<and> Q x w'"
  shows "runs P m Q"
proof (rule runsI)
  fix t st w assume "calm t st w" and "P w"
  with assms [of w] show "\<exists>x w'. m w = Inr (x, w') \<and> calm t st w' \<and> Q x w'"
    by (fastforce simp: calm_def at_locks_def lock_view_def)
qed

text \<open>The memory without locks and allocator, which is what the results of operations
  are stated on.\<close>

definition erase :: "world \<Rightarrow> world" where
  "erase w = w\<lparr>mutexes := (\<lambda>_. None), lockers := (\<lambda>_. None), next_addr := 0\<rparr>"

lemma erase_simps [simp]:
  "objs (erase w) = objs w" "lnks (erase w) = lnks w" "colls (erase w) = colls w"
  "ctrs (erase w) = ctrs w" "tsks (erase w) = tsks w" "work (erase w) = work w"
  "task_count (erase w) = task_count w" "fuel (erase w) = fuel w" "self (erase w) = self w"
  "id_count (erase w) = id_count w" "num_collector (erase w) = num_collector w"
  "lockable (erase w) r = lockable w r"
  by (simp_all add: erase_def)

lemma erase_update [simp]:
  "erase (w\<lparr>objs := a\<rparr>) = (erase w)\<lparr>objs := a\<rparr>"
  "erase (w\<lparr>lnks := b\<rparr>) = (erase w)\<lparr>lnks := b\<rparr>"
  "erase (w\<lparr>colls := c\<rparr>) = (erase w)\<lparr>colls := c\<rparr>"
  "erase (w\<lparr>ctrs := d\<rparr>) = (erase w)\<lparr>ctrs := d\<rparr>"
  "erase (w\<lparr>tsks := e\<rparr>) = (erase w)\<lparr>tsks := e\<rparr>"
  "erase (w\<lparr>work := f\<rparr>) = (erase w)\<lparr>work := f\<rparr>"
  "erase (w\<lparr>task_count := g\<rparr>) = (erase w)\<lparr>task_count := g\<rparr>"
  "erase (w\<lparr>id_count := h\<rparr>) = (erase w)\<lparr>id_count := h\<rparr>"
  by (cases w, simp add: erase_def)+

lemma erase_locks [simp]:
  "erase (w\<lparr>mutexes := mx\<rparr>) = erase w"
  "erase (w\<lparr>lockers := ls\<rparr>) = erase w"
  "erase (w\<lparr>next_addr := n\<rparr>) = erase w"
  by (cases w, simp add: erase_def)+

lemma erase_lock_eq: "lock_eq w w' \<Longrightarrow> erase w' = erase w"
  by (auto simp: lock_eq_def)

lemma stable_erase [simp]: "stable (\<lambda>w. P (erase w))"
  by (simp add: stable_def erase_lock_eq)

lemma stable_eq [simp]: "stable (\<lambda>w. erase w = v)" "stable (\<lambda>w. b \<and> erase w = v)"
  by (simp_all add: stable_def erase_lock_eq)

lemma runs_frame:
  assumes "runs P m Q" and "keeps f m"
  shows "runs (\<lambda>w. P w \<and> R (f w)) m (\<lambda>x w. Q x w \<and> R (f w))"
  using assms unfolding runs_def keeps_def by metis

lemma runs_loopM:
  assumes step: "\<And>k x. runs (\<lambda>w. I x w \<and> \<mu> x w < Suc k) (body x)
      (\<lambda>y w. case y of Inl z \<Rightarrow> I z w \<and> \<mu> z w < k | Inr r \<Rightarrow> Q r w)"
  shows "runs (\<lambda>w. I x w \<and> \<mu> x w < n) (loopM n body x) Q"
proof (induction n arbitrary: x)
  case 0
  show ?case by (simp add: runs_def)
next
  case (Suc n)
  show ?case
    unfolding loopM.simps
  proof (rule runs_bnd [OF step])
    fix y show "runs (\<lambda>w. case y of Inl z \<Rightarrow> I z w \<and> \<mu> z w < n | Inr r \<Rightarrow> Q r w)
        (case y of Inl z \<Rightarrow> loopM n body z | Inr z \<Rightarrow> ret z) Q"
      by (cases y) (auto simp: Suc.IH intro: runs_ret)
  qed
qed

lemma runs_malloc:
  "runs (\<lambda>w. P (next_addr w) (w\<lparr>next_addr := next_addr w + max 1 sz\<rparr>)) (xmalloc sz) P"
proof (rule runsI)
  fix t st w assume c: "calm t st w" and "P (next_addr w) (w\<lparr>next_addr := next_addr w + max 1 sz\<rparr>)"
  moreover from c have "mem w = []" "0 < next_addr w" by (auto simp: calm_def at_locks_def)
  moreover from c have "calm t st (w\<lparr>next_addr := next_addr w + max 1 sz\<rparr>)"
    by (auto simp: calm_def at_locks_def)
  ultimately show "\<exists>x w'. xmalloc sz w = Inr (x, w') \<and> calm t st w' \<and> P x w'"
    by (simp add: xmalloc_Nil)
qed

lemma runs_calloc_ok: "runs (P True) calloc_ok P"
proof (rule runsI)
  fix t st w assume c: "calm t st w" and "P True w"
  moreover have "calloc_ok w = Inr (True, w)"
    using c by (cases w) (simp add: calloc_ok_Inr calm_def at_locks_def)
  ultimately show "\<exists>x w'. calloc_ok w = Inr (x, w') \<and> calm t st w' \<and> P x w'" by blast
qed

section \<open>Threads that wait for nobody\<close>

text \<open>\<open>ready w\<close>: the thread that runs has a locker, no mutex is held by another thread, and the allocator
  succeeds. \<open>same_locks\<close>: the mutexes and the lock stacks are as before.\<close>

definition ready :: "world \<Rightarrow> bool" where
  "ready w \<longleftrightarrow> calm (self w) (mutexes w, lockers w) w"

definition same_locks :: "world \<Rightarrow> world \<Rightarrow> bool" where
  "same_locks w w' \<longleftrightarrow> self w' = self w \<and> mutexes w' = mutexes w \<and> lockers w' = lockers w"

lemma calm_ready: "calm t st w \<Longrightarrow> ready w \<and> self w = t \<and> mutexes w = fst st \<and> lockers w = snd st"
  by (auto simp: ready_def calm_def at_locks_def)

lemma runs_ready:
  assumes "runs P m Q" and "ready w" and "P w"
  shows "\<exists>x w'. m w = Inr (x, w') \<and> ready w' \<and> same_locks w w' \<and> Q x w'"
proof -
  from assms(2) have "calm (self w) (mutexes w, lockers w) w" by (simp add: ready_def)
  from runsE [OF assms(1) this assms(3)] obtain x w' where
    "m w = Inr (x, w')" and c: "calm (self w) (mutexes w, lockers w) w'" and "Q x w'" .
  with calm_ready [OF c] show ?thesis by (intro exI [of _ x] exI [of _ w']) (simp add: same_locks_def)
qed

text \<open>The memory of a program whose main thread has its locker and nothing else.\<close>

definition ready_world :: "nat \<Rightarrow> world" where
  "ready_world n = (boot n)\<lparr>lockers := [0 \<mapsto> \<lparr>stack = Some []\<rparr>]\<rparr>"

lemma ready_world_ready [simp]: "ready (ready_world n)"
  by (simp add: ready_world_def ready_def calm_def at_locks_def boot_def can_take_def)

lemma ready_updates [simp]:
  "ready (w\<lparr>objs := f\<rparr>) = ready w" "ready (w\<lparr>lnks := g\<rparr>) = ready w" "ready (w\<lparr>colls := h\<rparr>) = ready w"
  "ready (w\<lparr>ctrs := c\<rparr>) = ready w" "ready (w\<lparr>work := q\<rparr>) = ready w" "ready (w\<lparr>tsks := ts\<rparr>) = ready w"
  by (simp_all add: ready_def calm_def at_locks_def)

lemma not_isl: "\<not> isl r \<Longrightarrow> \<exists>x w'. r = Inr (x, w')"
  by (cases r) auto

section \<open>Properties\<close>

lemma nested_runs:
  assumes "\<forall>r\<in>set rs \<union> set qs. lockable v r" and "length rs \<le> 4" and "length qs \<le> 4"
  shows "runs (\<lambda>w. erase w = v) (with_locks rs (with_locks qs (ret ()))) (\<lambda>_ w. erase w = v)"
proof -
  have inner: "runs (\<lambda>w. erase w = v) (with_locks qs (ret ())) (\<lambda>_ w. erase w = v)"
    by (rule runs_with_locks) (use assms in \<open>auto simp: runs_ret\<close>)
  show ?thesis by (rule runs_with_locks [OF _ _ inner]) (use assms in auto)
qed

text \<open>C18: In a thread that has to wait for nobody and whose allocator does not fail (both in \<open>ready\<close>), two nested pairs of \<open>locker_start\<close> and
  \<open>locker_end\<close> on existing locks always run to the end, also when they share locks, and leave every mutex, every lock stack and all the rest of
  the memory as they were.\<close>

theorem locker_nested_sections:
  assumes "ready w" and "\<forall>r\<in>set rs \<union> set qs. lockable w r" and "length rs \<le> 4" and "length qs \<le> 4"
  shows "\<exists>w'. block [locker_start rs, locker_start qs, locker_end, locker_end] w = Inr ((), w') \<and>
    ready w' \<and> same_locks w w' \<and> erase w' = erase w"
proof -
  have eq: "with_locks rs (with_locks qs (ret ())) = block [locker_start rs, locker_start qs, locker_end, locker_end]"
    by (simp add: with_locks_def bnd_assoc)
  have "runs (\<lambda>u. erase u = erase w) (with_locks rs (with_locks qs (ret ()))) (\<lambda>_ u. erase u = erase w)"
    by (rule nested_runs) (use assms in auto)
  from runs_ready [OF this assms(1)] show ?thesis by (simp add: eq)
qed

theorem locker_nested_sections_witness:
  "\<exists>w'. block [locker_start [LColl 2, LColl 1], locker_start [LColl 1], locker_end, locker_end] two_collectors =
     Inr ((), w') \<and> same_locks two_collectors w'"
proof -
  have r: "ready two_collectors"
    by (simp add: two_collectors_def Let_def ready_def calm_def at_locks_def boot_def can_take_def)
  have l: "\<forall>r\<in>set [LColl 2, LColl 1] \<union> set [LColl 1]. lockable two_collectors r"
    by (simp add: two_collectors_def Let_def)
  from locker_nested_sections [OF r l] show ?thesis by auto
qed

end
