(* ===== verification/Safelist.thy ===== *)
theory Safelist
  imports Sections
begin

text \<open>
  src/counter.c and src/safelist.c: the two numbers that tell a collector whether it may stop, and
  the queues it works through. A safelist that has been forwarded passes everything added to it
  on to the list at the end of the chain of forwards. The lemmas at the end give each
  operation its effect on a queue of pointers and on the counter.
\<close>

section \<open>counter.c\<close>

definition counter_create :: "addr W" where
  "counter_create =
     bnd (xmalloc sizeof_counter) (\<lambda>p.
     bnd (modify (\<lambda>w. w\<lparr>ctrs := (ctrs w)(p \<mapsto> \<lparr>ref_count = 0, store_count = 0\<rparr>)\<rparr>)) (\<lambda>_.
     ret p))"

text \<open>\<open>free\<close> of NULL does nothing, and a second \<open>free\<close> of a block is undefined.\<close>

definition counter_destroy :: "addr \<Rightarrow> unit W" where
  "counter_destroy p =
     (if p = NULL then ret ()
      else bnd (get_ctr p) (\<lambda>_. modify (\<lambda>w. w\<lparr>ctrs := (ctrs w)(p := None)\<rparr>)))"

definition counter_inc_ref :: "addr \<Rightarrow> unit W" where
  "counter_inc_ref p = upd_ctr p (\<lambda>c. c\<lparr>ref_count := ref_count c + 1\<rparr>)"

definition counter_dec_ref :: "addr \<Rightarrow> unit W" where
  "counter_dec_ref p = upd_ctr p (\<lambda>c. c\<lparr>ref_count := ref_count c - 1\<rparr>)"

definition counter_inc_store :: "addr \<Rightarrow> unit W" where
  "counter_inc_store p = upd_ctr p (\<lambda>c. c\<lparr>store_count := store_count c + 1\<rparr>)"

definition counter_dec_store :: "addr \<Rightarrow> unit W" where
  "counter_dec_store p = upd_ctr p (\<lambda>c. c\<lparr>store_count := store_count c - 1\<rparr>)"

definition counter_continue_waiting :: "addr \<Rightarrow> bool W" where
  "counter_continue_waiting p =
     bnd (get_ctr p) (\<lambda>c. ret (ref_count c > 0 \<and> store_count c = 0))"

definition counter_done :: "addr \<Rightarrow> bool W" where
  "counter_done p = bnd (get_ctr p) (\<lambda>c. ret (ref_count c = 0 \<and> store_count c = 0))"

section \<open>safelist.c\<close>

text \<open>The struct that \<open>safelist_init\<close> fills in place. Its \<open>list_new\<close> may fail unnoticed.\<close>

definition safelist_init :: "addr \<Rightarrow> safelist W" where
  "safelist_init c =
     bnd idlock_init (\<lambda>i.
     bnd calloc_ok (\<lambda>ok.
     ret \<lparr>sl_lock = i, sl_count = c, sl_data = (if ok then Some [] else None), sl_forward = None\<rparr>))"

definition data_of :: "slref \<Rightarrow> addr list W" where
  "data_of sl =
     bnd (get_sl sl) (\<lambda>s. case sl_data s of None \<Rightarrow> fail Undefined_behaviour | Some xs \<Rightarrow> ret xs)"

definition safelist_deinit :: "slref \<Rightarrow> unit W" where
  "safelist_deinit sl = bnd (data_of sl) (\<lambda>_. upd_sl sl (\<lambda>s. s\<lparr>sl_data := None\<rparr>))"

text \<open>\<open>list_add\<close>, whose status is dropped: without memory for a node nothing is added.\<close>

definition list_add_to :: "slref \<Rightarrow> addr \<Rightarrow> unit W" where
  "list_add_to sl datum =
     bnd (data_of sl) (\<lambda>xs.
     bnd calloc_ok (\<lambda>ok.
     whenM ok (upd_sl sl (\<lambda>s. s\<lparr>sl_data := Some (xs @ [datum])\<rparr>))))"

text \<open>The \<open>while\<close> loop runs without locks.\<close>

definition forward_end :: "slref \<Rightarrow> slref W" where
  "forward_end f =
     bnd (gets fuel) (\<lambda>n.
     loopM n (\<lambda>f. bnd (get_sl f) (\<lambda>s.
       case sl_forward s of None \<Rightarrow> ret (Inr f) | Some g \<Rightarrow> ret (Inl g))) f)"

definition safelist_add_once :: "addr \<Rightarrow> slref \<Rightarrow> (slref + unit) W" where
  "safelist_add_once datum sl =
     bnd (with_locks [LSafe sl]
       (bnd (get_sl sl) (\<lambda>s.
        case sl_forward s of
          None \<Rightarrow> bnd (counter_inc_store (sl_count s)) (\<lambda>_. bnd (list_add_to sl datum) (\<lambda>_. ret None))
        | Some f \<Rightarrow> ret (Some f)))) (\<lambda>f.
     case f of
       None \<Rightarrow> ret (Inr ())
     | Some f \<Rightarrow> bnd (forward_end f) (\<lambda>f. ret (Inl f)))"

text \<open>The call of itself on the end of the chain is the next round.\<close>

definition safelist_add :: "slref \<Rightarrow> addr \<Rightarrow> unit W" where
  "safelist_add sl datum = bnd (gets fuel) (\<lambda>n. loopM n (safelist_add_once datum) sl)"

definition safelist_size :: "slref \<Rightarrow> nat W" where
  "safelist_size sl = with_locks [LSafe sl] (bnd (data_of sl) (\<lambda>xs. ret (length xs)))"

definition safelist_is_empty :: "slref \<Rightarrow> bool W" where
  "safelist_is_empty sl = bnd (safelist_size sl) (\<lambda>n. ret (n = 0))"

definition safelist_poll :: "slref \<Rightarrow> addr W" where
  "safelist_poll sl =
     with_locks [LSafe sl]
       (bnd (data_of sl) (\<lambda>xs.
        case xs of
          [] \<Rightarrow> ret NULL
        | x # xs' \<Rightarrow>
            bnd (get_sl sl) (\<lambda>s.
            bnd (counter_dec_store (sl_count s)) (\<lambda>_.
            bnd (upd_sl sl (\<lambda>s. s\<lparr>sl_data := Some xs'\<rparr>)) (\<lambda>_. ret x)))))"

text \<open>\<open>while (true) { obj = safelist_poll(from); if (obj == NULL) break; ... }\<close>, the loop of
  \<open>safelist_forward\<close> and of all phases of \<open>collector_run\<close>.\<close>

definition drain :: "slref \<Rightarrow> (addr \<Rightarrow> unit W) \<Rightarrow> unit W" where
  "drain from act =
     bnd (gets fuel) (\<lambda>n.
     loopM n (\<lambda>_.
       bnd (safelist_poll from) (\<lambda>obj.
       if obj = NULL then ret (Inr ()) else bnd (act obj) (\<lambda>_. ret (Inl ())))) ())"

definition safelist_forward :: "slref \<Rightarrow> slref \<Rightarrow> unit W" where
  "safelist_forward sl forward_to =
     with_locks [LSafe sl, LSafe forward_to]
       (block [
          drain sl (safelist_add forward_to),
          upd_sl sl (\<lambda>s. s\<lparr>sl_forward := Some forward_to\<rparr>)])"

definition safelist_forwards_to :: "slref \<Rightarrow> slref \<Rightarrow> bool W" where
  "safelist_forwards_to sl forward = bnd (get_sl sl) (\<lambda>s. ret (sl_forward s = Some forward))"

lemmas counter_ops = counter_inc_ref_def counter_dec_ref_def counter_inc_store_def
  counter_dec_store_def counter_continue_waiting_def counter_done_def

section \<open>What the queues do\<close>

text \<open>The queue behind a pointer, and the memory with another queue there or with a counter changed.\<close>

definition the_sl :: "world \<Rightarrow> slref \<Rightarrow> safelist" where
  "the_sl v sl = sl_of (the (colls v (fst sl))) (snd sl)"

definition items :: "world \<Rightarrow> slref \<Rightarrow> addr list" where
  "items v sl = the (sl_data (the_sl v sl))"

definition sl_ok :: "world \<Rightarrow> slref \<Rightarrow> bool" where
  "sl_ok v sl \<longleftrightarrow> colls v (fst sl) \<noteq> None \<and> sl_data (the_sl v sl) \<noteq> None \<and>
     ctrs v (sl_count (the_sl v sl)) \<noteq> None"

definition set_sl :: "slref \<Rightarrow> (safelist \<Rightarrow> safelist) \<Rightarrow> world \<Rightarrow> world" where
  "set_sl sl f v = v\<lparr>colls := (colls v)(fst sl \<mapsto> sl_put (snd sl) (f (the_sl v sl)) (the (colls v (fst sl))))\<rparr>"

definition set_items :: "slref \<Rightarrow> addr list \<Rightarrow> world \<Rightarrow> world" where
  "set_items sl xs = set_sl sl (\<lambda>s. s\<lparr>sl_data := Some xs\<rparr>)"

definition add_store :: "addr \<Rightarrow> 64 word \<Rightarrow> world \<Rightarrow> world" where
  "add_store p d v =
     v\<lparr>ctrs := (ctrs v)(p \<mapsto> (the (ctrs v p))\<lparr>store_count := store_count (the (ctrs v p)) + d\<rparr>)\<rparr>"

definition poll_spec :: "slref \<Rightarrow> world \<Rightarrow> addr \<times> world" where
  "poll_spec sl v =
     (case items v sl of
        [] \<Rightarrow> (NULL, v)
      | x # xs \<Rightarrow> (x, set_items sl xs (add_store (sl_count (the_sl v sl)) (- 1) v)))"

definition add_spec :: "slref \<Rightarrow> addr \<Rightarrow> world \<Rightarrow> world" where
  "add_spec sl x v = set_items sl (items v sl @ [x]) (add_store (sl_count (the_sl v sl)) 1 v)"

lemma erase_add_store [simp]: "erase (add_store p d v) = add_store p d (erase v)"
  by (simp add: add_store_def)

lemma the_sl_erase [simp]: "the_sl (erase w) sl = the_sl w sl" "items (erase w) sl = items w sl"
  "sl_ok (erase w) sl = sl_ok w sl"
  by (simp_all add: the_sl_def items_def sl_ok_def)

lemma erase_set_sl [simp]: "erase (set_sl sl f v) = set_sl sl f (erase v)"
  by (simp add: set_sl_def the_sl_def)

lemma erase_set_items [simp]: "erase (set_items sl xs v) = set_items sl xs (erase v)"
  by (simp add: set_items_def)

lemma set_sl_simps [simp]:
  "objs (set_sl sl f v) = objs v" "lnks (set_sl sl f v) = lnks v" "ctrs (set_sl sl f v) = ctrs v"
  "fuel (set_sl sl f v) = fuel v" "lock_view (set_sl sl f v) = lock_view v"
  "objs (add_store p d v) = objs v" "lnks (add_store p d v) = lnks v" "colls (add_store p d v) = colls v"
  "fuel (add_store p d v) = fuel v" "lock_view (add_store p d v) = lock_view v"
  by (simp_all add: set_sl_def add_store_def lock_view_def)

lemma the_sl_set_sl:
  "the_sl (set_sl sl f v) sl' = (if sl = sl' then f (the_sl v sl) else the_sl v sl')"
  by (cases sl; cases sl') (auto simp: the_sl_def set_sl_def)

lemma items_set_items [simp]:
  "items (set_items sl xs v) sl' = (if sl = sl' then xs else items v sl')"
  by (simp add: items_def set_items_def the_sl_set_sl)

lemma the_sl_add_store [simp]: "the_sl (add_store p d v) sl = the_sl v sl" "items (add_store p d v) sl = items v sl"
  by (simp_all add: the_sl_def items_def)

lemma sl_ok_set_items [simp]: "sl_ok v sl \<Longrightarrow> sl_ok (set_items sl' xs v) sl"
  by (auto simp: sl_ok_def set_items_def the_sl_set_sl) (auto simp: set_sl_def)

lemma sl_ok_add_store [simp]: "sl_ok v sl \<Longrightarrow> sl_ok (add_store p d v) sl"
  by (auto simp: sl_ok_def) (auto simp: add_store_def)

lemma get_sl_ok: "sl_ok w sl \<Longrightarrow> get_sl sl w = Inr (the_sl w sl, w)"
  by (auto simp: sl_ok_def get_sl_def the_sl_def)

lemma data_of_ok: "sl_ok w sl \<Longrightarrow> data_of sl w = Inr (items w sl, w)"
  by (auto simp: data_of_def bnd_def get_sl_ok ret_def items_def sl_ok_def)

lemma upd_sl_ok: "sl_ok w sl \<Longrightarrow> upd_sl sl f w = Inr ((), set_sl sl f w)"
  by (auto simp: sl_ok_def upd_sl_def upd_coll_def set_sl_def the_sl_def)

lemma counter_store_ok:
  "ctrs w p \<noteq> None \<Longrightarrow> counter_inc_store p w = Inr ((), add_store p 1 w)"
  "ctrs w p \<noteq> None \<Longrightarrow> counter_dec_store p w = Inr ((), add_store p (- 1) w)"
  by (auto simp: counter_ops upd_ctr_def add_store_def)

lemma sl_ok_lockable: "sl_ok w sl \<Longrightarrow> lockable w (LSafe sl)"
  by (simp add: sl_ok_def)

lemma sl_ok_poll_spec: "sl_ok v sl' \<Longrightarrow> sl_ok (snd (poll_spec sl v)) sl'"
  by (auto simp: poll_spec_def split: list.splits)

lemma sl_ok_add_spec: "sl_ok v sl' \<Longrightarrow> sl_ok (add_spec sl x v) sl'"
  by (simp add: add_spec_def)

text \<open>The lock of a queue can be released in any later memory that still has the queue.\<close>

lemma erase_lockable: "erase w = v \<Longrightarrow> sl_ok v sl \<Longrightarrow> r \<in> set [LSafe sl] \<Longrightarrow> lockable w r"
  by (auto intro: sl_ok_lockable simp del: lockable_simps)

lemma safelist_poll_runs:
  assumes "sl_ok v sl"
  shows "runs (\<lambda>w. erase w = v) (safelist_poll sl) (\<lambda>x w. x = fst (poll_spec sl v) \<and> erase w = snd (poll_spec sl v))"
  unfolding safelist_poll_def
proof (rule runs_with_locks [OF _ _ runs_step], goal_cases)
  case (3 w)
  with assms have ok: "sl_ok w sl" by auto
  then have c: "ctrs w (sl_count (the_sl w sl)) \<noteq> None" by (simp add: sl_ok_def)
  show ?case
    by (cases "items w sl")
      (auto simp: bnd_def ret_def data_of_ok get_sl_ok upd_sl_ok counter_store_ok ok c
        poll_spec_def set_items_def simp flip: 3(1))
qed (use assms in \<open>auto intro: erase_lockable sl_ok_poll_spec simp del: lockable_simps\<close>)

lemma safelist_size_runs:
  assumes "sl_ok v sl"
  shows "runs (\<lambda>w. erase w = v) (safelist_size sl) (\<lambda>n w. n = length (items v sl) \<and> erase w = v)"
  unfolding safelist_size_def
proof (rule runs_with_locks [OF _ _ runs_step], goal_cases)
  case (3 w)
  with assms have "sl_ok w sl" by auto
  then show ?case by (auto simp: bnd_def ret_def data_of_ok simp flip: 3(1))
qed (use assms in \<open>auto intro: erase_lockable simp del: lockable_simps\<close>)

section \<open>Chains of forwards\<close>

text \<open>\<open>chain v sl n e\<close>: after \<open>n\<close> forwards from \<open>sl\<close> one is at \<open>e\<close>, which does not forward.\<close>

fun chain :: "world \<Rightarrow> slref \<Rightarrow> nat \<Rightarrow> slref \<Rightarrow> bool" where
  "chain v sl 0 e \<longleftrightarrow> sl = e \<and> sl_ok v sl \<and> sl_forward (the_sl v sl) = None"
| "chain v sl (Suc n) e \<longleftrightarrow>
     sl_ok v sl \<and> (\<exists>f. sl_forward (the_sl v sl) = Some f \<and> chain v f n e)"

lemma chain_ok: "chain v sl n e \<Longrightarrow> sl_ok v sl \<and> sl_ok v e"
  by (induction n arbitrary: sl) auto

lemma chain_cases:
  "chain v sl n e \<Longrightarrow> (case sl_forward (the_sl v sl) of
     None \<Rightarrow> n = 0 \<and> sl = e
   | Some f \<Rightarrow> \<exists>k. n = Suc k \<and> chain v f k e)"
  by (cases n) auto

lemma forward_end_loop:
  assumes "chain v f n e" and "n < k"
  shows "runs (\<lambda>w. erase w = v)
    (loopM k (\<lambda>f. bnd (get_sl f) (\<lambda>s.
       case sl_forward s of None \<Rightarrow> ret (Inr f) | Some g \<Rightarrow> ret (Inl g))) f)
    (\<lambda>x w. x = e \<and> erase w = v)"
  using assms
proof (induction n arbitrary: f k)
  case 0
  then obtain k' where k: "k = Suc k'" by (cases k) auto
  show ?case
  proof (rule runs_step)
    fix w assume w: "erase w = v"
    with 0 have "sl_ok w f" "sl_forward (the_sl w f) = None" by auto
    with 0 w show "\<exists>x w'. loopM k (\<lambda>f. bnd (get_sl f) (\<lambda>s.
       case sl_forward s of None \<Rightarrow> ret (Inr f) | Some g \<Rightarrow> ret (Inl g))) f w = Inr (x, w') \<and>
       lock_view w' = lock_view w \<and> x = e \<and> erase w' = v"
      by (simp add: k bnd_def get_sl_ok ret_def)
  qed
next
  case (Suc n)
  then obtain k' where k: "k = Suc k'" by (cases k) auto
  from Suc.prems obtain g where g: "sl_ok v f" "sl_forward (the_sl v f) = Some g" "chain v g n e" by auto
  show ?case
    unfolding k loopM.simps
  proof (rule runs_bnd)
    show "runs (\<lambda>w. erase w = v) (bnd (get_sl f) (\<lambda>s.
       case sl_forward s of None \<Rightarrow> ret (Inr f) | Some g \<Rightarrow> ret (Inl g)))
       (\<lambda>r w. r = Inl g \<and> erase w = v)"
      by (rule runs_step) (use g in \<open>auto simp: bnd_def get_sl_ok ret_def\<close>)
  next
    fix r
    show "runs (\<lambda>w. r = Inl g \<and> erase w = v)
      (case r of Inl y \<Rightarrow> loopM k' (\<lambda>f. bnd (get_sl f) (\<lambda>s.
         case sl_forward s of None \<Rightarrow> ret (Inr f) | Some g \<Rightarrow> ret (Inl g))) y | Inr z \<Rightarrow> ret z)
      (\<lambda>x w. x = e \<and> erase w = v)"
      using Suc.IH [OF g(3), of k'] Suc.prems(2) k by (auto intro: runs_pre simp: runs_def)
  qed
qed

lemma fuel_runs:
  "runs (\<lambda>w. erase w = v) (m (fuel v)) Q \<Longrightarrow> runs (\<lambda>w. erase w = v) (bnd (gets fuel) m) Q"
  unfolding runs_def bnd_gets by auto

lemma forward_end_runs:
  "chain v f n e \<Longrightarrow> n < fuel v \<Longrightarrow>
   runs (\<lambda>w. erase w = v) (forward_end f) (\<lambda>x w. x = e \<and> erase w = v)"
  unfolding forward_end_def by (rule fuel_runs) (rule forward_end_loop)

definition add_here :: "addr \<Rightarrow> slref \<Rightarrow> slref option W" where
  "add_here datum sl = with_locks [LSafe sl]
       (bnd (get_sl sl) (\<lambda>s.
        case sl_forward s of
          None \<Rightarrow> bnd (counter_inc_store (sl_count s)) (\<lambda>_. bnd (list_add_to sl datum) (\<lambda>_. ret None))
        | Some f \<Rightarrow> ret (Some f)))"

lemma list_add_to_ok:
  "sl_ok w sl \<Longrightarrow> mem w = [] \<Longrightarrow> list_add_to sl x w = Inr ((), set_items sl (items w sl @ [x]) w)"
  by (cases w) (auto simp: list_add_to_def data_of_ok bnd_def calloc_ok_def zoom_def whenM_def
      upd_sl_ok set_items_def)

lemma mem_add_store [simp]: "mem (add_store p d w) = mem w"
  by (simp add: add_store_def)

lemma add_here_runs:
  assumes "sl_ok v sl"
  shows "runs (\<lambda>w. erase w = v) (add_here x sl) (\<lambda>f w. f = sl_forward (the_sl v sl) \<and>
    erase w = (if f = None then add_spec sl x v else v))"
  unfolding add_here_def
proof (rule runs_with_locks [OF _ _ runs_step], goal_cases)
  case (3 w)
  with assms have ok: "sl_ok w sl" by auto
  then have c: "ctrs w (sl_count (the_sl w sl)) \<noteq> None" by (simp add: sl_ok_def)
  show ?case
    using 3(2) ok c
    by (cases "sl_forward (the_sl w sl)")
      (auto simp: bnd_def ret_def get_sl_ok list_add_to_ok counter_store_ok add_spec_def
        set_items_def simp flip: 3(1))
qed (use assms in \<open>auto intro: erase_lockable sl_ok_add_spec simp del: lockable_simps split: if_splits\<close>)

lemma safelist_add_once_eq:
  "safelist_add_once x sl = bnd (add_here x sl) (\<lambda>f.
     case f of None \<Rightarrow> ret (Inr ()) | Some f \<Rightarrow> bnd (forward_end f) (\<lambda>f. ret (Inl f)))"
  by (simp add: safelist_add_once_def add_here_def)

lemma safelist_add_at_end:
  assumes "chain v sl 0 e"
  shows "runs (\<lambda>w. erase w = v) (safelist_add_once x sl) (\<lambda>r w. r = Inr () \<and> erase w = add_spec e x v)"
  unfolding safelist_add_once_eq
proof (rule runs_bnd_eq)
  show "runs (\<lambda>w. erase w = v) (add_here x sl) (\<lambda>f w. f = None \<and> erase w = add_spec e x v)"
    by (rule runs_post [OF add_here_runs]) (use assms in auto)
qed (auto intro: runs_ret)

lemma safelist_add_on:
  assumes "chain v sl (Suc n) e" and "n < fuel v"
  shows "runs (\<lambda>w. erase w = v) (safelist_add_once x sl) (\<lambda>r w. r = Inl e \<and> erase w = v)"
proof -
  from assms(1) obtain f where f: "sl_ok v sl" "sl_forward (the_sl v sl) = Some f" "chain v f n e" by auto
  have add: "runs (\<lambda>w. erase w = v) (add_here x sl) (\<lambda>r w. r = Some f \<and> erase w = v)"
    by (rule runs_post [OF add_here_runs]) (use f in auto)
  have "runs (\<lambda>w. erase w = v) (bnd (forward_end f) (\<lambda>f. ret (Inl f))) (\<lambda>r w. r = Inl e \<and> erase w = v)"
    by (rule runs_bnd_eq [OF forward_end_runs [OF f(3) assms(2)]]) (auto intro: runs_ret)
  then show ?thesis
    unfolding safelist_add_once_eq by (intro runs_bnd_eq [OF add]) simp
qed

lemma chain_end: "chain v sl n e \<Longrightarrow> chain v e 0 e"
  by (induction n arbitrary: sl) auto

text \<open>\<open>safelist_add\<close> always returns and puts the pointer last in the queue at the end of the
  chain.\<close>

lemma safelist_add_runs:
  assumes "chain v sl n e" and "n < fuel v" and "2 \<le> fuel v"
  shows "runs (\<lambda>w. erase w = v) (safelist_add sl x) (\<lambda>_ w. erase w = add_spec e x v)"
proof -
  from assms(3) obtain k where k: "fuel v = Suc (Suc k)"
    by (metis add_2_eq_Suc le_Suc_ex)
  have here: "runs (\<lambda>w. erase w = v) (loopM (Suc j) (safelist_add_once x) e) (\<lambda>_ w. erase w = add_spec e x v)" for j
    unfolding loopM.simps
    by (rule runs_bnd_eq [OF safelist_add_at_end [OF chain_end [OF assms(1)]]]) (auto intro: runs_ret)
  show ?thesis
    unfolding safelist_add_def
  proof (rule fuel_runs)
    show "runs (\<lambda>w. erase w = v) (loopM (fuel v) (safelist_add_once x) sl) (\<lambda>_ w. erase w = add_spec e x v)"
    proof (cases n)
      case 0
      then have "sl = e" using assms(1) by simp
      then show ?thesis unfolding k using here by simp
    next
      case (Suc n')
      have "runs (\<lambda>w. erase w = v) (safelist_add_once x sl) (\<lambda>r w. r = Inl e \<and> erase w = v)"
        by (rule safelist_add_on [where n = n']) (use assms(1,2) Suc in simp_all)
      then show ?thesis
        unfolding k loopM.simps(2) [of "Suc k"]
        by (rule runs_bnd_eq) (simp only: sum.case here)
    qed
  qed
qed

section \<open>Draining a queue\<close>

lemma drain_runs:
  assumes queue: "\<And>xs u. J xs u \<Longrightarrow> sl_ok u sl \<and> items u sl = xs \<and> NULL \<notin> set xs"
    and act: "\<And>x xs u. J (x # xs) u \<Longrightarrow>
      runs (\<lambda>w. erase w = snd (poll_spec sl u)) (act x) (\<lambda>_ w. J xs (erase w))"
    and start: "J xs v" "length xs < fuel v"
  shows "runs (\<lambda>w. erase w = v) (drain sl act) (\<lambda>_ w. J [] (erase w))"
  unfolding drain_def
proof (rule fuel_runs)
  let ?body = "\<lambda>_. bnd (safelist_poll sl) (\<lambda>obj.
      if obj = NULL then ret (Inr ()) else bnd (act obj) (\<lambda>_. ret (Inl ())))"
  have "runs (\<lambda>w. erase w = u) (loopM n ?body ()) (\<lambda>_ w. J [] (erase w))"
    if "J xs u" "length xs < n" for xs u n
    using that
  proof (induction xs arbitrary: u n)
    case Nil
    then obtain k where n: "n = Suc k" by (cases n) auto
    from queue [OF Nil.prems(1)] have ok: "sl_ok u sl" "items u sl = []" by auto
    have "runs (\<lambda>w. erase w = u) (?body ()) (\<lambda>r w. r = Inr () \<and> erase w = u)"
      by (rule runs_bnd_eq [where c = NULL and R = "\<lambda>w. erase w = u"])
        (use safelist_poll_runs [OF ok(1)] ok(2) in \<open>auto simp: poll_spec_def intro: runs_ret\<close>)
    then show ?case
      unfolding n loopM.simps by (rule runs_bnd_eq) (use Nil in \<open>auto intro: runs_ret\<close>)
  next
    case (Cons x xs)
    then obtain k where n: "n = Suc k" by (cases n) auto
    from queue [OF Cons.prems(1)] have ok: "sl_ok u sl" "items u sl = x # xs" "x \<noteq> NULL" by auto
    let ?R = "\<lambda>w. erase w = snd (poll_spec sl u)"
    have p: "runs (\<lambda>w. erase w = u) (safelist_poll sl) (\<lambda>r w. r = x \<and> ?R w)"
      by (rule runs_post [OF safelist_poll_runs [OF ok(1)]]) (simp add: poll_spec_def ok)
    have "runs ?R (bnd (act x) (\<lambda>_. ret (Inl ()))) (\<lambda>r w. r = Inl () \<and> J xs (erase w))"
      by (rule runs_bnd [OF act [OF Cons.prems(1)]]) (auto intro: runs_ret)
    with ok(3) have b: "runs (\<lambda>w. erase w = u) (?body ()) (\<lambda>r w. r = Inl () \<and> J xs (erase w))"
      by (intro runs_bnd_eq [OF p]) simp
    have "runs (\<lambda>w. J xs (erase w)) (loopM k ?body ()) (\<lambda>_ w. J [] (erase w))"
    proof (rule runsI)
      fix t st w assume c: "calm t st w" and j: "J xs (erase w)"
      have "runs (\<lambda>w'. erase w' = erase w) (loopM k ?body ()) (\<lambda>_ w. J [] (erase w))"
        by (rule Cons.IH [OF j]) (use Cons.prems n in auto)
      with c show "\<exists>x w'. loopM k ?body () w = Inr (x, w') \<and> calm t st w' \<and> J [] (erase w')"
        by (auto elim!: runsE)
    qed
    then show ?case unfolding n loopM.simps by (intro runs_bnd_eq [OF b]) simp
  qed
  with start show "runs (\<lambda>w. erase w = v) (loopM (fuel v) ?body ()) (\<lambda>_ w. J [] (erase w))" by blast
qed

text \<open>The memory after the objects \<open>ys\<close> have gone over and \<open>xs\<close> are left: each of them is counted once less by the counter of
  the one queue and once more by that of the other, which may be the same.\<close>

definition moved :: "world \<Rightarrow> slref \<Rightarrow> slref \<Rightarrow> addr list \<Rightarrow> addr list \<Rightarrow> world" where
  "moved v sl e ys xs =
     set_items sl xs (set_items e (items v e @ ys)
       (add_store (sl_count (the_sl v e)) (of_nat (length ys))
         (add_store (sl_count (the_sl v sl)) (- of_nat (length ys)) v)))"

lemma forward_set_items [simp]: "sl_forward (the_sl (set_items sl xs v) s) = sl_forward (the_sl v s)"
  by (simp add: set_items_def the_sl_set_sl)

lemma fuel_set_items [simp]: "fuel (set_items sl xs v) = fuel v" "objs (set_items sl xs v) = objs v"
  "lnks (set_items sl xs v) = lnks v"
  by (simp_all add: set_items_def)

lemma add_store_twice: "add_store p d (add_store p d' v) = add_store p (d' + d) v"
  by (cases v) (simp add: add_store_def add.assoc)

lemma add_store_swap: "add_store p d (add_store q d' v) = add_store q d' (add_store p d v)"
  by (cases v; cases "p = q") (simp_all add: add_store_def fun_upd_twist add_ac)

lemma add_store_set_items: "add_store p d (set_items sl xs v) = set_items sl xs (add_store p d v)"
  by (cases v) (simp add: add_store_def set_items_def set_sl_def the_sl_def)

lemma add_store_0: "ctrs v p \<noteq> None \<Longrightarrow> add_store p 0 v = v"
  by (cases v) (auto simp: add_store_def fun_upd_idem)

lemma sl_put_put: "sl_put f s (sl_put f s' c) = sl_put f s c"
  by (cases f) simp_all

lemma sl_put_swap: "f \<noteq> g \<Longrightarrow> sl_put f s (sl_put g s' c) = sl_put g s' (sl_put f s c)"
  by (cases f; cases g) simp_all

lemma set_sl_twice: "set_sl sl f (set_sl sl g v) = set_sl sl (\<lambda>s. f (g s)) v"
  by (cases v; cases sl) (simp add: set_sl_def the_sl_def sl_put_put)

lemma set_items_twice: "set_items sl xs (set_items sl ys v) = set_items sl xs v"
  by (cases v; cases sl) (simp add: set_items_def set_sl_def the_sl_def sl_put_put)

lemma set_items_swap:
  assumes "sl \<noteq> e"
  shows "set_items sl xs (set_items e ys v) = set_items e ys (set_items sl xs v)"
proof (cases "fst sl = fst e")
  case True
  then have "snd sl \<noteq> snd e" using assms by (metis prod.collapse)
  with True show ?thesis
    by (cases v; cases sl; cases e) (simp add: set_items_def set_sl_def the_sl_def sl_put_swap)
next
  case False
  then show ?thesis
    by (cases v; cases sl; cases e) (simp add: set_items_def set_sl_def the_sl_def fun_upd_twist)
qed

lemma sl_put_same: "sl_put f (sl_of c f) c = c"
  by (cases f) simp_all

lemma set_items_same:
  assumes "sl_ok v sl"
  shows "set_items sl (items v sl) v = v"
proof -
  obtain c xs where c: "colls v (fst sl) = Some c" and d: "sl_data (sl_of c (snd sl)) = Some xs"
    using assms by (auto simp: sl_ok_def the_sl_def)
  have same: "sl_put (snd sl) (sl_of c (snd sl)\<lparr>sl_data := Some xs\<rparr>) c = c"
    using d sl_put_same [of "snd sl" c] by (cases "sl_of c (snd sl)") simp
  show ?thesis
    using c d by (cases v) (simp add: set_items_def set_sl_def items_def the_sl_def same fun_upd_idem)
qed

lemma count_set_items [simp]: "sl_count (the_sl (set_items sl xs v) s) = sl_count (the_sl v s)"
  by (simp add: set_items_def the_sl_set_sl)

lemma moved_simps [simp]:
  "sl \<noteq> e \<Longrightarrow> items (moved v sl e ys xs) sl = xs" "sl \<noteq> e \<Longrightarrow> items (moved v sl e ys xs) e = items v e @ ys"
  "s \<noteq> sl \<Longrightarrow> s \<noteq> e \<Longrightarrow> items (moved v sl e ys xs) s = items v s"
  "sl_forward (the_sl (moved v sl e ys xs) s) = sl_forward (the_sl v s)"
  "sl_count (the_sl (moved v sl e ys xs) s) = sl_count (the_sl v s)" "sl_ok v s \<Longrightarrow> sl_ok (moved v sl e ys xs) s"
  "fuel (moved v sl e ys xs) = fuel v" "objs (moved v sl e ys xs) = objs v" "lnks (moved v sl e ys xs) = lnks v"
  by (simp_all add: moved_def)

lemma moved_start: "sl_ok v sl \<Longrightarrow> sl_ok v e \<Longrightarrow> moved v sl e [] (items v sl) = v"
  by (simp add: moved_def add_store_0 set_items_same sl_ok_def [THEN iffD1])

lemma moved_step:
  assumes "sl \<noteq> e"
  shows "add_spec e x (snd (poll_spec sl (moved v sl e ys (x # xs)))) = moved v sl e (ys @ [x]) xs"
proof -
  let ?cs = "sl_count (the_sl v sl)" and ?ce = "sl_count (the_sl v e)" and ?n = "of_nat (length ys) :: 64 word"
  have stores: "add_store ?ce 1 (add_store ?cs (- 1) (add_store ?ce ?n (add_store ?cs (- ?n) v))) =
      add_store ?ce (?n + 1) (add_store ?cs (- ?n + - 1) v)"
    by (metis add_store_swap add_store_twice)
  show ?thesis
    using assms
    by (simp add: add_spec_def poll_spec_def)
      (simp add: moved_def add_store_set_items set_items_twice stores set_items_swap [of e sl] add.commute)
qed

lemma chain_poll: "chain u e 0 e \<Longrightarrow> chain (snd (poll_spec sl u)) e 0 e"
  by (auto simp: poll_spec_def split: list.splits)

lemma fuel_poll_spec [simp]: "fuel (snd (poll_spec sl u)) = fuel u"
  by (auto simp: poll_spec_def split: list.splits)

lemma chain_moved: "chain v e 0 e \<Longrightarrow> chain (moved v sl e ys xs) e 0 e"
  by auto

lemma drain_move_runs:
  assumes "sl_ok v sl" and "chain v e 0 e" and "sl \<noteq> e" and "NULL \<notin> set (items v sl)"
    and "length (items v sl) < fuel v" and "2 \<le> fuel v"
  shows "runs (\<lambda>w. erase w = v) (drain sl (safelist_add e)) (\<lambda>_ w. erase w = moved v sl e (items v sl) [])"
proof -
  define J where "J xs u \<longleftrightarrow> (\<exists>ys. items v sl = ys @ xs \<and> u = moved v sl e ys xs)" for xs u
  have "sl_ok v e" using chain_ok [OF assms(2)] by simp
  have "runs (\<lambda>w. erase w = v) (drain sl (safelist_add e)) (\<lambda>_ w. J [] (erase w))"
  proof (rule drain_runs)
    show "J (items v sl) v" using moved_start [OF assms(1) \<open>sl_ok v e\<close>] by (simp add: J_def)
  next
    fix xs u assume "J xs u"
    then show "sl_ok u sl \<and> items u sl = xs \<and> NULL \<notin> set xs"
      using assms(1,3,4) by (auto simp: J_def)
  next
    fix x xs u assume "J (x # xs) u"
    then obtain ys where y: "items v sl = ys @ x # xs" and u: "u = moved v sl e ys (x # xs)" by (auto simp: J_def)
    have "chain (snd (poll_spec sl u)) e 0 e" unfolding u by (rule chain_poll [OF chain_moved [OF assms(2)]])
    moreover have "2 \<le> fuel (snd (poll_spec sl u))" using u assms(6) by simp
    ultimately have "runs (\<lambda>w. erase w = snd (poll_spec sl u)) (safelist_add e x)
        (\<lambda>_ w. erase w = add_spec e x (snd (poll_spec sl u)))"
      by (intro safelist_add_runs [where n = 0]) auto
    then show "runs (\<lambda>w. erase w = snd (poll_spec sl u)) (safelist_add e x) (\<lambda>_ w. J xs (erase w))"
      by (rule runs_post) (use y in \<open>auto simp: J_def u moved_step [OF assms(3)]\<close>)
  qed (rule assms(5))
  then show ?thesis by (simp add: J_def)
qed

text \<open>\<open>safelist_forward\<close> empties the queue into the other one, in order, and leaves the
  forward behind.\<close>

lemma safelist_forward_runs:
  assumes "sl_ok v sl" and "chain v e 0 e" and "sl \<noteq> e" and "NULL \<notin> set (items v sl)"
    and "length (items v sl) < fuel v" and "2 \<le> fuel v"
  shows "runs (\<lambda>w. erase w = v) (safelist_forward sl e)
    (\<lambda>_ w. erase w = set_sl sl (\<lambda>s. s\<lparr>sl_forward := Some e\<rparr>) (moved v sl e (items v sl) []))"
  unfolding safelist_forward_def
proof (rule runs_with_locks)
  let ?u = "moved v sl e (items v sl) []"
  let ?v = "set_sl sl (\<lambda>s. s\<lparr>sl_forward := Some e\<rparr>) ?u"
  have ok: "sl_ok ?u sl" "sl_ok ?u e" using assms(1) chain_ok [OF assms(2)] by simp_all
  show "runs (\<lambda>w. erase w = v)
     (block [drain sl (safelist_add e), upd_sl sl (\<lambda>s. s\<lparr>sl_forward := Some e\<rparr>)]) (\<lambda>_ w. erase w = ?v)"
    unfolding block.simps
  proof (rule runs_bnd [OF drain_move_runs [OF assms]], rule runs_step)
    fix w assume m: "erase w = ?u"
    then have "sl_ok w sl" using ok(1) by (metis the_sl_erase(3))
    then show "\<exists>x w'. bnd (upd_sl sl (\<lambda>s. s\<lparr>sl_forward := Some e\<rparr>)) (\<lambda>_. ret ()) w = Inr (x, w') \<and>
        lock_view w' = lock_view w \<and> erase w' = ?v"
      using m by (auto simp: bnd_def upd_sl_ok ret_def)
  qed
  show "lockable w r" if "erase w = ?v" and "r \<in> set [LSafe sl, LSafe e]" for w r
  proof -
    have "colls w = colls ?v" using that(1) by (metis erase_simps(3))
    with that(2) ok show ?thesis by (auto simp: sl_ok_def set_sl_def)
  qed
next
  fix w r assume "erase w = v" and "r \<in> set [LSafe sl, LSafe e]"
  then show "lockable w r"
    using assms(1,2) by (auto intro: sl_ok_lockable simp del: lockable_simps)
qed (simp_all add: stable_def erase_lock_eq)

section \<open>Locks and frames\<close>

text \<open>Parts of the memory that no queue operation writes.\<close>

definition sl_free :: "(world \<Rightarrow> 'v) \<Rightarrow> bool" where
  "sl_free f \<longleftrightarrow> lock_free f \<and>
     (\<forall>w g h. f (colls_update g w) = f w \<and> f (ctrs_update h w) = f w)"

lemma sl_free_lock_free [simp]: "sl_free f \<Longrightarrow> lock_free f"
  by (simp add: sl_free_def)

lemma sl_free_fields [simp]:
  "sl_free objs" "sl_free lnks" "sl_free tsks" "sl_free id_count" "sl_free num_collector"
  "sl_free acid_world_count" "sl_free acid_collect_count" "sl_free self" "sl_free work"
  "sl_free endtime" "sl_free task_count" "sl_free zero_broadcasts" "sl_free dtor_calls" "sl_free fuel"
  by (simp_all add: sl_free_def)

lemma sl_free_pair [simp]: "sl_free f \<Longrightarrow> sl_free g \<Longrightarrow> sl_free (\<lambda>w. (f w, g w))"
  by (simp add: sl_free_def)

lemma sl_free_keeps:
  assumes "sl_free f"
  shows "keeps f (upd_coll p a)" "keeps f (upd_ctr p b)" "keeps f (upd_sl r c)" "keeps f calloc_ok"
    "keeps f (xmalloc sz)"
  using assms
  by (auto simp: sl_free_def lock_free_def intro!: keeps_upd_coll keeps_upd_ctr keeps_upd_sl
      keeps_calloc_ok keeps_xmalloc)

lemma keeps_counter_ops [keeps_intros]:
  assumes "sl_free f"
  shows "keeps f (counter_inc_ref p)" "keeps f (counter_dec_ref p)" "keeps f (counter_inc_store p)"
    "keeps f (counter_dec_store p)" "keeps f (counter_continue_waiting p)" "keeps f (counter_done p)"
  unfolding counter_ops by (intro keeps_intros sl_free_keeps assms)+

lemma keeps_counter_create [keeps_intros]:
  assumes "sl_free f"
  shows "keeps f counter_create" "keeps f (counter_destroy p)"
  unfolding counter_create_def counter_destroy_def using assms
  by (intro keeps_intros sl_free_keeps keeps_modify; simp add: sl_free_def)+

lemma keeps_data_of [keeps_intros]: "keeps f (data_of sl)"
  unfolding data_of_def by (intro keeps_intros)

lemma keeps_safelist_ops [keeps_intros]:
  assumes "sl_free f"
  shows "keeps f (safelist_poll sl)" "keeps f (safelist_add sl x)" "keeps f (safelist_size sl)"
    "keeps f (safelist_is_empty sl)" "keeps f (safelist_forwards_to sl e)" "keeps f (safelist_deinit sl)"
  unfolding safelist_poll_def safelist_add_def safelist_add_once_def forward_end_def list_add_to_def
    safelist_size_def safelist_is_empty_def safelist_forwards_to_def safelist_deinit_def
  by (intro keeps_intros sl_free_keeps sl_free_lock_free assms)+

lemma keeps_drain [keeps_intros]:
  "sl_free f \<Longrightarrow> (\<And>x. keeps f (act x)) \<Longrightarrow> keeps f (drain sl act)"
  unfolding drain_def by (intro keeps_intros)

lemma keeps_safelist_forward [keeps_intros]: "sl_free f \<Longrightarrow> keeps f (safelist_forward sl e)"
  unfolding safelist_forward_def by (intro keeps_intros sl_free_keeps sl_free_lock_free)

text \<open>Every operation gives back all it locked.\<close>

lemma balanced_counter_ops:
  "balanced (counter_inc_ref p)" "balanced (counter_dec_ref p)" "balanced (counter_inc_store p)"
  "balanced (counter_dec_store p)" "balanced (counter_continue_waiting p)" "balanced (counter_done p)"
  unfolding counter_ops by (rule balancedI, (rule lock_hoare)+)+

lemma balanced_data_of: "balanced (data_of sl)"
  unfolding data_of_def by (rule balancedI, (rule lock_hoare)+)

lemma balanced_idlock_init: "balanced idlock_init"
  unfolding idlock_init_def
  by (rule keeps_balanced) (intro keeps_intros keeps_modify, simp add: lock_view_def)

lemma balanced_ctrs: "balanced (modify (\<lambda>w. w\<lparr>ctrs := g w\<rparr>))"
  by (rule balanced_modify) (simp add: lock_view_def)

lemma balanced_counter_create: "balanced counter_create" "balanced (counter_destroy p)"
  unfolding counter_create_def counter_destroy_def
  by (rule balancedI, (rule lock_hoare balanced_ctrs [THEN balanced_at])+)+

lemmas [lock_hoare] =
  balanced_counter_ops [THEN balanced_at] balanced_counter_ops [THEN balanced_in]
  balanced_data_of [THEN balanced_at] balanced_data_of [THEN balanced_in]
  balanced_idlock_init [THEN balanced_at] balanced_idlock_init [THEN balanced_in]
  balanced_counter_create [THEN balanced_at] balanced_counter_create [THEN balanced_in]

lemma balanced_safelist_init: "balanced (safelist_init c)"
  unfolding safelist_init_def by (rule balancedI, (rule lock_hoare)+)

lemma balanced_safelist_basic:
  "balanced (safelist_poll sl)" "balanced (safelist_add sl x)" "balanced (safelist_size sl)"
  "balanced (safelist_is_empty sl)" "balanced (safelist_forwards_to sl e)" "balanced (safelist_deinit sl)"
  unfolding safelist_poll_def safelist_add_def safelist_add_once_def forward_end_def list_add_to_def
    safelist_size_def safelist_is_empty_def safelist_forwards_to_def safelist_deinit_def
  by (rule balancedI, (rule lock_hoare balancedI)+)+

lemmas [lock_hoare] =
  balanced_safelist_init [THEN balanced_at] balanced_safelist_init [THEN balanced_in]
  balanced_safelist_basic [THEN balanced_at] balanced_safelist_basic [THEN balanced_in]

lemma balanced_drain:
  assumes "\<And>x. balanced (act x)"
  shows "balanced (drain sl act)"
  unfolding drain_def by (rule balancedI, (rule lock_hoare assms [THEN balanced_at])+)

lemmas [lock_hoare] = balanced_drain [THEN balanced_at] balanced_drain [THEN balanced_in]

lemma balanced_safelist_forward: "balanced (safelist_forward sl e)"
  unfolding safelist_forward_def by (rule balancedI, (rule lock_hoare balancedI)+)

lemmas [lock_hoare] =
  balanced_safelist_forward [THEN balanced_at] balanced_safelist_forward [THEN balanced_in]

section \<open>Properties\<close>

lemma chain_erase [simp]: "chain (erase w) sl n e = chain w sl n e"
  by (induction n arbitrary: sl) auto

lemma store_add_store: "store_count (the (ctrs (add_store p d v) p)) = store_count (the (ctrs v p)) + d"
  by (simp add: add_store_def)

lemma runs_erase:
  assumes "runs (\<lambda>u. erase u = erase w) m Q" and "ready w"
  shows "\<exists>x w'. m w = Inr (x, w') \<and> ready w' \<and> same_locks w w' \<and> Q x w'"
  using runs_ready [OF assms] by simp

text \<open>\<open>safelist_poll\<close> returns the oldest object of the list, or NULL when it is empty, takes it off and lowers
  the store count of the list's collector by one; every other list stays as it is.\<close>

lemma safelist_poll_oldest:
  assumes "ready w" and "sl_ok w sl"
  shows "\<exists>w'. safelist_poll sl w = Inr ((if items w sl = [] then NULL else hd (items w sl)), w') \<and>
    ready w' \<and> same_locks w w' \<and> items w' sl = tl (items w sl) \<and>
    store_count (the (ctrs w' (sl_count (the_sl w sl)))) =
      store_count (the (ctrs w (sl_count (the_sl w sl)))) - (if items w sl = [] then 0 else 1) \<and>
    (\<forall>s. s \<noteq> sl \<longrightarrow> the_sl w' s = the_sl w s)"
proof -
  let ?c = "sl_count (the_sl w sl)"
  obtain w' where run: "safelist_poll sl w = Inr (fst (poll_spec sl (erase w)), w')" "ready w'" "same_locks w w'"
    and e: "erase w' = snd (poll_spec sl (erase w))"
    using runs_erase [OF safelist_poll_runs [of "erase w" sl] assms(1)] assms(2) by auto
  have "items w' s = items (erase w') s" "the_sl w' s = the_sl (erase w') s" "ctrs w' = ctrs (erase w')" for s
    by simp_all
  with run show ?thesis
    by (cases "items w sl") (auto simp: e poll_spec_def set_items_def the_sl_set_sl store_add_store items_def)
qed

lemma two_collectors_ready [simp]: "ready two_collectors"
  by (simp add: two_collectors_def Let_def ready_def calm_def at_locks_def boot_def can_take_def)

lemma two_collectors_sl: "sl_ok two_collectors (1, Merged_list)" "sl_ok two_collectors (2, Merged_list)"
  "items two_collectors (1, Merged_list) = []" "items two_collectors (2, Merged_list) = []"
  "sl_forward (the_sl two_collectors (2, Merged_list)) = None" "fuel two_collectors = 20"
  by (simp_all add: two_collectors_def Let_def sl_ok_def the_sl_def items_def boot_def)

definition two_in_list :: world where
  "two_in_list = set_items (1, Merged_list) [5, 6] two_collectors"

lemma two_in_list_ok: "ready two_in_list" "sl_ok two_in_list (1, Merged_list)" "items two_in_list (1, Merged_list) = [5, 6]"
  "chain two_in_list (2, Merged_list) 0 (2, Merged_list)" "fuel two_in_list = 20"
  "items two_in_list (2, Merged_list) = []"
  by (simp_all add: two_in_list_def two_collectors_sl) (simp add: set_items_def set_sl_def)

text \<open>\<open>safelist_add\<close> on a list that forwards any number of times puts the object at the end of the list where the
  forwards end, and counts it there; no other list changes.\<close>

lemma safelist_add_reaches_end:
  assumes "ready w" and "chain w sl n e" and "n < fuel w" and "2 \<le> fuel w"
  shows "\<exists>w'. safelist_add sl x w = Inr ((), w') \<and> ready w' \<and> same_locks w w' \<and> items w' e = items w e @ [x] \<and>
    store_count (the (ctrs w' (sl_count (the_sl w e)))) = store_count (the (ctrs w (sl_count (the_sl w e)))) + 1 \<and>
    (\<forall>s. s \<noteq> e \<longrightarrow> the_sl w' s = the_sl w s)"
proof -
  obtain w' where run: "safelist_add sl x w = Inr ((), w')" "ready w'" "same_locks w w'"
    and e: "erase w' = add_spec e x (erase w)"
    using runs_erase [OF safelist_add_runs [of "erase w" sl n e] assms(1)] assms(2-4) by auto
  have "items w' s = items (erase w') s" "the_sl w' s = the_sl (erase w') s" "ctrs w' = ctrs (erase w')" for s
    by simp_all
  with run show ?thesis
    by (auto simp: e add_spec_def set_items_def the_sl_set_sl store_add_store items_def)
qed

text \<open>C19: \<open>safelist_forward\<close> to another list, which does not forward itself, leaves the first list empty and forwarding to the second,
  which now ends with all the objects of the first, in their order. The store count of the counter of the first list falls by
  the number of objects and that of the second rises by it; nothing else in the memory changes.\<close>

theorem safelist_forward_moves_all:
  assumes "ready w" and "sl_ok w sl" and "chain w e 0 e" and "sl \<noteq> e" and "NULL \<notin> set (items w sl)"
    and "length (items w sl) < fuel w" and "2 \<le> fuel w"
  shows "\<exists>w'. safelist_forward sl e w = Inr ((), w') \<and> ready w' \<and> same_locks w w' \<and>
    items w' sl = [] \<and> items w' e = items w e @ items w sl \<and> sl_forward (the_sl w' sl) = Some e \<and>
    (\<forall>s. s \<noteq> sl \<longrightarrow> sl_forward (the_sl w' s) = sl_forward (the_sl w s) \<and> (s \<noteq> e \<longrightarrow> items w' s = items w s)) \<and>
    objs w' = objs w \<and> lnks w' = lnks w \<and>
    erase w' = set_sl sl (\<lambda>s. s\<lparr>sl_data := Some [], sl_forward := Some e\<rparr>)
      (set_sl e (\<lambda>s. s\<lparr>sl_data := Some (items w e @ items w sl)\<rparr>)
        (add_store (sl_count (the_sl w e)) (of_nat (length (items w sl)))
          (add_store (sl_count (the_sl w sl)) (- of_nat (length (items w sl))) (erase w))))"
proof -
  let ?m = "moved (erase w) sl e (items w sl) []"
  obtain w' where run: "safelist_forward sl e w = Inr ((), w')" "ready w'" "same_locks w w'"
    and e: "erase w' = set_sl sl (\<lambda>s. s\<lparr>sl_forward := Some e\<rparr>) ?m"
    using runs_erase [OF safelist_forward_runs [of "erase w" sl e] assms(1)] assms(2-7) by auto
  have fields: "items w' s = items (erase w') s" "the_sl w' s = the_sl (erase w') s" "objs w' = objs (erase w')"
    "lnks w' = lnks (erase w')" for s by simp_all
  have "items w' s = (if s = sl then [] else if s = e then items w e @ items w sl else items w s)" for s
    unfolding fields e using assms(4) by (simp add: items_def the_sl_set_sl) (simp flip: items_def)
  moreover have "sl_forward (the_sl w' s) = (if s = sl then Some e else sl_forward (the_sl w s))" for s
    unfolding fields e by (simp add: the_sl_set_sl)
  moreover have "objs w' = objs w" "lnks w' = lnks w" unfolding fields e by simp_all
  moreover have "set_sl sl (\<lambda>s. s\<lparr>sl_forward := Some e\<rparr>) ?m = set_sl sl (\<lambda>s. s\<lparr>sl_data := Some [], sl_forward := Some e\<rparr>)
      (set_sl e (\<lambda>s. s\<lparr>sl_data := Some (items w e @ items w sl)\<rparr>)
        (add_store (sl_count (the_sl w e)) (of_nat (length (items w sl)))
          (add_store (sl_count (the_sl w sl)) (- of_nat (length (items w sl))) (erase w))))"
    unfolding moved_def set_items_def by (simp add: set_sl_twice)
  ultimately show ?thesis using run assms(4) e by auto
qed

theorem safelist_forward_moves_all_witness:
  "\<exists>w'. safelist_forward (1, Merged_list) (2, Merged_list) two_in_list = Inr ((), w') \<and>
     items w' (2, Merged_list) = [5, 6] \<and> sl_forward (the_sl w' (1, Merged_list)) = Some (2, Merged_list)"
proof -
  have h: "(1, Merged_list) \<noteq> ((2, Merged_list) :: slref)" "NULL \<notin> set (items two_in_list (1, Merged_list))"
    "length (items two_in_list (1, Merged_list)) < fuel two_in_list" "2 \<le> fuel two_in_list"
    by (simp_all add: two_in_list_ok)
  from safelist_forward_moves_all [OF two_in_list_ok(1,2,4) h] show ?thesis by (auto simp: two_in_list_ok)
qed

end
