(* ===== verification/Tasks.thy ===== *)
theory Tasks
  imports Safelist
begin

text \<open>
  The queue of src/worker.c and the part of src/task.c that puts work into it. A task is counted
  from \<open>task_start\<close> until it has run for the last time; the theory \<open>Pool\<close> has the other end, where
  the worker threads take tasks out and run them.

  Each function holds \<open>task_count_mutex\<close> or \<open>work_sychro_mutex\<close> for one access only, so
  the accesses are single steps here.
\<close>

definition task_create :: "task_fn \<Rightarrow> addr \<Rightarrow> addr W" where
  "task_create fn runarg =
     bnd (xmalloc sizeof_task) (\<lambda>p.
     bnd (modify (\<lambda>w. w\<lparr>tsks := (tsks w)(p \<mapsto> \<lparr>t_run = fn, t_runarg = runarg\<rparr>)\<rparr>)) (\<lambda>_.
     ret p))"

definition task_destroy :: "addr \<Rightarrow> unit W" where
  "task_destroy p =
     (if p = NULL then ret ()
      else bnd (get_task p) (\<lambda>_. modify (\<lambda>w. w\<lparr>tsks := (tsks w)(p := None)\<rparr>)))"

text \<open>\<open>work\<close> is NULL before \<open>list_new\<close>, and the status of \<open>list_add_last\<close> is dropped.\<close>

definition worker_add_task :: "addr \<Rightarrow> unit W" where
  "worker_add_task t =
     bnd (gets work) (\<lambda>q.
     case q of
       None \<Rightarrow> fail Bad_pointer
     | Some ts \<Rightarrow> bnd calloc_ok (\<lambda>ok. whenM ok (modify (\<lambda>w. w\<lparr>work := Some (ts @ [t])\<rparr>))))"

definition worker_get_next_task :: "addr W" where
  "worker_get_next_task =
     bnd (gets work) (\<lambda>q.
     case q of
       None \<Rightarrow> fail Bad_pointer
     | Some ts \<Rightarrow>
         (case ts of
            [] \<Rightarrow> ret NULL
          | t # ts' \<Rightarrow> bnd (modify (\<lambda>w. w\<lparr>work := Some ts'\<rparr>)) (\<lambda>_. ret t)))"

definition task_start :: "addr \<Rightarrow> unit W" where
  "task_start t =
     block [
       modify (\<lambda>w. w\<lparr>task_count := task_count w + 1\<rparr>),
       worker_add_task t]"

section \<open>Locks and frames\<close>

text \<open>Parts of the memory that scheduling a task does not write.\<close>

definition task_free :: "(world \<Rightarrow> 'v) \<Rightarrow> bool" where
  "task_free f \<longleftrightarrow> lock_free f \<and>
     (\<forall>w a b c. f (w\<lparr>tsks := a\<rparr>) = f w \<and> f (w\<lparr>work := b\<rparr>) = f w \<and> f (w\<lparr>task_count := c\<rparr>) = f w)"

lemma task_free_fields [simp]:
  "task_free objs" "task_free lnks" "task_free colls" "task_free ctrs" "task_free id_count"
  "task_free num_collector" "task_free acid_world_count" "task_free acid_collect_count"
  "task_free self" "task_free endtime" "task_free zero_broadcasts" "task_free dtor_calls" "task_free fuel"
  by (simp_all add: task_free_def)

lemma task_free_pair [simp]: "task_free f \<Longrightarrow> task_free g \<Longrightarrow> task_free (\<lambda>w. (f w, g w))"
  by (simp add: task_free_def)

lemma keeps_task_ops [keeps_intros]:
  assumes "task_free f"
  shows "keeps f (task_create fn a)" "keeps f (task_destroy t)" "keeps f (worker_add_task t)"
    "keeps f worker_get_next_task" "keeps f (task_start t)"
  unfolding task_create_def task_destroy_def worker_add_task_def worker_get_next_task_def task_start_def
  using assms
  by (intro keeps_intros keeps_xmalloc keeps_calloc_ok keeps_modify;
      simp add: task_free_def lock_free_def)+

lemma balanced_queue:
  "balanced (modify (\<lambda>w. w\<lparr>tsks := f1 w\<rparr>))"
  "balanced (modify (\<lambda>w. w\<lparr>work := f2 w\<rparr>))"
  "balanced (modify (\<lambda>w. w\<lparr>task_count := f3 w\<rparr>))"
  by (rule balanced_modify, simp add: lock_view_def)+

lemma balanced_worker_add_task: "balanced (worker_add_task t)"
  unfolding worker_add_task_def
  by (rule balancedI, (rule lock_hoare balanced_queue [THEN balanced_at])+)

lemmas [lock_hoare] = balanced_worker_add_task [THEN balanced_at] balanced_worker_add_task [THEN balanced_in]

lemma balanced_task_ops:
  "balanced (task_create fn a)" "balanced (task_destroy t)" "balanced worker_get_next_task"
  "balanced (task_start t)"
  unfolding task_create_def task_destroy_def worker_get_next_task_def task_start_def
  by (rule balancedI, (rule lock_hoare balanced_queue [THEN balanced_at])+)+

lemmas [lock_hoare] = balanced_task_ops [THEN balanced_at] balanced_task_ops [THEN balanced_in]

section \<open>The count and the queue\<close>

text \<open>\<open>accounted k\<close>: every started task is in the queue, but for \<open>k\<close> that workers are running.\<close>

definition accounted :: "nat \<Rightarrow> world \<Rightarrow> bool" where
  "accounted k w \<longleftrightarrow> mem w = [] \<and>
     (\<exists>ts. work w = Some ts \<and> NULL \<notin> set ts \<and> task_count w = of_nat (length ts + k))"

lemma accounted_task_start: "t \<noteq> NULL \<Longrightarrow> hoare (accounted k) (task_start t) (\<lambda>_. accounted k)"
  by (rule hoareI)
    (auto simp: accounted_def task_start_def worker_add_task_def bnd_Inr calloc_ok_Inr)

lemma accounted_get_next:
  "hoare (accounted k) worker_get_next_task (\<lambda>t. accounted (if t = NULL then k else Suc k))"
  by (rule hoareI)
    (auto simp: accounted_def worker_get_next_task_def bnd_Inr algebra_simps
      split: option.splits list.splits if_splits)

end
