(* ===== verification/Collector.thy ===== *)
theory Collector
  imports Tasks
begin

text \<open>
  src/collector.c without \<open>collector_run\<close>, and \<open>object_set_collector\<close> of src/object.c, which it
  needs. A collector that was merged into another one forwards to it; the collector in charge is
  found by following \<open>forward\<close> to its end.
\<close>

section \<open>Following pointers\<close>

definition coll_forward :: "addr \<Rightarrow> addr W" where
  "coll_forward c = bnd (get_coll c) (\<lambda>k. ret (co_forward k))"

definition coll_count :: "addr \<Rightarrow> addr W" where
  "coll_count c = bnd (get_coll c) (\<lambda>k. ret (co_count k))"

section \<open>Objects and their collector\<close>

definition object_set_collector :: "addr \<Rightarrow> addr \<Rightarrow> unit W" where
  "object_set_collector obj c =
     with_locks [LObj obj]
       (bnd (get_obj obj) (\<lambda>ob.
        whenM (o_collector ob \<noteq> c) (block [
          whenM (c \<noteq> NULL) (bnd (coll_count c) counter_inc_ref),
          whenM (o_collector ob \<noteq> NULL) (bnd (coll_count (o_collector ob)) counter_dec_ref),
          upd_obj obj (\<lambda>ob. ob\<lparr>o_collector := c\<rparr>)])))"

section \<open>collector.c\<close>

definition collector_create :: "addr W" where
  "collector_create =
     bnd (xmalloc sizeof_collector) (\<lambda>p.
     bnd counter_create (\<lambda>n.
     bnd (safelist_init n) (\<lambda>l1.
     bnd (safelist_init n) (\<lambda>l2.
     bnd (safelist_init n) (\<lambda>l3.
     bnd (safelist_init n) (\<lambda>l4.
     bnd (safelist_init n) (\<lambda>l5.
     bnd idlock_init (\<lambda>i.
     bnd (modify (\<lambda>w. w\<lparr>colls := (colls w)(p \<mapsto>
            \<lparr>co_lock = i, co_count = n, co_collect = l1, co_merged_list = l2, co_recovery_list = l3,
             co_rebuild_list = l4, co_clean_list = l5, co_forward = NULL\<rparr>)\<rparr>)) (\<lambda>_.
     bnd (modify (\<lambda>w. w\<lparr>num_collector := num_collector w + 1\<rparr>)) (\<lambda>_.
     ret p))))))))))"

definition collector_destroy :: "addr \<Rightarrow> unit W" where
  "collector_destroy c =
     block [
       safelist_deinit (c, Collect),
       safelist_deinit (c, Merged_list),
       safelist_deinit (c, Recovery_list),
       safelist_deinit (c, Rebuild_list),
       safelist_deinit (c, Clean_list),
       bnd (coll_count c) counter_destroy,
       bnd (get_coll c) (\<lambda>_. modify (\<lambda>w. w\<lparr>colls := (colls w)(c := None)\<rparr>))]"

text \<open>The early return of \<open>collector_set_forward\<close> calls \<open>locker_end\<close> too.\<close>

definition collector_set_forward :: "addr \<Rightarrow> addr \<Rightarrow> unit W" where
  "collector_set_forward c f =
     bnd (coll_forward c) (\<lambda>f0.
     with_locks [LColl c, LColl f0, LColl f]
       (bnd (coll_forward c) (\<lambda>f1.
        whenM (f \<noteq> f1) (block [
          whenM (f \<noteq> NULL) (bnd (coll_count f) counter_inc_ref),
          whenM (f1 \<noteq> NULL) (bnd (coll_count f1) counter_dec_ref),
          upd_coll c (\<lambda>k. k\<lparr>co_forward := f\<rparr>)]))))"

definition collector_terminate :: "addr \<Rightarrow> unit W" where
  "collector_terminate c =
     bnd (coll_forward c) (\<lambda>f. with_locks [LColl c, LColl f] (collector_set_forward c NULL))"

definition collector_add_object :: "addr \<Rightarrow> addr \<Rightarrow> unit W" where
  "collector_add_object c obj =
     bnd (gets fuel) (\<lambda>n.
     loopM n (\<lambda>add_to.
       with_locks [LColl add_to, LObj obj]
         (bnd (coll_forward add_to) (\<lambda>f.
          if f \<noteq> NULL then ret (Inl f)
          else
            bnd (block [
              bnd (get_obj obj) (\<lambda>ob. count_add obj (o_which ob) 1),
              count_add obj 2 1,
              safelist_add (add_to, Collect) obj,
              object_set_collector obj add_to]) (\<lambda>_. ret (Inr ()))))) c)"

definition collector_forward_safelists_to :: "addr \<Rightarrow> addr \<Rightarrow> unit W" where
  "collector_forward_safelists_to c s =
     with_locks [LColl c, LColl s] (block [
       safelist_forward (c, Collect) (s, Collect),
       safelist_forward (c, Merged_list) (s, Merged_list),
       safelist_forward (c, Rebuild_list) (s, Rebuild_list),
       safelist_forward (c, Clean_list) (s, Merged_list),
       safelist_forward (c, Recovery_list) (s, Merged_list)])"

definition collector_merge :: "addr \<Rightarrow> addr \<Rightarrow> unit W" where
  "collector_merge c s =
     with_locks [LColl c, LColl s] (block [
       collector_forward_safelists_to s c,
       collector_set_forward s c])"

text \<open>The two branches that move on to a forward do not call \<open>locker_end\<close>.\<close>

definition collector_equals :: "addr \<Rightarrow> addr \<Rightarrow> bool W" where
  "collector_equals c1 c2 =
     bnd (gets fuel) (\<lambda>n.
     loopM n (\<lambda>(c1, c2).
       bnd (locker_start2 (LColl c1) (LColl c2)) (\<lambda>_.
       if c1 = c2 then bnd locker_end (\<lambda>_. ret (Inr True))
       else
         bnd (if c1 = NULL then ret NULL else coll_forward c1) (\<lambda>f1.
         if f1 \<noteq> NULL then ret (Inl (f1, c2))
         else
           bnd (if c2 = NULL then ret NULL else coll_forward c2) (\<lambda>f2.
           if f2 \<noteq> NULL then ret (Inl (c1, f2))
           else bnd locker_end (\<lambda>_. ret (Inr False)))))) (c1, c2))"

definition collector_update :: "addr \<Rightarrow> addr W" where
  "collector_update c =
     bnd (gets fuel) (\<lambda>n.
     loopM n (\<lambda>c.
       with_locks [LColl c]
         (bnd (coll_forward c) (\<lambda>f. if f = NULL then ret (Inr c) else ret (Inl f)))) c)"

section \<open>Locks and frames\<close>

lemma keeps_coll_forward [keeps_intros]: "keeps f (coll_forward c)" "keeps f (coll_count c)"
  unfolding coll_forward_def coll_count_def by (intro keeps_intros)+

lemma keeps_idlock_init [keeps_intros]:
  "(\<And>w i. f (w\<lparr>id_count := i\<rparr>) = f w) \<Longrightarrow> keeps f idlock_init"
  unfolding idlock_init_def by (intro keeps_intros keeps_modify)

lemma balanced_coll_forward: "balanced (coll_forward c)" "balanced (coll_count c)"
  by (rule keeps_balanced, rule keeps_intros)+

lemmas [lock_hoare] = balanced_coll_forward [THEN balanced_at] balanced_coll_forward [THEN balanced_in]

lemma balanced_object_set_collector: "balanced (object_set_collector obj c)"
  unfolding object_set_collector_def by (rule balancedI, (rule lock_hoare balancedI)+)

lemma balanced_collector_set_forward: "balanced (collector_set_forward c f)"
  unfolding collector_set_forward_def by (rule balancedI, (rule lock_hoare balancedI)+)

lemmas [lock_hoare] =
  balanced_object_set_collector [THEN balanced_at] balanced_object_set_collector [THEN balanced_in]
  balanced_collector_set_forward [THEN balanced_at] balanced_collector_set_forward [THEN balanced_in]

lemma balanced_coll_updates:
  "balanced (modify (\<lambda>w. w\<lparr>colls := g1 w\<rparr>))"
  "balanced (modify (\<lambda>w. w\<lparr>num_collector := g2 w\<rparr>))"
  by (rule balanced_modify, simp add: lock_view_def)+

lemma balanced_collector_ops:
  "balanced collector_create" "balanced (collector_destroy c)" "balanced (collector_terminate c)"
  "balanced (collector_add_object c obj)" "balanced (collector_update c)"
  "balanced (collector_forward_safelists_to c s)"
  unfolding collector_create_def collector_destroy_def collector_terminate_def
    collector_add_object_def collector_update_def collector_forward_safelists_to_def
  by (rule balancedI, (rule lock_hoare balancedI balanced_coll_updates [THEN balanced_at])+)+

lemmas [lock_hoare] = balanced_collector_ops [THEN balanced_at] balanced_collector_ops [THEN balanced_in]

lemma balanced_collector_merge: "balanced (collector_merge c s)"
  unfolding collector_merge_def by (rule balancedI, (rule lock_hoare balancedI)+)

lemmas [lock_hoare] = balanced_collector_merge [THEN balanced_at] balanced_collector_merge [THEN balanced_in]

section \<open>Properties\<close>

lemma lock_eq_fields: "lock_eq w w' \<Longrightarrow> colls w' = colls w \<and> fuel w' = fuel w"
  by (auto simp: lock_eq_def)

text \<open>C38: \<open>collector_equals\<close> finds that a collector equals the one it forwards to, but the branch that moves on to the
  forward does not call \<open>locker_end\<close>: the thread's stack keeps one entry, whose locks it goes on holding.\<close>

theorem collector_equals_leaves_entry:
  assumes "ready w" and "colls w c1 = Some k1" and "co_forward k1 = c2" and "colls w c2 \<noteq> None"
    and "c1 \<noteq> c2" and "c1 \<noteq> NULL" and "c2 \<noteq> NULL" and "2 \<le> fuel w"
  shows "\<exists>w' es e. collector_equals c1 c2 w = Inr (True, w') \<and> lockers w (self w) = Some \<lparr>stack = Some es\<rparr> \<and>
    lockers w' (self w) = Some \<lparr>stack = Some (es @ [e])\<rparr>"
proof -
  let ?t = "self w" and ?st = "(mutexes w, lockers w)"
  have c: "calm ?t ?st w" using assms(1) by (simp add: ready_def)
  obtain es ms w1 where s1: "locker_start [LColl c1, LColl c2] w = Inr ((), w1)" and q1: "lock_eq w w1"
    and es: "snd ?st ?t = Some \<lparr>stack = Some es\<rparr>"
    and c1: "calm ?t (fold (mtx_inc ?t) ms (fst ?st), (snd ?st)(?t \<mapsto> \<lparr>stack = Some (es @ [ms])\<rparr>)) w1"
    using locker_start_total [OF c, of "[LColl c1, LColl c2]"] assms by auto
  let ?st1 = "(fold (mtx_inc ?t) ms (fst ?st), (snd ?st)(?t \<mapsto> \<lparr>stack = Some (es @ [ms])\<rparr>))"
  have w1: "colls w1 = colls w" "fuel w1 = fuel w" using lock_eq_fields [OF q1] by auto
  obtain es' ms' w2 where s2: "locker_start [LColl c2, LColl c2] w1 = Inr ((), w2)" and q2: "lock_eq w1 w2"
    and es': "snd ?st1 ?t = Some \<lparr>stack = Some es'\<rparr>"
    and ms': "set ms' \<subseteq> {r \<in> set [LColl c2, LColl c2]. \<not> is_NULL_lock r}"
    and c2: "calm ?t (fold (mtx_inc ?t) ms' (fst ?st1), (snd ?st1)(?t \<mapsto> \<lparr>stack = Some (es' @ [ms'])\<rparr>)) w2"
    using locker_start_total [OF c1, of "[LColl c2, LColl c2]"] assms w1 by auto
  have w2: "colls w2 = colls w" using lock_eq_fields [OF q2] w1 by simp
  have ok: "\<forall>r\<in>set ms'. lockable w2 r \<and> \<not> is_NULL_lock r" using ms' assms(4) w2 by auto
  have take: "\<forall>r. can_take ?t (fst ?st1 r)" using c1 by (simp add: calm_def)
  obtain w3 where e: "locker_end w2 = Inr ((), w3)" and c3: "calm ?t ?st1 w3"
    using locker_end_total [OF es' take c2 ok] by blast
  obtain n where n: "fuel w = Suc (Suc n)" using assms(8) by (metis Suc_le_D numeral_2_eq_2 Suc_le_mono)
  have f: "coll_forward c1 w1 = Inr (c2, w1)"
    using assms(2,3) w1 by (simp add: coll_forward_def bnd_def get_coll_def ret_def)
  have "collector_equals c1 c2 w = Inr (True, w3)"
    using assms(5-7) s1 s2 e f n
    by (simp add: collector_equals_def bnd_def gets_def locker_start2_def ret_def)
  moreover have "lockers w3 = snd ?st1" using c3 by (simp add: calm_def at_locks_def)
  ultimately show ?thesis using es by auto
qed

definition forwarding_collectors :: world where
  "forwarding_collectors = two_collectors\<lparr>colls := (colls two_collectors)
     (1 := map_option (\<lambda>k. k\<lparr>co_forward := 2\<rparr>) (colls two_collectors 1))\<rparr>"

theorem collector_equals_leaves_entry_witness:
  "\<exists>w' e. collector_equals 1 2 forwarding_collectors = Inr (True, w') \<and> lockers w' 0 = Some \<lparr>stack = Some [e]\<rparr>"
proof -
  let ?w = forwarding_collectors
  obtain k where k: "colls ?w 1 = Some k" "co_forward k = 2" and 2: "colls ?w 2 \<noteq> None" "2 \<le> fuel ?w"
    and r: "ready ?w" and s: "self ?w = 0" "lockers ?w 0 = Some \<lparr>stack = Some []\<rparr>"
    by (simp add: forwarding_collectors_def) (simp add: two_collectors_def Let_def boot_def)
  from collector_equals_leaves_entry [OF r k 2(1) _ _ _ 2(2)] s show ?thesis by auto
qed

end
