(* ===== verification/Objects.thy ===== *)
theory Objects
  imports Collector
begin

text \<open>
  src/object.c and src/link.c: the reference counts and the two halves of the collection of a
  cycle. An object has a strong and a weak count, told apart by the object's \<open>which\<close> bit and the bit
  of each link to it, and a phantom count. When the strong count falls to zero and something
  else still refers to the object, its outgoing links are phantomized
  (\<open>object_phantomize_node\<close>) until it is either recovered (\<open>object_recover_node\<close>) or cleaned
  (\<open>object_clean_node\<close>).
\<close>

section \<open>Fields\<close>

definition OBJECT_MAGIC_NUMBER :: "64 word" where
  "OBJECT_MAGIC_NUMBER = 10943156698286619218"

definition hashtable_hash_offset :: "key \<Rightarrow> int \<Rightarrow> 32 word \<Rightarrow> 64 word" where
  "hashtable_hash_offset key len seed = key"

definition links_of :: "addr \<Rightarrow> addr hashtable W" where
  "links_of obj =
     bnd (get_obj obj) (\<lambda>ob. case o_links ob of None \<Rightarrow> fail Undefined_behaviour | Some t \<Rightarrow> ret t)"

definition links_size :: "addr \<Rightarrow> nat W" where
  "links_size obj = bnd (links_of obj) (\<lambda>t. ret (hashtable_size t))"

definition put_links :: "addr \<Rightarrow> addr hashtable \<Rightarrow> unit W" where
  "put_links obj t = upd_obj obj (\<lambda>ob. ob\<lparr>o_links := Some t\<rparr>)"

text \<open>The calls of the hash table on \<open>obj->links\<close>. The status is dropped by all callers, so a
  \<open>link_t *\<close> that the call does not write keeps the value \<open>lk\<close> it had.\<close>

definition or_else :: "addr \<Rightarrow> addr option \<Rightarrow> addr" where
  "or_else lk r = (case r of None \<Rightarrow> lk | Some v \<Rightarrow> v)"

definition links_get :: "addr \<Rightarrow> key \<Rightarrow> addr \<Rightarrow> addr W" where
  "links_get obj k lk =
     bnd (links_of obj) (\<lambda>t.
     bnd (in_table (hashtable_get t k)) (\<lambda>(stat, r). ret (or_else lk r)))"

definition links_add :: "addr \<Rightarrow> key \<Rightarrow> addr \<Rightarrow> unit W" where
  "links_add obj k lk =
     bnd (links_of obj) (\<lambda>t.
     bnd (in_table (hashtable_add t k lk)) (\<lambda>(stat, t'). put_links obj t'))"

definition links_remove :: "addr \<Rightarrow> key \<Rightarrow> addr \<Rightarrow> addr W" where
  "links_remove obj k lk =
     bnd (links_of obj) (\<lambda>t.
     bnd (in_table (hashtable_remove t k)) (\<lambda>(stat, r, t').
     bnd (put_links obj t') (\<lambda>_. ret (or_else lk r))))"

definition links_remove_all :: "addr \<Rightarrow> unit W" where
  "links_remove_all obj = bnd (links_of obj) (\<lambda>t. put_links obj (hashtable_remove_all t))"

text \<open>\<open>obj->count[i]\<close>, and the fields read through the pointer.\<close>

definition count_at :: "addr \<Rightarrow> bit_t \<Rightarrow> int W" where
  "count_at obj i =
     bnd (get_obj obj) (\<lambda>ob. if unat i < 3 then ret (o_count ob (unat i)) else fail Undefined_behaviour)"

definition obj_which :: "addr \<Rightarrow> bit_t W" where
  "obj_which obj = bnd (get_obj obj) (\<lambda>ob. ret (o_which ob))"

definition obj_collector :: "addr \<Rightarrow> addr W" where
  "obj_collector obj = bnd (get_obj obj) (\<lambda>ob. ret (o_collector ob))"

definition obj_phantomized :: "addr \<Rightarrow> bool W" where
  "obj_phantomized obj = bnd (get_obj obj) (\<lambda>ob. ret (o_phantomized ob))"

lemmas field_defs = links_of_def links_size_def count_at_def obj_which_def
  obj_collector_def obj_phantomized_def

section \<open>Creating objects and links\<close>

text \<open>The string comparison that \<open>hashtable_conf_init\<close> puts there is overwritten at once.\<close>

definition object_htc :: hashtable_conf where
  "object_htc =
     (hashtable_conf_init cc_common_cmp_ptr)
       \<lparr>conf_hash := Some hashtable_hash_offset, conf_key_compare := cc_common_cmp_ptr\<rparr>"

definition object_init :: "addr \<Rightarrow> addr W" where
  "object_init p =
     (if p = NULL then fail Bad_pointer else
      bnd (in_table (hashtable_new_conf object_htc)) (\<lambda>(stat, links).
      bnd idlock_init (\<lambda>i.
      bnd (modify (\<lambda>w. w\<lparr>objs := (objs w)(p \<mapsto>
             \<lparr>o_lock = i, o_links = links, o_which = 0, o_phantomized = False, o_count = (\<lambda>_. 0),
              o_collector = NULL, o_complete = True, o_dtor = None, o_data = NULL,
              o_magic = OBJECT_MAGIC_NUMBER\<rparr>)\<rparr>)) (\<lambda>_.
      bnd (modify (\<lambda>w. w\<lparr>acid_world_count := acid_world_count w + 1\<rparr>)) (\<lambda>_.
      ret p)))))"

definition object_inc_strong :: "addr \<Rightarrow> unit W" where
  "object_inc_strong obj =
     with_locks [LObj obj] (bnd (obj_which obj) (\<lambda>b. count_add obj b 1))"

definition object_init_strong :: "addr \<Rightarrow> addr W" where
  "object_init_strong p =
     bnd (object_init p) (\<lambda>o1. bnd (object_inc_strong o1) (\<lambda>_. ret o1))"

definition link_create :: "addr \<Rightarrow> addr \<Rightarrow> addr W" where
  "link_create s t =
     bnd (xmalloc sizeof_link) (\<lambda>p.
     bnd (modify (\<lambda>w. w\<lparr>lnks := (lnks w)(p \<mapsto>
            \<lparr>lk_which = 0, lk_phantomized = False, lk_target = t, lk_src = s\<rparr>)\<rparr>)) (\<lambda>_.
     ret p))"

section \<open>Dropping references\<close>

definition object_request_delete :: "addr \<Rightarrow> unit W" where
  "object_request_delete obj = bnd (task_create Object_request_delete_task_run obj) task_start"

definition object_dec :: "addr \<Rightarrow> bit_t \<Rightarrow> unit W" where
  "object_dec obj b =
     with_locks [LObj obj] (block [
       count_add obj b (- 1),
       bnd (count_at obj b) (\<lambda>n. assertM (n \<ge> 0)),
       bnd (count_at obj b) (\<lambda>n.
       bnd (obj_which obj) (\<lambda>which.
       whenM (n = 0 \<and> b = which)
         (bnd (count_at obj (BIT_FLIP which)) (\<lambda>m.
          bnd (count_at obj 2) (\<lambda>p.
          if m = 0 \<and> p = 0 then object_request_delete obj
          else block [
            bnd (obj_collector obj) (\<lambda>c.
              whenM (c = NULL) (block [
                bnd collector_create (object_set_collector obj),
                bnd (obj_collector obj) (\<lambda>c. bnd (task_create Collector_run c) task_start)])),
            bnd (obj_collector obj) (\<lambda>c. collector_add_object c obj)])))))])"

definition object_dec_phantom :: "addr \<Rightarrow> unit W" where
  "object_dec_phantom obj =
     with_locks [LObj obj] (block [
       count_add obj 2 (- 1),
       bnd (count_at obj 2) (\<lambda>n. assertM (n \<ge> 0)),
       bnd (count_at obj 2) (\<lambda>p. whenM (p = 0)
         (bnd (count_at obj 0) (\<lambda>n0.
          bnd (count_at obj 1) (\<lambda>n1.
          if n0 = 0 \<and> n1 = 0 then object_request_delete obj
          else object_set_collector obj NULL))))])"

definition object_dec_strong :: "addr \<Rightarrow> unit W" where
  "object_dec_strong obj = bnd (obj_which obj) (object_dec obj)"

definition link_dec :: "addr \<Rightarrow> unit W" where
  "link_dec lk =
     bnd (get_link lk) (\<lambda>l0. whenM (lk_target l0 \<noteq> NULL)
       (with_locks [LObj (lk_src l0), LObj (lk_target l0)]
         (bnd (get_link lk) (\<lambda>l.
          if lk_phantomized l then object_dec_phantom (lk_target l)
          else object_dec (lk_target l) (lk_which l)))))"

definition link_free :: "addr \<Rightarrow> unit W" where
  "link_free lk = bnd (get_link lk) (\<lambda>_. modify (\<lambda>w. w\<lparr>lnks := (lnks w)(lk := None)\<rparr>))"

definition link_destroy :: "addr \<Rightarrow> unit W" where
  "link_destroy lk =
     bnd (get_link lk) (\<lambda>l.
     bnd (with_locks [LObj (lk_src l)] (bnd (get_link lk) (\<lambda>l. ret (lk_target l = NULL)))) (\<lambda>target_null.
     block [whenM (\<not> target_null) (link_dec lk), link_free lk]))"

section \<open>Merging collectors\<close>

text \<open>One round of the loop; the assertions on the local \<open>t\<close> come before \<open>locker_end\<close> here.\<close>

definition merge_round :: "addr \<Rightarrow> addr \<Rightarrow> addr \<times> addr \<Rightarrow> (addr \<times> addr + bool) W" where
  "merge_round obj target = (\<lambda>(t, s).
     with_locks [LColl t, LColl s, LObj obj, LObj target]
       (bnd (coll_forward t) (\<lambda>tf.
        bnd (coll_forward s) (\<lambda>sf.
        if tf = s \<and> sf = NULL then
          bnd (block [object_set_collector target s, object_set_collector obj s]) (\<lambda>_. ret (Inr False))
        else if sf = t \<and> tf = NULL then
          bnd (block [object_set_collector target t, object_set_collector obj t, assertM (t \<noteq> NULL)])
            (\<lambda>_. ret (Inr False))
        else if tf \<noteq> NULL then ret (Inl (tf, s))
        else if sf \<noteq> NULL then ret (Inl (t, sf))
        else if s = t then bnd (assertM (t \<noteq> NULL)) (\<lambda>_. ret (Inr False))
        else
          bnd (block [
            assertM (sf = NULL),
            assertM (tf = NULL),
            collector_merge t s,
            bnd (coll_forward s) (\<lambda>f. assertM (f = t)),
            object_set_collector target t,
            object_set_collector obj t,
            assertM (t \<noteq> NULL)]) (\<lambda>_. ret (Inr True))))))"

definition object_merge_collectors :: "addr \<Rightarrow> addr \<Rightarrow> bool W" where
  "object_merge_collectors obj target =
     bnd (obj_collector obj) (\<lambda>s.
     bnd (obj_collector target) (\<lambda>t.
     bnd (whenM (t = NULL \<and> s \<noteq> NULL) (object_set_collector target s)) (\<lambda>_.
     bnd (whenM (t \<noteq> NULL \<and> s = NULL) (object_set_collector obj t)) (\<lambda>_.
     if t = s \<or> t = NULL \<or> s = NULL then ret False
     else bnd (gets fuel) (\<lambda>n. loopM n (merge_round obj target) (t, s))))))"

section \<open>Phantomizing\<close>

definition link_phantomize :: "addr \<Rightarrow> unit W" where
  "link_phantomize lk =
     bnd (get_link lk) (\<lambda>l0.
     with_locks [LObj (lk_target l0), LObj (lk_src l0)]
       (bnd (get_link lk) (\<lambda>l.
        whenM (\<not> (lk_target l = NULL \<or> lk_phantomized l)) (block [
          count_add (lk_target l) 2 1,
          link_dec lk,
          bnd (obj_collector (lk_target l)) (\<lambda>ct. bnd (obj_collector (lk_src l)) (\<lambda>cs.
            assertM (ct \<noteq> NULL \<or> cs \<noteq> NULL))),
          bnd (object_merge_collectors (lk_src l) (lk_target l)) (\<lambda>_. ret ()),
          upd_link lk (\<lambda>l. l\<lparr>lk_phantomized := True\<rparr>),
          bnd (obj_collector (lk_target l)) (\<lambda>ct. bnd (obj_collector (lk_src l)) (\<lambda>cs.
            bnd (collector_equals ct cs) assertM))]))))"

text \<open>The array of the links of an object, allocated when there are any.\<close>

definition links_array :: "addr \<Rightarrow> (addr table_entry \<Rightarrow> 'x) \<Rightarrow> 'x list W" where
  "links_array obj field =
     bnd (links_of obj) (\<lambda>t.
     if hashtable_size t > 0 then
       bnd (xmalloc (sizeof_pointer * int (hashtable_size t))) (\<lambda>_.
       bnd (in_table (hashtable_foreach t)) (\<lambda>es. ret (map field es)))
     else ret [])"

text \<open>Up to the first \<open>locker_end\<close>. \<open>None\<close>: the fast exit, or \<open>phantomize\<close> stayed false.\<close>

definition phantomize_mark :: "addr \<Rightarrow> addr list option W" where
  "phantomize_mark obj =
     with_locks [LObj obj]
       (bnd (obj_collector obj) (\<lambda>c0.
        bnd (collector_update c0) (\<lambda>c1.
        bnd (object_set_collector obj c1) (\<lambda>_.
        bnd (obj_which obj) (\<lambda>b.
        bnd (count_add obj b (- 1)) (\<lambda>_.
        bnd (count_at obj b) (\<lambda>n.
        bnd (assertM (n \<ge> 0)) (\<lambda>_.
        if n > 0 then ret None else
        bnd (count_at obj (BIT_FLIP b)) (\<lambda>m.
        bnd (whenM (m > 0) (upd_obj obj (\<lambda>ob. ob\<lparr>o_which := o_which ob XOR 1\<rparr>))) (\<lambda>_.
        bnd (obj_phantomized obj) (\<lambda>ph.
        if ph then ret None else
        bnd (upd_obj obj (\<lambda>ob. ob\<lparr>o_phantomized := True\<rparr>)) (\<lambda>_.
        bnd (bnd (obj_collector obj) (\<lambda>c. assertM (c \<noteq> NULL))) (\<lambda>_.
        bnd (upd_obj obj (\<lambda>ob. ob\<lparr>o_complete := False\<rparr>)) (\<lambda>_.
        bnd (links_array obj te_value) (\<lambda>phantoms. ret (Some phantoms))))))))))))))))"

definition phantomize_one :: "addr \<Rightarrow> addr \<Rightarrow> unit W" where
  "phantomize_one obj lk =
     block [
       assertM (lk \<noteq> NULL),
       bnd (get_link lk) (\<lambda>l0.
       with_locks [LObj obj, LObj (lk_target l0)] (block [
         bnd (obj_phantomized obj) assertM,
         bnd (get_link lk) (\<lambda>l. whenM (\<not> lk_phantomized l) (block [
           bnd (obj_phantomized (lk_src l)) assertM,
           bnd (obj_collector (lk_src l)) (\<lambda>c. assertM (c \<noteq> NULL)),
           link_phantomize lk]))]))]"

text \<open>The parameter \<open>cptr\<close> is not used.\<close>

definition object_phantomize_node :: "addr \<Rightarrow> addr \<Rightarrow> unit W" where
  "object_phantomize_node obj cptr =
     bnd (phantomize_mark obj) (\<lambda>phantoms.
     case phantoms of
       None \<Rightarrow> ret ()
     | Some lks \<Rightarrow> block [
         forM lks (phantomize_one obj),
         with_locks [LObj obj] (upd_obj obj (\<lambda>ob. ob\<lparr>o_complete := True\<rparr>))])"

section \<open>Recovering\<close>

definition object_rebuild_link :: "slref \<Rightarrow> addr \<Rightarrow> unit W" where
  "object_rebuild_link rebuild_next lk =
     bnd (get_link lk) (\<lambda>l0.
     with_locks [LObj (lk_src l0), LObj (lk_target l0)]
       (bnd (get_link lk) (\<lambda>l.
        let t = lk_target l in
        whenM (lk_phantomized l) (block [
          bnd (obj_which t) (\<lambda>tw.
          if t = lk_src l then upd_link lk (\<lambda>l. l\<lparr>lk_which := BIT_FLIP tw\<rparr>)
          else
            bnd (obj_phantomized t) (\<lambda>ph.
            bnd (if ph then ret True else bnd (links_size t) (\<lambda>n. ret (n = 0))) (\<lambda>strong.
            upd_link lk (\<lambda>l. l\<lparr>lk_which := (if strong then tw else BIT_FLIP tw)\<rparr>)))),
          bnd (get_link lk) (\<lambda>l. count_add t (lk_which l) 1),
          count_add t 2 (- 1),
          bnd (count_at t 2) (\<lambda>p. whenM (p = 0) (object_set_collector t NULL)),
          upd_link lk (\<lambda>l. l\<lparr>lk_phantomized := False\<rparr>),
          bnd (count_at t 2) (\<lambda>p. assertM (p \<ge> 0)),
          bnd (obj_collector t) (\<lambda>c. whenM (c \<noteq> NULL) (safelist_add rebuild_next t))]))))"

text \<open>The wait for a \<open>object_phantomize_node\<close> that another thread has not finished, at most 10000 ms.\<close>

definition wait_for_phantomization :: "addr \<Rightarrow> unit W" where
  "wait_for_phantomization obj =
     loopM 10001 (\<lambda>wcount :: nat.
       bnd (get_obj obj) (\<lambda>ob.
       if o_phantomized ob \<and> \<not> o_complete ob then
         bnd (block [locker_end, locker_start1 (LObj obj), assertM (wcount + 1 < 10000)])
           (\<lambda>_. ret (Inl (wcount + 1)))
       else ret (Inr ()))) 0"

text \<open>\<open>lk\<close> keeps its value when the key is not in the table any more.\<close>

fun rebuild_each :: "addr \<Rightarrow> addr \<Rightarrow> key list \<Rightarrow> addr \<Rightarrow> unit W" where
  "rebuild_each obj cptr [] lk = ret ()"
| "rebuild_each obj cptr (k # ks) lk =
     bnd (links_get obj k lk) (\<lambda>lk'.
     bnd (assertM (lk' \<noteq> NULL)) (\<lambda>_.
     bnd (object_rebuild_link (cptr, Rebuild_list) lk') (\<lambda>_.
     rebuild_each obj cptr ks lk')))"

definition object_recover_node :: "addr \<Rightarrow> addr \<Rightarrow> unit W" where
  "object_recover_node obj cptr =
     bnd (locker_start1 (LObj obj)) (\<lambda>_.
     bnd (obj_collector obj) (\<lambda>c.
     bnd (whenM (c \<noteq> NULL) (bnd (collector_update c) (object_set_collector obj))) (\<lambda>_.
     bnd (obj_which obj) (\<lambda>b.
     bnd (count_at obj b) (\<lambda>n.
     bnd (if n > 0 then
            bnd (wait_for_phantomization obj) (\<lambda>_.
            bnd (bnd (get_obj obj) (\<lambda>ob. assertM (o_complete ob))) (\<lambda>_.
            bnd (upd_obj obj (\<lambda>ob. ob\<lparr>o_phantomized := False\<rparr>)) (\<lambda>_.
            links_array obj te_key)))
          else bnd (bnd (count_at obj (BIT_FLIP b)) (\<lambda>m. assertM (m = 0))) (\<lambda>_. ret [])) (\<lambda>rebuild.
     bnd locker_end (\<lambda>_.
     block [
       rebuild_each obj cptr rebuild NULL,
       with_locks [LObj obj]
         (bnd (count_at obj 2) (\<lambda>p. whenM (p = 0)
           (bnd (obj_collector obj) (\<lambda>c. assertM (c = NULL)))))])))))))"

section \<open>Cleaning and deleting\<close>

definition object_remove_links :: "addr \<Rightarrow> unit W" where
  "object_remove_links obj =
     bnd (with_locks [LObj obj]
       (bnd (links_array obj te_value) (\<lambda>lks.
        bnd (links_remove_all obj) (\<lambda>_.
        bnd (bnd (count_at obj 0) (\<lambda>n. assertM (n = 0))) (\<lambda>_.
        bnd (bnd (count_at obj 1) (\<lambda>n. assertM (n = 0))) (\<lambda>_.
        ret lks)))))) (\<lambda>lks. forM lks link_destroy)"

definition object_clean_node :: "addr \<Rightarrow> unit W" where
  "object_clean_node obj =
     bnd (with_locks [LObj obj]
       (bnd (count_at obj 0) (\<lambda>n0.
        bnd (assertM (n0 \<ge> 0)) (\<lambda>_.
        bnd (count_at obj 1) (\<lambda>n1.
        bnd (assertM (n1 \<ge> 0)) (\<lambda>_.
        ret (n0 \<noteq> 0 \<or> n1 \<noteq> 0))))))) (\<lambda>in_use.
     block [whenM (\<not> in_use) (object_remove_links obj), object_dec_phantom obj])"

text \<open>A destructor is code of the client; its call is recorded.\<close>

definition call_dtor :: "addr \<Rightarrow> unit W" where
  "call_dtor obj =
     bnd (get_obj obj) (\<lambda>ob.
     case o_dtor ob of
       None \<Rightarrow> ret ()
     | Some d \<Rightarrow> modify (\<lambda>w. w\<lparr>dtor_calls := dtor_calls w @ [(d, o_data ob)]\<rparr>))"

definition object_del :: "addr \<Rightarrow> unit W" where
  "object_del obj =
     block [
       with_locks [LObj obj] (block [
         object_set_collector obj NULL,
         bnd (links_size obj) (\<lambda>n. assertM (n = 0)),
         upd_obj obj (\<lambda>ob. ob\<lparr>o_links := None\<rparr>),
         upd_obj obj (\<lambda>ob. ob\<lparr>o_magic := 0\<rparr>),
         call_dtor obj]),
       bnd (get_obj obj) (\<lambda>_. modify (\<lambda>w. w\<lparr>objs := (objs w)(obj := None)\<rparr>)),
       modify (\<lambda>w. w\<lparr>acid_collect_count := acid_collect_count w + 1\<rparr>)]"

definition object_request_delete_task_run :: "addr \<Rightarrow> bool W" where
  "object_request_delete_task_run obj =
     bnd (object_remove_links obj) (\<lambda>_. bnd (object_del obj) (\<lambda>_. ret False))"

section \<open>Reading and writing fields\<close>

definition object_get :: "addr \<Rightarrow> key \<Rightarrow> addr W" where
  "object_get obj field_offset =
     with_locks [LObj obj]
       (bnd (links_get obj field_offset NULL) (\<lambda>lk.
        if lk \<noteq> NULL then bnd (get_link lk) (\<lambda>l. ret (lk_target l)) else ret NULL))"

text \<open>The part that decides the kind of the new link \<open>lk\<close> and counts it.\<close>

definition link_count :: "addr \<Rightarrow> addr \<Rightarrow> addr \<Rightarrow> unit W" where
  "link_count obj referent lk =
     bnd (obj_phantomized obj) (\<lambda>ph.
     if ph then
       block [
         bnd (object_merge_collectors obj referent) (\<lambda>_. ret ()),
         bnd (get_link lk) (\<lambda>l. bnd (obj_collector (lk_src l)) (\<lambda>c. assertM (c \<noteq> NULL))),
         bnd (get_link lk) (\<lambda>l. count_add (lk_target l) 2 1),
         upd_link lk (\<lambda>l. l\<lparr>lk_phantomized := True\<rparr>)]
     else
       bnd (obj_which referent) (\<lambda>rw.
       bnd (if referent = obj then ret False else bnd (links_size referent) (\<lambda>n. ret (n = 0))) (\<lambda>strong.
       block [
         upd_link lk (\<lambda>l. l\<lparr>lk_which := (if strong then rw else BIT_FLIP rw)\<rparr>),
         bnd (get_link lk) (\<lambda>l. count_add (lk_target l) (lk_which l) 1)])))"

definition object_set_link :: "addr \<Rightarrow> key \<Rightarrow> addr \<Rightarrow> unit W" where
  "object_set_link obj field_offset referent =
     bnd (link_create obj referent) (\<lambda>lk.
     block [
       links_add obj field_offset lk,
       upd_link lk (\<lambda>l. l\<lparr>lk_target := referent\<rparr>),
       link_count obj referent lk])"

definition object_set :: "addr \<Rightarrow> key \<Rightarrow> addr \<Rightarrow> unit W" where
  "object_set obj field_offset referent =
     bnd (with_locks [LObj obj, LObj referent]
       (if referent = NULL then links_remove obj field_offset NULL
        else
          bnd (links_get obj field_offset NULL) (\<lambda>old_link.
          bnd (if old_link \<noteq> NULL then bnd (get_link old_link) (\<lambda>l. ret (lk_target l = referent))
               else ret False) (\<lambda>same.
          if same then ret NULL
          else bnd (object_set_link obj field_offset referent) (\<lambda>_. ret old_link))))) (\<lambda>old_link.
     whenM (old_link \<noteq> NULL) (link_dec old_link))"

end
