(* ===== verification/Pool.thy ===== *)
theory Pool
  imports Objects
begin

text \<open>
  \<open>collector_run\<close> of src/collector.c, the running end of src/task.c and src/worker.c. The phases of a
  collection each empty one queue. The worker threads are a step relation at the end: every step
  runs one operation of one thread to its end.
\<close>

section \<open>collector_run\<close>

definition collector_finish :: "addr \<Rightarrow> bool W" where
  "collector_finish c =
     bnd (coll_forward c) (\<lambda>f.
     bnd (locker_start2 (LColl c) (LColl f)) (\<lambda>_.
     bnd (coll_count c) (\<lambda>n.
     bnd (counter_done n) (\<lambda>finished.
     if finished then
       bnd (block [collector_terminate c, locker_end, collector_destroy c]) (\<lambda>_. ret False)
     else bnd locker_end (\<lambda>_. ret True)))))"

definition collector_phases :: "addr \<Rightarrow> unit W" where
  "collector_phases c =
     block [
       with_locks [LColl c] (drain (c, Merged_list) (safelist_add (c, Recovery_list))),
       drain (c, Collect) (\<lambda>obj.
         block [object_phantomize_node obj c, safelist_add (c, Recovery_list) obj]),
       drain (c, Recovery_list) (\<lambda>obj.
         block [object_recover_node obj c, safelist_add (c, Clean_list) obj]),
       drain (c, Rebuild_list) (\<lambda>obj. object_recover_node obj c),
       drain (c, Clean_list) object_clean_node]"

definition collector_run :: "addr \<Rightarrow> bool W" where
  "collector_run c =
     bnd (coll_count c) (\<lambda>n.
     bnd (counter_continue_waiting n) (\<lambda>waiting.
     if waiting then ret True
     else bnd (collector_phases c) (\<lambda>_. collector_finish c)))"

section \<open>Running tasks\<close>

definition task_call :: "task_fn \<Rightarrow> addr \<Rightarrow> bool W" where
  "task_call fn arg =
     (case fn of
        Collector_run \<Rightarrow> collector_run arg
      | Object_request_delete_task_run \<Rightarrow> object_request_delete_task_run arg)"

definition task_finished :: "unit W" where
  "task_finished =
     modify (\<lambda>w. w\<lparr>
       task_count := task_count w - 1,
       zero_broadcasts := zero_broadcasts w + (if task_count w - 1 = 0 then 1 else 0)\<rparr>)"

definition task_run :: "addr \<Rightarrow> unit W" where
  "task_run t =
     bnd (get_task t) (\<lambda>tk.
     bnd (task_call (t_run tk) (t_runarg tk)) (\<lambda>again.
     if again then worker_add_task t
     else block [task_destroy t, task_finished]))"

text \<open>One pass through the loop of \<open>worker_run\<close>.\<close>

definition worker_pass :: "unit W" where
  "worker_pass =
     bnd worker_get_next_task (\<lambda>t. whenM (t \<noteq> NULL) (task_run t))"

definition workers_setup :: "nat \<Rightarrow> unit W" where
  "workers_setup num_workers =
     bnd (xmalloc (sizeof_pointer * int num_workers)) (\<lambda>_.
     bnd calloc_ok (\<lambda>ok. whenM ok (modify (\<lambda>w. w\<lparr>work := Some []\<rparr>))))"

text \<open>What is left of \<open>workers_teardown\<close> when all threads have been joined.\<close>

definition workers_join :: "unit W" where
  "workers_join =
     bnd (gets work) (\<lambda>q.
     case q of None \<Rightarrow> fail Bad_pointer | Some _ \<Rightarrow> modify (\<lambda>w. w\<lparr>work := None\<rparr>))"

definition workers_teardown :: "unit W" where
  "workers_teardown = block [modify (\<lambda>w. w\<lparr>endtime := True\<rparr>), workers_join]"

end
