(* ===== verification/Balance.thy ===== *)
theory Balance
  imports Pool
begin

text \<open>
  Every operation of the collector gives back the locks it takes: \<open>balanced\<close> for all of
  src/object.c, src/link.c and \<open>collector_run\<close>. The one operation that does not is
  \<open>collector_equals\<close>, which keeps an entry on the stack for each forward that it follows. Its only
  caller, \<open>link_phantomize\<close>, is balanced all the same, because \<open>object_merge_collectors\<close> always
  leaves both objects with the same collector, so that the comparison follows no forward.
\<close>

section \<open>Where an object's collector comes from\<close>

definition coll_of :: "world \<Rightarrow> addr \<Rightarrow> addr option" where
  "coll_of w p = map_option o_collector (objs w p)"

lemma hoare_with_locks:
  assumes "lock_free P" and "\<And>x. lock_free (Q x)" and "hoare P body Q"
  shows "hoare P (with_locks rs body) Q"
proof (rule hoareI)
  fix w x w' assume p: "P w" and run: "with_locks rs body w = Inr (x, w')"
  from run obtain w1 w2 where
    s: "locker_start rs w = Inr ((), w1)" and b: "body w1 = Inr (x, w2)" and
    e: "locker_end w2 = Inr ((), w')"
    by (auto simp: with_locks_def bnd_Inr)
  have "P w1" using keepsD [OF keeps_locker_start [OF assms(1)] s] p by simp
  then have "Q x w2" using hoareD [OF assms(3) _ b] by blast
  then show "Q x w'" using keepsD [OF keeps_locker_end [OF assms(2)] e] by simp
qed

lemma coll_of_update [simp]:
  "coll_of (w\<lparr>colls := a\<rparr>) = coll_of w" "coll_of (w\<lparr>ctrs := b\<rparr>) = coll_of w"
  "coll_of (w\<lparr>lnks := c\<rparr>) = coll_of w" "coll_of (w\<lparr>mutexes := d\<rparr>) = coll_of w"
  "coll_of (w\<lparr>lockers := e\<rparr>) = coll_of w" "coll_of (w\<lparr>mem := m\<rparr>) = coll_of w"
  "coll_of (w\<lparr>next_addr := n\<rparr>) = coll_of w"
  by (simp_all add: coll_of_def fun_eq_iff)

lemma lock_free_coll_of [simp]:
  "lock_free (\<lambda>w. coll_of w p = c)" "lock_free (\<lambda>w. coll_of w p = coll_of w q)"
  by (simp_all add: lock_free_def)

lemma lock_free_const [simp]: "lock_free (\<lambda>w. b)"
  by (simp add: lock_free_def)

lemma lock_free_conj [simp]: "lock_free P \<Longrightarrow> lock_free Q \<Longrightarrow> lock_free (\<lambda>w. P w \<and> Q w)"
  by (simp add: lock_free_def)

text \<open>\<open>object_set_collector\<close> sets the collector of that object and of no other one.\<close>

lemma set_collector_sets:
  "hoare (\<lambda>_. True) (object_set_collector p c) (\<lambda>_ w. coll_of w p = Some c)"
  unfolding object_set_collector_def
proof (rule hoare_with_locks [OF lock_free_const lock_free_coll_of(1)],
    rule hoare_bnd [where R = "\<lambda>ob w. objs w p = Some ob"])
  show "hoare (\<lambda>_. True) (get_obj p) (\<lambda>ob w. objs w p = Some ob)"
    by (auto simp: hoare_def access_Inr)
next
  fix ob
  have any: "hoare P m (\<lambda>_ _. True)" for P and m :: "unit W" by (simp add: hoare_def)
  have upd: "hoare (\<lambda>_. True) (upd_obj p (\<lambda>ob. ob\<lparr>o_collector := c\<rparr>)) (\<lambda>_ w. coll_of w p = Some c)"
    by (auto simp: hoare_def access_Inr coll_of_def)
  show "hoare (\<lambda>w. objs w p = Some ob)
     (whenM (o_collector ob \<noteq> c) (block [
          whenM (c \<noteq> NULL) (bnd (coll_count c) counter_inc_ref),
          whenM (o_collector ob \<noteq> NULL) (bnd (coll_count (o_collector ob)) counter_dec_ref),
          upd_obj p (\<lambda>ob. ob\<lparr>o_collector := c\<rparr>)]))
     (\<lambda>_ w. coll_of w p = Some c)"
  proof (cases "o_collector ob = c")
    case True
    then show ?thesis by (auto simp: hoare_def coll_of_def)
  next
    case False
    have "hoare (\<lambda>w. objs w p = Some ob) (block [
          whenM (c \<noteq> NULL) (bnd (coll_count c) counter_inc_ref),
          whenM (o_collector ob \<noteq> NULL) (bnd (coll_count (o_collector ob)) counter_dec_ref),
          upd_obj p (\<lambda>ob. ob\<lparr>o_collector := c\<rparr>)]) (\<lambda>_ w. coll_of w p = Some c)"
      by (rule hoare_block_Cons [OF any], rule hoare_block_Cons [OF any],
          rule hoare_block_Cons [OF upd], rule hoare_block_Nil)
    with False show ?thesis by (simp add: whenM_def del: block.simps)
  qed
qed

lemma set_collector_others:
  "q \<noteq> p \<Longrightarrow> keeps (\<lambda>w. coll_of w q) (object_set_collector p c)"
  unfolding object_set_collector_def counter_ops
  by (intro keeps_intros keeps_upd_ctr keepsI)
    (auto simp: access_Inr coll_of_def lock_free_def)

lemma set_both_collectors:
  "hoare (\<lambda>_. True) (block [object_set_collector p c, object_set_collector q c])
    (\<lambda>_ w. coll_of w p = Some c \<and> coll_of w q = Some c)"
proof (rule hoareI)
  fix w x w'
  assume "block [object_set_collector p c, object_set_collector q c] w = Inr (x, w')"
  then obtain w1 where s1: "object_set_collector p c w = Inr ((), w1)"
    and s2: "object_set_collector q c w1 = Inr ((), w')" by (auto simp: bnd_Inr)
  from hoareD [OF set_collector_sets TrueI s1] have "coll_of w1 p = Some c" .
  moreover from hoareD [OF set_collector_sets TrueI s2] have "coll_of w' q = Some c" .
  ultimately show "coll_of w' p = Some c \<and> coll_of w' q = Some c"
    using keepsD [OF set_collector_others s2] by (cases "p = q") auto
qed

section \<open>Merging leaves one collector\<close>

text \<open>A round never reaches two equal pointers at the end of a chain.\<close>

definition apart :: "addr \<times> addr \<Rightarrow> world \<Rightarrow> bool" where
  "apart ts w \<longleftrightarrow> fst ts \<noteq> snd ts \<or> (\<exists>k. colls w (fst ts) = Some k \<and> co_forward k \<noteq> NULL)"

lemma lock_free_apart [simp]: "lock_free (apart ts)"
  by (simp add: lock_free_def apart_def)

lemma coll_forward_Inr:
  "coll_forward c w = Inr (f, w') \<longleftrightarrow> (\<exists>k. colls w c = Some k \<and> f = co_forward k) \<and> w' = w"
  by (auto simp: coll_forward_def bnd_Inr access_Inr)

lemma coll_count_Inr:
  "coll_count c w = Inr (f, w') \<longleftrightarrow> (\<exists>k. colls w c = Some k \<and> f = co_count k) \<and> w' = w"
  by (auto simp: coll_count_def bnd_Inr access_Inr)

lemma merge_round_same:
  "hoare (apart ts) (merge_round obj target ts) (\<lambda>r w.
     case r of Inl ts' \<Rightarrow> apart ts' w | Inr b \<Rightarrow> coll_of w obj = coll_of w target)"
proof -
  obtain t s where ts: "ts = (t, s)" by fastforce
  have lf: "lock_free (\<lambda>w. case r of Inl ts' \<Rightarrow> apart ts' w | Inr b \<Rightarrow> coll_of w obj = coll_of w target)"
    for r :: "addr \<times> addr + bool"
    by (cases r) simp_all
  show ?thesis
    unfolding ts merge_round_def prod.case
  proof (rule hoare_with_locks [OF lock_free_apart lf], rule hoareI, goal_cases)
    case (1 w r w')
    have both: "coll_of w2 obj = coll_of w2 target"
      if "object_set_collector target c w1 = Inr ((), w3)" "object_set_collector obj c w3 = Inr ((), w2)"
      for c w1 w2 w3
      using hoareD [OF set_both_collectors TrueI, of target c obj w1 "()" w2] that
      by (auto simp: bnd_def ret_def)
    from 1 show ?case
      by (auto simp: bnd_Inr coll_forward_Inr apart_def split: if_splits intro: both)
  qed
qed

lemma object_merge_collectors_same:
  "hoare (\<lambda>_. True) (object_merge_collectors obj target) (\<lambda>_ w. coll_of w obj = coll_of w target)"
proof (rule hoareI)
  fix w b w'
  assume run: "object_merge_collectors obj target w = Inr (b, w')"
  from run obtain ob tg w1 w2 where
    ob: "objs w obj = Some ob" and tg: "objs w target = Some tg" and
    s1: "whenM (o_collector tg = NULL \<and> o_collector ob \<noteq> NULL)
      (object_set_collector target (o_collector ob)) w = Inr ((), w1)" and
    s2: "whenM (o_collector tg \<noteq> NULL \<and> o_collector ob = NULL)
      (object_set_collector obj (o_collector tg)) w1 = Inr ((), w2)" and
    rest: "(if o_collector tg = o_collector ob \<or> o_collector tg = NULL \<or> o_collector ob = NULL then ret False
      else bnd (gets fuel) (\<lambda>n. loopM n (merge_round obj target) (o_collector tg, o_collector ob))) w2 =
      Inr (b, w')"
    unfolding object_merge_collectors_def obj_collector_def by (auto simp: bnd_Inr access_Inr)
  let ?t = "o_collector tg" and ?s = "o_collector ob"
  consider "?t = ?s" | "?t = NULL" "?s \<noteq> NULL" | "?t \<noteq> NULL" "?s = NULL"
    | "?t \<noteq> ?s" "?t \<noteq> NULL" "?s \<noteq> NULL" by argo
  then show "coll_of w' obj = coll_of w' target"
  proof cases
    case 1
    then have "w' = w" using s1 s2 rest by (auto split: if_splits)
    then show ?thesis using 1 ob tg by (simp add: coll_of_def)
  next
    case 2
    then have s: "object_set_collector target ?s w = Inr ((), w')" using s1 s2 rest by auto
    have "obj \<noteq> target" using 2 ob tg by auto
    from hoareD [OF set_collector_sets TrueI s] keepsD [OF set_collector_others [OF this] s] ob
    show ?thesis by (auto simp: coll_of_def)
  next
    case 3
    then have s: "object_set_collector obj ?t w = Inr ((), w')" using s1 s2 rest by auto
    have "target \<noteq> obj" using 3 ob tg by auto
    from hoareD [OF set_collector_sets TrueI s] keepsD [OF set_collector_others [OF this] s] tg
    show ?thesis by (auto simp: coll_of_def)
  next
    case 4
    then have "loopM (fuel w2) (merge_round obj target) (?t, ?s) w2 = Inr (b, w')"
      using rest by (auto simp: bnd_Inr)
    moreover have "apart (?t, ?s) w2" using 4 by (simp add: apart_def)
    ultimately show ?thesis by (rule hoareD [OF hoare_loopM [OF merge_round_same], rotated])
  qed
qed

section \<open>Comparing collectors\<close>

lemma balanced_bnd: "balanced m \<Longrightarrow> (\<And>x. balanced (f x)) \<Longrightarrow> balanced (bnd m f)"
  unfolding balanced_def by (blast intro: hoare_bnd_same)

text \<open>Equal pointers are recognised at once.\<close>

lemma balanced_collector_equals_same: "balanced (collector_equals c c)"
proof -
  have "balanced (loopM n (\<lambda>(c1, c2).
       bnd (locker_start2 (LColl c1) (LColl c2)) (\<lambda>_.
       if c1 = c2 then bnd locker_end (\<lambda>_. ret (Inr True))
       else
         bnd (if c1 = NULL then ret NULL else coll_forward c1) (\<lambda>f1.
         if f1 \<noteq> NULL then ret (Inl (f1, c2))
         else
           bnd (if c2 = NULL then ret NULL else coll_forward c2) (\<lambda>f2.
           if f2 \<noteq> NULL then ret (Inl (c1, f2))
           else bnd locker_end (\<lambda>_. ret (Inr False)))))) (c, c))" for n
  proof (cases n)
    case 0
    then show ?thesis by (simp add: balanced_def hoare_fail)
  next
    case (Suc k)
    show ?thesis
      unfolding Suc loopM.simps prod.case refl [THEN eqTrueI] if_True bnd_assoc bnd_ret sum.case
      by (rule balancedI, (rule lock_hoare)+)
  qed
  then show ?thesis
    unfolding collector_equals_def
    by (intro balanced_bnd) (auto intro: keeps_balanced keeps_gets)
qed

definition compare_collectors :: "addr \<Rightarrow> addr \<Rightarrow> unit W" where
  "compare_collectors target src =
     bnd (obj_collector target) (\<lambda>ct. bnd (obj_collector src) (\<lambda>cs.
       bnd (collector_equals ct cs) assertM))"

lemma compare_collectors_balanced:
  "hoare (\<lambda>w. in_section t st w \<and> coll_of w src = coll_of w target)
     (compare_collectors target src) (\<lambda>_. in_section t st)"
proof (rule hoareI)
  fix w x w'
  assume p: "in_section t st w \<and> coll_of w src = coll_of w target"
    and run: "compare_collectors target src w = Inr (x, w')"
  then obtain c b w1 where "collector_equals c c w = Inr (b, w1)" and "assertM b w1 = Inr (x, w')"
    by (auto simp: compare_collectors_def obj_collector_def bnd_Inr access_Inr coll_of_def)
  with p show "in_section t st w'"
    using hoareD [OF balanced_in [OF balanced_collector_equals_same], of t st w c b w1]
    by (auto split: if_splits)
qed

section \<open>Balance of the operations\<close>

lemma balanced_fields:
  "balanced (links_of p)" "balanced (links_size p)" "balanced (count_at p i)" "balanced (obj_which p)"
  "balanced (obj_collector p)" "balanced (obj_phantomized p)" "balanced (put_links p tb)"
  unfolding field_defs put_links_def by (rule balancedI, (rule lock_hoare)+)+

lemmas [lock_hoare] = balanced_fields [THEN balanced_at] balanced_fields [THEN balanced_in]

lemma foreach_same: "hashtable_foreach t s = Inr (x, s') \<Longrightarrow> s' = s"
proof -
  have "keeps id (hashtable_foreach t)"
    unfolding hashtable_foreach_def foreach_body_def hashtable_iter_next_def
    by (intro keeps_intros)
  then show "hashtable_foreach t s = Inr (x, s') \<Longrightarrow> s' = s" by (auto dest: keepsD)
qed

lemma get_same: "hashtable_get t k s = Inr (x, s') \<Longrightarrow> s' = s"
proof -
  have "keeps id (hashtable_get t k)"
    unfolding hashtable_get_def get_null_key_def get_table_index_def call_hash_def bucket_at_def
    by (intro keeps_intros)
  then show "hashtable_get t k s = Inr (x, s') \<Longrightarrow> s' = s" by (auto dest: keepsD)
qed

lemma remove_same: "hashtable_remove t k s = Inr (x, s') \<Longrightarrow> s' = s"
proof -
  have "keeps id (hashtable_remove t k)"
    unfolding hashtable_remove_def remove_null_key_def take_entry_def get_table_index_def call_hash_def
      bucket_at_def
    by (intro keeps_intros)
  then show "hashtable_remove t k s = Inr (x, s') \<Longrightarrow> s' = s" by (auto dest: keepsD)
qed

lemma put_new_entry_Nil: "put_new_entry t i e [] = Inr (x, m) \<Longrightarrow> m = []"
  by (auto simp: put_new_entry_def bnd_Inr split: if_splits)

lemma table_ops_Nil:
  "hashtable_add t k v [] = Inr (x3, m) \<Longrightarrow> m = []"
  "hashtable_new_conf cf [] = Inr (x5, m) \<Longrightarrow> m = []"
  by (auto simp: hashtable_add_def add_null_key_def grow_if_full_def ht_resize_def call_hash_def
      bucket_at_def hashtable_new_conf_def bnd_Inr Let_def
      split: if_splits option.splits prod.splits dest: put_new_entry_Nil)

lemma balanced_tables:
  "balanced (in_table (hashtable_foreach t))" "balanced (in_table (hashtable_get t k))"
  "balanced (in_table (hashtable_add t k v))" "balanced (in_table (hashtable_remove t k))"
  "balanced (in_table (hashtable_new_conf cf))"
  by (rule balanced_in_table, (erule foreach_same get_same remove_same table_ops_Nil))+

lemmas [lock_hoare] = balanced_tables [THEN balanced_at] balanced_tables [THEN balanced_in]

lemma balanced_links:
  "balanced (links_get p k lk)" "balanced (links_add p k lk)" "balanced (links_remove p k lk)"
  "balanced (links_remove_all p)" "balanced (links_array p fld)"
  unfolding links_get_def links_add_def links_remove_def links_remove_all_def links_array_def
  by (rule balancedI, (rule lock_hoare)+)+

lemmas [lock_hoare] = balanced_links [THEN balanced_at] balanced_links [THEN balanced_in]

lemma balanced_heap_updates:
  "balanced (modify (\<lambda>w. w\<lparr>objs := g1 w\<rparr>))"
  "balanced (modify (\<lambda>w. w\<lparr>lnks := g2 w\<rparr>))"
  "balanced (modify (\<lambda>w. w\<lparr>acid_world_count := g3 w\<rparr>))"
  "balanced (modify (\<lambda>w. w\<lparr>acid_collect_count := g4 w\<rparr>))"
  "balanced (modify (\<lambda>w. w\<lparr>dtor_calls := g5 w\<rparr>))"
  by (rule balanced_modify, simp add: lock_view_def)+

lemmas [lock_hoare] = balanced_heap_updates [THEN balanced_at] balanced_heap_updates [THEN balanced_in]

lemma balanced_create:
  "balanced (object_init p)" "balanced (object_inc_strong p)" "balanced (link_create s t)"
  "balanced (link_free lk)" "balanced (object_request_delete p)" "balanced (call_dtor p)"
  unfolding object_init_def object_inc_strong_def link_create_def link_free_def
    object_request_delete_def call_dtor_def
  by (rule balancedI, (rule lock_hoare balancedI)+)+

lemmas [lock_hoare] = balanced_create [THEN balanced_at] balanced_create [THEN balanced_in]

lemma balanced_dec:
  "balanced (object_dec p b)" "balanced (object_dec_phantom p)" "balanced (object_init_strong p)"
  unfolding object_dec_def object_dec_phantom_def object_init_strong_def
  by (rule balancedI, (rule lock_hoare balancedI)+)+

lemmas [lock_hoare] = balanced_dec [THEN balanced_at] balanced_dec [THEN balanced_in]

lemma balanced_dec_strong: "balanced (object_dec_strong p)" "balanced (link_dec lk)"
  unfolding object_dec_strong_def link_dec_def
  by (rule balancedI, (rule lock_hoare balancedI)+)+

lemmas [lock_hoare] = balanced_dec_strong [THEN balanced_at] balanced_dec_strong [THEN balanced_in]

lemma balanced_link_destroy: "balanced (link_destroy lk)"
  unfolding link_destroy_def by (rule balancedI, (rule lock_hoare balancedI)+)

lemma balanced_merge_round: "balanced (merge_round p q ts)"
  unfolding merge_round_def by (rule balancedI, (rule lock_hoare balancedI)+)

lemmas [lock_hoare] =
  balanced_link_destroy [THEN balanced_at] balanced_link_destroy [THEN balanced_in]
  balanced_merge_round [THEN balanced_at] balanced_merge_round [THEN balanced_in]

lemma balanced_merge: "balanced (object_merge_collectors p q)"
  unfolding object_merge_collectors_def by (rule balancedI, (rule lock_hoare balancedI)+)

lemmas [lock_hoare] = balanced_merge [THEN balanced_at] balanced_merge [THEN balanced_in]

lemma hoare_conj:
  "hoare P m (\<lambda>_. P) \<Longrightarrow> hoare (\<lambda>_. True) m Q \<Longrightarrow> hoare P m (\<lambda>x w. P w \<and> Q x w)"
  by (simp add: hoare_def)

lemma keeps_coll_of_upd_link: "keeps (\<lambda>w. coll_of w p) (upd_link lk f)"
  by (auto simp: keeps_def access_Inr)

text \<open>The end of \<open>link_phantomize\<close>: merge, mark the link, compare.\<close>

lemma phantomize_tail_balanced:
  "hoare (in_section t st)
     (block [
        bnd (object_merge_collectors src target) (\<lambda>_. ret ()),
        upd_link lk f,
        compare_collectors target src]) (\<lambda>_. in_section t st)"
proof (rule hoare_block_Cons)
  show "hoare (in_section t st) (bnd (object_merge_collectors src target) (\<lambda>_. ret ()))
      (\<lambda>_ w. in_section t st w \<and> coll_of w src = coll_of w target)"
    by (rule hoare_bnd [OF hoare_conj [OF balanced_in [OF balanced_merge] object_merge_collectors_same]])
      (rule hoare_ret)
  show "hoare (\<lambda>w. in_section t st w \<and> coll_of w src = coll_of w target)
      (block [upd_link lk f, compare_collectors target src]) (\<lambda>_. in_section t st)"
  proof (rule hoare_block_Cons)
    show "hoare (\<lambda>w. in_section t st w \<and> coll_of w src = coll_of w target) (upd_link lk f)
        (\<lambda>_ w. in_section t st w \<and> coll_of w src = coll_of w target)"
      using balanced_in [OF balanced_updates(2)] keeps_coll_of_upd_link
      unfolding hoare_def keeps_def by metis
    show "hoare (\<lambda>w. in_section t st w \<and> coll_of w src = coll_of w target)
        (block [compare_collectors target src]) (\<lambda>_. in_section t st)"
      by (rule hoare_block_Cons [OF compare_collectors_balanced]) (rule hoare_block_Nil)
  qed
qed

lemma block_append: "block (ms @ ns) = bnd (block ms) (\<lambda>_. block ns)"
  by (induction ms) (simp_all add: bnd_assoc)

lemma link_phantomize_split:
  "block [a, b, c, d, e, f] = bnd (block [a, b, c]) (\<lambda>_. block [d, e, f])"
  using block_append [of "[a, b, c]" "[d, e, f]"] by simp

lemma link_phantomize_body:
  assumes "\<And>t st. hoare (in_section t st) m (\<lambda>_. in_section t st)"
  shows "hoare (at_locks t st) (bnd (locker_start rs) (\<lambda>_. bnd m (\<lambda>x. bnd locker_end (\<lambda>_. ret x))))
    (\<lambda>_. at_locks t st)"
  by (rule lock_hoare assms)+

lemma balanced_link_phantomize: "balanced (link_phantomize lk)"
  unfolding link_phantomize_def with_locks_def link_phantomize_split
    compare_collectors_def [symmetric]
  by (rule balancedI, rule hoare_bnd_same, rule quiet_steps, rule link_phantomize_body)
    (rule phantomize_tail_balanced lock_hoare)+

lemmas [lock_hoare] = balanced_link_phantomize [THEN balanced_at] balanced_link_phantomize [THEN balanced_in]

lemma balanced_phantomize:
  "balanced (phantomize_mark p)" "balanced (phantomize_one p lk)"
  unfolding phantomize_mark_def phantomize_one_def
  by (rule balancedI, (rule lock_hoare balancedI)+)+

lemmas [lock_hoare] = balanced_phantomize [THEN balanced_at] balanced_phantomize [THEN balanced_in]

lemma balanced_rebuild_link: "balanced (object_rebuild_link sl lk)"
  unfolding object_rebuild_link_def Let_def by (rule balancedI, (rule lock_hoare balancedI)+)

lemmas [lock_hoare] = balanced_rebuild_link [THEN balanced_at] balanced_rebuild_link [THEN balanced_in]

lemma balanced_rebuild_each: "balanced (rebuild_each p c ks lk)"
proof (induction ks arbitrary: lk)
  case Nil
  show ?case by simp
next
  case (Cons k ks)
  show ?case
    unfolding rebuild_each.simps
    by (rule balancedI, (rule lock_hoare Cons.IH [THEN balanced_at])+)
qed

text \<open>In the middle of a section the wait gives up the lock and takes it again.\<close>

lemma wait_in_section: "hoare (in_section t st) (wait_for_phantomization p) (\<lambda>_. in_section t st)"
  unfolding wait_for_phantomization_def by (rule lock_hoare)+

lemmas [lock_hoare] =
  balanced_rebuild_each [THEN balanced_at] balanced_rebuild_each [THEN balanced_in] wait_in_section

lemma balanced_nodes:
  "balanced (object_phantomize_node p c)" "balanced (object_recover_node p c)"
  "balanced (object_remove_links p)" "balanced (object_del p)"
  unfolding object_phantomize_node_def object_recover_node_def object_remove_links_def object_del_def
  by (rule balancedI, (rule lock_hoare balancedI)+)+

lemmas [lock_hoare] = balanced_nodes [THEN balanced_at] balanced_nodes [THEN balanced_in]

lemma balanced_clean_node:
  "balanced (object_clean_node p)" "balanced (object_request_delete_task_run p)"
  unfolding object_clean_node_def object_request_delete_task_run_def
  by (rule balancedI, (rule lock_hoare balancedI)+)+

lemma balanced_link_count: "balanced (link_count p q lk)"
  unfolding link_count_def by (rule balancedI, (rule lock_hoare balancedI)+)

lemmas [lock_hoare] =
  balanced_clean_node [THEN balanced_at] balanced_clean_node [THEN balanced_in]
  balanced_link_count [THEN balanced_at] balanced_link_count [THEN balanced_in]

lemma balanced_object_set_link: "balanced (object_set_link p k q)"
  unfolding object_set_link_def by (rule balancedI, (rule lock_hoare balancedI)+)

lemmas [lock_hoare] =
  balanced_object_set_link [THEN balanced_at] balanced_object_set_link [THEN balanced_in]

lemma balanced_access: "balanced (object_get p k)" "balanced (object_set p k q)"
  unfolding object_get_def object_set_def by (rule balancedI, (rule lock_hoare balancedI)+)+

lemmas [lock_hoare] = balanced_access [THEN balanced_at] balanced_access [THEN balanced_in]

lemma balanced_collector_finish: "balanced (collector_finish c)"
  unfolding collector_finish_def by (rule balancedI, (rule lock_hoare balancedI)+)

lemma balanced_collector_phases: "balanced (collector_phases c)"
  unfolding collector_phases_def by (rule balancedI, (rule lock_hoare balancedI)+)

lemmas [lock_hoare] =
  balanced_collector_finish [THEN balanced_at] balanced_collector_finish [THEN balanced_in]
  balanced_collector_phases [THEN balanced_at] balanced_collector_phases [THEN balanced_in]

lemma balanced_collector_run: "balanced (collector_run c)"
  unfolding collector_run_def by (rule balancedI, (rule lock_hoare balancedI)+)

lemmas [lock_hoare] =
  balanced_collector_run [THEN balanced_at] balanced_collector_run [THEN balanced_in]

lemma balanced_task_call: "balanced (task_call fn a)"
  unfolding task_call_def by (rule balancedI) (cases fn; simp; rule lock_hoare)

lemma balanced_task_finished: "balanced task_finished"
  unfolding task_finished_def by (rule balanced_modify) (simp add: lock_view_def)

lemmas [lock_hoare] =
  balanced_task_call [THEN balanced_at] balanced_task_call [THEN balanced_in]
  balanced_task_finished [THEN balanced_at] balanced_task_finished [THEN balanced_in]

lemma balanced_task_run: "balanced (task_run tk)"
  unfolding task_run_def by (rule balancedI, (rule lock_hoare balancedI)+)

section \<open>Properties\<close>

text \<open>C13: Whenever \<open>object_merge_collectors\<close> returns, on any of its paths, both objects belong to the same collector.\<close>

theorem merge_collectors_unites:
  assumes "object_merge_collectors obj target w = Inr (merged, w')"
  shows "map_option o_collector (objs w' obj) = map_option o_collector (objs w' target)"
  using hoareD [OF object_merge_collectors_same _ assms] by (simp add: coll_of_def)

definition two_objects :: world where
  "two_objects =
     (let ob = (\<lambda>i c. \<lparr>o_lock = i, o_links = None, o_which = 0, o_phantomized = False, o_count = (\<lambda>_. 0)(0 := 1),
          o_collector = c, o_complete = True, o_dtor = None, o_data = 0, o_magic = OBJECT_MAGIC_NUMBER\<rparr>)
      in forwarding_collectors\<lparr>objs := [5 \<mapsto> ob 30 1, 6 \<mapsto> ob 31 2]\<rparr>)"

theorem merge_collectors_unites_witness:
  "\<exists>merged w'. object_merge_collectors 5 6 two_objects = Inr (merged, w') \<and>
     map_option o_collector (objs w' 5) = map_option o_collector (objs w' 6)"
proof -
  have "\<not> isl (object_merge_collectors 5 6 two_objects)" by code_simp
  then obtain merged w' where run: "object_merge_collectors 5 6 two_objects = Inr (merged, w')"
    using not_isl by blast
  with merge_collectors_unites [OF run] show ?thesis by blast
qed

end
