(* ===== verification/Invariants.thy ===== *)
theory Invariants
  imports Balance
begin

text \<open>
  The locale \<open>gc_invariant\<close>: an assertion on the memory that the basic steps of the collector
  keep (taking and releasing locks, allocating, writing a field, a queue operation, moving an
  object to another collector, starting a task) is kept by every operation built from them, up
  to whole runs of a task. The locale \<open>heap_invariant\<close> adds the one step that only clients make, a new entry
  in a table of links. The theories after this one interpret it four times.
\<close>

named_theorems inv_steps

section \<open>Steps that change nothing\<close>

lemma hoare_table_reads:
  "hoare P (in_table (hashtable_foreach t)) (\<lambda>_. P)"
  "hoare P (in_table (hashtable_get t k)) (\<lambda>_. P)"
  by (auto simp: hoare_def in_table_Inr dest!: foreach_same get_same)

lemma hoare_field_reads:
  "hoare P (links_of p) (\<lambda>_. P)" "hoare P (links_size p) (\<lambda>_. P)" "hoare P (count_at p i) (\<lambda>_. P)"
  "hoare P (obj_which p) (\<lambda>_. P)" "hoare P (obj_collector p) (\<lambda>_. P)"
  "hoare P (obj_phantomized p) (\<lambda>_. P)" "hoare P (coll_forward c) (\<lambda>_. P)"
  "hoare P (coll_count c) (\<lambda>_. P)" "hoare P (counter_continue_waiting n) (\<lambda>_. P)"
  "hoare P (counter_done n) (\<lambda>_. P)"
  unfolding field_defs coll_forward_def coll_count_def counter_continue_waiting_def counter_done_def
  by (rule lock_hoare | assumption)+

lemma hoare_links_get: "hoare P (links_get p k lk) (\<lambda>_. P)"
  unfolding links_get_def by (rule lock_hoare hoare_table_reads hoare_field_reads)+

lemmas hoare_reads = hoare_table_reads hoare_field_reads hoare_links_get quiet_steps

lemmas hoare_shapes = hoare_ret_same hoare_case_option hoare_case_list hoare_case_prod hoare_if_same
  hoare_whenM hoare_block_Nil hoare_block_Cons hoare_bnd_same hoare_forM_same hoare_loopM_same
  hoare_fail_any

lemma hoare_let: "(\<And>x. x = a \<Longrightarrow> hoare P (f x) Q) \<Longrightarrow> hoare P (let x = a in f x) Q"
  by simp

section \<open>The interface\<close>

locale gc_invariant =
  fixes I :: "world \<Rightarrow> bool"
  assumes locks: "hoare I (locker_start rs) (\<lambda>_. I)" "hoare I locker_end (\<lambda>_. I)"
    and alloc: "hoare I (xmalloc sz) (\<lambda>_. I)"
    and field: "(\<And>ob. o_collector (f ob) = o_collector ob \<and> o_links (f ob) = o_links ob) \<Longrightarrow>
      hoare I (upd_obj p f) (\<lambda>_. I)"
    and link_field: "hoare I (upd_link lk g) (\<lambda>_. I)"
    and link_alloc: "hoare I (link_create s t) (\<lambda>_. I)" "hoare I (link_free lk) (\<lambda>_. I)"
    and table: "hoare I (links_remove p k lk) (\<lambda>_. I)" "hoare I (links_remove_all p) (\<lambda>_. I)"
    and queue: "hoare I (safelist_add sl x) (\<lambda>_. I)" "hoare I (safelist_poll sl) (\<lambda>_. I)"
    and collectors: "hoare I collector_create (\<lambda>_. I)" "hoare I (object_set_collector p c) (\<lambda>_. I)"
      "hoare I (collector_merge c d) (\<lambda>_. I)" "hoare I (collector_finish c) (\<lambda>_. I)"
    and scheduling: "hoare I (bnd (task_create fn a) task_start) (\<lambda>_. I)"
    and objects: "hoare I (bnd (xmalloc sz) object_init) (\<lambda>_. I)" "hoare I (object_del p) (\<lambda>_. I)"
begin

lemmas [inv_steps] = locks alloc link_field link_alloc table queue collectors scheduling objects
  hoare_reads hoare_shapes hoare_let

lemma keep_locker_starts [inv_steps]:
  "hoare I (locker_start1 a) (\<lambda>_. I)" "hoare I (locker_start2 a b) (\<lambda>_. I)"
  "hoare I (locker_start3 a b c) (\<lambda>_. I)" "hoare I (locker_start4 a b c d) (\<lambda>_. I)"
  unfolding locker_starts by (rule locks)+

lemma keep_with_locks [inv_steps]: "hoare I m (\<lambda>_. I) \<Longrightarrow> hoare I (with_locks rs m) (\<lambda>_. I)"
  unfolding with_locks_def by (rule inv_steps | assumption)+

lemma keep_fields [inv_steps]:
  "hoare I (upd_obj p (\<lambda>ob. ob\<lparr>o_which := a1 ob\<rparr>)) (\<lambda>_. I)"
  "hoare I (upd_obj p (\<lambda>ob. ob\<lparr>o_phantomized := a2\<rparr>)) (\<lambda>_. I)"
  "hoare I (upd_obj p (\<lambda>ob. ob\<lparr>o_complete := a3\<rparr>)) (\<lambda>_. I)"
  "hoare I (upd_obj p (\<lambda>ob. ob\<lparr>o_count := a4 ob\<rparr>)) (\<lambda>_. I)"
  "hoare I (upd_obj p (\<lambda>ob. ob\<lparr>o_dtor := a5\<rparr>)) (\<lambda>_. I)"
  "hoare I (upd_obj p (\<lambda>ob. ob\<lparr>o_data := a6\<rparr>)) (\<lambda>_. I)"
  by (rule field, simp)+

lemma keep_count_add [inv_steps]: "hoare I (count_add p i d) (\<lambda>_. I)"
  unfolding count_add_def by (rule inv_steps)+

lemma keep_drain [inv_steps]:
  assumes "\<And>x. hoare I (act x) (\<lambda>_. I)"
  shows "hoare I (drain sl act) (\<lambda>_. I)"
  unfolding drain_def by (rule inv_steps assms)+

lemma keep_collector_walks [inv_steps]:
  "hoare I (collector_update c) (\<lambda>_. I)"
  "hoare I (collector_add_object c p) (\<lambda>_. I)"
  "hoare I (collector_equals c d) (\<lambda>_. I)"
  unfolding collector_update_def collector_add_object_def collector_equals_def
  by (rule inv_steps)+

lemma keep_inc [inv_steps]: "hoare I (object_inc_strong p) (\<lambda>_. I)"
  unfolding object_inc_strong_def by (rule inv_steps)+

lemma keep_request [inv_steps]: "hoare I (object_request_delete p) (\<lambda>_. I)"
  unfolding object_request_delete_def by (rule inv_steps)+

lemma keep_dec [inv_steps]:
  "hoare I (object_dec p b) (\<lambda>_. I)" "hoare I (object_dec_phantom p) (\<lambda>_. I)"
  unfolding object_dec_def object_dec_phantom_def by (rule inv_steps)+

lemma keep_dec_strong [inv_steps]: "hoare I (object_dec_strong p) (\<lambda>_. I)"
  unfolding object_dec_strong_def by (rule inv_steps)+

lemma keep_link_dec [inv_steps]: "hoare I (link_dec lk) (\<lambda>_. I)"
  unfolding link_dec_def by (rule inv_steps)+

lemma keep_link_destroy [inv_steps]: "hoare I (link_destroy lk) (\<lambda>_. I)"
  unfolding link_destroy_def by (rule inv_steps)+

lemma keep_merge [inv_steps]: "hoare I (object_merge_collectors p q) (\<lambda>_. I)"
  unfolding object_merge_collectors_def merge_round_def by (rule inv_steps)+

lemma keep_links_array [inv_steps]: "hoare I (links_array p fld) (\<lambda>_. I)"
  unfolding links_array_def by (rule inv_steps)+

lemma keep_link_phantomize [inv_steps]: "hoare I (link_phantomize lk) (\<lambda>_. I)"
  unfolding link_phantomize_def by (rule inv_steps)+

lemma keep_phantomize_mark [inv_steps]: "hoare I (phantomize_mark p) (\<lambda>_. I)"
  unfolding phantomize_mark_def by (rule inv_steps)+

lemma keep_phantomize_one [inv_steps]: "hoare I (phantomize_one p lk) (\<lambda>_. I)"
  unfolding phantomize_one_def by (rule inv_steps)+

lemma keep_phantomize_node [inv_steps]: "hoare I (object_phantomize_node p c) (\<lambda>_. I)"
  unfolding object_phantomize_node_def by (rule inv_steps)+

lemma keep_rebuild_link [inv_steps]: "hoare I (object_rebuild_link sl lk) (\<lambda>_. I)"
  unfolding object_rebuild_link_def Let_def by (rule inv_steps)+

lemma keep_rebuild_each [inv_steps]: "hoare I (rebuild_each p c ks lk) (\<lambda>_. I)"
  by (induction ks arbitrary: lk) (simp_all, (rule inv_steps | assumption)+)

lemma keep_wait [inv_steps]: "hoare I (wait_for_phantomization p) (\<lambda>_. I)"
  unfolding wait_for_phantomization_def by (rule inv_steps)+

lemma keep_recover_node [inv_steps]: "hoare I (object_recover_node p c) (\<lambda>_. I)"
  unfolding object_recover_node_def by (rule inv_steps)+

lemma keep_remove_links [inv_steps]: "hoare I (object_remove_links p) (\<lambda>_. I)"
  unfolding object_remove_links_def by (rule inv_steps)+

lemma keep_clean_node [inv_steps]: "hoare I (object_clean_node p) (\<lambda>_. I)"
  unfolding object_clean_node_def by (rule inv_steps)+

lemma keep_delete_task [inv_steps]: "hoare I (object_request_delete_task_run p) (\<lambda>_. I)"
  unfolding object_request_delete_task_run_def by (rule inv_steps)+

lemma keep_object_get [inv_steps]: "hoare I (object_get p k) (\<lambda>_. I)"
  unfolding object_get_def by (rule inv_steps)+

lemma keep_collector_run [inv_steps]: "hoare I (collector_run c) (\<lambda>_. I)"
  unfolding collector_run_def collector_phases_def by (rule inv_steps)+

lemma keep_task_call [inv_steps]: "hoare I (task_call fn a) (\<lambda>_. I)"
  unfolding task_call_def by (cases fn; simp; rule inv_steps)

end

text \<open>Only a client makes links.\<close>

locale heap_invariant = gc_invariant I for I +
  assumes adding [inv_steps]: "hoare I (links_add p k lk) (\<lambda>_. I)"
begin

lemma keep_object_set_link [inv_steps]: "hoare I (object_set_link p k q) (\<lambda>_. I)"
  unfolding object_set_link_def link_count_def by (rule inv_steps)+

lemma keep_object_set [inv_steps]: "hoare I (object_set p k q) (\<lambda>_. I)"
  unfolding object_set_def by (rule inv_steps)+

end

end
