(* ===== verification/Acid.thy ===== *)
theory Acid
  imports Invariants
begin

text \<open>
  src/acid.c and the macro \<open>acid_set_field\<close> of include/acid.h: the operations a client program
  calls. A client holds pointers to the data behind an object's header. Whether a pointer is
  managed is read from the header's magic number; what stands before memory that is not
  managed is the parameter \<open>foreign\<close>, which gives the word at an address.
\<close>

section \<open>Headers\<close>

type_synonym memory = "addr \<Rightarrow> 64 word option"

definition offsetof_magic :: int where "offsetof_magic = 104"

definition acid_get_header :: "addr \<Rightarrow> addr" where
  "acid_get_header ptr = ptr - sizeof_Object"

definition acid_is_managed :: "memory \<Rightarrow> addr \<Rightarrow> bool W" where
  "acid_is_managed foreign ptr w =
     (if ptr = NULL then Inr (False, w) else
      case objs w (ptr - sizeof_Object) of
        Some ob \<Rightarrow> Inr (OBJECT_MAGIC_NUMBER = o_magic ob, w)
      | None \<Rightarrow>
          (case foreign (ptr - sizeof_Object + offsetof_magic) of
             None \<Rightarrow> Inl Bad_pointer
           | Some v \<Rightarrow> Inr (OBJECT_MAGIC_NUMBER = v, w)))"

section \<open>Allocation and references from the stack\<close>

text \<open>The sum is a \<open>size_t\<close>.\<close>

definition acid_malloc :: "64 word \<Rightarrow> addr W" where
  "acid_malloc alloc_size =
     bnd (xmalloc (uint (word_of_int sizeof_Object + alloc_size))) (\<lambda>fullspace.
     bnd (object_init_strong fullspace) (\<lambda>ob.
     let data_section = fullspace + sizeof_Object in
     bnd (upd_obj ob (\<lambda>b. b\<lparr>o_data := data_section\<rparr>)) (\<lambda>_.
     ret data_section)))"

definition acid_malloc_dtor :: "64 word \<Rightarrow> nat option \<Rightarrow> addr W" where
  "acid_malloc_dtor alloc_size dtor =
     bnd (acid_malloc alloc_size) (\<lambda>m.
     bnd (upd_obj (acid_get_header m) (\<lambda>b. b\<lparr>o_dtor := dtor\<rparr>)) (\<lambda>_.
     ret m))"

definition acid_harden :: "addr \<Rightarrow> unit W" where
  "acid_harden ptr =
     (let obj_addr = ptr - sizeof_Object in
      with_locks [LObj obj_addr] (object_inc_strong obj_addr))"

definition acid_dissolve :: "addr \<Rightarrow> unit W" where
  "acid_dissolve ptr =
     (let obj_addr = ptr - sizeof_Object in
      with_locks [LObj obj_addr] (object_dec_strong obj_addr))"

text \<open>The cleanup attribute hands over a pointer to the variable, whose content is \<open>var\<close>.\<close>

definition acid_dissolve_cleanup :: "addr \<Rightarrow> unit W" where
  "acid_dissolve_cleanup var = acid_dissolve var"

text \<open>\<open>*var = val\<close>: \<open>var\<close> is the content before, the result the content afterwards.\<close>

definition acid_set_raw :: "memory \<Rightarrow> addr \<Rightarrow> addr \<Rightarrow> addr W" where
  "acid_set_raw foreign var val =
     (let valobj = acid_get_header val in
      bnd (acid_is_managed foreign var) (\<lambda>managed.
      let varobj = (if managed then acid_get_header var else NULL) in
      bnd (with_locks [LObj valobj, LObj varobj] (block [
        whenM (val \<noteq> NULL) (object_inc_strong valobj),
        whenM (varobj \<noteq> NULL) (object_dec_strong varobj)])) (\<lambda>_.
      ret val)))"

text \<open>The result is what is stored in the field of the client's struct.\<close>

definition acid_set_field :: "memory \<Rightarrow> addr \<Rightarrow> key \<Rightarrow> addr \<Rightarrow> addr W" where
  "acid_set_field foreign var field_offset acid_val =
     bnd (acid_is_managed foreign acid_val) (\<lambda>managed.
     bnd (whenM (managed \<or> acid_val = NULL)
       (object_set (acid_get_header var) field_offset
         (if acid_val = NULL then NULL else acid_get_header acid_val))) (\<lambda>_.
     ret acid_val))"

section \<open>Starting and stopping\<close>

text \<open>\<open>task_setup\<close> and \<open>task_teardown\<close> only make and unmake a mutex and a condition. With tasks left
  \<open>acid_stop\<close> has to wait for other threads; the theory \<open>Workers\<close> has its steps.\<close>

definition acid_start :: "nat \<Rightarrow> unit W" where
  "acid_start num_threads = block [locker_setup, workers_setup num_threads]"

definition acid_stop_nonblocking :: "unit W" where
  "acid_stop_nonblocking = block [workers_teardown, locker_teardown]"

definition task_wait_for_zero_threads :: "unit W" where
  "task_wait_for_zero_threads =
     bnd task_get_running_count (\<lambda>n. whenM (n > 0) (fail Would_block))"

definition acid_stop :: "unit W" where
  "acid_stop = block [task_wait_for_zero_threads, acid_stop_nonblocking]"

section \<open>Balance and invariants\<close>

lemma hoare_is_managed: "hoare P (acid_is_managed foreign ptr) (\<lambda>_. P)"
  by (auto simp: hoare_def acid_is_managed_def split: if_splits option.splits)

lemma balanced_acid:
  "balanced (acid_malloc n)" "balanced (acid_harden p)" "balanced (acid_dissolve p)"
  "balanced (acid_set_raw f x y)" "balanced (acid_set_field f x k y)"
  unfolding acid_malloc_def acid_harden_def acid_dissolve_def acid_set_raw_def acid_set_field_def Let_def
  by (rule balancedI, (rule lock_hoare balancedI hoare_is_managed)+)+

lemmas [lock_hoare] = balanced_acid [THEN balanced_at] balanced_acid [THEN balanced_in]

lemma balanced_acid_more: "balanced (acid_malloc_dtor n d)" "balanced (acid_dissolve_cleanup p)"
  unfolding acid_malloc_dtor_def acid_dissolve_cleanup_def
  by (rule balancedI, (rule lock_hoare)+)+

text \<open>The object is created in the block that was just allocated.\<close>

lemma object_init_result: "object_init p w = Inr (q, w') \<Longrightarrow> q = p"
  by (auto simp: object_init_def bnd_Inr split: if_splits)

lemma bnd_result:
  assumes "\<And>w q w'. m w = Inr (q, w') \<Longrightarrow> q = p"
  shows "bnd m f = bnd m (\<lambda>_. f p)"
  using assms by (intro ext) (auto simp: bnd_def split: sum.splits)

lemma acid_malloc_alt:
  "acid_malloc n =
     bnd (bnd (xmalloc (uint (word_of_int sizeof_Object + n))) object_init) (\<lambda>p.
     bnd (object_inc_strong p) (\<lambda>_.
     bnd (upd_obj p (\<lambda>b. b\<lparr>o_data := p + sizeof_Object\<rparr>)) (\<lambda>_.
     ret (p + sizeof_Object))))"
proof -
  have "bnd (object_init_strong p) (\<lambda>ob.
        bnd (upd_obj ob (\<lambda>b. b\<lparr>o_data := p + sizeof_Object\<rparr>)) (\<lambda>_. ret (p + sizeof_Object))) =
      bnd (object_init p) (\<lambda>p.
        bnd (object_inc_strong p) (\<lambda>_.
        bnd (upd_obj p (\<lambda>b. b\<lparr>o_data := p + sizeof_Object\<rparr>)) (\<lambda>_. ret (p + sizeof_Object))))" for p
    unfolding object_init_strong_def bnd_assoc bnd_ret
    by (subst (1 2) bnd_result [where p = p]) (auto dest: object_init_result)
  then show ?thesis by (simp add: acid_malloc_def Let_def bnd_assoc)
qed

context gc_invariant
begin

lemma keep_roots [inv_steps]:
  "hoare I (acid_malloc n) (\<lambda>_. I)" "hoare I (acid_harden p) (\<lambda>_. I)" "hoare I (acid_dissolve p) (\<lambda>_. I)"
  unfolding acid_malloc_alt acid_harden_def acid_dissolve_def Let_def by (rule objects inv_steps)+

end

context heap_invariant
begin

lemma keep_acid [inv_steps]:
  "hoare I (acid_malloc n) (\<lambda>_. I)" "hoare I (acid_harden p) (\<lambda>_. I)"
  "hoare I (acid_dissolve p) (\<lambda>_. I)" "hoare I (acid_set_raw f x y) (\<lambda>_. I)"
  "hoare I (acid_set_field f x k y) (\<lambda>_. I)"
  unfolding acid_set_raw_def acid_set_field_def Let_def by (rule inv_steps hoare_is_managed)+

lemma keep_acid_more:
  "hoare I (acid_malloc_dtor n d) (\<lambda>_. I)" "hoare I (acid_dissolve_cleanup p) (\<lambda>_. I)"
  unfolding acid_malloc_dtor_def acid_dissolve_cleanup_def by (rule inv_steps)+

end

section \<open>The operations of a client and of a worker\<close>

text \<open>What a thread can ask of the library while the workers are running, as data.\<close>

datatype acid_op =
    Malloc "64 word" "nat option"
  | Harden addr
  | Dissolve addr
  | Set_raw addr addr
  | Set_field addr key addr
  | Get_field addr key
  | Run_task task_fn addr

fun exec_op :: "memory \<Rightarrow> acid_op \<Rightarrow> unit W" where
  "exec_op f (Malloc n d) = bnd (acid_malloc_dtor n d) (\<lambda>_. ret ())"
| "exec_op f (Harden p) = acid_harden p"
| "exec_op f (Dissolve p) = acid_dissolve p"
| "exec_op f (Set_raw x y) = bnd (acid_set_raw f x y) (\<lambda>_. ret ())"
| "exec_op f (Set_field x k y) = bnd (acid_set_field f x k y) (\<lambda>_. ret ())"
| "exec_op f (Get_field p k) = bnd (object_get (acid_get_header p) k) (\<lambda>_. ret ())"
| "exec_op f (Run_task fn a) = bnd (task_call fn a) (\<lambda>_. ret ())"

lemma balanced_exec_op: "balanced (exec_op f x)"
  by (cases x; simp; intro balanced_bnd balanced_acid balanced_acid_more balanced_access
      balanced_task_call balanced_ret)

context heap_invariant
begin

lemma keep_exec_op: "hoare I (exec_op f x) (\<lambda>_. I)"
  by (cases x; simp; (rule inv_steps keep_acid_more)+)

end

section \<open>Properties\<close>

lemma balanced_same_locks:
  assumes "balanced m" and "mem w = []" and "0 < next_addr w" and "m w = Inr (x, w')"
  shows "same_locks w w'"
proof -
  have "at_locks (self w) (mutexes w, lockers w) w" using assms(2,3) by (simp add: at_locks_def)
  from hoareD [OF balanced_at [OF assms(1)] this assms(4)] show ?thesis by (simp add: at_locks_def same_locks_def)
qed

text \<open>C12: As long as the allocator does not fail (\<open>mem w = []\<close>), every operation that a client or a worker can run, from allocating an
  object to a whole collection, ends with every mutex and every lock stack exactly as at its start if it returns: each lock taken anywhere
  below it has been released, on every path. Without the condition this is not so: \<open>locker_start\<close> loses an entry that it has no memory for.\<close>

theorem operations_release_locks:
  assumes "mem w = []" and "0 < next_addr w" and "exec_op f x w = Inr (u, w')"
  shows "same_locks w w'"
  by (rule balanced_same_locks [OF balanced_exec_op assms])

theorem operations_release_locks_witness:
  "\<exists>w'. exec_op (\<lambda>_. None) (Run_task Collector_run 1) two_collectors = Inr ((), w') \<and> same_locks two_collectors w'"
proof -
  have "\<not> isl (exec_op (\<lambda>_. None) (Run_task Collector_run 1) two_collectors)" by code_simp
  then obtain w' where run: "exec_op (\<lambda>_. None) (Run_task Collector_run 1) two_collectors = Inr ((), w')"
    using not_isl [of "exec_op (\<lambda>_. None) (Run_task Collector_run 1) two_collectors"] by auto
  have "mem two_collectors = []" "0 < next_addr two_collectors"
    by (simp_all add: two_collectors_def boot_def Let_def)
  from operations_release_locks [OF this run] run show ?thesis by blast
qed

text \<open>\<open>acid_set(x, NULL)\<close> crashes: the header of NULL is not NULL, so that it is locked, which reads through a bad
  pointer, before the test for NULL is reached.\<close>

lemma acid_set_NULL_crashes:
  assumes "acid_is_managed f var w = Inr (b, w)" and "objs w (NULL - sizeof_Object) = None"
  shows "acid_set_raw f var NULL w = Inl Bad_pointer"
proof -
  have "deref_lock (LObj (- 112)) w = Inl Bad_pointer"
    using assms(2) by (simp add: deref_lock_def get_obj_def bnd_def sizeof_Object_def)
  then show ?thesis
    using assms(1)
    by (simp add: acid_set_raw_def acid_get_header_def Let_def bnd_def with_locks_def locker_start_def
        is_NULL_lock_def sizeof_Object_def)
qed

end
