(* ===== verification/Accounts.thy ===== *)
theory Accounts
  imports Acid
begin

text \<open>
  The invariants of the memory, each an interpretation of \<open>gc_invariant\<close> or \<open>heap_invariant\<close>:
  the allocator keeps succeeding (\<open>mem_ok\<close>), the number of started tasks is the length of the queue and
  the tasks in the hands of workers (\<open>accounted\<close>), every table of links is a hash table
  (\<open>tables_ok\<close>), and the reference count of a collector is the number of objects and
  collectors that point to it (\<open>refs_ok\<close>).
\<close>

section \<open>What locking and allocation leave alone\<close>

definition bare :: "world \<Rightarrow> world" where
  "bare w = w\<lparr>mutexes := (\<lambda>_. None), lockers := (\<lambda>_. None), next_addr := 0, mem := []\<rparr>"

lemma lock_free_bare [simp]: "lock_free bare"
  unfolding lock_free_def bare_def by (intro allI) (rename_tac w x l a m, case_tac w, simp)

lemma bare_fields:
  assumes "bare w = bare w'"
  shows "objs w' = objs w" "lnks w' = lnks w" "colls w' = colls w" "ctrs w' = ctrs w" "tsks w' = tsks w"
    "work w' = work w" "task_count w' = task_count w" "fuel w' = fuel w"
  using assms by (cases w; cases w'; simp add: bare_def)+

text \<open>\<open>growing P\<close>: \<open>P\<close> survives taking and releasing locks and any allocation.\<close>

definition growing :: "(world \<Rightarrow> bool) \<Rightarrow> bool" where
  "growing P \<longleftrightarrow> (\<forall>w w'. bare w = bare w' \<longrightarrow> next_addr w \<le> next_addr w' \<longrightarrow> P w \<longrightarrow> P w')"

lemma hoare_malloc_up: "hoare (\<lambda>w. a \<le> next_addr w) (malloc sz) (\<lambda>_ w. a \<le> next_addr w)"
  using malloc_mono by (fastforce simp: hoare_def)

lemma hoare_xmalloc_up: "hoare (\<lambda>w. a \<le> next_addr w) (xmalloc sz) (\<lambda>_ w. a \<le> next_addr w)"
  unfolding xmalloc_def xmalloc_round_def task_get_running_count_def
  by (rule hoare_shapes hoare_malloc_up quiet_steps)+

lemma keeps_up: "keeps next_addr m \<Longrightarrow> hoare (\<lambda>w. a \<le> next_addr w) m (\<lambda>_ w. a \<le> next_addr w)"
  by (auto simp: keeps_def hoare_def)

lemma keeps_mtx_any:
  assumes "\<And>w x. f (w\<lparr>mutexes := x\<rparr>) = f w"
  shows "keeps f (mtx_lock r)" "keeps f (mtx_unlock r)"
  using assms by (auto simp: keeps_def mtx_lock_Inr mtx_unlock_Inr)

lemma keeps_lock_each_any:
  assumes "\<And>w x. f (w\<lparr>mutexes := x\<rparr>) = f w"
  shows "keeps f (lock_each ls le)"
  by (induction ls arbitrary: le) (auto simp: idlock_lock_def intro!: keeps_intros keeps_mtx_any assms)

lemma keeps_locker_end_any:
  assumes "\<And>w x. f (w\<lparr>mutexes := x\<rparr>) = f w" and "\<And>w x. f (w\<lparr>lockers := x\<rparr>) = f w"
  shows "keeps f locker_end"
  unfolding locker_end_def stack_of_def idlock_unlock_def
  by (intro keeps_intros keeps_modify keeps_mtx_any assms)

lemma keeps_next_addr:
  "keeps next_addr (lock_each ls le)" "keeps next_addr (push_entry le)" "keeps next_addr locker_end"
proof -
  show "keeps next_addr (lock_each ls le)" by (rule keeps_lock_each_any) simp
  show "keeps next_addr (push_entry le)"
    unfolding push_entry_def stack_of_def
    by (intro keeps_intros keeps_calloc_ok keeps_modify) simp_all
  show "keeps next_addr locker_end" by (rule keeps_locker_end_any) simp_all
qed

lemma hoare_locker_start_up: "hoare (\<lambda>w. a \<le> next_addr w) (locker_start rs) (\<lambda>_ w. a \<le> next_addr w)"
  unfolding locker_start_def locker_entry_create_def
  by (rule hoare_shapes hoare_xmalloc_up keeps_up keeps_filter_locks keeps_next_addr)+

lemma growing_step:
  assumes P: "growing P" and "keeps bare m" and "\<And>a. hoare (\<lambda>w. a \<le> next_addr w) m (\<lambda>_ w. a \<le> next_addr w)"
  shows "hoare P m (\<lambda>_. P)"
proof (rule hoareI)
  fix w x w' assume p: "P w" and run: "m w = Inr (x, w')"
  from keepsD [OF assms(2) run] have "bare w = bare w'" by simp
  moreover have "next_addr w \<le> next_addr w'" by (rule hoareD [OF assms(3) _ run]) simp
  ultimately show "P w'" using P p by (auto simp: growing_def)
qed

lemma growing_locks:
  assumes "growing P"
  shows "hoare P (locker_start rs) (\<lambda>_. P)" "hoare P locker_end (\<lambda>_. P)" "hoare P (xmalloc sz) (\<lambda>_. P)"
    "hoare P calloc_ok (\<lambda>_. P)"
proof -
  show "hoare P (locker_start rs) (\<lambda>_. P)"
    by (rule growing_step [OF assms keeps_locker_start hoare_locker_start_up]) simp
  show "hoare P locker_end (\<lambda>_. P)"
    by (rule growing_step [OF assms keeps_locker_end keeps_up [OF keeps_next_addr(3)]]) simp
  show "hoare P (xmalloc sz) (\<lambda>_. P)"
  proof (rule growing_step [OF assms keeps_xmalloc hoare_xmalloc_up])
    show "bare (w\<lparr>mem := m, next_addr := a\<rparr>) = bare w" for w m a by (cases w) (simp add: bare_def)
  qed
  show "hoare P calloc_ok (\<lambda>_. P)"
  proof (rule growing_step [OF assms keeps_calloc_ok keeps_up [OF keeps_calloc_ok]])
    show "bare (w\<lparr>mem := m\<rparr>) = bare w" for w m by (cases w) (simp add: bare_def)
  qed simp
qed

lemma growing_with_locks:
  assumes "growing P" and "hoare P m (\<lambda>_. P)"
  shows "hoare P (with_locks rs m) (\<lambda>_. P)"
  unfolding with_locks_def by (rule hoare_shapes growing_locks assms)+

lemma hoare_modify: "(\<And>w. P w \<Longrightarrow> Q () (f w)) \<Longrightarrow> hoare P (modify f) Q"
  by (auto simp: hoare_def)

section \<open>The allocator\<close>

definition mem_ok :: "world \<Rightarrow> bool" where
  "mem_ok w \<longleftrightarrow> mem w = []"

lemma keeps_mem_ok: "keeps mem m \<Longrightarrow> hoare mem_ok m (\<lambda>_. mem_ok)"
  by (auto simp: keeps_def hoare_def mem_ok_def)

lemma mem_ok_alloc:
  "hoare mem_ok (xmalloc sz) (\<lambda>_. mem_ok)" "hoare mem_ok calloc_ok (\<lambda>_. mem_ok)"
  "hoare mem_ok (in_table (hashtable_add t k v)) (\<lambda>_. mem_ok)"
  "hoare mem_ok (in_table (hashtable_remove t k)) (\<lambda>_. mem_ok)"
  "hoare mem_ok (in_table (hashtable_new_conf cf)) (\<lambda>_. mem_ok)"
proof -
  have m: "hoare mem_ok (malloc sz) (\<lambda>_. mem_ok)"
    by (auto simp: hoare_def mem_ok_def malloc_def)
  show "hoare mem_ok (xmalloc sz) (\<lambda>_. mem_ok)"
    unfolding xmalloc_def xmalloc_round_def task_get_running_count_def
    by (rule hoare_shapes quiet_steps m)+
qed (auto simp: hoare_def mem_ok_def calloc_ok_Inr in_table_Inr dest: table_ops_Nil remove_same)

lemma keeps_mem:
  "keeps mem (lock_each ls le)" "keeps mem locker_end"
  "keeps mem (upd_obj p f1)" "keeps mem (upd_link p f2)" "keeps mem (upd_coll p f3)"
  "keeps mem (upd_ctr p f4)" "keeps mem (upd_sl sl f5)"
proof -
  show "keeps mem (lock_each ls le)" by (rule keeps_lock_each_any) simp
  show "keeps mem locker_end" by (rule keeps_locker_end_any) simp_all
qed (auto simp: keeps_def access_Inr)

lemma mem_ok_locks: "hoare mem_ok (locker_start rs) (\<lambda>_. mem_ok)" "hoare mem_ok locker_end (\<lambda>_. mem_ok)"
  unfolding locker_start_def locker_entry_create_def push_entry_def stack_of_def
  by (rule hoare_shapes mem_ok_alloc quiet_steps keeps_mem_ok keeps_filter_locks keeps_mem
      | rule keeps_modify, simp)+

lemma mem_ok_starts:
  "hoare mem_ok (locker_start1 a) (\<lambda>_. mem_ok)" "hoare mem_ok (locker_start2 a b) (\<lambda>_. mem_ok)"
  "hoare mem_ok (locker_start3 a b c) (\<lambda>_. mem_ok)"
  unfolding locker_starts by (rule mem_ok_locks)+

lemmas mem_steps = hoare_shapes hoare_reads mem_ok_alloc mem_ok_locks mem_ok_starts
  keeps_mem [THEN keeps_mem_ok]

lemma mem_ok_with_locks: "hoare mem_ok m (\<lambda>_. mem_ok) \<Longrightarrow> hoare mem_ok (with_locks rs m) (\<lambda>_. mem_ok)"
  unfolding with_locks_def by (rule mem_steps | assumption)+

lemma mem_ok_modify: "(\<And>w. mem (f w) = mem w) \<Longrightarrow> hoare mem_ok (modify f) (\<lambda>_. mem_ok)"
  by (rule keeps_mem_ok) (rule keeps_modify)

lemma mem_ok_counters:
  "hoare mem_ok (counter_inc_ref n) (\<lambda>_. mem_ok)" "hoare mem_ok (counter_dec_ref n) (\<lambda>_. mem_ok)"
  "hoare mem_ok (counter_inc_store n) (\<lambda>_. mem_ok)" "hoare mem_ok (counter_dec_store n) (\<lambda>_. mem_ok)"
  "hoare mem_ok (data_of sl) (\<lambda>_. mem_ok)" "hoare mem_ok idlock_init (\<lambda>_. mem_ok)"
  "hoare mem_ok (counter_destroy n) (\<lambda>_. mem_ok)" "hoare mem_ok counter_create (\<lambda>_. mem_ok)"
  unfolding counter_ops data_of_def idlock_init_def counter_create_def counter_destroy_def
  by (rule mem_steps | rule mem_ok_modify, simp)+

lemma mem_ok_queues:
  "hoare mem_ok (safelist_init n) (\<lambda>_. mem_ok)" "hoare mem_ok (safelist_poll sl) (\<lambda>_. mem_ok)"
  "hoare mem_ok (safelist_add sl x) (\<lambda>_. mem_ok)" "hoare mem_ok (safelist_deinit sl) (\<lambda>_. mem_ok)"
  unfolding safelist_init_def safelist_poll_def safelist_add_def safelist_add_once_def forward_end_def
    list_add_to_def safelist_deinit_def
  by (rule mem_steps mem_ok_counters mem_ok_with_locks)+

lemma mem_ok_forward: "hoare mem_ok (safelist_forward sl e) (\<lambda>_. mem_ok)"
  unfolding safelist_forward_def drain_def
  by (rule mem_steps mem_ok_with_locks mem_ok_queues)+

lemma mem_ok_collector:
  "hoare mem_ok (object_set_collector p c) (\<lambda>_. mem_ok)"
  "hoare mem_ok (collector_set_forward c d) (\<lambda>_. mem_ok)"
  "hoare mem_ok collector_create (\<lambda>_. mem_ok)"
  "hoare mem_ok (collector_destroy c) (\<lambda>_. mem_ok)"
  "hoare mem_ok (collector_forward_safelists_to c d) (\<lambda>_. mem_ok)"
  unfolding object_set_collector_def collector_set_forward_def collector_create_def
    collector_destroy_def collector_forward_safelists_to_def
  by (rule mem_steps mem_ok_with_locks mem_ok_queues mem_ok_counters mem_ok_forward
      | rule mem_ok_modify, simp)+

lemma mem_ok_collector_more:
  "hoare mem_ok (collector_merge c d) (\<lambda>_. mem_ok)"
  "hoare mem_ok (collector_finish c) (\<lambda>_. mem_ok)"
  unfolding collector_merge_def collector_finish_def collector_terminate_def
  by (rule mem_steps mem_ok_with_locks mem_ok_collector)+

lemma mem_ok_tables:
  "hoare mem_ok (links_add p k lk) (\<lambda>_. mem_ok)" "hoare mem_ok (links_remove p k lk) (\<lambda>_. mem_ok)"
  "hoare mem_ok (links_remove_all p) (\<lambda>_. mem_ok)"
  "hoare mem_ok (link_create s t) (\<lambda>_. mem_ok)" "hoare mem_ok (link_free lk) (\<lambda>_. mem_ok)"
  "hoare mem_ok (object_init p) (\<lambda>_. mem_ok)" "hoare mem_ok (object_del p) (\<lambda>_. mem_ok)"
  "hoare mem_ok (task_create fn a) (\<lambda>_. mem_ok)" "hoare mem_ok (task_start tk) (\<lambda>_. mem_ok)"
  "hoare mem_ok (worker_add_task tk) (\<lambda>_. mem_ok)"
  unfolding links_add_def links_remove_def links_remove_all_def put_links_def link_create_def
    link_free_def object_init_def object_del_def call_dtor_def task_create_def task_start_def
    worker_add_task_def
  by (rule mem_steps mem_ok_with_locks mem_ok_collector mem_ok_counters | rule mem_ok_modify, simp)+

lemma mem_ok_schedule: "hoare mem_ok (bnd (task_create fn a) task_start) (\<lambda>_. mem_ok)"
  by (rule hoare_bnd_same mem_ok_tables)+

lemma mem_ok_new: "hoare mem_ok (bnd (xmalloc sz) object_init) (\<lambda>_. mem_ok)"
  by (rule hoare_bnd_same mem_ok_alloc mem_ok_tables)+

interpretation alloc: heap_invariant mem_ok
  by unfold_locales
    (rule mem_ok_new mem_ok_schedule mem_ok_locks mem_ok_alloc mem_ok_queues mem_ok_collector mem_ok_collector_more mem_ok_tables
      keeps_mem [THEN keeps_mem_ok])+

section \<open>Started tasks\<close>

lemma accounted_frame:
  assumes "hoare mem_ok m (\<lambda>_. mem_ok)" and "keeps (\<lambda>w. (work w, task_count w)) m"
  shows "hoare (accounted k) m (\<lambda>_. accounted k)"
proof (rule hoareI)
  fix w x w' assume a: "accounted k w" and run: "m w = Inr (x, w')"
  have "mem w' = []" using hoareD [OF assms(1) _ run] a by (simp add: mem_ok_def accounted_def)
  moreover have "work w' = work w" "task_count w' = task_count w"
    using keepsD [OF assms(2) run] by auto
  ultimately show "accounted k w'" using a by (simp add: accounted_def)
qed

text \<open>What the collector does with objects, links and collectors, for a part of the memory that
  none of it writes.\<close>

definition heap_free :: "(world \<Rightarrow> 'v) \<Rightarrow> bool" where
  "heap_free f \<longleftrightarrow> sl_free f \<and>
     (\<forall>w a b c d e g h. f (w\<lparr>objs := a\<rparr>) = f w \<and> f (w\<lparr>lnks := b\<rparr>) = f w \<and> f (w\<lparr>id_count := c\<rparr>) = f w \<and>
       f (w\<lparr>num_collector := d\<rparr>) = f w \<and> f (w\<lparr>acid_world_count := e\<rparr>) = f w \<and>
       f (w\<lparr>acid_collect_count := g\<rparr>) = f w \<and> f (w\<lparr>dtor_calls := h\<rparr>) = f w)"

lemma heap_free_sl [simp]: "heap_free f \<Longrightarrow> sl_free f"
  and heap_free_fields [simp]: "heap_free work" "heap_free task_count" "heap_free tsks" "heap_free self"
    "heap_free endtime" "heap_free zero_broadcasts" "heap_free fuel"
  and heap_free_pair [simp]: "heap_free g \<Longrightarrow> heap_free h \<Longrightarrow> heap_free (\<lambda>w. (g w, h w))"
  by (simp_all add: heap_free_def sl_free_def lock_free_def)

lemma heap_free_keeps:
  assumes "heap_free f"
  shows "keeps f (upd_obj p g1)" "keeps f (upd_link lk g2)" "keeps f idlock_init"
    "keeps f (in_table op)" "keeps f (modify (\<lambda>w. w\<lparr>objs := h1 w\<rparr>))" "keeps f (modify (\<lambda>w. w\<lparr>lnks := h2 w\<rparr>))"
    "keeps f (modify (\<lambda>w. w\<lparr>colls := h3 w\<rparr>))" "keeps f (modify (\<lambda>w. w\<lparr>num_collector := h4 w\<rparr>))"
    "keeps f (modify (\<lambda>w. w\<lparr>acid_world_count := h5 w\<rparr>))" "keeps f (modify (\<lambda>w. w\<lparr>acid_collect_count := h6 w\<rparr>))"
    "keeps f (modify (\<lambda>w. w\<lparr>dtor_calls := h7 w\<rparr>))"
  using assms
  by (auto simp: heap_free_def sl_free_def lock_free_def keeps_def access_Inr idlock_init_def bnd_Inr
      in_table_Inr)

lemma keeps_field_reads [keeps_intros]:
  "keeps f (links_of p)" "keeps f (links_size p)" "keeps f (count_at p i)" "keeps f (obj_which p)"
  "keeps f (obj_collector p)" "keeps f (obj_phantomized p)"
  unfolding field_defs by (intro keeps_intros)+

lemma heap_free_ops:
  assumes f: "heap_free f"
  shows "keeps f (object_set_collector p c)" "keeps f (collector_set_forward c d)"
    "keeps f collector_create" "keeps f (collector_destroy c)" "keeps f (collector_forward_safelists_to c d)"
    "keeps f (links_add p k lk)" "keeps f (links_remove p k lk)" "keeps f (links_remove_all p)"
    "keeps f (link_create s t)" "keeps f (link_free lk)" "keeps f (object_init p)"
  unfolding object_set_collector_def collector_set_forward_def collector_create_def
    collector_destroy_def collector_forward_safelists_to_def links_add_def links_remove_def
    links_remove_all_def put_links_def link_create_def link_free_def object_init_def safelist_init_def
  by (intro keeps_intros heap_free_keeps sl_free_keeps sl_free_lock_free heap_free_sl f)+

lemma heap_free_more:
  assumes f: "heap_free f"
  shows "keeps f (collector_merge c d)" "keeps f (collector_finish c)" "keeps f (object_del p)"
  unfolding collector_merge_def collector_finish_def collector_terminate_def object_del_def call_dtor_def
  by (intro keeps_intros heap_free_ops heap_free_keeps sl_free_keeps sl_free_lock_free heap_free_sl f)+

lemma keeps_task_create: "keeps (\<lambda>w. (work w, task_count w)) (task_create fn a)"
  unfolding task_create_def by (intro keeps_intros keeps_xmalloc keeps_modify) simp_all

lemma task_create_not_NULL: "hoare P (task_create fn a) (\<lambda>tk _. tk \<noteq> NULL)"
  by (rule hoareI) (auto simp: task_create_def bnd_Inr dest: hoareD [OF xmalloc_not_NULL [of "\<lambda>_. True"], rotated])

lemma accounted_schedule: "hoare (accounted k) (bnd (task_create fn a) task_start) (\<lambda>_. accounted k)"
proof (rule hoareI)
  fix w x w' assume a: "accounted k w" and "bnd (task_create fn a) task_start w = Inr (x, w')"
  then obtain tk w1 where c: "task_create fn a w = Inr (tk, w1)" and s: "task_start tk w1 = Inr (x, w')"
    by (auto simp: bnd_Inr)
  have "accounted k w1"
    by (rule hoareD [OF accounted_frame [OF mem_ok_tables(8) keeps_task_create] a c])
  moreover have "tk \<noteq> NULL" by (rule hoareD [OF task_create_not_NULL TrueI c])
  ultimately show "accounted k w'" using hoareD [OF accounted_task_start _ s] by blast
qed

interpretation tasks: heap_invariant "accounted k"
proof unfold_locales
  show "hoare (accounted k) (bnd (task_create fn a) task_start) (\<lambda>_. accounted k)" for fn a
    by (rule accounted_schedule)
qed ((rule accounted_frame,
      rule alloc.locks alloc.alloc alloc.link_field alloc.link_alloc alloc.table alloc.adding alloc.queue
        alloc.collectors alloc.scheduling alloc.objects keeps_mem [THEN keeps_mem_ok],
      (intro keeps_intros heap_free_ops heap_free_more heap_free_keeps sl_free_keeps sl_free_lock_free
        heap_free_sl keeps_task_create; simp; fail))+)

section \<open>Tables of links\<close>

text \<open>The parts of the memory that creating, merging and finishing collectors does not write.\<close>

definition coll_free :: "(world \<Rightarrow> 'v) \<Rightarrow> bool" where
  "coll_free f \<longleftrightarrow> sl_free f \<and>
     (\<forall>w c d. f (w\<lparr>id_count := c\<rparr>) = f w \<and> f (w\<lparr>num_collector := d\<rparr>) = f w)"

lemma coll_free_sl [simp]: "coll_free f \<Longrightarrow> sl_free f"
  and coll_free_objs [simp]: "coll_free objs" "coll_free lnks"
  by (simp_all add: coll_free_def sl_free_def lock_free_def)

lemma coll_free_keeps:
  assumes "coll_free f"
  shows "keeps f idlock_init" "keeps f (modify (\<lambda>w. w\<lparr>colls := h3 w\<rparr>))"
    "keeps f (modify (\<lambda>w. w\<lparr>num_collector := h4 w\<rparr>))"
  using assms
  by (auto simp: coll_free_def sl_free_def lock_free_def keeps_def idlock_init_def bnd_Inr)

lemma coll_free_ops:
  assumes f: "coll_free f"
  shows "keeps f (collector_set_forward c d)"
    "keeps f collector_create" "keeps f (collector_destroy c)" "keeps f (collector_forward_safelists_to c d)"
  unfolding collector_set_forward_def collector_create_def collector_destroy_def
    collector_forward_safelists_to_def safelist_init_def
  by (intro keeps_intros coll_free_keeps sl_free_keeps sl_free_lock_free coll_free_sl f)+

lemma coll_free_more:
  assumes f: "coll_free f"
  shows "keeps f (collector_merge c d)" "keeps f (collector_finish c)"
  unfolding collector_merge_def collector_finish_def collector_terminate_def
  by (intro keeps_intros coll_free_ops coll_free_keeps sl_free_keeps sl_free_lock_free coll_free_sl f)+

definition tables_ok :: "world \<Rightarrow> bool" where
  "tables_ok w \<longleftrightarrow> (\<forall>p ob t. objs w p = Some ob \<longrightarrow> o_links ob = Some t \<longrightarrow> ht_inv t)"

text \<open>The configuration of the tables of links.\<close>

lemma object_htc_ok:
  "conf_hash object_htc \<noteq> None" "\<forall>a b. conf_key_compare object_htc a b = 0 \<longleftrightarrow> a = b"
  "conf_initial_capacity object_htc = DEFAULT_CAPACITY"
  by (auto simp: object_htc_def hashtable_conf_init_def cc_common_cmp_ptr_def)

text \<open>What holds of every table of links when it is new and stays when entries are taken out.\<close>

locale table_invariant =
  fixes P :: "addr hashtable \<Rightarrow> bool" and I :: "world \<Rightarrow> bool"
  assumes tables: "I w \<longleftrightarrow> (\<forall>p ob t. objs w p = Some ob \<longrightarrow> o_links ob = Some t \<longrightarrow> P t)"
    and remove: "P t \<Longrightarrow> hashtable_remove t k m = Inr ((st, r, t'), m' :: mem_schedule) \<Longrightarrow> P t'"
    and remove_all: "P t \<Longrightarrow> P (hashtable_remove_all t)"
    and new: "hashtable_new_conf object_htc m = Inr ((st, Some t), m') \<Longrightarrow> P t"
begin

lemma frame: "keeps objs m \<Longrightarrow> hoare I m (\<lambda>_. I)"
  by (auto simp: keeps_def hoare_def tables)

lemma update:
  assumes "\<And>ob. o_links (f ob) = o_links ob"
  shows "hoare I (upd_obj p f) (\<lambda>_. I)"
  using assms by (auto simp: hoare_def access_Inr tables split: if_splits)

lemma read: "I w \<Longrightarrow> links_of p w = Inr (t, w') \<Longrightarrow> P t \<and> w' = w"
  by (auto simp: links_of_def bnd_Inr access_Inr tables split: option.splits)

lemma put: "P t \<Longrightarrow> hoare I (put_links p t) (\<lambda>_. I)"
  by (auto simp: put_links_def hoare_def access_Inr tables split: if_splits)

lemma grows: "growing I"
  by (auto simp: growing_def tables dest!: bare_fields(1))

lemma mem [simp]: "I (w\<lparr>mem := m\<rparr>) = I w"
  by (simp add: tables)

lemma taking:
  "hoare I (links_remove p k lk) (\<lambda>_. I)" "hoare I (links_remove_all p) (\<lambda>_. I)"
proof -
  show "hoare I (links_remove p k lk) (\<lambda>_. I)"
  proof (rule hoareI)
    fix w x w' assume ok: "I w" and "links_remove p k lk w = Inr (x, w')"
    then obtain t st r t' m where t: "P t" and rm: "hashtable_remove t k (mem w) = Inr ((st, r, t'), m)"
      and p: "put_links p t' (w\<lparr>mem := m\<rparr>) = Inr ((), w')"
      by (fastforce simp: links_remove_def bnd_Inr in_table_Inr dest: read)
    from hoareD [OF put [OF remove [OF t rm]] _ p] ok show "I w'" by simp
  qed
  show "hoare I (links_remove_all p) (\<lambda>_. I)"
  proof (rule hoareI)
    fix w x w' assume ok: "I w" and "links_remove_all p w = Inr (x, w')"
    then obtain t where t: "P t" and p: "put_links p (hashtable_remove_all t) w = Inr (x, w')"
      by (fastforce simp: links_remove_all_def bnd_Inr dest: read)
    from hoareD [OF put [OF remove_all [OF t]] ok p] show "I w'" .
  qed
qed

lemma init: "hoare I (object_init p) (\<lambda>_. I)"
proof (rule hoareI)
  fix w x w' assume ok: "I w" and "object_init p w = Inr (x, w')"
  then obtain st r m ob' where made: "hashtable_new_conf object_htc (mem w) = Inr ((st, r), m)"
    and w': "objs w' = (objs w)(p \<mapsto> ob')" and links: "o_links ob' = r"
    by (auto simp: object_init_def bnd_Inr in_table_Inr idlock_init_def split: if_splits)
  have "P t" if "r = Some t" for t using new made that by simp
  with ok w' links show "I w'" by (auto simp: tables)
qed

lemma set_collector: "hoare I (object_set_collector p c) (\<lambda>_. I)"
  unfolding object_set_collector_def
  by (rule growing_with_locks [OF grows])
    (rule hoare_shapes hoare_reads hoare_field_reads update refl
      | (simp; fail)
      | rule frame, intro keeps_intros sl_free_keeps; simp; fail)+

lemma none:
  "hoare I (upd_obj p (\<lambda>ob. ob\<lparr>o_links := None\<rparr>)) (\<lambda>_. I)"
  "hoare I (modify (\<lambda>w. w\<lparr>objs := (objs w)(p := None)\<rparr>)) (\<lambda>_. I)"
  by (auto simp: hoare_def access_Inr tables split: if_splits)

lemma counts:
  "hoare I (modify (\<lambda>w. w\<lparr>dtor_calls := f1 w\<rparr>)) (\<lambda>_. I)"
  "hoare I (modify (\<lambda>w. w\<lparr>acid_collect_count := f2 w\<rparr>)) (\<lambda>_. I)"
  by (auto simp: hoare_def tables)

lemma magic: "hoare I (upd_obj p (\<lambda>ob. ob\<lparr>o_magic := a\<rparr>)) (\<lambda>_. I)"
  by (rule update) simp

lemma del: "hoare I (object_del p) (\<lambda>_. I)"
  unfolding object_del_def call_dtor_def
  by (rule growing_with_locks [OF grows] hoare_shapes hoare_reads hoare_field_reads set_collector none magic counts)+

lemma frames:
  "hoare I (upd_link lk g) (\<lambda>_. I)" "hoare I (link_create q r) (\<lambda>_. I)" "hoare I (link_free lk) (\<lambda>_. I)"
  "hoare I (safelist_add sl x) (\<lambda>_. I)" "hoare I (safelist_poll sl) (\<lambda>_. I)"
  "hoare I collector_create (\<lambda>_. I)" "hoare I (collector_merge c d) (\<lambda>_. I)"
  "hoare I (collector_finish c) (\<lambda>_. I)" "hoare I (bnd (task_create fn a) task_start) (\<lambda>_. I)"
  unfolding link_create_def link_free_def
  by (rule frame, (intro keeps_intros coll_free_ops coll_free_more keeps_xmalloc keeps_modify keeps_upd_link; simp; fail))+

lemma creating: "hoare I (bnd (xmalloc sz) object_init) (\<lambda>_. I)"
  by (rule hoare_bnd_same growing_locks [OF grows] init)+

end

sublocale table_invariant \<subseteq> gc_invariant I
proof unfold_locales
  show "hoare I (upd_obj p f) (\<lambda>_. I)"
    if "\<And>ob. o_collector (f ob) = o_collector ob \<and> o_links (f ob) = o_links ob" for p f
    by (rule update) (use that in blast)
qed (rule growing_locks [OF grows] frames taking creating del set_collector)+

interpretation well_formed: table_invariant ht_inv tables_ok
proof
  show "ht_inv t'" if inv: "ht_inv t" and rm: "hashtable_remove t k m = Inr ((st, r, t'), m')"
    for t :: "addr hashtable" and k m st r t' and m' :: mem_schedule
  proof -
    obtain t1 st1 where "(hashtable_remove t k :: (mem_schedule, _) M) = ret (st1, ht_map t k, t1)" and "ht_inv t1"
      using hashtable_remove_map [OF inv, of k] by blast
    with rm show ?thesis by simp
  qed
  show "ht_inv t" if "hashtable_new_conf object_htc m = Inr ((st, Some t), m')"
    for m st m' and t :: "addr hashtable"
    using hashtable_new_conf_ok [OF object_htc_ok that] by auto
qed (simp_all add: tables_ok_def hashtable_remove_all_map)

interpretation tables: heap_invariant tables_ok
proof unfold_locales
  show "hoare tables_ok (links_add p k lk) (\<lambda>_. tables_ok)" for p k lk
  proof (rule hoareI)
    fix w x w' assume ok: "tables_ok w" and "links_add p k lk w = Inr (x, w')"
    then obtain t st t' m where "ht_inv t" and "hashtable_add t k lk (mem w) = Inr ((st, t'), m)"
      and put: "put_links p t' (w\<lparr>mem := m\<rparr>) = Inr (x, w')"
      by (fastforce simp: links_add_def bnd_Inr in_table_Inr dest: well_formed.read)
    then have "ht_inv t'" using hashtable_add_map [of t k lk "mem w" st t' m] by simp
    from hoareD [OF well_formed.put [OF this] _ put] ok show "tables_ok w'" by simp
  qed
qed

section \<open>Properties\<close>

text \<open>C11: No operation of a client or a worker, up to a whole collection, breaks a hash table of links: if the table of every
  object is well formed before, then it is afterwards.\<close>

theorem operations_keep_tables:
  assumes "\<forall>p ob t. objs w p = Some ob \<longrightarrow> o_links ob = Some t \<longrightarrow> ht_inv t" and "exec_op f x w = Inr (u, w')"
  shows "\<forall>p ob t. objs w' p = Some ob \<longrightarrow> o_links ob = Some t \<longrightarrow> ht_inv t"
  using hoareD [OF tables.keep_exec_op _ assms(2)] assms(1) unfolding tables_ok_def by blast

theorem operations_keep_tables_witness:
  "\<exists>w'. exec_op (\<lambda>_. None) (Malloc 8 None) (ready_world 9) = Inr ((), w') \<and> objs w' \<noteq> Map.empty \<and>
     (\<forall>p ob t. objs w' p = Some ob \<longrightarrow> o_links ob = Some t \<longrightarrow> ht_inv t)"
proof -
  let ?run = "exec_op (\<lambda>_. None) (Malloc 8 None) (ready_world 9)"
  have "case ?run of Inl e \<Rightarrow> False | Inr r \<Rightarrow> objs (snd r) (next_addr (ready_world 9)) \<noteq> None" by code_simp
  then obtain w' where run: "?run = Inr ((), w')" and new: "objs w' (next_addr (ready_world 9)) \<noteq> None"
    by (cases ?run) (auto simp del: exec_op.simps)
  have "objs w' \<noteq> Map.empty" using new by metis
  moreover have "\<forall>p ob t. objs (ready_world 9) p = Some ob \<longrightarrow> o_links ob = Some t \<longrightarrow> ht_inv t" by (simp add: ready_world_def boot_def)
  ultimately show ?thesis using operations_keep_tables [OF _ run] run by blast
qed

end
