(* ===== verification/Refs.thy ===== *)
theory Refs
  imports Accounts
begin

text \<open>
  The reference count of a collector (counter.c, \<open>object_set_collector\<close> and
  \<open>collector_set_forward\<close>) is at all times the number of objects managed by it and of collectors
  that forward to it, counted modulo $2^{64}$. The pure predicate \<open>refs_inv\<close> is about the four maps
  that matter; \<open>refs_ok\<close> reads them off the memory.
\<close>

section \<open>Counting\<close>

definition pointing :: "(addr \<Rightarrow> addr option) \<Rightarrow> addr \<Rightarrow> nat" where
  "pointing f c = card {p. f p = Some c}"

lemma finite_pointing: "finite (dom f) \<Longrightarrow> finite {p. f p = Some c}"
  by (rule finite_subset [of _ "dom f"]) auto

lemma pointing_update:
  assumes "finite (dom f)" and "f p = Some a" and "a \<noteq> b"
  shows "pointing (f(p \<mapsto> b)) d + (if d = a then 1 else 0) = pointing f d + (if d = b then 1 else 0)"
proof -
  let ?S = "{q. f q = Some d}"
  have fin: "finite ?S" by (rule finite_pointing [OF assms(1)])
  consider "d = a" | "d = b" | "d \<noteq> a" "d \<noteq> b" by blast
  then show ?thesis
  proof cases
    case 1
    have "{q. (f(p \<mapsto> b)) q = Some d} = ?S - {p}" using assms 1 by auto
    moreover have "p \<in> ?S" using assms 1 by simp
    ultimately show ?thesis using assms(3) 1 fin card_Suc_Diff1 [OF fin, of p] by (simp add: pointing_def)
  next
    case 2
    have "{q. (f(p \<mapsto> b)) q = Some d} = insert p ?S" using assms 2 by auto
    moreover have "p \<notin> ?S" using assms 2 by simp
    ultimately show ?thesis using assms(3) 2 fin by (simp add: pointing_def)
  next
    case 3
    have "{q. (f(p \<mapsto> b)) q = Some d} = ?S" using assms 3 by auto
    then show ?thesis using 3 by (simp add: pointing_def)
  qed
qed

lemma pointing_new:
  assumes "f p = None" and "d \<noteq> b"
  shows "pointing (f(p \<mapsto> b)) d = pointing f d"
proof -
  have "{q. (f(p \<mapsto> b)) q = Some d} = {q. f q = Some d}" using assms by auto
  then show ?thesis by (simp add: pointing_def)
qed

lemma pointing_remove:
  assumes "f p = Some b" and "d \<noteq> b"
  shows "pointing (f(p := None)) d = pointing f d"
proof -
  have "{q. (f(p := None)) q = Some d} = {q. f q = Some d}" using assms by auto
  then show ?thesis by (simp add: pointing_def)
qed

section \<open>The invariant on maps\<close>

text \<open>\<open>a\<close> bounds all addresses, \<open>co\<close> gives the collector of an object, \<open>fw\<close> the forward of a collector,
  \<open>cn\<close> its counter and \<open>rc\<close> the reference count in a counter.\<close>

definition refs_inv :: "addr \<Rightarrow> (addr \<Rightarrow> addr option) \<Rightarrow> (addr \<Rightarrow> addr option) \<Rightarrow> (addr \<Rightarrow> addr option) \<Rightarrow>
    (addr \<Rightarrow> 64 word option) \<Rightarrow> bool" where
  "refs_inv a co fw cn rc \<longleftrightarrow>
     0 < a \<and> finite (dom co) \<and> finite (dom fw) \<and> dom cn = dom fw \<and>
     (\<forall>p\<in>dom co. p < a) \<and> (\<forall>d\<in>dom fw. 0 < d \<and> d < a) \<and>
     (\<forall>p c. co p = Some c \<longrightarrow> c < a) \<and> (\<forall>d f. fw d = Some f \<longrightarrow> f < a) \<and>
     (\<forall>d n. cn d = Some n \<longrightarrow> n < a) \<and>
     (\<forall>d d' n. cn d = Some n \<longrightarrow> cn d' = Some n \<longrightarrow> d = d') \<and>
     (\<forall>d n. cn d = Some n \<longrightarrow> rc n = Some (of_nat (pointing co d + pointing fw d)))"

definition bump :: "bool \<Rightarrow> addr \<Rightarrow> 64 word \<Rightarrow> (addr \<Rightarrow> 64 word option) \<Rightarrow> addr \<Rightarrow> 64 word option" where
  "bump b n k rc = (if b then rc(n \<mapsto> the (rc n) + k) else rc)"

lemma bump_word:
  fixes x :: "64 word"
  assumes "m + i = n + j"
  shows "of_nat m = (of_nat n :: 64 word) + of_nat j - of_nat i"
  using assms by (metis add_diff_cancel_right' of_nat_add)

text \<open>Moving one pointer from \<open>c0\<close> to \<open>c\<close>, in either map.\<close>

lemma bump_counts:
  fixes rc :: "addr \<Rightarrow> 64 word option"
  assumes inj: "\<forall>d d' n. cn d = Some n \<longrightarrow> cn d' = Some n \<longrightarrow> d = d'"
    and rc: "\<forall>d n. cn d = Some n \<longrightarrow> rc n = Some (of_nat (old d))"
    and new: "\<forall>d. new d + (if d = c0 then 1 else 0) = old d + (if d = c then 1 else 0)"
    and ne: "c \<noteq> c0" and c: "c \<noteq> 0 \<Longrightarrow> cn c = Some n1" and c0: "c0 \<noteq> 0 \<Longrightarrow> cn c0 = Some n0"
    and nz: "\<forall>d\<in>dom cn. d \<noteq> 0"
    and d: "cn d = Some n"
  shows "bump (c0 \<noteq> 0) n0 (- 1) (bump (c \<noteq> 0) n1 1 rc) n = Some (of_nat (new d))"
proof -
  have d0: "d \<noteq> 0" using nz d by auto
  have old: "rc n = Some (of_nat (old d))" using rc d by blast
  have w: "(of_nat (new d) :: 64 word) = of_nat (old d) + (if d = c then 1 else 0) - (if d = c0 then 1 else 0)"
    using bump_word [of "new d" "if d = c0 then 1 else 0" "old d" "if d = c then 1 else 0"] new
    by (auto split: if_splits)
  have 1: "n = n1 \<longleftrightarrow> d = c" if "c \<noteq> 0"
    using inj c [OF that] d by auto
  have 0: "n = n0 \<longleftrightarrow> d = c0" if "c0 \<noteq> 0"
    using inj c0 [OF that] d by auto
  show ?thesis
    using old w 0 1 d0 ne by (cases "c = 0"; cases "c0 = 0") (auto simp: bump_def)
qed

lemma refs_inv_bump_dom:
  assumes "refs_inv a co fw cn rc"
  shows "\<forall>d\<in>dom cn. d \<noteq> 0"
  using assms by (auto simp: refs_inv_def)

lemma refs_inv_counter:
  assumes "refs_inv a co fw cn rc" and "cn d = Some n"
  shows "d \<noteq> 0" "0 < d" "d < a" "n < a"
proof -
  have "d \<in> dom fw" using assms by (auto simp: refs_inv_def)
  then show "0 < d" "d < a" using assms(1) by (auto simp: refs_inv_def)
  then show "d \<noteq> 0" by simp
  show "n < a" using assms by (auto simp: refs_inv_def)
qed

lemma refs_inv_move_object:
  assumes inv: "refs_inv a co fw cn rc" and p: "co p = Some c0" and ne: "c \<noteq> c0"
    and c: "c \<noteq> 0 \<Longrightarrow> cn c = Some n1" and c0: "c0 \<noteq> 0 \<Longrightarrow> cn c0 = Some n0"
  shows "refs_inv a (co(p \<mapsto> c)) fw cn (bump (c0 \<noteq> 0) n0 (- 1) (bump (c \<noteq> 0) n1 1 rc))"
proof -
  have fin: "finite (dom co)" using inv by (simp add: refs_inv_def)
  have ca: "c < a"
  proof (cases "c = 0")
    case False
    then have "c \<in> dom fw" using c inv by (auto simp: refs_inv_def)
    then show ?thesis using inv by (auto simp: refs_inv_def)
  qed (use inv in \<open>simp add: refs_inv_def\<close>)
  have new: "\<forall>d. (pointing (co(p \<mapsto> c)) d + pointing fw d) + (if d = c0 then 1 else 0) =
      (pointing co d + pointing fw d) + (if d = c then 1 else 0)"
    using pointing_update [OF fin p] ne by (metis (no_types, lifting) add.commute add.left_commute)
  have "\<forall>d n. cn d = Some n \<longrightarrow> bump (c0 \<noteq> 0) n0 (- 1) (bump (c \<noteq> 0) n1 1 rc) n =
      Some (of_nat (pointing (co(p \<mapsto> c)) d + pointing fw d))"
    by (intro allI impI bump_counts [OF _ _ new ne c c0])
      (use inv refs_inv_bump_dom [OF inv] in \<open>auto simp: refs_inv_def\<close>)
  then show ?thesis
    using inv ca p by (auto simp: refs_inv_def simp del: of_nat_add)
qed

lemma refs_inv_move_forward:
  assumes inv: "refs_inv a co fw cn rc" and p: "fw p = Some c0" and ne: "c \<noteq> c0"
    and c: "c \<noteq> 0 \<Longrightarrow> cn c = Some n1" and c0: "c0 \<noteq> 0 \<Longrightarrow> cn c0 = Some n0"
  shows "refs_inv a co (fw(p \<mapsto> c)) cn (bump (c0 \<noteq> 0) n0 (- 1) (bump (c \<noteq> 0) n1 1 rc))"
proof -
  have fin: "finite (dom fw)" using inv by (simp add: refs_inv_def)
  have ca: "c < a"
  proof (cases "c = 0")
    case False
    then have "c \<in> dom fw" using c inv by (auto simp: refs_inv_def)
    then show ?thesis using inv by (auto simp: refs_inv_def)
  qed (use inv in \<open>simp add: refs_inv_def\<close>)
  have new: "\<forall>d. (pointing co d + pointing (fw(p \<mapsto> c)) d) + (if d = c0 then 1 else 0) =
      (pointing co d + pointing fw d) + (if d = c then 1 else 0)"
    using pointing_update [OF fin p] ne by (metis (no_types, lifting) add.assoc)
  have "\<forall>d n. cn d = Some n \<longrightarrow> bump (c0 \<noteq> 0) n0 (- 1) (bump (c \<noteq> 0) n1 1 rc) n =
      Some (of_nat (pointing co d + pointing (fw(p \<mapsto> c)) d))"
    by (intro allI impI bump_counts [OF _ _ new ne c c0])
      (use inv refs_inv_bump_dom [OF inv] in \<open>auto simp: refs_inv_def\<close>)
  moreover have "dom (fw(p \<mapsto> c)) = dom fw" using p by auto
  ultimately show ?thesis
    using inv ca p by (auto simp: refs_inv_def simp del: of_nat_add)
qed

lemma refs_inv_grow: "refs_inv a co fw cn rc \<Longrightarrow> a \<le> b \<Longrightarrow> refs_inv b co fw cn rc"
  unfolding refs_inv_def by (meson order_less_le_trans)

text \<open>A new object has no collector, a freed one must not have one.\<close>

lemma refs_inv_new_object:
  assumes "refs_inv a co fw cn rc" and "co p = None" and "p < a"
  shows "refs_inv a (co(p \<mapsto> 0)) fw cn rc"
proof -
  have "pointing (co(p \<mapsto> 0)) d = pointing co d" if "cn d = Some n" for d n
    by (rule pointing_new) (use assms refs_inv_counter(1) that in blast)+
  then show ?thesis using assms by (auto simp: refs_inv_def)
qed

lemma refs_inv_free_object:
  assumes "refs_inv a co fw cn rc" and "co p = Some 0"
  shows "refs_inv a (co(p := None)) fw cn rc"
proof -
  have "pointing (co(p := None)) d = pointing co d" if "cn d = Some n" for d n
    by (rule pointing_remove [where f = co and b = 0]) (use assms refs_inv_counter(1) that in blast)+
  then show ?thesis using assms by (auto simp: refs_inv_def)
qed

text \<open>Nothing points to a collector in fresh memory.\<close>

lemma pointing_fresh: "(\<And>p c. f p = Some c \<Longrightarrow> c < a) \<Longrightarrow> a \<le> d \<Longrightarrow> pointing f d = 0"
  unfolding pointing_def by (subst card_eq_0_iff) fastforce

lemma refs_inv_new_collector:
  assumes inv: "refs_inv a co fw cn rc" and d: "a \<le> d" "d < n" "n < b"
  shows "refs_inv b co (fw(d \<mapsto> 0)) (cn(d \<mapsto> n)) (rc(n \<mapsto> 0))"
proof -
  have i: "0 < a" "finite (dom co)" "finite (dom fw)" "dom cn = dom fw" "\<forall>p\<in>dom co. p < a"
    "\<forall>d\<in>dom fw. 0 < d \<and> d < a" "\<forall>p c. co p = Some c \<longrightarrow> c < a" "\<forall>d f. fw d = Some f \<longrightarrow> f < a"
    "\<forall>d n. cn d = Some n \<longrightarrow> n < a" "\<forall>d d' n. cn d = Some n \<longrightarrow> cn d' = Some n \<longrightarrow> d = d'"
    "\<forall>d n. cn d = Some n \<longrightarrow> rc n = Some (of_nat (pointing co d + pointing fw d))"
    using inv unfolding refs_inv_def by blast+
  have fresh: "fw d = None" using i(6) d(1) by (meson domIff linorder_not_less)
  have zero: "pointing co d = 0" "pointing fw d = 0"
    by (rule pointing_fresh [of _ a]; use i(7,8) d(1) in blast)+
  have same: "pointing (fw(d \<mapsto> 0)) e = pointing fw e" if "e \<noteq> 0" for e
    by (rule pointing_new) (use fresh that in auto)
  have d0: "0 < d" "d < b" using i(1) d by auto
  have n: "m < n \<and> e \<noteq> 0" if "cn e = Some m" for e m
    using refs_inv_counter [OF inv that] d by auto
  show ?thesis
    unfolding refs_inv_def
  proof (intro conjI)
    show "\<forall>e m. (cn(d \<mapsto> n)) e = Some m \<longrightarrow>
        (rc(n \<mapsto> 0)) m = Some (of_nat (pointing co e + pointing (fw(d \<mapsto> 0)) e))"
    proof (intro allI impI)
      fix e m assume e: "(cn(d \<mapsto> n)) e = Some m"
      show "(rc(n \<mapsto> 0)) m = Some (of_nat (pointing co e + pointing (fw(d \<mapsto> 0)) e))"
      proof (cases "e = d")
        case True
        with e have "m = n" by simp
        moreover have "pointing co d + pointing (fw(d \<mapsto> 0)) d = 0" using zero same d0 by simp
        ultimately show ?thesis using True by simp
      next
        case False
        with e have "cn e = Some m" by simp
        with i(11) n [of e m] same [of e] show ?thesis by auto
      qed
    qed
    show "\<forall>e e' m. (cn(d \<mapsto> n)) e = Some m \<longrightarrow> (cn(d \<mapsto> n)) e' = Some m \<longrightarrow> e = e'"
      using i(10) by (auto split: if_splits dest: n)
    have ab: "a < b" using d by simp
    show "\<forall>p\<in>dom co. p < b" using i(5) ab by (meson order_less_trans)
    show "\<forall>p c. co p = Some c \<longrightarrow> c < b" using i(7) ab by (meson order_less_trans)
    show "\<forall>e\<in>dom (fw(d \<mapsto> 0)). 0 < e \<and> e < b" using i(6) d0 ab by (auto dest: order_less_trans)
    show "\<forall>e f. (fw(d \<mapsto> 0)) e = Some f \<longrightarrow> f < b" using i(8) d0 ab by (auto dest: order_less_trans)
    show "\<forall>e m. (cn(d \<mapsto> n)) e = Some m \<longrightarrow> m < b" using i(9) ab d(3) by (auto simp del: d intro: order_less_trans)
  qed (use i d0 in auto)
qed

lemma refs_inv_free_collector:
  assumes inv: "refs_inv a co fw cn rc" and c: "fw c = Some 0" "cn c = Some n"
    and rc': "\<And>m. m \<noteq> n \<Longrightarrow> rc' m = rc m"
  shows "refs_inv a co (fw(c := None)) (cn(c := None)) rc'"
proof -
  have "pointing (fw(c := None)) d = pointing fw d" if "cn d = Some m" for d m
    by (rule pointing_remove [where f = fw and b = 0]) (use inv c(1) refs_inv_counter(1) that in blast)+
  moreover have "m \<noteq> n" if "cn d = Some m" "d \<noteq> c" for d m
    using inv c that by (auto simp: refs_inv_def)
  ultimately show ?thesis using inv rc' by (auto simp: refs_inv_def)
qed

section \<open>The invariant on the memory\<close>

definition fwd_of :: "world \<Rightarrow> addr \<Rightarrow> addr option" where
  "fwd_of w d = map_option co_forward (colls w d)"

definition cnt_of :: "world \<Rightarrow> addr \<Rightarrow> addr option" where
  "cnt_of w d = map_option co_count (colls w d)"

definition refc_of :: "world \<Rightarrow> addr \<Rightarrow> 64 word option" where
  "refc_of w n = map_option ref_count (ctrs w n)"

definition refs_ok :: "world \<Rightarrow> bool" where
  "refs_ok w \<longleftrightarrow> refs_inv (next_addr w) (coll_of w) (fwd_of w) (cnt_of w) (refc_of w)"

definition refs_view :: "world \<Rightarrow> (addr \<Rightarrow> addr option) \<times> (addr \<Rightarrow> addr option) \<times> (addr \<Rightarrow> addr option) \<times>
    (addr \<Rightarrow> 64 word option)" where
  "refs_view w = (coll_of w, fwd_of w, cnt_of w, refc_of w)"

lemma refs_ok_view:
  "refs_ok w \<Longrightarrow> refs_view w' = refs_view w \<Longrightarrow> next_addr w \<le> next_addr w' \<Longrightarrow> refs_ok w'"
  by (auto simp: refs_ok_def refs_view_def intro: refs_inv_grow)

lemma refs_view_simps [simp]:
  "refs_view (w\<lparr>lnks := a\<rparr>) = refs_view w" "refs_view (w\<lparr>tsks := b\<rparr>) = refs_view w"
  "refs_view (w\<lparr>mem := c\<rparr>) = refs_view w" "refs_view (w\<lparr>next_addr := d\<rparr>) = refs_view w"
  "refs_view (w\<lparr>mutexes := e\<rparr>) = refs_view w" "refs_view (w\<lparr>lockers := f\<rparr>) = refs_view w"
  "refs_view (w\<lparr>work := g\<rparr>) = refs_view w" "refs_view (w\<lparr>task_count := h\<rparr>) = refs_view w"
  "refs_view (w\<lparr>id_count := i\<rparr>) = refs_view w" "refs_view (w\<lparr>num_collector := j\<rparr>) = refs_view w"
  "refs_view (w\<lparr>acid_world_count := k\<rparr>) = refs_view w"
  "refs_view (w\<lparr>acid_collect_count := l\<rparr>) = refs_view w"
  "refs_view (w\<lparr>dtor_calls := m\<rparr>) = refs_view w"
  by (simp_all add: refs_view_def coll_of_def fwd_of_def cnt_of_def refc_of_def fun_eq_iff)

lemma refs_view_bare: "bare w = bare w' \<Longrightarrow> refs_view w' = refs_view w"
  using bare_fields [of w w']
  by (simp add: refs_view_def coll_of_def fwd_of_def cnt_of_def refc_of_def fun_eq_iff)

lemma growing_refs_ok: "growing refs_ok"
  by (auto simp: growing_def intro: refs_ok_view refs_view_bare)

lemma refs_ok_frame:
  assumes "keeps refs_view m" and "keeps next_addr m"
  shows "hoare refs_ok m (\<lambda>_. refs_ok)"
proof (rule hoareI)
  fix w x w' assume ok: "refs_ok w" and run: "m w = Inr (x, w')"
  show "refs_ok w'"
    by (rule refs_ok_view [OF ok]) (use keepsD [OF assms(1) run] keepsD [OF assms(2) run] in simp_all)
qed

lemma refs_ok_update:
  assumes "\<And>ob. o_collector (f ob) = o_collector ob"
  shows "hoare refs_ok (upd_obj p f) (\<lambda>_. refs_ok)"
  by (rule refs_ok_frame)
    (use assms in \<open>auto simp: keeps_def access_Inr refs_view_def coll_of_def fwd_of_def cnt_of_def
      refc_of_def fun_eq_iff\<close>)

lemma refs_ok_stores:
  "hoare refs_ok (counter_inc_store n) (\<lambda>_. refs_ok)" "hoare refs_ok (counter_dec_store n) (\<lambda>_. refs_ok)"
  "hoare refs_ok (upd_sl sl g) (\<lambda>_. refs_ok)" "hoare refs_ok (upd_link lk h) (\<lambda>_. refs_ok)"
  by (rule refs_ok_frame;
      auto simp: keeps_def access_Inr counter_ops refs_view_def coll_of_def fwd_of_def cnt_of_def
        refc_of_def fun_eq_iff)+

lemma refs_ok_modify:
  "(\<And>w. refs_view (f w) = refs_view w \<and> next_addr (f w) = next_addr w) \<Longrightarrow>
   hoare refs_ok (modify f) (\<lambda>_. refs_ok)"
  by (rule refs_ok_frame) (auto intro: keeps_modify)

lemma refs_ok_in_table: "hoare refs_ok (in_table m) (\<lambda>_. refs_ok)"
  by (rule refs_ok_frame) (auto simp: keeps_def in_table_Inr)

lemma hoare_data_of: "hoare P (data_of sl) (\<lambda>_. P)"
  unfolding data_of_def by (rule hoare_shapes hoare_reads)+

lemmas refs_steps = hoare_shapes hoare_reads hoare_field_reads hoare_data_of refs_ok_stores
  growing_locks [OF growing_refs_ok] growing_with_locks [OF growing_refs_ok] refs_ok_in_table

lemma refs_ok_queue:
  "hoare refs_ok (safelist_add sl x) (\<lambda>_. refs_ok)" "hoare refs_ok (safelist_poll sl) (\<lambda>_. refs_ok)"
  unfolding safelist_add_def safelist_add_once_def forward_end_def list_add_to_def safelist_poll_def
  by (rule refs_steps)+

lemma refs_ok_links:
  "hoare refs_ok (links_add p k lk) (\<lambda>_. refs_ok)" "hoare refs_ok (links_remove p k lk) (\<lambda>_. refs_ok)"
  "hoare refs_ok (links_remove_all p) (\<lambda>_. refs_ok)"
  unfolding links_add_def links_remove_def links_remove_all_def put_links_def
  by (rule refs_steps | rule refs_ok_update, simp)+

lemma refs_ok_allocs:
  "hoare refs_ok (link_create s t) (\<lambda>_. refs_ok)" "hoare refs_ok (link_free lk) (\<lambda>_. refs_ok)"
  "hoare refs_ok (bnd (task_create fn a) task_start) (\<lambda>_. refs_ok)"
  unfolding link_create_def link_free_def task_create_def task_start_def worker_add_task_def
  by (rule refs_steps | rule refs_ok_modify, simp)+

text \<open>Moving a reference: one counter up, the other one down, the pointer in between.\<close>

lemma inc_ref_Inr:
  "whenM (c \<noteq> NULL) (bnd (coll_count c) counter_inc_ref) w = Inr (x, w') \<Longrightarrow>
   \<exists>n. (c \<noteq> NULL \<longrightarrow> cnt_of w c = Some n) \<and> refc_of w' = bump (c \<noteq> NULL) n 1 (refc_of w) \<and>
     coll_of w' = coll_of w \<and> fwd_of w' = fwd_of w \<and> cnt_of w' = cnt_of w \<and> colls w' = colls w \<and>
     objs w' = objs w \<and> next_addr w' = next_addr w"
  by (cases "c = NULL")
    (auto simp: bnd_Inr coll_count_Inr counter_ops access_Inr cnt_of_def refc_of_def coll_of_def
      fwd_of_def bump_def fun_eq_iff)

lemma dec_ref_Inr:
  "whenM (c \<noteq> NULL) (bnd (coll_count c) counter_dec_ref) w = Inr (x, w') \<Longrightarrow>
   \<exists>n. (c \<noteq> NULL \<longrightarrow> cnt_of w c = Some n) \<and> refc_of w' = bump (c \<noteq> NULL) n (- 1) (refc_of w) \<and>
     coll_of w' = coll_of w \<and> fwd_of w' = fwd_of w \<and> cnt_of w' = cnt_of w \<and> colls w' = colls w \<and>
     objs w' = objs w \<and> next_addr w' = next_addr w"
  by (cases "c = NULL")
    (auto simp: bnd_Inr coll_count_Inr counter_ops access_Inr cnt_of_def refc_of_def coll_of_def
      fwd_of_def bump_def fun_eq_iff)

lemma block_3_Inr:
  "block [a, b, c] w = Inr (x, w') \<longleftrightarrow>
     (\<exists>w1 w2. a w = Inr ((), w1) \<and> b w1 = Inr ((), w2) \<and> c w2 = Inr ((), w'))"
  by (auto simp: bnd_Inr)

lemma refs_ok_set_collector: "hoare refs_ok (object_set_collector p c) (\<lambda>_. refs_ok)"
  unfolding object_set_collector_def
proof (rule growing_with_locks [OF growing_refs_ok], rule hoareI)
  fix w x w'
  assume ok: "refs_ok w" and run: "bnd (get_obj p) (\<lambda>ob.
      whenM (o_collector ob \<noteq> c) (block [
        whenM (c \<noteq> NULL) (bnd (coll_count c) counter_inc_ref),
        whenM (o_collector ob \<noteq> NULL) (bnd (coll_count (o_collector ob)) counter_dec_ref),
        upd_obj p (\<lambda>ob. ob\<lparr>o_collector := c\<rparr>)])) w = Inr (x, w')"
  then obtain ob where ob: "objs w p = Some ob"
    and r: "whenM (o_collector ob \<noteq> c) (block [
        whenM (c \<noteq> NULL) (bnd (coll_count c) counter_inc_ref),
        whenM (o_collector ob \<noteq> NULL) (bnd (coll_count (o_collector ob)) counter_dec_ref),
        upd_obj p (\<lambda>ob. ob\<lparr>o_collector := c\<rparr>)]) w = Inr (x, w')"
    by (auto simp: bnd_Inr [where m = "get_obj p"] access_Inr simp del: block.simps)
  show "refs_ok w'"
  proof (cases "o_collector ob = c")
    case True
    then show ?thesis using r ok by simp
  next
    case False
    with r have "block [
        whenM (c \<noteq> NULL) (bnd (coll_count c) counter_inc_ref),
        whenM (o_collector ob \<noteq> NULL) (bnd (coll_count (o_collector ob)) counter_dec_ref),
        upd_obj p (\<lambda>ob. ob\<lparr>o_collector := c\<rparr>)] w = Inr ((), w')"
      by (simp del: block.simps)
    then obtain w1 w2 where
      1: "whenM (c \<noteq> NULL) (bnd (coll_count c) counter_inc_ref) w = Inr ((), w1)" and
      2: "whenM (o_collector ob \<noteq> NULL) (bnd (coll_count (o_collector ob)) counter_dec_ref) w1 = Inr ((), w2)" and
      3: "upd_obj p (\<lambda>ob. ob\<lparr>o_collector := c\<rparr>) w2 = Inr ((), w')"
      unfolding block_3_Inr by blast
    from inc_ref_Inr [OF 1] obtain n1 where i: "c \<noteq> NULL \<longrightarrow> cnt_of w c = Some n1"
      "refc_of w1 = bump (c \<noteq> NULL) n1 1 (refc_of w)" "coll_of w1 = coll_of w" "fwd_of w1 = fwd_of w"
      "cnt_of w1 = cnt_of w" "objs w1 = objs w" "next_addr w1 = next_addr w" by blast
    from dec_ref_Inr [OF 2] obtain n0 where d: "o_collector ob \<noteq> NULL \<longrightarrow> cnt_of w1 (o_collector ob) = Some n0"
      "refc_of w2 = bump (o_collector ob \<noteq> NULL) n0 (- 1) (refc_of w1)" "coll_of w2 = coll_of w1"
      "fwd_of w2 = fwd_of w1" "cnt_of w2 = cnt_of w1" "objs w2 = objs w1" "next_addr w2 = next_addr w1" by blast
    from 3 i d have w': "coll_of w' = (coll_of w)(p \<mapsto> c)" "fwd_of w' = fwd_of w" "cnt_of w' = cnt_of w"
      "refc_of w' = refc_of w2" "next_addr w' = next_addr w"
      by (auto simp: access_Inr coll_of_def fwd_of_def cnt_of_def refc_of_def fun_eq_iff)
    have "coll_of w p = Some (o_collector ob)" using ob by (simp add: coll_of_def)
    from refs_inv_move_object [OF ok [unfolded refs_ok_def] this _ ] False i d w'
    show ?thesis by (auto simp: refs_ok_def)
  qed
qed

lemma set_forward_view:
  "upd_coll c (\<lambda>k. k\<lparr>co_forward := f\<rparr>) w = Inr (x, w') \<Longrightarrow>
   coll_of w' = coll_of w \<and> fwd_of w' = (fwd_of w)(c \<mapsto> f) \<and> cnt_of w' = cnt_of w \<and>
   refc_of w' = refc_of w \<and> next_addr w' = next_addr w"
  by (auto simp: access_Inr coll_of_def fwd_of_def cnt_of_def refc_of_def fun_eq_iff)

lemma refs_ok_set_forward: "hoare refs_ok (collector_set_forward c f) (\<lambda>_. refs_ok)"
  unfolding collector_set_forward_def
proof (rule hoare_bnd_same [OF hoare_field_reads(7)], rule growing_with_locks [OF growing_refs_ok], rule hoareI)
  fix w x w'
  assume ok: "refs_ok w" and run: "bnd (coll_forward c) (\<lambda>f1.
      whenM (f \<noteq> f1) (block [
        whenM (f \<noteq> NULL) (bnd (coll_count f) counter_inc_ref),
        whenM (f1 \<noteq> NULL) (bnd (coll_count f1) counter_dec_ref),
        upd_coll c (\<lambda>k. k\<lparr>co_forward := f\<rparr>)])) w = Inr (x, w')"
  then obtain k where k: "colls w c = Some k"
    and r: "whenM (f \<noteq> co_forward k) (block [
        whenM (f \<noteq> NULL) (bnd (coll_count f) counter_inc_ref),
        whenM (co_forward k \<noteq> NULL) (bnd (coll_count (co_forward k)) counter_dec_ref),
        upd_coll c (\<lambda>k. k\<lparr>co_forward := f\<rparr>)]) w = Inr (x, w')"
    by (auto simp: bnd_Inr [where m = "coll_forward c"] coll_forward_Inr simp del: block.simps)
  show "refs_ok w'"
  proof (cases "f = co_forward k")
    case True
    then show ?thesis using r ok by simp
  next
    case False
    with r have "block [
        whenM (f \<noteq> NULL) (bnd (coll_count f) counter_inc_ref),
        whenM (co_forward k \<noteq> NULL) (bnd (coll_count (co_forward k)) counter_dec_ref),
        upd_coll c (\<lambda>k. k\<lparr>co_forward := f\<rparr>)] w = Inr ((), w')"
      by (simp del: block.simps)
    then obtain w1 w2 where
      1: "whenM (f \<noteq> NULL) (bnd (coll_count f) counter_inc_ref) w = Inr ((), w1)" and
      2: "whenM (co_forward k \<noteq> NULL) (bnd (coll_count (co_forward k)) counter_dec_ref) w1 = Inr ((), w2)" and
      3: "upd_coll c (\<lambda>k. k\<lparr>co_forward := f\<rparr>) w2 = Inr ((), w')"
      unfolding block_3_Inr by blast
    from inc_ref_Inr [OF 1] obtain n1 where i: "f \<noteq> NULL \<longrightarrow> cnt_of w f = Some n1"
      "refc_of w1 = bump (f \<noteq> NULL) n1 1 (refc_of w)" "coll_of w1 = coll_of w" "fwd_of w1 = fwd_of w"
      "cnt_of w1 = cnt_of w" "next_addr w1 = next_addr w" by blast
    from dec_ref_Inr [OF 2] obtain n0 where d: "co_forward k \<noteq> NULL \<longrightarrow> cnt_of w1 (co_forward k) = Some n0"
      "refc_of w2 = bump (co_forward k \<noteq> NULL) n0 (- 1) (refc_of w1)" "coll_of w2 = coll_of w1"
      "fwd_of w2 = fwd_of w1" "cnt_of w2 = cnt_of w1" "next_addr w2 = next_addr w1" by blast
    from set_forward_view [OF 3] i d
    have w': "coll_of w' = coll_of w" "fwd_of w' = (fwd_of w)(c \<mapsto> f)" "cnt_of w' = cnt_of w"
      "refc_of w' = refc_of w2" "next_addr w' = next_addr w" by simp_all
    have "fwd_of w c = Some (co_forward k)" using k by (simp add: fwd_of_def)
    from refs_inv_move_forward [OF ok [unfolded refs_ok_def] this _ ] False i d w'
    show ?thesis by (auto simp: refs_ok_def)
  qed
qed

lemma refs_ok_forward: "hoare refs_ok (safelist_forward sl e) (\<lambda>_. refs_ok)"
  unfolding safelist_forward_def drain_def by (rule refs_steps refs_ok_queue)+

lemma refs_ok_merge: "hoare refs_ok (collector_merge c d) (\<lambda>_. refs_ok)"
  unfolding collector_merge_def collector_forward_safelists_to_def
  by (rule refs_steps refs_ok_forward refs_ok_set_forward)+

section \<open>Creating and destroying\<close>

text \<open>A block comes from above everything allocated before.\<close>

lemma xmalloc_fresh:
  "hoare (\<lambda>w. 0 < a \<and> a \<le> next_addr w) (xmalloc sz) (\<lambda>p w. a \<le> p \<and> p < next_addr w)"
proof -
  have m: "hoare (\<lambda>w. 0 < a \<and> a \<le> next_addr w) (malloc sz)
      (\<lambda>p w. 0 < a \<and> a \<le> next_addr w \<and> (p = NULL \<or> a \<le> p \<and> p < next_addr w))"
    by (rule hoareI) (auto simp: malloc_def split: prod.splits bool.splits)
  have body: "hoare (\<lambda>w. 0 < a \<and> a \<le> next_addr w \<and> (p = NULL \<or> a \<le> p \<and> p < next_addr w))
      (xmalloc_round sz p)
      (\<lambda>r w. case r of Inl q \<Rightarrow> 0 < a \<and> a \<le> next_addr w \<and> (q = NULL \<or> a \<le> q \<and> q < next_addr w)
        | Inr q \<Rightarrow> a \<le> q \<and> q < next_addr w)" for p
    by (rule hoareI)
      (auto simp: xmalloc_round_def task_get_running_count_def bnd_Inr split: if_splits
        dest!: hoareD [OF m, rotated])
  show ?thesis
    unfolding xmalloc_def
  proof (rule hoare_bnd [OF m])
    fix p
    show "hoare (\<lambda>w. 0 < a \<and> a \<le> next_addr w \<and> (p = NULL \<or> a \<le> p \<and> p < next_addr w))
       (bnd (gets (\<lambda>w. length (mem w) + 2)) (\<lambda>n. loopM n (xmalloc_round sz) p))
       (\<lambda>p w. a \<le> p \<and> p < next_addr w)"
      by (rule hoare_bnd_same [OF quiet_steps(1)], rule hoare_loopM [OF body])
  qed
qed

lemma keeps_refs_view_alloc: "keeps refs_view (xmalloc sz)" "keeps refs_view calloc_ok"
proof -
  have same: "refs_view (w\<lparr>mem := m, next_addr := n\<rparr>) = refs_view w" for w m n
    by (simp add: refs_view_def coll_of_def fwd_of_def cnt_of_def refc_of_def fun_eq_iff)
  show "keeps refs_view (xmalloc sz)" by (rule keeps_xmalloc) (rule same)
  show "keeps refs_view calloc_ok" by (rule keeps_calloc_ok) simp
qed

text \<open>The assertions in the middle of \<open>collector_create\<close>: a block \<open>p\<close>, then a counter \<open>n\<close> behind it.\<close>

definition with_block :: "addr \<Rightarrow> world \<Rightarrow> bool" where
  "with_block p w \<longleftrightarrow> (\<exists>a\<le>p. refs_inv a (coll_of w) (fwd_of w) (cnt_of w) (refc_of w)) \<and> p < next_addr w"

definition with_counter :: "addr \<Rightarrow> addr \<Rightarrow> world \<Rightarrow> bool" where
  "with_counter p n w \<longleftrightarrow> (\<exists>a\<le>p. refs_inv a (coll_of w) (fwd_of w) (cnt_of w) (refc_of w)) \<and>
     p < n \<and> n < next_addr w \<and> refc_of w n = Some 0"

lemma xmalloc_block: "hoare refs_ok (xmalloc sz) with_block"
proof (rule hoareI)
  fix w p w' assume ok: "refs_ok w" and run: "xmalloc sz w = Inr (p, w')"
  have pos: "0 < next_addr w" using ok by (simp add: refs_ok_def refs_inv_def)
  have "next_addr w \<le> p \<and> p < next_addr w'"
    by (rule hoareD [OF xmalloc_fresh [of "next_addr w"] _ run]) (simp add: pos)
  with keepsD [OF keeps_refs_view_alloc(1) run] ok show "with_block p w'"
    by (auto simp: with_block_def refs_ok_def refs_view_def)
qed

lemma refs_inv_other_counter:
  assumes "refs_inv a co fw cn rc" and "a \<le> n"
  shows "refs_inv a co fw cn (rc(n \<mapsto> k))"
proof -
  have "m \<noteq> n" if "cn d = Some m" for d m
    using refs_inv_counter(4) [OF assms(1) that] assms(2) by auto
  then show ?thesis using assms(1) unfolding refs_inv_def by auto
qed

lemma counter_create_block: "hoare (with_block p) counter_create (with_counter p)"
proof (rule hoareI)
  fix w n w' assume blk: "with_block p w" and run: "counter_create w = Inr (n, w')"
  from blk obtain a where a: "a \<le> p" "refs_inv a (coll_of w) (fwd_of w) (cnt_of w) (refc_of w)"
    "p < next_addr w" by (auto simp: with_block_def)
  then have pos: "0 < next_addr w" by (auto simp: refs_inv_def)
  from run obtain w1 where m: "xmalloc sizeof_counter w = Inr (n, w1)"
    and w': "w' = w1\<lparr>ctrs := (ctrs w1)(n \<mapsto> \<lparr>ref_count = 0, store_count = 0\<rparr>)\<rparr>"
    by (auto simp: counter_create_def bnd_Inr)
  have n: "next_addr w \<le> n \<and> n < next_addr w1"
    by (rule hoareD [OF xmalloc_fresh [of "next_addr w"] _ m]) (simp add: pos)
  have v: "coll_of w' = coll_of w" "fwd_of w' = fwd_of w" "cnt_of w' = cnt_of w"
    "refc_of w' = (refc_of w)(n \<mapsto> 0)" "next_addr w' = next_addr w1"
    using keepsD [OF keeps_refs_view_alloc(1) m] w'
    by (auto simp: refs_view_def coll_of_def fwd_of_def cnt_of_def refc_of_def fun_eq_iff)
  have "refs_inv a (coll_of w') (fwd_of w') (cnt_of w') (refc_of w')"
    unfolding v by (rule refs_inv_other_counter [OF a(2)]) (use a n in auto)
  then show "with_counter p n w'" using a n v by (auto simp: with_counter_def)
qed

lemma with_counter_view:
  "with_counter p n w \<Longrightarrow> refs_view w' = refs_view w \<Longrightarrow> next_addr w' = next_addr w \<Longrightarrow> with_counter p n w'"
  by (auto simp: with_counter_def refs_view_def)

lemma with_counter_frame:
  assumes "keeps refs_view m" and "keeps next_addr m"
  shows "hoare (with_counter p n) m (\<lambda>_. with_counter p n)"
proof (rule hoareI)
  fix w x w' assume c: "with_counter p n w" and run: "m w = Inr (x, w')"
  show "with_counter p n w'"
    by (rule with_counter_view [OF c]) (use keepsD [OF assms(1) run] keepsD [OF assms(2) run] in auto)
qed

lemma with_counter_inits:
  "hoare (with_counter p n) (safelist_init k) (\<lambda>_. with_counter p n)"
  "hoare (with_counter p n) idlock_init (\<lambda>_. with_counter p n)"
  unfolding safelist_init_def idlock_init_def
  by (rule with_counter_frame; intro keeps_intros keeps_refs_view_alloc keeps_calloc_ok keeps_modify; simp)+

lemma collector_create_end:
  assumes "co_count k = n" and "co_forward k = NULL"
  shows "hoare (with_counter p n) (modify (\<lambda>w. w\<lparr>colls := (colls w)(p \<mapsto> k)\<rparr>)) (\<lambda>_. refs_ok)"
proof (rule hoare_modify)
  fix w assume "with_counter p n w"
  then obtain a where a: "a \<le> p" "refs_inv a (coll_of w) (fwd_of w) (cnt_of w) (refc_of w)"
    "p < n" "n < next_addr w" "refc_of w n = Some 0" by (auto simp: with_counter_def)
  let ?w = "w\<lparr>colls := (colls w)(p \<mapsto> k)\<rparr>"
  have v: "coll_of ?w = coll_of w" "fwd_of ?w = (fwd_of w)(p \<mapsto> 0)" "cnt_of ?w = (cnt_of w)(p \<mapsto> n)"
    "refc_of ?w = (refc_of w)(n \<mapsto> 0)"
    using assms a(5) by (auto simp: coll_of_def fwd_of_def cnt_of_def refc_of_def fun_eq_iff)
  show "refs_ok ?w"
    unfolding refs_ok_def v by (simp add: refs_inv_new_collector [OF a(2,1,3,4)])
qed

lemma refs_ok_create: "hoare refs_ok collector_create (\<lambda>_. refs_ok)"
  unfolding collector_create_def
  by (rule hoare_bnd [OF xmalloc_block], rule hoare_bnd [OF counter_create_block],
      (rule hoare_bnd_same [OF with_counter_inits(1)])+, rule hoare_bnd_same [OF with_counter_inits(2)],
      rule hoare_bnd [OF collector_create_end], simp, simp)
    (rule refs_steps | rule refs_ok_modify, simp)+

lemma lock_free_fwd_of [simp]: "lock_free (\<lambda>w. fwd_of w c = x)"
  by (simp add: lock_free_def fwd_of_def)

lemma set_forward_sets:
  "hoare (\<lambda>_. True) (collector_set_forward c f) (\<lambda>_ w. fwd_of w c = Some f)"
  unfolding collector_set_forward_def
proof (rule hoare_bnd_same [OF hoare_field_reads(7)],
    rule hoare_with_locks [OF lock_free_const lock_free_fwd_of], rule hoareI)
  fix w x w'
  assume "bnd (coll_forward c) (\<lambda>f1.
      whenM (f \<noteq> f1) (block [
        whenM (f \<noteq> NULL) (bnd (coll_count f) counter_inc_ref),
        whenM (f1 \<noteq> NULL) (bnd (coll_count f1) counter_dec_ref),
        upd_coll c (\<lambda>k. k\<lparr>co_forward := f\<rparr>)])) w = Inr (x, w')"
  then obtain k where k: "colls w c = Some k"
    and r: "whenM (f \<noteq> co_forward k) (block [
        whenM (f \<noteq> NULL) (bnd (coll_count f) counter_inc_ref),
        whenM (co_forward k \<noteq> NULL) (bnd (coll_count (co_forward k)) counter_dec_ref),
        upd_coll c (\<lambda>k. k\<lparr>co_forward := f\<rparr>)]) w = Inr (x, w')"
    by (auto simp: bnd_Inr [where m = "coll_forward c"] coll_forward_Inr simp del: block.simps)
  show "fwd_of w' c = Some f"
  proof (cases "f = co_forward k")
    case True
    then show ?thesis using r k by (simp add: fwd_of_def)
  next
    case False
    with r have "block [
        whenM (f \<noteq> NULL) (bnd (coll_count f) counter_inc_ref),
        whenM (co_forward k \<noteq> NULL) (bnd (coll_count (co_forward k)) counter_dec_ref),
        upd_coll c (\<lambda>k. k\<lparr>co_forward := f\<rparr>)] w = Inr ((), w')"
      by (simp del: block.simps)
    then obtain w2 where "upd_coll c (\<lambda>k. k\<lparr>co_forward := f\<rparr>) w2 = Inr ((), w')"
      unfolding block_3_Inr by blast
    from set_forward_view [OF this] show ?thesis by simp
  qed
qed

lemma refs_ok_terminate:
  "hoare refs_ok (collector_terminate c) (\<lambda>_ w. refs_ok w \<and> fwd_of w c = Some NULL)"
proof (rule hoare_conj)
  show "hoare refs_ok (collector_terminate c) (\<lambda>_. refs_ok)"
    unfolding collector_terminate_def by (rule refs_steps refs_ok_set_forward)+
  show "hoare (\<lambda>_. True) (collector_terminate c) (\<lambda>_ w. fwd_of w c = Some NULL)"
    unfolding collector_terminate_def
    by (rule hoare_bnd_same [OF hoare_field_reads(7)])
      (rule hoare_with_locks [OF lock_free_const lock_free_fwd_of set_forward_sets])
qed

text \<open>A collector that forwards nowhere can be freed with its counter.\<close>

definition ending :: "addr \<Rightarrow> world \<Rightarrow> bool" where
  "ending c w \<longleftrightarrow> refs_ok w \<and> fwd_of w c = Some NULL"

lemma ending_frame:
  assumes "keeps refs_view m" and "keeps next_addr m"
  shows "hoare (ending c) m (\<lambda>_. ending c)"
proof (rule hoareI)
  fix w x w' assume c: "ending c w" and run: "m w = Inr (x, w')"
  have v: "refs_view w' = refs_view w" by (rule keepsD [OF assms(1) run])
  have "refs_ok w'"
    by (rule refs_ok_view [OF _ v]) (use c keepsD [OF assms(2) run] in \<open>simp_all add: ending_def\<close>)
  then show "ending c w'" using c v by (simp add: ending_def refs_view_def)
qed

lemma ending_deinit: "hoare (ending c) (safelist_deinit sl) (\<lambda>_. ending c)"
  unfolding safelist_deinit_def
proof (rule hoare_bnd_same [OF hoare_data_of], rule ending_frame)
  show "keeps refs_view (upd_sl sl (\<lambda>s. s\<lparr>sl_data := None\<rparr>))"
    by (auto simp: keeps_def access_Inr refs_view_def coll_of_def fwd_of_def cnt_of_def refc_of_def
        fun_eq_iff)
  show "keeps next_addr (upd_sl sl (\<lambda>s. s\<lparr>sl_data := None\<rparr>))"
    by (rule keeps_upd_sl) simp
qed

lemma ending_free:
  "hoare (ending c)
     (block [bnd (coll_count c) counter_destroy,
       bnd (get_coll c) (\<lambda>_. modify (\<lambda>w. w\<lparr>colls := (colls w)(c := None)\<rparr>))]) (\<lambda>_. refs_ok)"
proof (rule hoareI)
  fix w x w'
  assume e: "ending c w" and run: "block [bnd (coll_count c) counter_destroy,
       bnd (get_coll c) (\<lambda>_. modify (\<lambda>w. w\<lparr>colls := (colls w)(c := None)\<rparr>))] w = Inr (x, w')"
  then obtain k w1 where k: "colls w c = Some k" and d: "counter_destroy (co_count k) w = Inr ((), w1)"
    and w': "w' = w1\<lparr>colls := (colls w1)(c := None)\<rparr>"
    by (auto simp: bnd_Inr coll_count_Inr access_Inr)
  from d have w1: "colls w1 = colls w" "objs w1 = objs w" "next_addr w1 = next_addr w"
    "\<And>m. m \<noteq> co_count k \<Longrightarrow> ctrs w1 m = ctrs w m"
    by (auto simp: counter_destroy_def bnd_Inr access_Inr split: if_splits)
  have v: "coll_of w' = coll_of w" "fwd_of w' = (fwd_of w)(c := None)" "cnt_of w' = (cnt_of w)(c := None)"
    "next_addr w' = next_addr w" "\<And>m. m \<noteq> co_count k \<Longrightarrow> refc_of w' m = refc_of w m"
    using w1 w' by (auto simp: coll_of_def fwd_of_def cnt_of_def refc_of_def fun_eq_iff)
  have "refs_inv (next_addr w) (coll_of w) (fwd_of w) (cnt_of w) (refc_of w)"
    and f: "fwd_of w c = Some NULL" and n: "cnt_of w c = Some (co_count k)"
    using e k by (simp_all add: ending_def refs_ok_def cnt_of_def)
  from refs_inv_free_collector [OF this v(5)]
  show "refs_ok w'" unfolding refs_ok_def v(1-4) .
qed

lemma refs_ok_destroy: "hoare (ending c) (collector_destroy c) (\<lambda>_. refs_ok)"
  unfolding collector_destroy_def
  by (rule hoare_block_Cons [OF ending_deinit])+ (rule ending_free)

lemma refs_ok_finish: "hoare refs_ok (collector_finish c) (\<lambda>_. refs_ok)"
proof -
  have terminated: "hoare refs_ok (collector_terminate c) (\<lambda>_. ending c)"
    by (rule hoare_post [OF refs_ok_terminate]) (simp add: ending_def)
  have "growing (ending c)"
    unfolding growing_def
  proof (intro allI impI)
    fix w w' assume "bare w = bare w'" and n: "next_addr w \<le> next_addr w'" and e: "ending c w"
    then have v: "refs_view w' = refs_view w" by (intro refs_view_bare)
    with e n refs_ok_view [OF _ v] show "ending c w'" by (simp add: ending_def refs_view_def)
  qed
  then have le: "hoare (ending c) locker_end (\<lambda>_. ending c)" by (rule growing_locks)
  have st: "hoare refs_ok (locker_start2 a b) (\<lambda>_. refs_ok)" for a b
    unfolding locker_starts by (rule growing_locks [OF growing_refs_ok])
  show ?thesis
    unfolding collector_finish_def
    by (rule hoare_bnd_same hoare_field_reads hoare_if_same st hoare_ret_same growing_locks [OF growing_refs_ok]
        | rule hoare_block_Cons [OF terminated] hoare_block_Cons [OF le] hoare_block_Cons [OF refs_ok_destroy]
          hoare_block_Nil)+
qed

text \<open>An object is created without a collector and freed without one.\<close>

lemma object_init_Inr:
  assumes "object_init p w = Inr (q, w')"
  shows "\<exists>ob m. o_collector ob = NULL \<and> w' = w\<lparr>mem := m, id_count := id_count w + 1,
    objs := (objs w)(p \<mapsto> ob), acid_world_count := acid_world_count w + 1\<rparr>"
proof -
  obtain r :: "addr hashtable option" and m where
    w': "w' = w\<lparr>mem := m, id_count := id_count w + 1,
      objs := (objs w)(p \<mapsto> \<lparr>o_lock = id_count w, o_links = r, o_which = 0, o_phantomized = False,
        o_count = (\<lambda>_. 0), o_collector = NULL, o_complete = True, o_dtor = None, o_data = NULL,
        o_magic = OBJECT_MAGIC_NUMBER\<rparr>), acid_world_count := acid_world_count w + 1\<rparr>"
    using assms by (auto simp: object_init_def bnd_Inr in_table_Inr idlock_init_def split: if_splits)
  show ?thesis unfolding w' by (rule exI, rule exI, rule conjI [OF _ refl]) simp
qed

lemma refs_inv_object: "refs_inv a co fw cn rc \<Longrightarrow> co p = Some c \<Longrightarrow> p < a"
  by (auto simp: refs_inv_def)

lemma refs_ok_new: "hoare refs_ok (bnd (xmalloc sz) object_init) (\<lambda>_. refs_ok)"
proof (rule hoare_bnd [OF xmalloc_block], rule hoareI)
  fix p w q w' assume blk: "with_block p w" and run: "object_init p w = Inr (q, w')"
  from blk obtain a where a: "a \<le> p" "refs_inv a (coll_of w) (fwd_of w) (cnt_of w) (refc_of w)"
    "p < next_addr w" by (auto simp: with_block_def)
  have inv: "refs_inv (next_addr w) (coll_of w) (fwd_of w) (cnt_of w) (refc_of w)"
    by (rule refs_inv_grow [OF a(2)]) (use a in simp)
  have fresh: "coll_of w p = None"
    using refs_inv_object [OF a(2), of p] a(1) by (cases "coll_of w p") auto
  from object_init_Inr [OF run] obtain ob m where ob: "o_collector ob = NULL"
    and w': "w' = w\<lparr>mem := m, id_count := id_count w + 1,
      objs := (objs w)(p \<mapsto> ob), acid_world_count := acid_world_count w + 1\<rparr>" by blast
  have v: "coll_of w' = (coll_of w)(p \<mapsto> 0)" "fwd_of w' = fwd_of w" "cnt_of w' = cnt_of w"
    "refc_of w' = refc_of w" "next_addr w' = next_addr w"
    unfolding w' by (simp_all add: coll_of_def fwd_of_def cnt_of_def refc_of_def fun_eq_iff ob)
  show "refs_ok w'"
    unfolding refs_ok_def v by (rule refs_inv_new_object [OF inv fresh a(3)])
qed

definition orphan :: "addr \<Rightarrow> world \<Rightarrow> bool" where
  "orphan p w \<longleftrightarrow> refs_ok w \<and> coll_of w p = Some NULL"

lemma growing_orphan: "growing (orphan p)"
  unfolding growing_def
proof (intro allI impI)
  fix w w' assume "bare w = bare w'" and n: "next_addr w \<le> next_addr w'" and e: "orphan p w"
  then have v: "refs_view w' = refs_view w" by (intro refs_view_bare)
  with e n refs_ok_view [OF _ v] show "orphan p w'" by (simp add: orphan_def refs_view_def)
qed

lemma orphan_frame:
  assumes "hoare refs_ok m (\<lambda>_. refs_ok)" and "keeps coll_of m"
  shows "hoare (orphan p) m (\<lambda>_. orphan p)"
  using assms by (fastforce simp: hoare_def keeps_def orphan_def)

lemma orphan_steps:
  "hoare (orphan p) (upd_obj p (\<lambda>ob. ob\<lparr>o_links := None\<rparr>)) (\<lambda>_. orphan p)"
  "hoare (orphan p) (upd_obj p (\<lambda>ob. ob\<lparr>o_magic := 0\<rparr>)) (\<lambda>_. orphan p)"
  by (rule orphan_frame; auto intro: refs_ok_update simp: keeps_def access_Inr coll_of_def fun_eq_iff)+

lemma orphan_dtor: "hoare (orphan p) (modify (\<lambda>w. w\<lparr>dtor_calls := g w\<rparr>)) (\<lambda>_. orphan p)"
  by (rule orphan_frame; auto intro!: refs_ok_modify simp: keeps_def coll_of_def fun_eq_iff)

lemma orphan_freed: "hoare (orphan p) (modify (\<lambda>w. w\<lparr>objs := (objs w)(p := None)\<rparr>)) (\<lambda>_. refs_ok)"
proof (rule hoare_modify)
  fix w assume o: "orphan p w"
  let ?w = "w\<lparr>objs := (objs w)(p := None)\<rparr>"
  have v: "coll_of ?w = (coll_of w)(p := None)" "fwd_of ?w = fwd_of w" "cnt_of ?w = cnt_of w"
    "refc_of ?w = refc_of w" "next_addr ?w = next_addr w"
    by (auto simp: coll_of_def fwd_of_def cnt_of_def refc_of_def fun_eq_iff)
  show "refs_ok ?w"
    unfolding refs_ok_def v
    by (rule refs_inv_free_object) (use o in \<open>simp_all add: orphan_def refs_ok_def\<close>)
qed

lemma refs_ok_del: "hoare refs_ok (object_del p) (\<lambda>_. refs_ok)"
proof -
  have set: "hoare refs_ok (object_set_collector p NULL) (\<lambda>_. orphan p)"
    by (rule hoare_post [OF hoare_conj [OF refs_ok_set_collector set_collector_sets]])
      (simp add: orphan_def)
  have body: "hoare (orphan p) (block [
         bnd (links_size p) (\<lambda>n. assertM (n = 0)),
         upd_obj p (\<lambda>ob. ob\<lparr>o_links := None\<rparr>),
         upd_obj p (\<lambda>ob. ob\<lparr>o_magic := 0\<rparr>),
         call_dtor p]) (\<lambda>_. orphan p)"
    unfolding call_dtor_def
    by (rule hoare_shapes hoare_reads hoare_field_reads orphan_steps orphan_dtor)+
  have locked: "hoare refs_ok (with_locks [LObj p] (block [
         object_set_collector p NULL,
         bnd (links_size p) (\<lambda>n. assertM (n = 0)),
         upd_obj p (\<lambda>ob. ob\<lparr>o_links := None\<rparr>),
         upd_obj p (\<lambda>ob. ob\<lparr>o_magic := 0\<rparr>),
         call_dtor p])) (\<lambda>_. orphan p)"
    unfolding with_locks_def
    by (rule hoare_bnd_same [OF growing_locks(1) [OF growing_refs_ok]],
        rule hoare_bnd_same [OF hoare_block_Cons [OF set body]],
        rule hoare_bnd_same [OF growing_locks(2) [OF growing_orphan]], rule hoare_ret_same)
  show ?thesis
    unfolding object_del_def
    by (rule hoare_block_Cons [OF locked], rule hoare_block_Cons [where R = refs_ok],
        rule hoare_bnd_same [OF quiet_steps(3)], rule orphan_freed)
      (rule hoare_shapes | rule refs_ok_modify, simp)+
qed

interpretation refs: heap_invariant refs_ok
proof unfold_locales
  show "hoare refs_ok (upd_obj p f) (\<lambda>_. refs_ok)"
    if "\<And>ob. o_collector (f ob) = o_collector ob \<and> o_links (f ob) = o_links ob" for p f
    by (rule refs_ok_update) (use that in blast)
qed (rule growing_locks [OF growing_refs_ok] refs_ok_stores refs_ok_allocs refs_ok_links refs_ok_queue
    refs_ok_create refs_ok_set_collector refs_ok_merge refs_ok_finish refs_ok_new refs_ok_del)+

section \<open>Properties\<close>

text \<open>The pointers to a collector that its reference count stands for.\<close>

definition pointers_to :: "world \<Rightarrow> addr \<Rightarrow> nat" where
  "pointers_to w c =
     card {p. \<exists>ob. objs w p = Some ob \<and> o_collector ob = c} + card {d. \<exists>k. colls w d = Some k \<and> co_forward k = c}"

lemma refs_ok_counts:
  assumes "refs_ok w" and "colls w c = Some k"
  shows "map_option ref_count (ctrs w (co_count k)) = Some (of_nat (pointers_to w c))"
proof -
  have "pointing (coll_of w) c + pointing (fwd_of w) c = pointers_to w c"
    by (simp add: pointing_def pointers_to_def coll_of_def fwd_of_def)
  moreover have "cnt_of w c = Some (co_count k)" using assms(2) by (simp add: cnt_of_def)
  moreover have "\<forall>d n. cnt_of w d = Some n \<longrightarrow>
      refc_of w n = Some (of_nat (pointing (coll_of w) d + pointing (fwd_of w) d))"
    using assms(1) unfolding refs_ok_def refs_inv_def by blast
  ultimately show ?thesis by (metis refc_of_def)
qed

text \<open>Every operation of a client or a worker keeps the reference counts right: afterwards the count of each collector is the
  number of objects that belong to it and of collectors that forward to it, modulo $2^{64}$, provided that it was so before.\<close>

lemma operations_keep_reference_counts:
  assumes "refs_ok w" and "exec_op f x w = Inr (u, w')"
  shows "refs_ok w' \<and> (\<forall>c k. colls w' c = Some k \<longrightarrow>
    map_option ref_count (ctrs w' (co_count k)) = Some (of_nat (pointers_to w' c)))"
  using hoareD [OF refs.keep_exec_op assms] refs_ok_counts by blast

end
