(* ===== verification/Workers.thy ===== *)
theory Workers
  imports Refs
begin

text \<open>
  The threads of the program as a step relation: the workers of src/worker.c, each going round the
  loop of \<open>worker_run\<close>, and the main thread, which calls the library and finally \<open>acid_stop\<close>. A step
  runs one operation of one thread as a whole. The relation is proved to keep the books of
  src/task.c: \<open>task_count\<close> is the number of tasks in the queue and in the hands of workers.
\<close>

section \<open>Threads\<close>

datatype phase = Fresh | Idle | Busy addr | Stopped

text \<open>\<open>Waiting z\<close>: in \<open>cnd_wait\<close> since \<open>z\<close> broadcasts had been made. \<open>Joining\<close>: in \<open>thrd_join\<close>.\<close>

datatype main_phase = Working | Waiting nat | Closing | Joining | Ended

record pool =
  heap :: world
  who :: "thread_id \<Rightarrow> phase option"
  main_at :: main_phase

definition as_thread :: "thread_id \<Rightarrow> 'a W \<Rightarrow> 'a W" where
  "as_thread t m w = m (w\<lparr>self := t\<rparr>)"

text \<open>After \<open>acid_start n\<close> the workers \<open>1 .. n\<close> have been created.\<close>

inductive pool_init :: "pool \<Rightarrow> bool" where
  pool_init: "acid_start n (boot fl) = Inr ((), w) \<Longrightarrow>
    pool_init \<lparr>heap = w, who = (\<lambda>t. if 1 \<le> t \<and> t \<le> n then Some Fresh else None), main_at = Working\<rparr>"

inductive pool_step :: "memory \<Rightarrow> pool \<Rightarrow> pool \<Rightarrow> bool" for f where
  enter: "who p t = Some Fresh \<Longrightarrow> as_thread t locker_setup (heap p) = Inr ((), w) \<Longrightarrow>
    pool_step f p (p\<lparr>heap := w, who := (who p)(t \<mapsto> Idle)\<rparr>)"
| fetch: "who p t = Some Idle \<Longrightarrow> \<not> endtime (heap p) \<Longrightarrow>
    as_thread t worker_get_next_task (heap p) = Inr (tk, w) \<Longrightarrow>
    pool_step f p (p\<lparr>heap := w, who := (who p)(t \<mapsto> if tk = NULL then Idle else Busy tk)\<rparr>)"
| run: "who p t = Some (Busy tk) \<Longrightarrow> as_thread t (task_run tk) (heap p) = Inr ((), w) \<Longrightarrow>
    pool_step f p (p\<lparr>heap := w, who := (who p)(t \<mapsto> Idle)\<rparr>)"
| stop: "who p t = Some Idle \<Longrightarrow> endtime (heap p) \<Longrightarrow>
    as_thread t locker_teardown (heap p) = Inr ((), w) \<Longrightarrow>
    pool_step f p (p\<lparr>heap := w, who := (who p)(t \<mapsto> Stopped)\<rparr>)"
| client: "main_at p = Working \<Longrightarrow> (\<And>fn a. x \<noteq> Run_task fn a) \<Longrightarrow>
    as_thread 0 (exec_op f x) (heap p) = Inr ((), w) \<Longrightarrow> pool_step f p (p\<lparr>heap := w\<rparr>)"
| wait: "main_at p = Working \<Longrightarrow> task_count (heap p) > 0 \<Longrightarrow>
    pool_step f p (p\<lparr>main_at := Waiting (zero_broadcasts (heap p))\<rparr>)"
| no_wait: "main_at p = Working \<Longrightarrow> task_count (heap p) = 0 \<Longrightarrow> pool_step f p (p\<lparr>main_at := Closing\<rparr>)"
| woken: "main_at p = Waiting z \<Longrightarrow> zero_broadcasts (heap p) > z \<Longrightarrow>
    pool_step f p (p\<lparr>main_at := Closing\<rparr>)"
| spurious: "main_at p = Waiting z \<Longrightarrow> pool_step f p (p\<lparr>main_at := Closing\<rparr>)"
| close: "main_at p = Closing \<Longrightarrow>
    pool_step f p (p\<lparr>heap := (heap p)\<lparr>endtime := True\<rparr>, main_at := Joining\<rparr>)"
| join: "main_at p = Joining \<Longrightarrow> (\<And>t ph. who p t = Some ph \<Longrightarrow> ph = Stopped) \<Longrightarrow>
    as_thread 0 workers_join (heap p) = Inr ((), w) \<Longrightarrow>
    pool_step f p (p\<lparr>heap := w, main_at := Ended\<rparr>)"

inductive reachable :: "memory \<Rightarrow> pool \<Rightarrow> bool" for f where
  start: "pool_init p \<Longrightarrow> reachable f p"
| more: "reachable f p \<Longrightarrow> pool_step f p q \<Longrightarrow> reachable f q"

inductive_cases pool_initE: "pool_init p"
inductive_cases pool_stepE: "pool_step f p q"

section \<open>The books of task.c\<close>

definition in_flight :: "pool \<Rightarrow> nat" where
  "in_flight p = card {t. \<exists>tk. who p t = Some (Busy tk)}"

definition books_ok :: "pool \<Rightarrow> bool" where
  "books_ok p \<longleftrightarrow> finite (dom (who p)) \<and> (\<forall>t. who p t \<noteq> Some (Busy NULL)) \<and>
     (main_at p \<noteq> Ended \<longrightarrow> accounted (in_flight p) (heap p))"

lemma accounted_self [simp]:
  "accounted k (w\<lparr>self := t\<rparr>) = accounted k w" "accounted k (w\<lparr>endtime := b\<rparr>) = accounted k w"
  by (simp_all add: accounted_def)

lemma accounted_finished: "hoare (accounted (Suc k)) (block [task_destroy tk, task_finished]) (\<lambda>_. accounted k)"
  by (rule hoareI)
    (auto simp: accounted_def task_destroy_def task_finished_def bnd_Inr access_Inr split: if_splits)

lemma accounted_again: "tk \<noteq> NULL \<Longrightarrow> hoare (accounted (Suc k)) (worker_add_task tk) (\<lambda>_. accounted k)"
  by (rule hoareI) (auto simp: accounted_def worker_add_task_def bnd_Inr calloc_ok_Inr)

lemma accounted_task_run: "tk \<noteq> NULL \<Longrightarrow> hoare (accounted (Suc k)) (task_run tk) (\<lambda>_. accounted k)"
  unfolding task_run_def
  by (rule hoare_bnd_same [OF quiet_steps(7)], rule hoare_bnd_same [OF tasks.keep_task_call])
    (rule hoare_if_same accounted_again accounted_finished | assumption)+

lemma accounted_lockers:
  "hoare (accounted k) locker_setup (\<lambda>_. accounted k)" "hoare (accounted k) locker_teardown (\<lambda>_. accounted k)"
proof -
  have m: "hoare (accounted k) (modify (\<lambda>w. w\<lparr>lockers := g w\<rparr>)) (\<lambda>_. accounted k)" for g
    by (rule hoare_modify) (simp add: accounted_def)
  have c: "hoare (accounted k) calloc_ok (\<lambda>_. accounted k)"
    by (auto simp: hoare_def accounted_def calloc_ok_Inr)
  show "hoare (accounted k) locker_setup (\<lambda>_. accounted k)"
    unfolding locker_setup_def locker_create_def by (rule hoare_shapes tasks.alloc c m)+
  show "hoare (accounted k) locker_teardown (\<lambda>_. accounted k)"
    unfolding locker_teardown_def stack_of_def by (rule hoare_shapes quiet_steps m)+
qed

text \<open>A worker that takes a task is one more thread in the middle of one, one that is done one less.\<close>

lemma in_flight_same:
  assumes "\<And>tk. a \<noteq> Busy tk" and "who p t \<noteq> Some (Busy tk0)" and "\<forall>tk. who p t \<noteq> Some (Busy tk)"
  shows "in_flight (p\<lparr>heap := w, who := (who p)(t \<mapsto> a)\<rparr>) = in_flight p"
proof -
  have "{u. \<exists>tk. ((who p)(t \<mapsto> a)) u = Some (Busy tk)} = {u. \<exists>tk. who p u = Some (Busy tk)}"
    using assms by auto
  then show ?thesis by (simp add: in_flight_def)
qed

lemma finite_busy: "finite (dom (who p)) \<Longrightarrow> finite {t. \<exists>tk. who p t = Some (Busy tk)}"
  by (rule finite_subset [of _ "dom (who p)"]) auto

lemma in_flight_take:
  assumes "finite (dom (who p))" and "who p t = Some Idle"
  shows "in_flight (p\<lparr>heap := w, who := (who p)(t \<mapsto> Busy tk)\<rparr>) = Suc (in_flight p)"
proof -
  have "{u. \<exists>k. ((who p)(t \<mapsto> Busy tk)) u = Some (Busy k)} = insert t {u. \<exists>k. who p u = Some (Busy k)}"
    by auto
  then show ?thesis using finite_busy [OF assms(1)] assms(2) by (simp add: in_flight_def)
qed

lemma in_flight_done:
  assumes "finite (dom (who p))" and "who p t = Some (Busy tk)"
  shows "Suc (in_flight (p\<lparr>heap := w, who := (who p)(t \<mapsto> Idle)\<rparr>)) = in_flight p"
proof -
  let ?B = "{u. \<exists>k. who p u = Some (Busy k)}"
  have "{u. \<exists>k. ((who p)(t \<mapsto> Idle)) u = Some (Busy k)} = ?B - {t}" by auto
  moreover have "t \<in> ?B" using assms(2) by simp
  ultimately show ?thesis using card_Suc_Diff1 [OF finite_busy [OF assms(1)]] by (simp add: in_flight_def)
qed

lemma in_flight_main [simp]:
  "in_flight (p\<lparr>main_at := m\<rparr>) = in_flight p" "in_flight (p\<lparr>heap := w\<rparr>) = in_flight p"
  by (simp_all add: in_flight_def)

lemma main_Ended_stays: "pool_step f p q \<Longrightarrow> main_at p = Ended \<Longrightarrow> main_at q = Ended"
  by (erule pool_stepE) auto

lemma as_thread_hoare:
  assumes "hoare (accounted k) m Q" and "as_thread t m w = Inr (x, w')" and "accounted k w"
  shows "Q x w'"
  using hoareD [OF assms(1) _ assms(2) [unfolded as_thread_def]] assms(3) by simp

lemma books_ok_step:
  assumes "pool_step f p q" and "books_ok p"
  shows "books_ok q"
proof (cases "main_at p = Ended")
  case True
  have "finite (dom (who q)) \<and> (\<forall>t. who q t \<noteq> Some (Busy NULL))"
    using assms by (cases) (auto simp: books_ok_def)
  then show ?thesis using main_Ended_stays [OF assms(1) True] by (simp add: books_ok_def)
next
  case False
  then have acc: "accounted (in_flight p) (heap p)" and fin: "finite (dom (who p))"
    and nb: "\<forall>t. who p t \<noteq> Some (Busy NULL)"
    using assms(2) by (auto simp: books_ok_def)
  show ?thesis using assms(1)
  proof cases
    case (enter t w)
    have "accounted (in_flight p) w" by (rule as_thread_hoare [OF accounted_lockers(1) enter(3) acc])
    moreover have "in_flight q = in_flight p"
      unfolding enter(1) by (rule in_flight_same) (use enter(2) in auto)
    ultimately show ?thesis using fin nb by (simp add: books_ok_def enter(1))
  next
    case (fetch t tk w)
    have "accounted (if tk = NULL then in_flight p else Suc (in_flight p)) w"
      by (rule as_thread_hoare [OF accounted_get_next fetch(4) acc])
    moreover have "in_flight q = (if tk = NULL then in_flight p else Suc (in_flight p))"
      unfolding fetch(1) using in_flight_take [OF fin fetch(2)] in_flight_same [of Idle p t] fetch(2)
      by auto
    ultimately show ?thesis using fin nb by (simp add: books_ok_def fetch(1) split: if_splits)
  next
    case (run t tk w)
    have fl: "Suc (in_flight q) = in_flight p"
      unfolding run(1) by (rule in_flight_done [OF fin run(2)])
    have "tk \<noteq> NULL" using run(2) assms(2) by (auto simp: books_ok_def)
    from as_thread_hoare [OF accounted_task_run [OF this] run(3)] fl acc
    have "accounted (in_flight q) w" by simp
    then show ?thesis using fin nb by (simp add: books_ok_def run(1))
  next
    case (stop t w)
    have "accounted (in_flight p) w" by (rule as_thread_hoare [OF accounted_lockers(2) stop(4) acc])
    moreover have "in_flight q = in_flight p"
      unfolding stop(1) by (rule in_flight_same) (use stop(2) in auto)
    ultimately show ?thesis using fin nb by (simp add: books_ok_def stop(1))
  next
    case (client x w)
    have "accounted (in_flight p) w" by (rule as_thread_hoare [OF tasks.keep_exec_op client(4) acc])
    then show ?thesis using fin nb by (simp add: books_ok_def client(1))
  qed (use acc fin nb in \<open>auto simp: books_ok_def\<close>)
qed

lemma accounted_boot:
  assumes "acid_start n (boot fl) = Inr ((), w)"
  shows "accounted 0 w"
  using assms
  by (auto simp: acid_start_def locker_setup_def locker_create_def workers_setup_def boot_def bnd_Inr
      xmalloc_Nil calloc_ok_Inr accounted_def sizeof_locker_def sizeof_pointer_def)

lemma books_ok_reachable: "reachable f p \<Longrightarrow> books_ok p"
proof (induction rule: reachable.induct)
  case (start p)
  then obtain n fl w where w: "acid_start n (boot fl) = Inr ((), w)"
    and p: "p = \<lparr>heap = w, who = (\<lambda>t. if 1 \<le> t \<and> t \<le> n then Some Fresh else None), main_at = Working\<rparr>"
    by (rule pool_init.cases)
  have "dom (who p) = {1..n}" using p by (auto split: if_splits)
  moreover have "in_flight p = 0" "\<forall>t. who p t \<noteq> Some (Busy NULL)"
    using p by (auto simp: in_flight_def)
  ultimately show ?case using accounted_boot [OF w] p by (simp add: books_ok_def)
next
  case (more p q)
  then show ?case by (auto intro: books_ok_step)
qed

section \<open>Invariants of all threads together\<close>

text \<open>An invariant of the operations that does not look at the scheduling is one of the whole pool.\<close>

locale thread_invariant = gc_invariant I for I +
  assumes at_start: "I (boot n)"
    and calloc: "hoare I calloc_ok (\<lambda>_. I)"
    and not_scheduling: "I (w\<lparr>self := t\<rparr>) = I w" "I (w\<lparr>endtime := b\<rparr>) = I w" "I (w\<lparr>lockers := ls\<rparr>) = I w"
      "I (w\<lparr>work := q\<rparr>) = I w" "I (w\<lparr>tsks := ts\<rparr>) = I w" "I (w\<lparr>task_count := tc\<rparr>) = I w"
      "I (w\<lparr>zero_broadcasts := z\<rparr>) = I w"
begin

lemma keep_scheduling:
  "hoare I (modify (\<lambda>w. w\<lparr>lockers := g1 w\<rparr>)) (\<lambda>_. I)"
  "hoare I (modify (\<lambda>w. w\<lparr>work := g2 w\<rparr>)) (\<lambda>_. I)"
  "hoare I (modify (\<lambda>w. w\<lparr>tsks := g3 w\<rparr>)) (\<lambda>_. I)"
  "hoare I task_finished (\<lambda>_. I)"
  unfolding task_finished_def by (rule hoare_modify, simp add: not_scheduling)+

lemma keep_thread_ops:
  "hoare I locker_setup (\<lambda>_. I)" "hoare I locker_teardown (\<lambda>_. I)"
  "hoare I worker_get_next_task (\<lambda>_. I)" "hoare I (worker_add_task tk) (\<lambda>_. I)"
  "hoare I (task_destroy tk) (\<lambda>_. I)" "hoare I workers_join (\<lambda>_. I)" "hoare I (workers_setup n) (\<lambda>_. I)"
  unfolding locker_setup_def locker_create_def locker_teardown_def stack_of_def
    worker_get_next_task_def worker_add_task_def task_destroy_def workers_join_def workers_setup_def
  by (rule inv_steps keep_scheduling calloc)+

lemma keep_task_run: "hoare I (task_run tk) (\<lambda>_. I)"
  unfolding task_run_def by (rule inv_steps keep_thread_ops keep_scheduling)+

lemma keep_worker_pass: "hoare I worker_pass (\<lambda>_. I)"
  unfolding worker_pass_def by (rule inv_steps keep_thread_ops keep_task_run)+

lemma keep_as_thread:
  assumes "hoare I m (\<lambda>_. I)" and "as_thread t m w = Inr (x, w')" and "I w"
  shows "I w'"
  by (rule hoareD [OF assms(1) _ assms(2) [unfolded as_thread_def]]) (simp add: not_scheduling assms(3))

lemma keep_start: "acid_start n (boot fl) = Inr ((), w) \<Longrightarrow> I w"
proof -
  have "hoare I (acid_start n) (\<lambda>_. I)"
    unfolding acid_start_def by (rule inv_steps keep_thread_ops)+
  then show "acid_start n (boot fl) = Inr ((), w) \<Longrightarrow> I w" using at_start by (blast dest: hoareD)
qed

end

locale pool_invariant = thread_invariant I + heap_invariant I for I
begin

lemma keep_pool_step: "pool_step f p q \<Longrightarrow> I (heap p) \<Longrightarrow> I (heap q)"
  by (induction rule: pool_step.induct)
    (auto simp: not_scheduling
      intro: keep_as_thread [OF keep_thread_ops(1)] keep_as_thread [OF keep_thread_ops(2)]
        keep_as_thread [OF keep_thread_ops(3)] keep_as_thread [OF keep_task_run]
        keep_as_thread [OF keep_exec_op] keep_as_thread [OF keep_thread_ops(6)])

lemma keep_init: "pool_init p \<Longrightarrow> I (heap p)"
  by (erule pool_init.cases) (simp add: keep_start)

lemma reachable_keeps: "reachable f p \<Longrightarrow> I (heap p)"
  by (induction rule: reachable.induct) (auto intro: keep_pool_step keep_init)

end

lemma refs_ok_boot: "refs_ok (boot n)"
  by (simp add: refs_ok_def refs_inv_def boot_def coll_of_def fwd_of_def cnt_of_def dom_def)

lemma refs_view_scheduling [simp]:
  "refs_view (w\<lparr>self := t\<rparr>) = refs_view w" "refs_view (w\<lparr>endtime := b\<rparr>) = refs_view w"
  "refs_view (w\<lparr>zero_broadcasts := z\<rparr>) = refs_view w"
  by (simp_all add: refs_view_def coll_of_def fwd_of_def cnt_of_def refc_of_def fun_eq_iff)

lemma refs_ok_same: "refs_view w' = refs_view w \<Longrightarrow> next_addr w' = next_addr w \<Longrightarrow> refs_ok w' = refs_ok w"
  by (auto simp: refs_ok_def refs_view_def)

interpretation pool_refs: pool_invariant refs_ok
  by unfold_locales (rule refs_ok_boot growing_locks(4) [OF growing_refs_ok] | rule refs_ok_same, simp, simp)+

interpretation pool_tables: pool_invariant tables_ok
  by unfold_locales
    (rule growing_locks(4) [OF well_formed.grows] | simp add: tables_ok_def boot_def)+

section \<open>Properties\<close>

text \<open>C9: In every state that the threads can reach before \<open>acid_stop\<close> has torn down the queue, in whatever order their operations run and
  as long as the allocator does not fail, \<open>task_count\<close> is the number of the tasks in the queue and of those that a worker has taken
  and not finished. (After the end a started task can be left that is in no queue, as the last theorem here shows.)\<close>

theorem reachable_task_books:
  assumes "reachable f p" and "main_at p \<noteq> Ended"
  shows "\<exists>ts. work (heap p) = Some ts \<and> NULL \<notin> set ts \<and> task_count (heap p) = of_nat (length ts + in_flight p)"
  using books_ok_reachable [OF assms(1)] assms(2) by (simp add: books_ok_def accounted_def)

lemma started_pool: "\<exists>w. acid_start 2 (boot 9) = Inr ((), w)"
proof -
  have "\<not> isl (acid_start 2 (boot 9))" by code_simp
  then show ?thesis using not_isl [of "acid_start 2 (boot 9)"] by auto
qed

lemma started_reachable:
  assumes "acid_start n (boot fl) = Inr ((), w)"
  shows "reachable f \<lparr>heap = w, who = (\<lambda>t. if 1 \<le> t \<and> t \<le> n then Some Fresh else None), main_at = Working\<rparr>"
  by (rule reachable.start, rule pool_init [OF assms])

theorem reachable_task_books_witness:
  "\<exists>p ts. reachable (\<lambda>_. None) p \<and> work (heap p) = Some ts \<and> task_count (heap p) = of_nat (length ts + in_flight p)"
proof -
  obtain w where w: "acid_start 2 (boot 9) = Inr ((), w)" using started_pool by blast
  have "main_at \<lparr>heap = w, who = (\<lambda>t. if 1 \<le> t \<and> t \<le> 2 then Some Fresh else None), main_at = Working\<rparr> \<noteq> Ended"
    by simp
  from reachable_task_books [OF started_reachable [OF w] this] started_reachable [OF w] show ?thesis by blast
qed

text \<open>C16: When \<open>task_get_running_count\<close> gives 0 in a reachable state, all the work is done: the queue is empty and no
  worker is in the middle of a task (with fewer than $2^{32}$ tasks alive, so that the counter has not wrapped).\<close>

theorem zero_count_means_idle:
  assumes "reachable f p" and "main_at p \<noteq> Ended" and "task_count (heap p) = 0"
    and "length (the (work (heap p))) + in_flight p < 2 ^ 32"
  shows "work (heap p) = Some [] \<and> (\<forall>t tk. who p t \<noteq> Some (Busy tk))"
proof -
  from books_ok_reachable [OF assms(1)] assms(2) obtain ts where ts: "work (heap p) = Some ts"
    "task_count (heap p) = of_nat (length ts + in_flight p)" and fin: "finite (dom (who p))"
    by (auto simp: books_ok_def accounted_def)
  then have "(of_nat (length ts + in_flight p) :: 32 word) = 0" using assms(3) by simp
  then have "2 ^ 32 dvd length ts + in_flight p"
    by (simp only: word_of_nat_eq_0_iff) simp
  then have z: "length ts + in_flight p = 0" using assms(4) ts(1) by (auto dest: dvd_imp_le)
  then have "{t. \<exists>tk. who p t = Some (Busy tk)} = {}"
    using finite_busy [OF fin] by (simp add: in_flight_def)
  with ts z show ?thesis by auto
qed

theorem zero_count_means_idle_witness:
  "\<exists>p. reachable (\<lambda>_. None) p \<and> work (heap p) = Some [] \<and> (\<forall>t tk. who p t \<noteq> Some (Busy tk))"
proof -
  have "case acid_start 2 (boot 9) of Inr (_, w) \<Rightarrow> task_count w = 0 \<and> work w = Some [] | Inl _ \<Rightarrow> False" by code_simp
  then obtain w where w: "acid_start 2 (boot 9) = Inr ((), w)" "task_count w = 0" "work w = Some []"
    by (auto split: sum.splits)
  let ?p = "\<lparr>heap = w, who = (\<lambda>t. if 1 \<le> t \<and> t \<le> 2 then Some Fresh else None), main_at = Working\<rparr>"
  have h: "main_at ?p \<noteq> Ended" "task_count (heap ?p) = 0" "length (the (work (heap ?p))) + in_flight ?p < 2 ^ 32"
  proof -
    have "{t. \<exists>tk. who ?p t = Some (Busy tk)} = {}" by (auto split: if_splits)
    then show "main_at ?p \<noteq> Ended" "task_count (heap ?p) = 0" "length (the (work (heap ?p))) + in_flight ?p < 2 ^ 32"
      using w by (simp_all add: in_flight_def)
  qed
  from zero_count_means_idle [OF started_reachable [OF w(1)] h] started_reachable [OF w(1)] show ?thesis by blast
qed

text \<open>C8: In every state that the threads can reach, the reference count of each collector is the number of objects and
  collectors that point to it, and the table of links of each object is well formed.\<close>

theorem reachable_memory_invariant:
  assumes "reachable f p"
  shows "(\<forall>c k. colls (heap p) c = Some k \<longrightarrow>
      map_option ref_count (ctrs (heap p) (co_count k)) = Some (of_nat (pointers_to (heap p) c))) \<and>
    (\<forall>q ob t. objs (heap p) q = Some ob \<longrightarrow> o_links ob = Some t \<longrightarrow> ht_inv t)"
  using refs_ok_counts [OF pool_refs.reachable_keeps [OF assms]] pool_tables.reachable_keeps [OF assms]
  by (simp add: tables_ok_def)

theorem reachable_memory_invariant_witness:
  "\<exists>p. reachable (\<lambda>_. None) p \<and> (\<forall>c k. colls (heap p) c = Some k \<longrightarrow>
      map_option ref_count (ctrs (heap p) (co_count k)) = Some (of_nat (pointers_to (heap p) c)))"
proof -
  obtain w where w: "acid_start 2 (boot 9) = Inr ((), w)" using started_pool by blast
  from reachable_memory_invariant [OF started_reachable [OF w]] started_reachable [OF w] show ?thesis by blast
qed

lemma reachable_to: "reachable f p \<Longrightarrow> pool_step f p q' \<Longrightarrow> q' = q \<Longrightarrow> reachable f q"
  by (auto intro: reachable.more)

text \<open>A program that makes one object, gives up its only reference and stops.\<close>

definition short_program :: "64 word W" where
  "short_program =
     bnd (acid_start 1) (\<lambda>_. bnd (as_thread 1 locker_setup) (\<lambda>_.
     bnd (as_thread 0 (exec_op (\<lambda>_. None) (Malloc 8 None))) (\<lambda>_.
     bnd (as_thread 0 (exec_op (\<lambda>_. None) (Dissolve 4232))) (\<lambda>_.
     bnd (gets task_count) (\<lambda>n. bnd (assertM (n > 0)) (\<lambda>_.
     bnd (modify (\<lambda>w. w\<lparr>endtime := True\<rparr>)) (\<lambda>_.
     bnd (as_thread 1 locker_teardown) (\<lambda>_. bnd (as_thread 0 workers_join) (\<lambda>_.
     gets acid_collect_count)))))))))"

text \<open>C37: The wait of \<open>task_wait_for_zero_threads\<close> is an \<open>if\<close> and not a loop, so that after a spurious wake-up \<open>acid_stop\<close> may
  run to its end although a task was started and never run: its object is still there, counted and not collected.\<close>

theorem spurious_wakeup_loses_task:
  "\<exists>p. reachable (\<lambda>_. None) p \<and> main_at p = Ended \<and> acid_world_count (heap p) = 1 \<and>
     acid_collect_count (heap p) = 0 \<and> task_count (heap p) = 1"
proof -
  let ?f = "\<lambda>_ :: addr. None :: 64 word option"
  have "case short_program (boot 9) of Inl _ \<Rightarrow> False | Inr (c, w) \<Rightarrow>
      acid_world_count w = 1 \<and> acid_collect_count w = 0 \<and> task_count w = 1" by code_simp
  then obtain c w where run: "short_program (boot 9) = Inr (c, w)"
    and w: "acid_world_count w = 1" "acid_collect_count w = 0" "task_count w = 1"
    by (auto split: sum.splits)
  from run obtain w0 w1 w2 w3 w4 where s: "acid_start 1 (boot 9) = Inr ((), w0)"
    "as_thread 1 locker_setup w0 = Inr ((), w1)" "as_thread 0 (exec_op ?f (Malloc 8 None)) w1 = Inr ((), w2)"
    "as_thread 0 (exec_op ?f (Dissolve 4232)) w2 = Inr ((), w3)" "task_count w3 > 0"
    "as_thread 1 locker_teardown (w3\<lparr>endtime := True\<rparr>) = Inr ((), w4)" "as_thread 0 workers_join w4 = Inr ((), w)"
    by (auto simp: short_program_def bnd_Inr simp del: exec_op.simps)
  let ?who = "\<lambda>ph. (\<lambda>t. if 1 \<le> t \<and> t \<le> 1 then Some Fresh else None)(1 \<mapsto> ph)"
  let ?p = "\<lambda>h ph m. \<lparr>heap = h, who = ?who ph, main_at = m\<rparr>"
  have "reachable ?f (?p w1 Idle Working)"
    by (rule reachable_to [OF started_reachable [OF s(1)] pool_step.enter [where t = 1 and w = w1]])
      (use s(2) in auto)
  then have "reachable ?f (?p w2 Idle Working)"
    by (rule reachable_to [OF _ pool_step.client [where x = "Malloc 8 None" and w = w2]])
      (use s(3) in \<open>auto simp del: exec_op.simps\<close>)
  then have "reachable ?f (?p w3 Idle Working)"
    by (rule reachable_to [OF _ pool_step.client [where x = "Dissolve 4232" and w = w3]])
      (use s(4) in \<open>auto simp del: exec_op.simps\<close>)
  then have "reachable ?f (?p w3 Idle (Waiting (zero_broadcasts w3)))"
    by (rule reachable_to [OF _ pool_step.wait]) (use s(5) in auto)
  then have "reachable ?f (?p w3 Idle Closing)"
    by (rule reachable_to [OF _ pool_step.spurious [where z = "zero_broadcasts w3"]]) auto
  then have "reachable ?f (?p (w3\<lparr>endtime := True\<rparr>) Idle Joining)"
    by (rule reachable_to [OF _ pool_step.close]) auto
  then have "reachable ?f (?p w4 Stopped Joining)"
    by (rule reachable_to [OF _ pool_step.stop [where t = 1 and w = w4]]) (use s(6) in auto)
  then have "reachable ?f (?p w Stopped Ended)"
    by (rule reachable_to [OF _ pool_step.join [where w = w]]) (use s(7) in \<open>auto split: if_splits\<close>)
  with w show ?thesis by (intro exI [of _ "?p w Stopped Ended"]) auto
qed

end
