(* ===== verification/Layout.thy ===== *)
theory Layout
  imports Refs
begin

text \<open>
  Invariants that look at which objects there are and at the allocator, but not at what the structs hold. The locale
  \<open>layout_invariant\<close> asks only that the single writes keep them, and gives \<open>heap_invariant\<close>. Its first instance: addresses
  are handed out upwards.
\<close>

locale layout_invariant =
  fixes I :: "world \<Rightarrow> bool"
  assumes grows: "growing I"
    and writes: "hoare I (upd_obj p f) (\<lambda>_. I)" "hoare I (upd_link lk g) (\<lambda>_. I)" "hoare I (upd_sl sl h) (\<lambda>_. I)"
      "hoare I (upd_coll c k') (\<lambda>_. I)" "hoare I (upd_ctr n j) (\<lambda>_. I)"
    and sections: "hoare I (in_table (hashtable_add t k lk)) (\<lambda>_. I)" "hoare I (in_table (hashtable_remove t k)) (\<lambda>_. I)"
      "hoare I idlock_init (\<lambda>_. I)"
    and heaps: "hoare I (modify (\<lambda>w. w\<lparr>colls := f1 w\<rparr>)) (\<lambda>_. I)" "hoare I (modify (\<lambda>w. w\<lparr>ctrs := f2 w\<rparr>)) (\<lambda>_. I)"
      "hoare I (modify (\<lambda>w. w\<lparr>tsks := f4 w\<rparr>)) (\<lambda>_. I)"
    and globals: "hoare I (modify (\<lambda>w. w\<lparr>work := g1 w\<rparr>)) (\<lambda>_. I)" "hoare I (modify (\<lambda>w. w\<lparr>task_count := g2 w\<rparr>)) (\<lambda>_. I)"
      "hoare I (modify (\<lambda>w. w\<lparr>num_collector := g3 w\<rparr>)) (\<lambda>_. I)" "hoare I (modify (\<lambda>w. w\<lparr>dtor_calls := g4 w\<rparr>)) (\<lambda>_. I)"
    and links: "hoare I (link_create q r) (\<lambda>_. I)" "hoare I (link_free lk) (\<lambda>_. I)"
    and creation: "hoare I (bnd (xmalloc sz) object_init) (\<lambda>_. I)"
    and freeing: "hoare I (block [
       bnd (get_obj p) (\<lambda>_. modify (\<lambda>w. w\<lparr>objs := (objs w)(p := None)\<rparr>)),
       modify (\<lambda>w. w\<lparr>acid_collect_count := acid_collect_count w + 1\<rparr>)]) (\<lambda>_. I)"
begin

lemmas steps = hoare_shapes hoare_reads hoare_field_reads hoare_data_of writes sections heaps globals
  growing_locks [OF grows] growing_with_locks [OF grows]

lemma keep_queues:
  "hoare I (safelist_init n) (\<lambda>_. I)" "hoare I (safelist_poll sl) (\<lambda>_. I)" "hoare I (safelist_add sl x) (\<lambda>_. I)"
  "hoare I (safelist_deinit sl) (\<lambda>_. I)" "hoare I (safelist_forward sl e) (\<lambda>_. I)"
  unfolding safelist_init_def safelist_poll_def safelist_forward_def drain_def safelist_add_def safelist_add_once_def
    forward_end_def list_add_to_def safelist_deinit_def counter_ops
  by (rule steps)+

lemma keep_collectors:
  "hoare I (object_set_collector p c) (\<lambda>_. I)" "hoare I collector_create (\<lambda>_. I)"
  "hoare I (collector_merge c d) (\<lambda>_. I)" "hoare I (collector_finish c) (\<lambda>_. I)"
  unfolding object_set_collector_def collector_create_def collector_merge_def collector_forward_safelists_to_def
    collector_finish_def collector_terminate_def collector_destroy_def collector_set_forward_def counter_create_def
    counter_destroy_def counter_ops locker_starts
  by (rule steps keep_queues)+

lemma keep_tables:
  "hoare I (links_add p k lk) (\<lambda>_. I)" "hoare I (links_remove p k lk) (\<lambda>_. I)" "hoare I (links_remove_all p) (\<lambda>_. I)"
  "hoare I (bnd (task_create fn a) task_start) (\<lambda>_. I)"
  unfolding links_add_def links_remove_def links_remove_all_def put_links_def task_create_def task_start_def worker_add_task_def
  by (rule steps)+

lemma keep_del: "hoare I (object_del p) (\<lambda>_. I)"
proof -
  have body: "hoare I (with_locks [LObj p] (block [
         object_set_collector p NULL,
         bnd (links_size p) (\<lambda>n. assertM (n = 0)),
         upd_obj p (\<lambda>ob. ob\<lparr>o_links := None\<rparr>),
         upd_obj p (\<lambda>ob. ob\<lparr>o_magic := 0\<rparr>),
         call_dtor p])) (\<lambda>_. I)"
    unfolding call_dtor_def by (rule steps keep_collectors)+
  have "object_del p = bnd (with_locks [LObj p] (block [
         object_set_collector p NULL,
         bnd (links_size p) (\<lambda>n. assertM (n = 0)),
         upd_obj p (\<lambda>ob. ob\<lparr>o_links := None\<rparr>),
         upd_obj p (\<lambda>ob. ob\<lparr>o_magic := 0\<rparr>),
         call_dtor p])) (\<lambda>_. block [
       bnd (get_obj p) (\<lambda>_. modify (\<lambda>w. w\<lparr>objs := (objs w)(p := None)\<rparr>)),
       modify (\<lambda>w. w\<lparr>acid_collect_count := acid_collect_count w + 1\<rparr>)])"
    by (simp add: object_del_def)
  then show ?thesis using hoare_bnd_same [OF body freeing] by simp
qed

end

sublocale layout_invariant \<subseteq> heap_invariant I
  by unfold_locales
    (rule growing_locks [OF grows] writes links keep_queues keep_collectors keep_tables creation keep_del)+

section \<open>Addresses only grow\<close>

definition above :: "addr \<Rightarrow> world \<Rightarrow> bool" where
  "above a w \<longleftrightarrow> a \<le> next_addr w"

lemma growing_above: "growing (above a)"
  by (simp add: growing_def above_def)

lemma above_keeps: "keeps next_addr m \<Longrightarrow> hoare (above a) m (\<lambda>_. above a)"
  unfolding above_def by (rule keeps_up)

lemma above_writes:
  "hoare (above a) (upd_obj p f) (\<lambda>_. above a)" "hoare (above a) (upd_link lk g) (\<lambda>_. above a)"
  "hoare (above a) (upd_sl sl h) (\<lambda>_. above a)" "hoare (above a) (upd_coll c k) (\<lambda>_. above a)"
  "hoare (above a) (upd_ctr n j) (\<lambda>_. above a)" "hoare (above a) (in_table op) (\<lambda>_. above a)"
  "hoare (above a) idlock_init (\<lambda>_. above a)"
  by (rule above_keeps; auto simp: keeps_def access_Inr in_table_Inr idlock_init_def bnd_Inr)+

lemma above_modify: "(\<And>w. next_addr (f w) = next_addr w) \<Longrightarrow> hoare (above a) (modify f) (\<lambda>_. above a)"
  by (rule above_keeps) (rule keeps_modify)

lemma above_objects:
  "hoare (above a) (bnd (xmalloc sz) object_init) (\<lambda>_. above a)"
  "hoare (above a) (block [
     bnd (get_obj p) (\<lambda>_. modify (\<lambda>w. w\<lparr>objs := (objs w)(p := None)\<rparr>)),
     modify (\<lambda>w. w\<lparr>acid_collect_count := acid_collect_count w + 1\<rparr>)]) (\<lambda>_. above a)"
  "hoare (above a) (link_create s t) (\<lambda>_. above a)" "hoare (above a) (link_free lk) (\<lambda>_. above a)"
  unfolding object_init_def link_create_def link_free_def
  by (rule hoare_shapes hoare_reads above_writes growing_locks [OF growing_above] | rule above_modify, simp)+

interpretation addresses: layout_invariant "above a"
  by unfold_locales
    (rule growing_above above_writes above_objects | rule above_modify, simp)+

end
