(* ===== verification/Census.thy ===== *)
theory Census
  imports Workers Layout
begin

text \<open>
  The two numbers that the program keeps about itself, \<open>acid_world_count\<close> and \<open>acid_collect_count\<close> of
  src/object.c: in every reachable state their difference is the number of objects in memory.
\<close>

section \<open>Counting objects\<close>

definition census :: "world \<Rightarrow> addr set \<times> 64 word \<times> 64 word" where
  "census w = (dom (objs w), acid_world_count w, acid_collect_count w)"

definition counted :: "world \<Rightarrow> bool" where
  "counted w \<longleftrightarrow> 0 < next_addr w \<and> finite (dom (objs w)) \<and> (\<forall>p ob. objs w p = Some ob \<longrightarrow> p < next_addr w) \<and>
     acid_world_count w = acid_collect_count w + of_nat (card (dom (objs w)))"

lemma counted_census:
  assumes "counted w" and "census w' = census w" and "next_addr w \<le> next_addr w'"
  shows "counted w'"
proof -
  have d: "dom (objs w') = dom (objs w)" using assms(2) by (simp add: census_def)
  have "p < next_addr w'" if "objs w' p = Some ob" for p ob
  proof -
    have "p \<in> dom (objs w)" using that unfolding d [symmetric] by blast
    then have "p < next_addr w" using assms(1) by (auto simp: counted_def)
    then show ?thesis using assms(3) by simp
  qed
  then show ?thesis using assms by (auto simp: counted_def census_def)
qed

lemma census_simps [simp]:
  "census (w\<lparr>lnks := a\<rparr>) = census w" "census (w\<lparr>colls := b\<rparr>) = census w" "census (w\<lparr>ctrs := c\<rparr>) = census w"
  "census (w\<lparr>tsks := d\<rparr>) = census w" "census (w\<lparr>next_addr := e\<rparr>) = census w" "census (w\<lparr>mem := f\<rparr>) = census w"
  "census (w\<lparr>id_count := g\<rparr>) = census w" "census (w\<lparr>num_collector := h\<rparr>) = census w"
  "census (w\<lparr>mutexes := i\<rparr>) = census w" "census (w\<lparr>lockers := j\<rparr>) = census w" "census (w\<lparr>self := k\<rparr>) = census w"
  "census (w\<lparr>work := l\<rparr>) = census w" "census (w\<lparr>endtime := m\<rparr>) = census w" "census (w\<lparr>task_count := n\<rparr>) = census w"
  "census (w\<lparr>zero_broadcasts := q\<rparr>) = census w" "census (w\<lparr>dtor_calls := r\<rparr>) = census w"
  by (simp_all add: census_def)

lemma census_bare: "bare w = bare w' \<Longrightarrow> census w' = census w"
  by (cases w; cases w'; simp add: bare_def census_def)

lemma growing_counted: "growing counted"
  by (auto simp: growing_def intro: counted_census census_bare)

lemma counted_frame:
  assumes "keeps census m" and "keeps next_addr m"
  shows "hoare counted m (\<lambda>_. counted)"
proof (rule hoareI)
  fix w x w' assume ok: "counted w" and run: "m w = Inr (x, w')"
  show "counted w'"
    by (rule counted_census [OF ok]) (use keepsD [OF assms(1) run] keepsD [OF assms(2) run] in simp_all)
qed

lemma counted_writes:
  "hoare counted (upd_obj p f) (\<lambda>_. counted)" "hoare counted (upd_link lk g) (\<lambda>_. counted)"
  "hoare counted (upd_sl sl h) (\<lambda>_. counted)" "hoare counted (upd_coll c k) (\<lambda>_. counted)"
  "hoare counted (upd_ctr n j) (\<lambda>_. counted)" "hoare counted (in_table op) (\<lambda>_. counted)"
  "hoare counted idlock_init (\<lambda>_. counted)"
  by (rule counted_frame;
      auto simp: keeps_def access_Inr in_table_Inr idlock_init_def bnd_Inr; auto simp: census_def)+

lemma counted_modify:
  "(\<And>w. census (f w) = census w \<and> next_addr (f w) = next_addr w) \<Longrightarrow> hoare counted (modify f) (\<lambda>_. counted)"
  by (rule counted_frame) (auto intro: keeps_modify)

lemma counted_modifies:
  "hoare counted (modify (\<lambda>w. w\<lparr>colls := a w\<rparr>)) (\<lambda>_. counted)" "hoare counted (modify (\<lambda>w. w\<lparr>ctrs := b w\<rparr>)) (\<lambda>_. counted)"
  "hoare counted (modify (\<lambda>w. w\<lparr>lnks := c w\<rparr>)) (\<lambda>_. counted)" "hoare counted (modify (\<lambda>w. w\<lparr>tsks := d w\<rparr>)) (\<lambda>_. counted)"
  "hoare counted (modify (\<lambda>w. w\<lparr>work := e w\<rparr>)) (\<lambda>_. counted)"
  "hoare counted (modify (\<lambda>w. w\<lparr>task_count := g w\<rparr>)) (\<lambda>_. counted)"
  "hoare counted (modify (\<lambda>w. w\<lparr>num_collector := h w\<rparr>)) (\<lambda>_. counted)"
  "hoare counted (modify (\<lambda>w. w\<lparr>dtor_calls := i w\<rparr>)) (\<lambda>_. counted)"
  by (rule counted_modify, simp)+

text \<open>\<open>object_init\<close> puts an object where none was, \<open>object_del\<close> takes one away, and each moves its number.\<close>

lemma counted_new: "hoare counted (bnd (xmalloc sz) object_init) (\<lambda>_. counted)"
proof (rule hoareI)
  fix w q w' assume ok: "counted w" and "bnd (xmalloc sz) object_init w = Inr (q, w')"
  then obtain p w1 where m: "xmalloc sz w = Inr (p, w1)" and run: "object_init p w1 = Inr (q, w')"
    by (auto simp: bnd_Inr)
  have c1: "counted w1" by (rule hoareD [OF growing_locks(3) [OF growing_counted] ok m])
  have "keeps (\<lambda>w. dom (objs w)) (xmalloc sz)" by (rule keeps_xmalloc) simp
  from keepsD [OF this m] have d: "dom (objs w1) = dom (objs w)" .
  have f: "next_addr w \<le> p" "p < next_addr w1"
    using hoareD [OF xmalloc_fresh [of "next_addr w"] _ m] ok by (auto simp: counted_def)
  then have "p \<notin> dom (objs w1)" using ok d by (auto simp: counted_def)
  moreover from object_init_Inr [OF run] obtain ob k where "w' = w1\<lparr>mem := k, id_count := id_count w1 + 1,
      objs := (objs w1)(p \<mapsto> ob), acid_world_count := acid_world_count w1 + 1\<rparr>" by blast
  ultimately show "counted w'" using c1 f(2) by (auto simp: counted_def)
qed

lemma counted_free:
  "hoare counted (block [
     bnd (get_obj p) (\<lambda>_. modify (\<lambda>w. w\<lparr>objs := (objs w)(p := None)\<rparr>)),
     modify (\<lambda>w. w\<lparr>acid_collect_count := acid_collect_count w + 1\<rparr>)]) (\<lambda>_. counted)"
proof (rule hoareI)
  fix w x w' assume ok: "counted w"
  assume "block [
     bnd (get_obj p) (\<lambda>_. modify (\<lambda>w. w\<lparr>objs := (objs w)(p := None)\<rparr>)),
     modify (\<lambda>w. w\<lparr>acid_collect_count := acid_collect_count w + 1\<rparr>)] w = Inr (x, w')"
  then obtain ob where p: "objs w p = Some ob"
    and w': "w' = w\<lparr>objs := (objs w)(p := None), acid_collect_count := acid_collect_count w + 1\<rparr>"
    by (auto simp: bnd_Inr access_Inr)
  have fin: "finite (dom (objs w))" using ok by (simp add: counted_def)
  have d: "dom (objs w') = dom (objs w) - {p}" using w' by auto
  have "card (dom (objs w)) = Suc (card (dom (objs w')))"
    unfolding d using fin p by (intro card.remove [THEN trans]) auto
  then have "(of_nat (card (dom (objs w))) :: 64 word) = of_nat (card (dom (objs w'))) + 1" by simp
  moreover have "next_addr w' = next_addr w" "acid_world_count w' = acid_world_count w"
    "acid_collect_count w' = acid_collect_count w + 1" using w' by simp_all
  moreover have "q < next_addr w" if "objs w' q = Some b" for q b
    using that ok w' by (auto simp: counted_def split: if_splits)
  ultimately show "counted w'" using ok fin d by (simp add: counted_def)
qed

lemma counted_links: "hoare counted (link_create s t) (\<lambda>_. counted)" "hoare counted (link_free lk) (\<lambda>_. counted)"
  unfolding link_create_def link_free_def
  by (rule hoare_shapes hoare_reads growing_locks [OF growing_counted] counted_modifies)+

interpretation layout: layout_invariant counted
  by unfold_locales
    (rule growing_counted counted_writes counted_modifies counted_links counted_new counted_free)+

interpretation numbers: pool_invariant counted
  by unfold_locales
    (rule growing_locks(4) [OF growing_counted] | simp add: counted_def boot_def)+

section \<open>Properties\<close>

text \<open>C10: In every state that the threads can reach, the number of objects created less the number of those collected is the number of
  objects in memory (modulo $2^{64}$): no object is lost or freed twice without these two numbers showing it.\<close>

theorem reachable_census:
  assumes "reachable f p"
  shows "finite (dom (objs (heap p))) \<and>
    acid_world_count (heap p) - acid_collect_count (heap p) = of_nat (card (dom (objs (heap p))))"
  using numbers.reachable_keeps [OF assms] by (simp add: counted_def)

theorem reachable_census_witness:
  "\<exists>p. reachable (\<lambda>_. None) p \<and> acid_world_count (heap p) - acid_collect_count (heap p) = of_nat (card (dom (objs (heap p))))"
proof -
  obtain w where w: "acid_start 2 (boot 9) = Inr ((), w)" using started_pool by blast
  from reachable_census [OF started_reachable [OF w]] started_reachable [OF w] show ?thesis by blast
qed

end
