(* ===== verification/Examples.thy ===== *)
theory Examples
  imports Census
begin

text \<open>
  The programs of examples/main.c, clients of the library. A client has the pointers that are stored in its own
  structs (\<open>cells\<close>), and runs beside one worker: \<open>turns\<close> says how many rounds the worker makes before each call of the
  library. Local variables are the variables of the definitions, and a variable with the cleanup attribute is
  dissolved where its scope ends, the last one first. Printing and timing are left out, and the sizes that main.c
  fixes are parameters.
\<close>

section \<open>A client and a worker\<close>

record client =
  lib :: world
  cells :: "addr \<Rightarrow> key \<Rightarrow> addr"
  turns :: "nat list"

type_synonym 'a C = "(client, 'a) M"

definition in_lib :: "'a W \<Rightarrow> 'a C" where
  "in_lib = zoom lib (\<lambda>w c. c\<lparr>lib := w\<rparr>)"

primrec rounds :: "nat \<Rightarrow> unit W" where
  "rounds 0 = ret ()"
| "rounds (Suc n) = bnd (as_thread 1 worker_pass) (\<lambda>_. rounds n)"

definition call :: "'a W \<Rightarrow> 'a C" where
  "call m =
     bnd (gets turns) (\<lambda>ts.
     case ts of
       [] \<Rightarrow> in_lib (as_thread 0 m)
     | k # ks \<Rightarrow>
         bnd (modify (\<lambda>c. c\<lparr>turns := ks\<rparr>)) (\<lambda>_.
         bnd (in_lib (rounds k)) (\<lambda>_.
         in_lib (as_thread 0 m))))"

text \<open>All pointers that the programs hand over are to objects: to read before any other memory is an error.\<close>

definition no_foreign :: memory where
  "no_foreign a = None"

definition set_field :: "addr \<Rightarrow> key \<Rightarrow> addr \<Rightarrow> unit C" where
  "set_field var field val =
     bnd (call (acid_set_field no_foreign var field val)) (\<lambda>v.
     modify (\<lambda>c. c\<lparr>cells := (cells c)(var := (cells c var)(field := v))\<rparr>))"

definition get_field :: "addr \<Rightarrow> key \<Rightarrow> addr C" where
  "get_field var field = gets (\<lambda>c. cells c var field)"

definition write_field :: "addr \<Rightarrow> key \<Rightarrow> addr \<Rightarrow> unit C" where
  "write_field var field val = modify (\<lambda>c. c\<lparr>cells := (cells c)(var := (cells c var)(field := val))\<rparr>)"

definition new :: "64 word \<Rightarrow> addr C" where
  "new n = call (acid_malloc n)"

definition set_var :: "addr \<Rightarrow> addr \<Rightarrow> addr C" where
  "set_var var val = call (acid_set_raw no_foreign var val)"

definition dissolve :: "addr \<Rightarrow> unit C" where
  "dissolve p = call (acid_dissolve p)"

definition cleanup :: "addr \<Rightarrow> unit C" where
  "cleanup var = call (acid_dissolve_cleanup var)"

definition set_object :: "addr \<Rightarrow> key \<Rightarrow> addr \<Rightarrow> unit C" where
  "set_object a k b = call (object_set (acid_get_header a) k (acid_get_header b))"

section \<open>The programs\<close>

definition test1 :: "unit C" where
  "test1 = bnd (new 4) (\<lambda>i. block [write_field i 0 42, cleanup i])"

definition simplecycle :: "unit C" where
  "simplecycle =
     bnd (new 16) (\<lambda>a.
     bnd (new 16) (\<lambda>b. block [
       set_field a 0 b,
       set_field b 0 a,
       set_field a 8 a,
       cleanup b,
       cleanup a]))"

definition simplecycle2 :: "unit C" where
  "simplecycle2 =
     bnd (new 16) (\<lambda>a.
     bnd (new 16) (\<lambda>b. block [
       set_field a 0 b,
       set_field b 0 a,
       dissolve b,
       set_field a 8 NULL,
       dissolve a]))"

primrec wheel_from :: "nat \<Rightarrow> nat \<Rightarrow> addr \<Rightarrow> addr \<Rightarrow> addr C" where
  "wheel_from 0 n wheel prev = ret prev"
| "wheel_from (Suc k) n wheel prev =
     bnd (new 8) (\<lambda>x.
     bnd (set_field prev 0 x) (\<lambda>_.
     bnd (set_var prev x) (\<lambda>prev.
     bnd (whenM (n - k = n) (set_field x 0 wheel)) (\<lambda>_.
     bnd (cleanup x) (\<lambda>_.
     wheel_from k n wheel prev)))))"

definition wheel :: "nat \<Rightarrow> unit C" where
  "wheel n =
     bnd (new 8) (\<lambda>wheel.
     bnd (set_var NULL wheel) (\<lambda>prev.
     bnd (wheel_from (n + 1) n wheel prev) (\<lambda>prev. block [
       dissolve prev,
       dissolve wheel])))"

primrec chain_on :: "nat \<Rightarrow> addr \<Rightarrow> addr C" where
  "chain_on 0 prev = ret prev"
| "chain_on (Suc k) prev =
     bnd (new 8) (\<lambda>x.
     bnd (set_field prev 0 x) (\<lambda>_.
     bnd (set_var prev x) (\<lambda>prev.
     bnd (cleanup x) (\<lambda>_.
     chain_on k prev))))"

definition multi_collect :: "nat \<Rightarrow> nat \<Rightarrow> unit C" where
  "multi_collect n nt =
     bnd (new 8) (\<lambda>a1.
     bnd (set_var NULL a1) (\<lambda>prev.
     bnd (chain_on (n + 1) prev) (\<lambda>prev.
     bnd (new 8) (\<lambda>a2.
     bnd (set_var NULL a2) (\<lambda>prev2.
     bnd (chain_on (nt + 1) prev2) (\<lambda>prev2. block [
       set_object prev 600 a2,
       set_object prev 800 a1,
       dissolve a1,
       dissolve a2,
       cleanup prev2,
       cleanup prev]))))))"

primrec new_n :: "nat \<Rightarrow> 64 word \<Rightarrow> addr list C" where
  "new_n 0 bytes = ret []"
| "new_n (Suc k) bytes = bnd (new bytes) (\<lambda>p. bnd (new_n k bytes) (\<lambda>ps. ret (p # ps)))"

definition clique :: "nat \<Rightarrow> unit C" where
  "clique edge_count =
     bnd (new_n edge_count (8 * of_nat edge_count)) (\<lambda>a. block [
       forM [0..<edge_count] (\<lambda>i. forM [0..<edge_count] (\<lambda>j.
         whenM (i \<noteq> j) (set_field (a ! i) (8 * of_nat j) (a ! j)))),
       forM (rev [0..<edge_count]) (\<lambda>i. dissolve (a ! i))])"

primrec new_rings :: "nat \<Rightarrow> addr list list C" where
  "new_rings 0 = ret []"
| "new_rings (Suc k) = bnd (new_n 6 8) (\<lambda>r. bnd (new_rings k) (\<lambda>rs. ret (r # rs)))"

definition benzene_rings :: "nat \<Rightarrow> unit C" where
  "benzene_rings n =
     bnd (new_rings n) (\<lambda>a. block [
       forM [0..<n] (\<lambda>i. forM [0..<6] (\<lambda>j. set_field (a ! i ! j) 0 (a ! i ! ((j + 1) mod 6)))),
       forM [0..<n - 1] (\<lambda>i. set_object (a ! i ! 1) 400 (a ! (i + 1) ! 5)),
       forM (rev [1..<n]) (\<lambda>i. set_object (a ! i ! 4) 800 (a ! (i - 1) ! 2)),
       forM [0..<n] (\<lambda>i. forM [1..<6] (\<lambda>j. dissolve (a ! i ! j))),
       forM [0..<n] (\<lambda>i. dissolve (a ! i ! 0))])"

definition benzene_ring_scalability :: "nat \<Rightarrow> unit C" where
  "benzene_ring_scalability k = benzene_rings (k * 16)"

text \<open>Offsets 8 and 16 are \<open>prev\<close> and \<open>next\<close>. The first argument bounds the recursion.\<close>

primrec dlink :: "nat \<Rightarrow> addr \<Rightarrow> int \<Rightarrow> addr C" where
  "dlink 0 ob n = fail Out_of_fuel"
| "dlink (Suc k) ob n =
     bnd (new 24) (\<lambda>a.
     bnd (block [write_field a 8 NULL, write_field a 16 NULL]) (\<lambda>_.
     let deeper = bnd (dlink k a (n - 1)) (\<lambda>b. bnd (dissolve a) (\<lambda>_. ret b)) in
     if ob \<noteq> NULL then
       bnd (block [set_field ob 16 a, set_field a 8 ob]) (\<lambda>_.
       if n = 0 then ret a else deeper)
     else deeper))"

primrec walk_back :: "nat \<Rightarrow> addr \<Rightarrow> addr C" where
  "walk_back 0 dl = fail Out_of_fuel"
| "walk_back (Suc k) dl =
     bnd (get_field dl 8) (\<lambda>ob.
     if ob = NULL then ret dl
     else bnd (set_var dl ob) (\<lambda>dl. walk_back k dl))"

definition doubly_linked_list :: "nat \<Rightarrow> unit C" where
  "doubly_linked_list n =
     bnd (dlink (n + 1) NULL (int n)) (\<lambda>dl.
     bnd (walk_back (n + 1) dl) (\<lambda>dl.
     dissolve dl))"

primrec slist_from :: "nat \<Rightarrow> addr \<Rightarrow> unit C" where
  "slist_from 0 cur = ret ()"
| "slist_from (Suc k) cur =
     bnd (new 8) (\<lambda>next.
     bnd (set_field cur 0 next) (\<lambda>_.
     bnd (get_field cur 0) (\<lambda>cur.
     bnd (cleanup next) (\<lambda>_.
     slist_from k cur))))"

definition slist_create :: "nat \<Rightarrow> unit C" where
  "slist_create n = bnd (new 8) (\<lambda>front. block [slist_from n front, cleanup front])"

section \<open>Runs\<close>

text \<open>\<open>task_wait_for_zero_threads\<close> beside a worker: rounds of the worker until no task is left, at most \<open>n\<close>.\<close>

primrec wait_for_zero :: "nat \<Rightarrow> unit W" where
  "wait_for_zero 0 = fail Out_of_fuel"
| "wait_for_zero (Suc n) =
     bnd (gets task_count) (\<lambda>k.
     if k = 0 then ret () else bnd (as_thread 1 worker_pass) (\<lambda>_. wait_for_zero n))"

definition main_with :: "nat \<Rightarrow> unit C list \<Rightarrow> nat \<Rightarrow> unit C" where
  "main_with n programs scale = block [
     in_lib (acid_start 1),
     in_lib (as_thread 1 locker_setup),
     block programs,
     in_lib (wait_for_zero n),
     benzene_ring_scalability scale,
     in_lib (wait_for_zero n),
     in_lib (as_thread 0 acid_stop)]"

definition main :: "nat \<Rightarrow> unit C" where
  "main n = main_with n [test1, slist_create 10, simplecycle, simplecycle2, wheel 499, doubly_linked_list 30,
     multi_collect 6 6, clique 9] 2048"

definition client_start :: "nat \<Rightarrow> nat list \<Rightarrow> client" where
  "client_start k ts = \<lparr>lib = boot k, cells = (\<lambda>_ _. NULL), turns = ts\<rparr>"

text \<open>The programs with their sizes as data.\<close>

datatype program =
    Test1 | Slist_create nat | Simplecycle | Simplecycle2 | Wheel nat | Doubly_linked_list nat
  | Multi_collect nat nat | Clique nat | Benzene_ring_scalability nat

fun run_program :: "program \<Rightarrow> unit C" where
  "run_program Test1 = test1"
| "run_program (Slist_create n) = slist_create n"
| "run_program Simplecycle = simplecycle"
| "run_program Simplecycle2 = simplecycle2"
| "run_program (Wheel n) = wheel n"
| "run_program (Doubly_linked_list n) = doubly_linked_list n"
| "run_program (Multi_collect n m) = multi_collect n m"
| "run_program (Clique n) = clique n"
| "run_program (Benzene_ring_scalability n) = benzene_ring_scalability n"

section \<open>Invariants of whole programs\<close>

lemma wait_for_zero_done: "wait_for_zero n w = Inr (u, w') \<Longrightarrow> task_count w' = 0"
  by (induction n arbitrary: w) (auto simp: bnd_Inr split: if_splits)

text \<open>An invariant that survives every call that the programs make.\<close>

locale call_invariant =
  fixes J :: "world \<Rightarrow> bool"
  assumes malloc: "J w \<Longrightarrow> as_thread t (acid_malloc n) w = Inr (a, w') \<Longrightarrow> J w'"
    and set_raw: "J w \<Longrightarrow> as_thread t (acid_set_raw f x y) w = Inr (a, w') \<Longrightarrow> J w'"
    and set_field: "J w \<Longrightarrow> as_thread t (acid_set_field f x k y) w = Inr (a, w') \<Longrightarrow> J w'"
    and dissolve: "J w \<Longrightarrow> as_thread t (acid_dissolve x) w = Inr (u, w') \<Longrightarrow> J w'"
    and object_set: "J w \<Longrightarrow> as_thread t (object_set p k q) w = Inr (u, w') \<Longrightarrow> J w'"
    and pass: "J w \<Longrightarrow> as_thread t worker_pass w = Inr (u, w') \<Longrightarrow> J w'"
begin

lemma keep_rounds: "J w \<Longrightarrow> rounds k w = Inr ((), w') \<Longrightarrow> J w'"
  by (induction k arbitrary: w) (auto simp: bnd_Inr intro: pass)

lemma keep_call:
  assumes m: "\<And>w a w'. J w \<Longrightarrow> as_thread 0 m w = Inr (a, w') \<Longrightarrow> J w'"
  shows "hoare (\<lambda>c. J (lib c)) (call m) (\<lambda>_ c. J (lib c))"
proof (rule hoareI)
  fix c a c' assume j: "J (lib c)" and run: "call m c = Inr (a, c')"
  show "J (lib c')"
  proof (cases "turns c")
    case Nil
    then show ?thesis using run j by (auto simp: call_def bnd_Inr in_lib_def zoom_Inr intro: m)
  next
    case (Cons k ks)
    with run obtain w where "rounds k (lib c) = Inr ((), w)" "as_thread 0 m w = Inr (a, lib c')"
      by (auto simp: call_def bnd_Inr in_lib_def zoom_Inr)
    then show ?thesis using keep_rounds [OF j] m by blast
  qed
qed

lemma keep_client:
  "hoare (\<lambda>c. J (lib c)) (new n) (\<lambda>_ c. J (lib c))" "hoare (\<lambda>c. J (lib c)) (set_var x y) (\<lambda>_ c. J (lib c))"
  "hoare (\<lambda>c. J (lib c)) (dissolve x) (\<lambda>_ c. J (lib c))" "hoare (\<lambda>c. J (lib c)) (cleanup x) (\<lambda>_ c. J (lib c))"
  "hoare (\<lambda>c. J (lib c)) (set_object p k q) (\<lambda>_ c. J (lib c))" "hoare (\<lambda>c. J (lib c)) (write_field x k y) (\<lambda>_ c. J (lib c))"
  "hoare (\<lambda>c. J (lib c)) (get_field x k) (\<lambda>_ c. J (lib c))"
  unfolding new_def set_var_def dissolve_def cleanup_def set_object_def write_field_def get_field_def
    acid_dissolve_cleanup_def
  by ((rule keep_call, erule malloc set_raw dissolve object_set, assumption) | simp add: hoare_def)+

lemma keep_set_field: "hoare (\<lambda>c. J (lib c)) (Examples.set_field x k y) (\<lambda>_ c. J (lib c))"
  unfolding set_field_def
  by (rule hoare_bnd_same [OF keep_call]) (erule set_field, assumption, simp add: hoare_def)

lemmas client_steps = hoare_shapes hoare_let keep_client keep_set_field

lemma keep_loops:
  "hoare (\<lambda>c. J (lib c)) (wheel_from k n x y) (\<lambda>_ c. J (lib c))" "hoare (\<lambda>c. J (lib c)) (chain_on k x) (\<lambda>_ c. J (lib c))"
  "hoare (\<lambda>c. J (lib c)) (new_n k b) (\<lambda>_ c. J (lib c))" "hoare (\<lambda>c. J (lib c)) (dlink k x i) (\<lambda>_ c. J (lib c))"
  "hoare (\<lambda>c. J (lib c)) (walk_back k x) (\<lambda>_ c. J (lib c))" "hoare (\<lambda>c. J (lib c)) (slist_from k x) (\<lambda>_ c. J (lib c))"
proof -
  show "hoare (\<lambda>c. J (lib c)) (wheel_from k n x y) (\<lambda>_ c. J (lib c))"
    by (induction k arbitrary: y) (simp_all, (rule client_steps | assumption)+)
  show "hoare (\<lambda>c. J (lib c)) (chain_on k x) (\<lambda>_ c. J (lib c))"
    by (induction k arbitrary: x) (simp_all, (rule client_steps | assumption)+)
  show "hoare (\<lambda>c. J (lib c)) (new_n k b) (\<lambda>_ c. J (lib c))"
    by (induction k) (simp_all, (rule client_steps | assumption)+)
  show "hoare (\<lambda>c. J (lib c)) (dlink k x i) (\<lambda>_ c. J (lib c))"
    by (induction k arbitrary: x i) (simp_all add: Let_def, (rule client_steps | assumption)+)
  show "hoare (\<lambda>c. J (lib c)) (walk_back k x) (\<lambda>_ c. J (lib c))"
    by (induction k arbitrary: x) (simp_all, (rule client_steps | assumption)+)
  show "hoare (\<lambda>c. J (lib c)) (slist_from k x) (\<lambda>_ c. J (lib c))"
    by (induction k arbitrary: x) (simp_all, (rule client_steps | assumption)+)
qed

lemma keep_new_rings: "hoare (\<lambda>c. J (lib c)) (new_rings n) (\<lambda>_ c. J (lib c))"
  by (induction n) (simp_all, (rule client_steps keep_loops | assumption)+)

lemma keep_programs:
  "hoare (\<lambda>c. J (lib c)) test1 (\<lambda>_ c. J (lib c))" "hoare (\<lambda>c. J (lib c)) simplecycle (\<lambda>_ c. J (lib c))"
  "hoare (\<lambda>c. J (lib c)) simplecycle2 (\<lambda>_ c. J (lib c))" "hoare (\<lambda>c. J (lib c)) (wheel n) (\<lambda>_ c. J (lib c))"
  "hoare (\<lambda>c. J (lib c)) (multi_collect n m) (\<lambda>_ c. J (lib c))" "hoare (\<lambda>c. J (lib c)) (clique n) (\<lambda>_ c. J (lib c))"
  "hoare (\<lambda>c. J (lib c)) (benzene_ring_scalability n) (\<lambda>_ c. J (lib c))"
  "hoare (\<lambda>c. J (lib c)) (doubly_linked_list n) (\<lambda>_ c. J (lib c))"
  "hoare (\<lambda>c. J (lib c)) (slist_create n) (\<lambda>_ c. J (lib c))"
  unfolding test1_def simplecycle_def simplecycle2_def wheel_def multi_collect_def clique_def
    benzene_ring_scalability_def benzene_rings_def doubly_linked_list_def slist_create_def
  by (rule client_steps keep_loops keep_new_rings)+

lemma keep_run_program: "hoare (\<lambda>c. J (lib c)) (run_program p) (\<lambda>_ c. J (lib c))"
  by (cases p) (simp_all add: keep_programs)

lemma keep_all: "hoare (\<lambda>c. J (lib c)) (block (map run_program ps)) (\<lambda>_ c. J (lib c))"
  by (induction ps) (simp_all, (rule client_steps keep_run_program | assumption)+)

lemma keep_wait: "J w \<Longrightarrow> wait_for_zero n w = Inr (u, w') \<Longrightarrow> J w'"
  by (induction n arbitrary: w) (auto simp: bnd_Inr split: if_splits intro: pass)

lemma keep_until_stop:
  assumes "main_with n (map run_program ps) scale (client_start k ts) = Inr (u, c')"
    and start: "\<And>w. acid_start 1 (boot k) = Inr ((), w) \<Longrightarrow> J w"
    and prepare: "\<And>w w'. J w \<Longrightarrow> as_thread 1 locker_setup w = Inr ((), w') \<Longrightarrow> J w'"
  shows "\<exists>w. J w \<and> task_count w = 0 \<and> as_thread 0 acid_stop w = Inr ((), lib c')"
proof -
  from assms(1) obtain w1 w2 c3 w4 c5 w6 w7 where
    s: "acid_start 1 (boot k) = Inr ((), w1)" "as_thread 1 locker_setup w1 = Inr ((), w2)"
    and p: "block (map run_program ps) ((client_start k ts)\<lparr>lib := w2\<rparr>) = Inr ((), c3)"
    and w4: "wait_for_zero n (lib c3) = Inr ((), w4)"
    and b: "benzene_ring_scalability scale (c3\<lparr>lib := w4\<rparr>) = Inr ((), c5)"
    and w6: "wait_for_zero n (lib c5) = Inr ((), w6)" "as_thread 0 acid_stop w6 = Inr ((), w7)" "lib c' = w7"
    by (auto simp: main_with_def client_start_def in_lib_def zoom_Inr bnd_Inr)
  have "J w2" using prepare [OF start [OF s(1)] s(2)] .
  then have "J (lib c3)" using hoareD [OF keep_all _ p] by simp
  then have "J w4" by (rule keep_wait [OF _ w4])
  then have "J (lib c5)" using hoareD [OF keep_programs(7) _ b] by simp
  then have "J w6" by (rule keep_wait [OF _ w6(1)])
  then show ?thesis using w6(2,3) wait_for_zero_done [OF w6(1)] by blast
qed

end

sublocale pool_invariant \<subseteq> calls: call_invariant I
proof
  show "I w \<Longrightarrow> as_thread t (object_set p k q) w = Inr (u, w') \<Longrightarrow> I w'" for w t p k q u w'
    by (rule keep_as_thread [OF keep_object_set])
qed (erule (1) keep_as_thread [OF keep_acid(1)] keep_as_thread [OF keep_acid(4)] keep_as_thread [OF keep_acid(5)]
    keep_as_thread [OF keep_acid(3)] keep_as_thread [OF keep_worker_pass])+

context pool_invariant
begin

lemma keep_stop: "hoare I acid_stop (\<lambda>_. I)"
proof -
  have e: "hoare I (modify (\<lambda>w. w\<lparr>endtime := b\<rparr>)) (\<lambda>_. I)" for b
    by (rule hoare_modify) (simp add: not_scheduling)
  show ?thesis
    unfolding acid_stop_def acid_stop_nonblocking_def task_wait_for_zero_threads_def task_get_running_count_def
      workers_teardown_def
    by (rule inv_steps keep_thread_ops e | assumption)+
qed

lemma keep_examples:
  assumes "main_with n (map run_program ps) scale (client_start k ts) = Inr (u, c)"
  shows "I (lib c)"
proof -
  have "\<exists>w. I w \<and> task_count w = 0 \<and> as_thread 0 acid_stop w = Inr ((), lib c)"
    by (rule calls.keep_until_stop [OF assms]) (erule keep_start, rule keep_as_thread [OF keep_thread_ops(1)])
  then obtain w where "I w" "as_thread 0 acid_stop w = Inr ((), lib c)" by blast
  then show ?thesis using keep_as_thread [OF keep_stop] by blast
qed

end

section \<open>Locks and tasks at the end\<close>

definition unlocked :: "world \<Rightarrow> bool" where
  "unlocked w \<longleftrightarrow> mem w = [] \<and> 0 < next_addr w \<and> mutexes w = (\<lambda>_. None)"

lemma balanced_unlocked:
  assumes "balanced m" and "unlocked w" and "as_thread t m w = Inr (x, w')"
  shows "unlocked w'"
proof -
  have "at_locks t (mutexes w, lockers w) (w\<lparr>self := t\<rparr>)" using assms(2) by (simp add: unlocked_def at_locks_def)
  from hoareD [OF balanced_at [OF assms(1)] this assms(3) [unfolded as_thread_def]] assms(2)
  show ?thesis by (simp add: unlocked_def at_locks_def)
qed

lemma unlocked_ends:
  "acid_start n (boot k) = Inr ((), w) \<Longrightarrow> unlocked w"
  "unlocked v \<Longrightarrow> as_thread t locker_setup v = Inr ((), w) \<Longrightarrow> unlocked w"
  "unlocked v \<Longrightarrow> task_count v = 0 \<Longrightarrow> as_thread t acid_stop v = Inr ((), w) \<Longrightarrow> unlocked w \<and> work w = None \<and> task_count w = 0 \<and> lockers w t = None"
  by (auto simp: unlocked_def as_thread_def acid_start_def locker_setup_def locker_create_def workers_setup_def boot_def bnd_Inr
      xmalloc_Nil calloc_ok_Inr sizeof_locker_def sizeof_pointer_def acid_stop_def acid_stop_nonblocking_def
      task_wait_for_zero_threads_def task_get_running_count_def workers_teardown_def workers_join_def locker_teardown_def
      stack_of_def split: option.splits if_splits)

lemma balanced_worker_pass: "balanced worker_pass"
  unfolding worker_pass_def by (rule balancedI, (rule lock_hoare balanced_task_run [THEN balanced_at])+)

interpretation free_mutexes: call_invariant unlocked
  by unfold_locales (rule balanced_unlocked [rotated], assumption, assumption, rule balanced_acid balanced_access balanced_worker_pass)+

section \<open>Properties\<close>

text \<open>However many rounds the worker makes before each call, when a list of the programs has run to its end as \<open>main\<close> runs
  them, followed by \<open>acid_stop\<close>, the queue is gone, no task is left, every mutex is free, the books of collectors and tables are in order and
  the two numbers that \<open>main\<close> prints differ by the number of objects left: if they are equal, nothing has leaked.\<close>

lemma examples_end_clean:
  assumes "main_with n (map run_program ps) scale (client_start k ts) = Inr (u, c)"
  shows "work (lib c) = None \<and> task_count (lib c) = 0 \<and> lockers (lib c) 0 = None \<and> mutexes (lib c) = (\<lambda>_. None) \<and>
    refs_ok (lib c) \<and> tables_ok (lib c) \<and>
    acid_world_count (lib c) - acid_collect_count (lib c) = of_nat (card (dom (objs (lib c)))) \<and>
    (acid_world_count (lib c) = acid_collect_count (lib c) \<and> card (dom (objs (lib c))) < 2 ^ 64 \<longrightarrow> objs (lib c) = Map.empty)"
proof -
  let ?w = "lib c"
  have cn: "counted ?w" by (rule numbers.keep_examples [OF assms])
  have "\<exists>w. unlocked w \<and> task_count w = 0 \<and> as_thread 0 acid_stop w = Inr ((), ?w)"
    by (rule free_mutexes.keep_until_stop [OF assms]) (erule unlocked_ends(1), rule unlocked_ends(2))
  then have u: "unlocked ?w \<and> work ?w = None \<and> task_count ?w = 0 \<and> lockers ?w 0 = None" using unlocked_ends(3) by blast
  have "objs ?w = Map.empty" if "acid_world_count ?w = acid_collect_count ?w" "card (dom (objs ?w)) < 2 ^ 64"
  proof -
    have "(of_nat (card (dom (objs ?w))) :: 64 word) = 0" using cn that(1) by (simp add: counted_def)
    then have "unat (of_nat (card (dom (objs ?w))) :: 64 word) = 0" by simp
    then have "card (dom (objs ?w)) = 0" using that(2) by (simp add: unat_of_nat)
    then show ?thesis using cn by (simp add: counted_def)
  qed
  then show ?thesis
    using u cn pool_refs.keep_examples [OF assms] pool_tables.keep_examples [OF assms] by (auto simp: unlocked_def counted_def)
qed

end
