(* ===== verification/Effects.thy ===== *)
theory Effects
  imports Accounts
begin

text \<open>
  What the operations on objects do when they run undisturbed, as total correctness: they return, and the memory
  afterwards is the given function of the memory before (\<open>erase\<close> leaves out locks and the next free address).
\<close>

section \<open>The end of a chain of collectors\<close>

fun fchain :: "world \<Rightarrow> addr \<Rightarrow> nat \<Rightarrow> addr \<Rightarrow> bool" where
  "fchain v c 0 e \<longleftrightarrow> c = e \<and> (\<exists>k. colls v c = Some k \<and> co_forward k = NULL)"
| "fchain v c (Suc n) e \<longleftrightarrow>
     (\<exists>k. colls v c = Some k \<and> co_forward k \<noteq> NULL \<and> fchain v (co_forward k) n e)"

definition update_round :: "addr \<Rightarrow> (addr + addr) W" where
  "update_round c =
     with_locks [LColl c] (bnd (coll_forward c) (\<lambda>f. if f = NULL then ret (Inr c) else ret (Inl f)))"

lemma update_round_runs:
  assumes "colls v c = Some k"
  shows "runs (\<lambda>w. erase w = v) (update_round c)
    (\<lambda>r w. r = (if co_forward k = NULL then Inr c else Inl (co_forward k)) \<and> erase w = v)"
  unfolding update_round_def
proof (rule runs_with_locks [OF _ _ runs_step], goal_cases)
  case (3 w)
  then show ?case using assms
    by (auto simp: bnd_def coll_forward_def get_coll_def ret_def simp flip: 3(1))
qed (use assms in auto)

lemma collector_update_runs:
  assumes "fchain v c n e" and "n < fuel v"
  shows "runs (\<lambda>w. erase w = v) (collector_update c) (\<lambda>x w. x = e \<and> erase w = v)"
proof -
  have "runs (\<lambda>w. erase w = v) (loopM m update_round c) (\<lambda>x w. x = e \<and> erase w = v)"
    if "fchain v c n e" "n < m" for m
    using that
  proof (induction n arbitrary: c m)
    case 0
    then obtain k j where k: "colls v c = Some k" "co_forward k = NULL" "c = e" and m: "m = Suc j"
      by (cases m) auto
    show ?case
      unfolding m loopM.simps
      by (rule runs_bnd_eq [OF update_round_runs [OF k(1)]]) (use k in \<open>auto intro: runs_ret\<close>)
  next
    case (Suc n)
    then obtain k j where k: "colls v c = Some k" "co_forward k \<noteq> NULL" "fchain v (co_forward k) n e"
      and m: "m = Suc j" "n < j" by (cases m) auto
    show ?case
      unfolding m loopM.simps
      by (rule runs_bnd_eq [OF update_round_runs [OF k(1)]]) (use k Suc.IH [OF k(3) m(2)] in simp)
  qed
  with assms show ?thesis
    unfolding collector_update_def update_round_def [symmetric] by (intro fuel_runs) blast
qed

section \<open>Counts\<close>

definition set_obj :: "addr \<Rightarrow> (obj \<Rightarrow> obj) \<Rightarrow> world \<Rightarrow> world" where
  "set_obj p f v = v\<lparr>objs := (objs v)(p \<mapsto> f (the (objs v p)))\<rparr>"

definition bump_count :: "addr \<Rightarrow> bit_t \<Rightarrow> int \<Rightarrow> world \<Rightarrow> world" where
  "bump_count p i d = set_obj p (\<lambda>ob. ob\<lparr>o_count := (o_count ob)(unat i := o_count ob (unat i) + d)\<rparr>)"

lemma erase_set_obj [simp]: "erase (set_obj p f v) = set_obj p f (erase v)"
  by (simp add: set_obj_def)

lemma erase_bump_count [simp]: "erase (bump_count p i d v) = bump_count p i d (erase v)"
  by (simp add: bump_count_def)

lemma objs_set_obj [simp]:
  "objs (set_obj p f v) = (objs v)(p \<mapsto> f (the (objs v p)))" "lnks (set_obj p f v) = lnks v"
  "colls (set_obj p f v) = colls v" "lock_view (set_obj p f v) = lock_view v" "fuel (set_obj p f v) = fuel v"
  by (simp_all add: set_obj_def lock_view_def)

lemma objs_bump_count [simp]:
  "objs (bump_count p i d v) = (objs v)(p \<mapsto> (the (objs v p))\<lparr>o_count :=
     (o_count (the (objs v p)))(unat i := o_count (the (objs v p)) (unat i) + d)\<rparr>)"
  "lnks (bump_count p i d v) = lnks v" "colls (bump_count p i d v) = colls v"
  "lock_view (bump_count p i d v) = lock_view v" "fuel (bump_count p i d v) = fuel v"
  by (simp_all add: bump_count_def)

lemma count_add_ok:
  assumes "objs w p = Some ob" and "unat i < 3" and "- (2 ^ 31) \<le> o_count ob (unat i) + d"
    and "o_count ob (unat i) + d < 2 ^ 31"
  shows "count_add p i d w = Inr ((), bump_count p i d w)"
  using assms by (simp add: count_add_def get_obj_def upd_obj_def bnd_def Let_def bump_count_def set_obj_def)

lemma field_reads_ok:
  assumes "objs w p = Some ob"
  shows "obj_which p w = Inr (o_which ob, w)" "obj_collector p w = Inr (o_collector ob, w)"
    "obj_phantomized p w = Inr (o_phantomized ob, w)"
    "unat i < 3 \<Longrightarrow> count_at p i w = Inr (o_count ob (unat i), w)"
    "o_links ob = Some t \<Longrightarrow> links_of p w = Inr (t, w)"
    "o_links ob = Some t \<Longrightarrow> links_size p w = Inr (hashtable_size t, w)"
  using assms by (simp_all add: field_defs get_obj_def bnd_def ret_def)

lemma bump_lockable: "erase w = bump_count p i d v \<Longrightarrow> r \<in> set [LObj p] \<Longrightarrow> lockable w r"
  by (metis empty_iff empty_set erase_simps(1) fun_upd_same lockable_simps(1) objs_bump_count(1)
      option.distinct(1) set_ConsD)

text \<open>\<open>object_inc_strong\<close>: one more in the count that the object's bit selects.\<close>

lemma object_inc_strong_runs:
  assumes "objs v p = Some ob" and "unat (o_which ob) < 3"
    and "0 \<le> o_count ob (unat (o_which ob))" and "o_count ob (unat (o_which ob)) + 1 < 2 ^ 31"
  shows "runs (\<lambda>w. erase w = v) (object_inc_strong p) (\<lambda>_ w. erase w = bump_count p (o_which ob) 1 v)"
  unfolding object_inc_strong_def
proof (rule runs_with_locks [OF _ _ runs_step], goal_cases)
  case (3 w)
  then have "objs w p = Some ob" using assms(1) by auto
  then show ?case
    using assms(2-4) by (auto simp: bnd_def field_reads_ok count_add_ok simp flip: 3(1))
next
  case (5 x w r)
  then show ?case by (rule bump_lockable)
qed (use assms in auto)

text \<open>\<open>object_dec\<close> when the count stays positive.\<close>

lemma object_dec_runs:
  assumes "objs v p = Some ob" and "unat b < 3" and "1 < o_count ob (unat b)" and "o_count ob (unat b) < 2 ^ 31"
  shows "runs (\<lambda>w. erase w = v) (object_dec p b) (\<lambda>_ w. erase w = bump_count p b (- 1) v)"
  unfolding object_dec_def
proof (rule runs_with_locks [OF _ _ runs_step], goal_cases)
  case (3 w)
  then have w: "objs w p = Some ob" using assms(1) by auto
  have c: "count_add p b (- 1) w = Inr ((), bump_count p b (- 1) w)"
    by (rule count_add_ok [OF w]) (use assms in auto)
  have o: "objs (bump_count p b (- 1) w) p =
      Some (ob\<lparr>o_count := (o_count ob)(unat b := o_count ob (unat b) - 1)\<rparr>)" using w by simp
  show ?case
    using assms(2-4)
    by (auto simp: bnd_def c field_reads_ok [OF o] assertM_def whenM_def ret_def simp flip: 3(1))
next
  case (5 x w r)
  then show ?case by (rule bump_lockable)
qed (use assms in auto)

section \<open>Tables of links\<close>

lemma in_table_ret: "in_table (ret x) w = Inr (x, w)"
  by (simp add: in_table_def zoom_def ret_def)

lemma links_get_ok:
  assumes "objs w p = Some ob" and "o_links ob = Some t" and "ht_inv t"
  shows "links_get p k d w = Inr (or_else d (ht_map t k), w)"
  using assms
  by (simp add: links_get_def bnd_def field_reads_ok hashtable_get_map in_table_ret get_result_def ret_def
      split: option.splits)

lemma upd_obj_ok: "objs w p \<noteq> None \<Longrightarrow> upd_obj p f w = Inr ((), set_obj p f w)"
  by (auto simp: upd_obj_def set_obj_def)

definition table_added :: "addr hashtable \<Rightarrow> key \<Rightarrow> addr \<Rightarrow> addr hashtable" where
  "table_added t k lk = (case hashtable_add t k lk [] of Inr ((st, t'), m) \<Rightarrow> t' | Inl e \<Rightarrow> t)"

lemma table_added_ok:
  assumes "ht_inv t" and "ht_capacity t \<noteq> MAX_POW_TWO"
  shows "ht_inv (table_added t k lk)" "ht_map (table_added t k lk) = (ht_map t)(k \<mapsto> lk)"
    "\<exists>st. hashtable_add t k lk [] = Inr ((st, table_added t k lk), [])"
proof -
  obtain st t' m where run: "hashtable_add t k lk [] = Inr ((st, t'), m)"
    using hashtable_add_total [OF assms(1)] by blast
  then have t': "table_added t k lk = t'" by (simp add: table_added_def)
  from hashtable_add_stat [OF assms(1) run] assms(2) have st: "st = CC_OK" "m = []" by auto
  from hashtable_add_map [OF assms(1) run] st(1)
  show "ht_inv (table_added t k lk)" "ht_map (table_added t k lk) = (ht_map t)(k \<mapsto> lk)" by (auto simp: t')
  show "\<exists>st. hashtable_add t k lk [] = Inr ((st, table_added t k lk), [])" using run st t' by auto
qed

lemma links_add_ok:
  assumes "objs w p = Some ob" and "o_links ob = Some t" and "ht_inv t" and "ht_capacity t \<noteq> MAX_POW_TWO"
    and "mem w = []"
  shows "links_add p k lk w = Inr ((), set_obj p (\<lambda>ob. ob\<lparr>o_links := Some (table_added t k lk)\<rparr>) w)"
proof -
  obtain st where a: "hashtable_add t k lk [] = Inr ((st, table_added t k lk), [])"
    using table_added_ok(3) [OF assms(3,4)] by blast
  have m: "w\<lparr>mem := []\<rparr> = w" using assms(5) by (cases w) simp
  show ?thesis
    using assms(1,2,5)
    by (simp add: links_add_def bnd_def field_reads_ok in_table_def zoom_def a m put_links_def upd_obj_ok)
qed

section \<open>Creating an object\<close>

lemma new_table:
  "\<exists>t :: addr hashtable. hashtable_new_conf object_htc [] = Inr ((CC_OK, Some t), []) \<and> ht_inv t \<and> ht_map t = Map.empty \<and>
     ht_capacity t \<noteq> MAX_POW_TWO"
proof -
  obtain t :: "addr hashtable" where t: "hashtable_new_conf object_htc [] = Inr ((CC_OK, Some t), [])"
    and cap: "ht_capacity t = round_pow_two DEFAULT_CAPACITY"
    by (simp add: hashtable_new_conf_def bnd_def draw_block_def ret_def object_htc_def
        hashtable_conf_init_def Let_def)
  from hashtable_new_conf_ok [OF object_htc_ok t] have "ht_inv t \<and> ht_map t = Map.empty" by auto
  with t cap show ?thesis by (intro exI [of _ t]) (simp add: round_pow_two_default MAX_POW_TWO_def)
qed

definition fresh_table :: "addr hashtable" where
  "fresh_table = (case hashtable_new_conf object_htc [] of Inr ((st, Some t), m) \<Rightarrow> t)"

lemma fresh_table_ok:
  "hashtable_new_conf object_htc [] = Inr ((CC_OK, Some fresh_table), [])" "ht_inv fresh_table"
  "ht_map fresh_table = Map.empty" "ht_capacity fresh_table \<noteq> MAX_POW_TWO"
proof -
  obtain t :: "addr hashtable" where t: "hashtable_new_conf object_htc [] = Inr ((CC_OK, Some t), [])"
    "ht_inv t" "ht_map t = Map.empty" "ht_capacity t \<noteq> MAX_POW_TWO" using new_table by blast
  then have "fresh_table = t" by (simp add: fresh_table_def)
  with t show "hashtable_new_conf object_htc [] = Inr ((CC_OK, Some fresh_table), [])" "ht_inv fresh_table"
    "ht_map fresh_table = Map.empty" "ht_capacity fresh_table \<noteq> MAX_POW_TWO" by simp_all
qed

text \<open>An object with one strong reference from the stack, with lock \<open>i\<close> and data at \<open>d\<close>.\<close>

definition new_object :: "64 word \<Rightarrow> int \<Rightarrow> addr \<Rightarrow> obj" where
  "new_object i strong d =
     \<lparr>o_lock = i, o_links = Some fresh_table, o_which = 0, o_phantomized = False,
      o_count = (\<lambda>_. 0)(0 := strong), o_collector = NULL, o_complete = True, o_dtor = None, o_data = d,
      o_magic = OBJECT_MAGIC_NUMBER\<rparr>"

definition born :: "addr \<Rightarrow> obj \<Rightarrow> world \<Rightarrow> world" where
  "born h ob v = v\<lparr>objs := (objs v)(h \<mapsto> ob), id_count := id_count v + 1,
     acid_world_count := acid_world_count v + 1\<rparr>"

lemma erase_born [simp]: "erase (born h ob v) = born h ob (erase v)"
  by (cases v) (simp add: born_def erase_def)

lemma objs_born [simp]: "objs (born h ob v) = (objs v)(h \<mapsto> ob)" "lock_view (born h ob v) = lock_view v"
  "lnks (born h ob v) = lnks v" "colls (born h ob v) = colls v" "fuel (born h ob v) = fuel v"
  by (simp_all add: born_def lock_view_def)

lemma set_obj_born [simp]: "set_obj h f (born h ob v) = born h (f ob) v"
  by (cases v) (simp add: set_obj_def born_def)

lemma object_init_ok:
  assumes "h \<noteq> NULL" and "mem w = []"
  shows "object_init h w = Inr (h, born h (new_object (id_count w) 0 NULL) w)"
proof -
  have m: "w\<lparr>mem := []\<rparr> = w" using assms(2) by (cases w) simp
  show ?thesis
    using assms
    by (simp add: object_init_def bnd_def in_table_def zoom_def fresh_table_ok(1) m idlock_init_def gets_def
        modify_def ret_def born_def new_object_def)
      (cases w; simp add: fun_upd_idem)
qed

lemma acid_malloc_runs:
  assumes "0 < a"
  shows "runs (\<lambda>w. erase w = v \<and> a \<le> next_addr w) (acid_malloc n)
    (\<lambda>x w. \<exists>h\<ge>a. x = h + sizeof_Object \<and> erase w = born h (new_object (id_count v) 1 x) v)"
  unfolding acid_malloc_alt bnd_assoc
proof (rule runs_bnd)
  show "runs (\<lambda>w. erase w = v \<and> a \<le> next_addr w) (xmalloc (uint (word_of_int sizeof_Object + n)))
      (\<lambda>h w. a \<le> h \<and> erase w = v)"
    by (rule runs_pre [OF runs_malloc]) simp
next
  fix h
  let ?o = "\<lambda>c d. new_object (id_count v) c d"
  have init: "runs (\<lambda>w. a \<le> h \<and> erase w = v) (object_init h)
      (\<lambda>q w. q = h \<and> (a \<le> h \<and> erase w = born h (?o 0 NULL) v))"
  proof (rule runs_step)
    fix w assume w: "a \<le> h \<and> erase w = v" and m: "mem w = []"
    then have "h \<noteq> NULL" "id_count w = id_count v" using assms by auto
    then show "\<exists>q w'. object_init h w = Inr (q, w') \<and> lock_view w' = lock_view w \<and>
        q = h \<and> a \<le> h \<and> erase w' = born h (?o 0 NULL) v"
      using w object_init_ok [OF _ m, of h] by simp
  qed
  have inc: "runs (\<lambda>w. a \<le> h \<and> erase w = born h (?o 0 NULL) v) (object_inc_strong h)
      (\<lambda>_ w. a \<le> h \<and> erase w = born h (?o 1 NULL) v)"
  proof -
    have "runs (\<lambda>w. erase w = born h (?o 0 NULL) v) (object_inc_strong h)
        (\<lambda>_ w. erase w = bump_count h (o_which (?o 0 NULL)) 1 (born h (?o 0 NULL) v))"
      by (rule object_inc_strong_runs [where ob = "?o 0 NULL"]) (simp_all add: new_object_def)
    moreover have "bump_count h (o_which (?o 0 NULL)) 1 (born h (?o 0 NULL) v) = born h (?o 1 NULL) v"
      by (simp add: bump_count_def new_object_def)
    ultimately show ?thesis by (simp add: runs_def)
  qed
  have fin: "runs (\<lambda>w. a \<le> h \<and> erase w = born h (?o 1 NULL) v)
      (bnd (upd_obj h (\<lambda>b. b\<lparr>o_data := h + sizeof_Object\<rparr>)) (\<lambda>_. ret (h + sizeof_Object)))
      (\<lambda>x w. \<exists>h\<ge>a. x = h + sizeof_Object \<and> erase w = born h (?o 1 x) v)"
  proof (rule runs_step)
    fix w assume w: "a \<le> h \<and> erase w = born h (?o 1 NULL) v"
    then have "objs w h \<noteq> None" by (metis erase_simps(1) fun_upd_same objs_born(1) option.distinct(1))
    moreover have "erase (set_obj h (\<lambda>b. b\<lparr>o_data := h + sizeof_Object\<rparr>) w) =
        born h (?o 1 (h + sizeof_Object)) v"
      using w by (simp add: new_object_def)
    ultimately show "\<exists>x w'. bnd (upd_obj h (\<lambda>b. b\<lparr>o_data := h + sizeof_Object\<rparr>))
        (\<lambda>_. ret (h + sizeof_Object)) w = Inr (x, w') \<and> lock_view w' = lock_view w \<and>
        (\<exists>h\<ge>a. x = h + sizeof_Object \<and> erase w' = born h (?o 1 x) v)"
      using w by (auto simp: bnd_def upd_obj_ok ret_def)
  qed
  show "runs (\<lambda>w. a \<le> h \<and> erase w = v)
     (bnd (object_init h) (\<lambda>p. bnd (object_inc_strong p) (\<lambda>_.
        bnd (upd_obj p (\<lambda>b. b\<lparr>o_data := p + sizeof_Object\<rparr>)) (\<lambda>_. ret (p + sizeof_Object)))))
     (\<lambda>x w. \<exists>h\<ge>a. x = h + sizeof_Object \<and> erase w = born h (?o 1 x) v)"
    by (rule runs_bnd_eq [OF init], rule runs_bnd [OF inc], rule fin)
qed

section \<open>References from the stack\<close>

lemma acid_harden_runs:
  assumes "objs v (x - sizeof_Object) = Some ob" and "unat (o_which ob) < 3"
    and "0 \<le> o_count ob (unat (o_which ob))" and "o_count ob (unat (o_which ob)) + 1 < 2 ^ 31"
  shows "runs (\<lambda>w. erase w = v) (acid_harden x)
    (\<lambda>_ w. erase w = bump_count (x - sizeof_Object) (o_which ob) 1 v)"
  unfolding acid_harden_def Let_def
  by (rule runs_with_locks [OF _ _ object_inc_strong_runs [OF assms] _ bump_lockable])
    (use assms(1) in auto)

lemma object_dec_strong_runs:
  assumes "objs v p = Some ob" and "unat (o_which ob) < 3" and "1 < o_count ob (unat (o_which ob))"
    and "o_count ob (unat (o_which ob)) < 2 ^ 31"
  shows "runs (\<lambda>w. erase w = v) (object_dec_strong p) (\<lambda>_ w. erase w = bump_count p (o_which ob) (- 1) v)"
  unfolding object_dec_strong_def
proof (rule runs_bnd_eq)
  show "runs (\<lambda>w. erase w = v) (obj_which p) (\<lambda>b w. b = o_which ob \<and> erase w = v)"
  proof (rule runs_step)
    fix w assume w: "erase w = v"
    then have "objs w p = Some ob" using assms(1) by auto
    then show "\<exists>b w'. obj_which p w = Inr (b, w') \<and> lock_view w' = lock_view w \<and> b = o_which ob \<and> erase w' = v"
      using w by (simp add: field_reads_ok)
  qed
  show "runs (\<lambda>w. erase w = v) (object_dec p (o_which ob)) (\<lambda>_ w. erase w = bump_count p (o_which ob) (- 1) v)"
    by (rule object_dec_runs [OF assms])
qed

lemma acid_dissolve_runs:
  assumes "objs v (x - sizeof_Object) = Some ob" and "unat (o_which ob) < 3"
    and "1 < o_count ob (unat (o_which ob))" and "o_count ob (unat (o_which ob)) < 2 ^ 31"
  shows "runs (\<lambda>w. erase w = v) (acid_dissolve x)
    (\<lambda>_ w. erase w = bump_count (x - sizeof_Object) (o_which ob) (- 1) v)"
  unfolding acid_dissolve_def Let_def
  by (rule runs_with_locks [OF _ _ object_dec_strong_runs [OF assms] _ bump_lockable])
    (use assms(1) in auto)

lemma bump_count_back:
  "objs v p = Some ob \<Longrightarrow> bump_count p b (- 1) (bump_count p b 1 v) = v"
  by (cases v) (auto simp: bump_count_def set_obj_def fun_upd_idem)

lemma harden_dissolve_runs:
  assumes ob: "objs v (x - sizeof_Object) = Some ob" and b: "unat (o_which ob) < 3"
    and n: "1 \<le> o_count ob (unat (o_which ob))" "o_count ob (unat (o_which ob)) + 1 < 2 ^ 31"
  shows "runs (\<lambda>w. erase w = v) (bnd (acid_harden x) (\<lambda>_. acid_dissolve x)) (\<lambda>_ w. erase w = v)"
proof (rule runs_bnd)
  let ?h = "x - sizeof_Object"
  let ?b = "o_which ob"
  show "runs (\<lambda>w. erase w = v) (acid_harden x) (\<lambda>_ w. erase w = bump_count ?h ?b 1 v)"
    by (rule acid_harden_runs [OF ob b]) (use n in auto)
  let ?ob = "ob\<lparr>o_count := (o_count ob)(unat ?b := o_count ob (unat ?b) + 1)\<rparr>"
  have "objs (bump_count ?h ?b 1 v) ?h = Some ?ob" using ob by simp
  from acid_dissolve_runs [OF this] b n bump_count_back [OF ob]
  show "runs (\<lambda>w. erase w = bump_count ?h ?b 1 v) (acid_dissolve x) (\<lambda>_ w. erase w = v)" by simp
qed

section \<open>Fields\<close>

text \<open>\<open>object_get\<close> gives the target of the link in the table, and NULL without one.\<close>

lemma object_get_runs:
  assumes "objs v p = Some ob" and "o_links ob = Some t" and "ht_inv t"
    and "\<And>lk. ht_map t k = Some lk \<Longrightarrow> lk \<noteq> NULL \<and> lnks v lk \<noteq> None"
  shows "runs (\<lambda>w. erase w = v) (object_get p k)
    (\<lambda>x w. x = (case ht_map t k of None \<Rightarrow> NULL | Some lk \<Rightarrow> lk_target (the (lnks v lk))) \<and> erase w = v)"
  unfolding object_get_def
proof (rule runs_with_locks [OF _ _ runs_step], goal_cases)
  case (3 w)
  then have w: "objs w p = Some ob" using assms(1) by auto
  have get: "links_get p k NULL w = Inr (or_else NULL (ht_map t k), w)"
    by (rule links_get_ok [OF w assms(2,3)])
  show ?case
  proof (cases "ht_map t k")
    case None
    then show ?thesis using 3(1) get by (simp add: bnd_def or_else_def ret_def)
  next
    case (Some lk)
    then obtain l where "lk \<noteq> NULL" "lnks v lk = Some l" using assms(4) by blast
    moreover from this have "get_link lk w = Inr (l, w)" using 3(1) by (auto simp: get_link_def)
    ultimately show ?thesis using 3(1) get Some by (simp add: bnd_def or_else_def ret_def)
  qed
qed (use assms(1) in auto)

definition new_link :: "addr \<Rightarrow> link \<Rightarrow> world \<Rightarrow> world" where
  "new_link lk l v = v\<lparr>lnks := (lnks v)(lk \<mapsto> l)\<rparr>"

lemma new_link_simps [simp]:
  "erase (new_link lk l v) = new_link lk l (erase v)" "lnks (new_link lk l v) = (lnks v)(lk \<mapsto> l)"
  "objs (new_link lk l v) = objs v" "lock_view (new_link lk l v) = lock_view v"
  "mem (new_link lk l v) = mem v" "mem (set_obj p f v) = mem v"
  by (simp_all add: new_link_def lock_view_def set_obj_def)

lemma upd_link_ok: "lnks w lk = Some l \<Longrightarrow> upd_link lk f w = Inr ((), new_link lk (f l) w)"
  by (simp add: upd_link_def new_link_def)

lemma new_link_twice [simp]:
  "new_link lk l (new_link lk l' v) = new_link lk l v"
  "new_link lk l (set_obj p f (new_link lk l' v)) = set_obj p f (new_link lk l v)"
  by (cases v; simp add: new_link_def set_obj_def)+

text \<open>The link that \<open>object_set\<close> makes: strong to an object without links of its own, else weak,
  and always weak to itself.\<close>

definition link_bit :: "addr \<Rightarrow> addr \<Rightarrow> obj \<Rightarrow> addr hashtable \<Rightarrow> bit_t" where
  "link_bit p q qo qt =
     (if q \<noteq> p \<and> hashtable_size qt = 0 then o_which qo else BIT_FLIP (o_which qo))"

lemma link_count_ok:
  assumes p: "objs w p = Some po" "\<not> o_phantomized po"
    and q: "objs w q = Some qo" "o_links qo = Some qt"
    and lk: "lnks w lk = Some l" "lk_target l = q"
    and b: "b = link_bit p q qo qt" "unat b < 3" "0 \<le> o_count qo (unat b)" "o_count qo (unat b) + 1 < 2 ^ 31"
  shows "link_count p q lk w = Inr ((), bump_count q b 1 (new_link lk (l\<lparr>lk_which := b\<rparr>) w))"
proof -
  let ?w = "new_link lk (l\<lparr>lk_which := b\<rparr>) w"
  have c: "count_add q b 1 ?w = Inr ((), bump_count q b 1 ?w)"
    by (rule count_add_ok [where ob = qo]) (use q b in auto)
  show ?thesis
    using p q lk c b(1)
    by (auto simp: link_count_def bnd_def field_reads_ok [OF p(1)] field_reads_ok [OF q(1)] ret_def
        upd_link_ok get_link_def link_bit_def split: if_splits)
qed

text \<open>The memory after \<open>p\<close> got the new link \<open>lk\<close> to \<open>q\<close> in field \<open>k\<close>.\<close>

definition linked :: "addr \<Rightarrow> key \<Rightarrow> addr \<Rightarrow> bit_t \<Rightarrow> addr hashtable \<Rightarrow> addr \<Rightarrow> world \<Rightarrow> world" where
  "linked p k q b t lk v =
     bump_count q b 1
       (set_obj p (\<lambda>ob. ob\<lparr>o_links := Some (table_added t k lk)\<rparr>)
         (new_link lk \<lparr>lk_which = b, lk_phantomized = False, lk_target = q, lk_src = p\<rparr> v))"

lemma linked_simps [simp]:
  "erase (linked p k q b t lk v) = linked p k q b t lk (erase v)"
  "lock_view (linked p k q b t lk v) = lock_view v"
  by (simp_all add: linked_def)

lemma linked_objs:
  "objs (linked p k q b t lk v) r \<noteq> None \<longleftrightarrow> objs v r \<noteq> None \<or> r = p \<or> r = q"
  by (auto simp: linked_def)

lemma object_set_link_ok:
  fixes lk :: addr
  assumes p: "objs w p = Some po" "\<not> o_phantomized po" "o_links po = Some t" "ht_inv t"
      "ht_capacity t \<noteq> MAX_POW_TWO"
    and q: "objs w q = Some qo" "o_links qo = Some qt"
    and b: "b = link_bit p q qo qt" "unat b < 3" "0 \<le> o_count qo (unat b)" "o_count qo (unat b) + 1 < 2 ^ 31"
    and m: "mem w = []"
  defines "w1 \<equiv> new_link lk \<lparr>lk_which = 0, lk_phantomized = False, lk_target = q, lk_src = p\<rparr> w"
  shows "block [links_add p k lk, upd_link lk (\<lambda>l. l\<lparr>lk_target := q\<rparr>), link_count p q lk] w1 =
    Inr ((), linked p k q b t lk w)"
proof -
  let ?l = "\<lparr>lk_which = 0, lk_phantomized = False, lk_target = q, lk_src = p\<rparr> :: link"
  let ?w2 = "set_obj p (\<lambda>ob. ob\<lparr>o_links := Some (table_added t k lk)\<rparr>) w1"
  have add: "links_add p k lk w1 = Inr ((), ?w2)"
    by (rule links_add_ok) (use p m in \<open>simp_all add: w1_def\<close>)
  have "upd_link lk (\<lambda>l. l\<lparr>lk_target := q\<rparr>) ?w2 = Inr ((), new_link lk (?l\<lparr>lk_target := q\<rparr>) ?w2)"
    by (rule upd_link_ok) (simp add: w1_def)
  also have "new_link lk (?l\<lparr>lk_target := q\<rparr>) ?w2 = ?w2" by (simp add: w1_def)
  finally have upd: "upd_link lk (\<lambda>l. l\<lparr>lk_target := q\<rparr>) ?w2 = Inr ((), ?w2)" .
  let ?po = "po\<lparr>o_links := Some (table_added t k lk)\<rparr>"
  let ?qo = "if q = p then ?po else qo"
  let ?qt = "if q = p then table_added t k lk else qt"
  have "link_count p q lk ?w2 = Inr ((), bump_count q b 1 (new_link lk (?l\<lparr>lk_which := b\<rparr>) ?w2))"
    by (rule link_count_ok [where po = ?po and qo = ?qo and qt = ?qt])
      (use p q b in \<open>auto simp: w1_def link_bit_def split: if_splits\<close>)
  with add upd show ?thesis by (simp add: bnd_def ret_def linked_def w1_def)
qed

lemma object_set_link_runs:
  assumes p: "objs v p = Some po" "\<not> o_phantomized po" "o_links po = Some t" "ht_inv t"
      "ht_capacity t \<noteq> MAX_POW_TWO"
    and q: "objs v q = Some qo" "o_links qo = Some qt"
    and b: "b = link_bit p q qo qt" "unat b < 3" "0 \<le> o_count qo (unat b)" "o_count qo (unat b) + 1 < 2 ^ 31"
    and a: "0 < a"
  shows "runs (\<lambda>w. erase w = v \<and> a \<le> next_addr w) (object_set_link p k q)
    (\<lambda>_ w. \<exists>lk\<ge>a. erase w = linked p k q b t lk v)"
  unfolding object_set_link_def link_create_def bnd_assoc bnd_ret
proof (rule runs_bnd)
  show "runs (\<lambda>w. erase w = v \<and> a \<le> next_addr w) (xmalloc sizeof_link) (\<lambda>h w. a \<le> h \<and> erase w = v)"
    by (rule runs_pre [OF runs_malloc]) simp
next
  fix lk
  let ?l = "\<lparr>lk_which = 0, lk_phantomized = False, lk_target = q, lk_src = p\<rparr> :: link"
  show "runs (\<lambda>w. a \<le> lk \<and> erase w = v)
     (bnd (modify (\<lambda>w. w\<lparr>lnks := (lnks w)(lk \<mapsto> ?l)\<rparr>))
       (\<lambda>_. block [links_add p k lk, upd_link lk (\<lambda>l. l\<lparr>lk_target := q\<rparr>), link_count p q lk]))
     (\<lambda>_ w. \<exists>lk\<ge>a. erase w = linked p k q b t lk v)"
  proof (rule runs_step)
    fix w assume w: "a \<le> lk \<and> erase w = v" and m: "mem w = []"
    then have wp: "objs w p = Some po" and wq: "objs w q = Some qo" using p(1) q(1) by auto
    have "bnd (modify (\<lambda>w. w\<lparr>lnks := (lnks w)(lk \<mapsto> ?l)\<rparr>))
       (\<lambda>_. block [links_add p k lk, upd_link lk (\<lambda>l. l\<lparr>lk_target := q\<rparr>), link_count p q lk]) w =
       Inr ((), linked p k q b t lk w)"
      using object_set_link_ok [OF wp p(2-5) wq q(2) b m]
      by (simp add: bnd_def modify_def new_link_def del: block.simps)
    then show "\<exists>x w'. bnd (modify (\<lambda>w. w\<lparr>lnks := (lnks w)(lk \<mapsto> ?l)\<rparr>))
       (\<lambda>_. block [links_add p k lk, upd_link lk (\<lambda>l. l\<lparr>lk_target := q\<rparr>), link_count p q lk]) w =
       Inr (x, w') \<and> lock_view w' = lock_view w \<and> (\<exists>lk\<ge>a. erase w' = linked p k q b t lk v)"
      using w by auto
  qed
qed

lemma object_set_runs:
  assumes p: "objs v p = Some po" "\<not> o_phantomized po" "o_links po = Some t" "ht_inv t"
      "ht_capacity t \<noteq> MAX_POW_TWO" "ht_map t k = None"
    and q: "objs v q = Some qo" "o_links qo = Some qt" "q \<noteq> NULL"
    and b: "b = link_bit p q qo qt" "unat b < 3" "0 \<le> o_count qo (unat b)" "o_count qo (unat b) + 1 < 2 ^ 31"
    and a: "0 < a"
  shows "runs (\<lambda>w. erase w = v \<and> a \<le> next_addr w) (object_set p k q)
    (\<lambda>_ w. \<exists>lk\<ge>a. erase w = linked p k q b t lk v)"
proof -
  let ?body = "if q = NULL then links_remove p k NULL
        else
          bnd (links_get p k NULL) (\<lambda>old_link.
          bnd (if old_link \<noteq> NULL then bnd (get_link old_link) (\<lambda>l. ret (lk_target l = q))
               else ret False) (\<lambda>same.
          if same then ret NULL
          else bnd (object_set_link p k q) (\<lambda>_. ret old_link)))"
  let ?P = "\<lambda>w. erase w = v \<and> a \<le> next_addr w"
  let ?Q = "\<lambda>w. \<exists>lk\<ge>a. erase w = linked p k q b t lk v"
  have get: "runs ?P (links_get p k NULL) (\<lambda>x w. x = NULL \<and> ?P w)"
  proof (rule runs_step)
    fix w assume w: "?P w"
    then have wp: "objs w p = Some po" using p(1) by auto
    show "\<exists>x w'. links_get p k NULL w = Inr (x, w') \<and> lock_view w' = lock_view w \<and> x = NULL \<and> ?P w'"
      using w p(6) by (simp add: links_get_ok [OF wp p(3,4)] or_else_def)
  qed
  have link: "runs ?P (object_set_link p k q) (\<lambda>_. ?Q)"
    by (rule object_set_link_runs [OF p(1-5) q(1,2) b a])
  have body: "runs ?P ?body (\<lambda>x w. x = NULL \<and> ?Q w)"
    using q(3) by (simp, intro runs_bnd_eq [OF get]) (simp add: runs_bnd [OF link] runs_ret)
  have "runs ?P (with_locks [LObj p, LObj q] ?body) (\<lambda>x w. x = NULL \<and> ?Q w)"
  proof (rule runs_with_locks [OF _ _ body])
    show "stable ?P" by (rule stableI) simp
    show "stable (\<lambda>w. x = NULL \<and> ?Q w)" for x by (auto simp: stable_def erase_lock_eq)
    show "lockable w r" if "?P w" "r \<in> set [LObj p, LObj q]" for w r
      using that p(1) q(1) by auto
    show "lockable w r" if "x = NULL \<and> ?Q w" "r \<in> set [LObj p, LObj q]" for x w r
    proof -
      from that(1) obtain lk where "erase w = linked p k q b t lk v" by blast
      then have "objs w = objs (linked p k q b t lk v)" by (metis erase_simps(1))
      then have "objs w p \<noteq> None" "objs w q \<noteq> None" by (simp_all add: linked_objs del: not_None_eq)
      then show ?thesis using that(2) by auto
    qed
  qed simp
  then show ?thesis
    unfolding object_set_def by (rule runs_bnd_eq) (simp add: whenM_def runs_ret)
qed

section \<open>Properties\<close>

lemma fchain_erase [simp]: "fchain (erase w) c n e = fchain w c n e"
  by (induction n arbitrary: c) auto

text \<open>\<open>collector_update\<close> follows the forwards of a collector, however many there are, to the one that does not forward,
  returns it and changes nothing.\<close>

lemma collector_update_reaches_end:
  assumes "ready w" and "fchain w c n e" and "n < fuel w"
  shows "\<exists>w'. collector_update c w = Inr (e, w') \<and> ready w' \<and> same_locks w w' \<and> erase w' = erase w"
  using runs_erase [OF collector_update_runs [of "erase w" c n e] assms(1)] assms(2,3) by auto

text \<open>C21: As long as the allocator does not fail, \<open>acid_malloc\<close> returns a pointer just behind the header of a new object, which carries
  the magic number and a lock number of its own, has one strong reference, no links and no collector. The lock number and the count of objects
  made go up by one; nothing else in the memory changes, no other object, link, collector, counter or task.\<close>

theorem acid_malloc_makes_object:
  assumes "ready w"
  shows "\<exists>p w' ob t. acid_malloc n w = Inr (p, w') \<and> ready w' \<and> same_locks w w' \<and>
    next_addr w \<le> p - sizeof_Object \<and> objs w' = (objs w)(p - sizeof_Object \<mapsto> ob) \<and>
    o_magic ob = OBJECT_MAGIC_NUMBER \<and> o_count ob = (\<lambda>_. 0)(unat (o_which ob) := 1) \<and> \<not> o_phantomized ob \<and>
    o_links ob = Some t \<and> ht_inv t \<and> ht_map t = Map.empty \<and> o_collector ob = NULL \<and> o_data ob = p \<and>
    o_lock ob = id_count w \<and> acid_world_count w' = acid_world_count w + 1 \<and>
    erase w' = (erase w)\<lparr>objs := (objs w)(p - sizeof_Object \<mapsto> ob), id_count := id_count w + 1,
      acid_world_count := acid_world_count w + 1\<rparr>"
proof -
  have "0 < next_addr w" using assms by (simp add: ready_def calm_def at_locks_def)
  from runs_ready [OF acid_malloc_runs [OF this, of "erase w" n] assms] obtain h p w' where
    run: "acid_malloc n w = Inr (p, w')" "ready w'" "same_locks w w'" "next_addr w \<le> h" "p = h + sizeof_Object"
    and e: "erase w' = born h (new_object (id_count (erase w)) 1 p) (erase w)" by auto
  let ?ob = "new_object (id_count w) 1 p"
  have "objs w' = objs (erase w')" by simp
  then have o: "objs w' = (objs w)(h \<mapsto> ?ob)" unfolding e by simp
  have "acid_world_count w' = acid_world_count (erase w')" by (simp add: erase_def)
  then have n: "acid_world_count w' = acid_world_count w + 1" unfolding e by (simp add: born_def erase_def)
  have "acid_world_count (erase w) = acid_world_count w" by (simp add: erase_def)
  with e have "erase w' = (erase w)\<lparr>objs := (objs w)(p - sizeof_Object \<mapsto> ?ob), id_count := id_count w + 1,
      acid_world_count := acid_world_count w + 1\<rparr>" using run(5) by (simp add: born_def)
  with n show ?thesis
    using run o fresh_table_ok
    by (intro exI [of _ p] exI [of _ w'] exI [of _ ?ob] exI [of _ fresh_table]) (simp add: new_object_def)
qed

theorem acid_malloc_makes_object_witness:
  "\<exists>p w'. acid_malloc 8 (ready_world 9) = Inr (p, w') \<and> acid_world_count w' = 1"
proof -
  have "acid_world_count (ready_world 9) = 0" by (simp add: ready_world_def boot_def)
  with acid_malloc_makes_object [OF ready_world_ready, of 8 9] show ?thesis by auto
qed

text \<open>C22: \<open>acid_harden\<close> followed by \<open>acid_dissolve\<close> of the same pointer, which keeps a reference from the stack, leaves the
  whole memory as it was.\<close>

theorem harden_dissolve_restores:
  assumes "ready w" and "objs w (x - sizeof_Object) = Some ob" and "unat (o_which ob) < 3"
    and "1 \<le> o_count ob (unat (o_which ob))" and "o_count ob (unat (o_which ob)) + 1 < 2 ^ 31"
  shows "\<exists>w'. bnd (acid_harden x) (\<lambda>_. acid_dissolve x) w = Inr ((), w') \<and> ready w' \<and> same_locks w w' \<and> erase w' = erase w"
  using runs_erase [OF harden_dissolve_runs [of "erase w" x ob] assms(1)] assms(2-5) by auto

definition object_pair :: world where
  "object_pair = born 500 (new_object 6 1 612) (born 200 (new_object 5 1 312) (ready_world 9))"

lemma object_pair_ready [simp]: "ready object_pair"
  using ready_world_ready [of 9] by (simp add: object_pair_def born_def ready_def calm_def at_locks_def)

lemma object_pair_objs [simp]:
  "objs object_pair 200 = Some (new_object 5 1 312)" "objs object_pair 500 = Some (new_object 6 1 612)"
  by (simp_all add: object_pair_def)

theorem harden_dissolve_restores_witness:
  "\<exists>w'. bnd (acid_harden 312) (\<lambda>_. acid_dissolve 312) object_pair = Inr ((), w') \<and> erase w' = erase object_pair"
proof -
  have o: "objs object_pair (312 - sizeof_Object) = Some (new_object 5 1 312)" by (simp add: sizeof_Object_def)
  from harden_dissolve_restores [OF object_pair_ready o] show ?thesis by (auto simp: new_object_def)
qed

lemma linked_map:
  assumes "objs v p = Some po" "o_links po = Some t" "ht_inv t" "ht_capacity t \<noteq> MAX_POW_TWO"
  obtains po' t' where "objs (linked p k q b t lk v) p = Some po'" "o_links po' = Some t'" "ht_inv t'"
    "ht_map t' = (ht_map t)(k \<mapsto> lk)"
proof -
  let ?t = "table_added t k lk"
  have "\<exists>po'. objs (linked p k q b t lk v) p = Some po' \<and> o_links po' = Some ?t"
    using assms(1) by (simp add: linked_def)
  with table_added_ok [OF assms(3,4)] that show ?thesis by blast
qed

lemma object_set_get_runs:
  assumes p: "objs v p = Some po" "\<not> o_phantomized po" "o_links po = Some t" "ht_inv t"
      "ht_capacity t \<noteq> MAX_POW_TWO" "ht_map t k = None"
    and q: "objs v q = Some qo" "o_links qo = Some qt" "q \<noteq> NULL"
    and b: "b = link_bit p q qo qt" "unat b < 3" "0 \<le> o_count qo (unat b)" "o_count qo (unat b) + 1 < 2 ^ 31"
    and a: "0 < a"
  shows "runs (\<lambda>w. erase w = v \<and> a \<le> next_addr w) (bnd (object_set p k q) (\<lambda>_. object_get p k))
    (\<lambda>x w. x = q \<and> (\<exists>lk\<ge>a. erase w = linked p k q b t lk v))"
proof (rule runs_bnd [OF object_set_runs [OF p q b a]])
  have get: "runs (\<lambda>w. erase w = linked p k q b t lk v) (object_get p k) (\<lambda>x w. x = q \<and> erase w = linked p k q b t lk v)"
    if "a \<le> lk" for lk
  proof -
    obtain po' t' where o: "objs (linked p k q b t lk v) p = Some po'" "o_links po' = Some t'" "ht_inv t'"
      and m: "ht_map t' = (ht_map t)(k \<mapsto> lk)" by (rule linked_map [OF p(1,3-5)])
    have l: "lnks (linked p k q b t lk v) lk = Some \<lparr>lk_which = b, lk_phantomized = False, lk_target = q, lk_src = p\<rparr>"
      by (simp add: linked_def)
    have "runs (\<lambda>w. erase w = linked p k q b t lk v) (object_get p k)
      (\<lambda>x w. x = (case ht_map t' k of None \<Rightarrow> NULL | Some lk' \<Rightarrow> lk_target (the (lnks (linked p k q b t lk v) lk'))) \<and>
        erase w = linked p k q b t lk v)"
      by (rule object_get_runs [OF o]) (use m l that a in auto)
    then show ?thesis by (simp add: m l)
  qed
  show "runs (\<lambda>w. \<exists>lk\<ge>a. erase w = linked p k q b t lk v) (object_get p k)
      (\<lambda>x w. x = q \<and> (\<exists>lk\<ge>a. erase w = linked p k q b t lk v))"
    using get unfolding runs_def by blast
qed

text \<open>C20: Setting a field that held nothing and reading it back gives the object that was set. In between, one link has been
  made, strong exactly when the target has no links of its own and is not the source itself, and the count of the
  target which that link belongs to is one higher.\<close>

theorem object_set_then_get:
  assumes "ready w"
    and p: "objs w p = Some po" "\<not> o_phantomized po" "o_links po = Some t" "ht_inv t"
      "ht_capacity t \<noteq> MAX_POW_TWO" "ht_map t k = None"
    and q: "objs w q = Some qo" "o_links qo = Some qt" "q \<noteq> NULL"
    and b: "b = (if q \<noteq> p \<and> hashtable_size qt = 0 then o_which qo else BIT_FLIP (o_which qo))" "unat b < 3"
    and n: "0 \<le> o_count qo (unat b)" "o_count qo (unat b) + 1 < 2 ^ 31"
  shows "\<exists>w' lk. bnd (object_set p k q) (\<lambda>_. object_get p k) w = Inr (q, w') \<and> ready w' \<and> same_locks w w' \<and>
    lnks w' = (lnks w)(lk \<mapsto> \<lparr>lk_which = b, lk_phantomized = False, lk_target = q, lk_src = p\<rparr>) \<and>
    o_count (the (objs w' q)) = (o_count qo)(unat b := o_count qo (unat b) + 1)"
proof -
  have a: "0 < next_addr w" using assms(1) by (simp add: ready_def calm_def at_locks_def)
  have b': "b = link_bit p q qo qt" using b(1) by (simp add: link_bit_def)
  have "runs (\<lambda>u. erase u = erase w \<and> next_addr w \<le> next_addr u) (bnd (object_set p k q) (\<lambda>_. object_get p k))
    (\<lambda>x u. x = q \<and> (\<exists>lk\<ge>next_addr w. erase u = linked p k q b t lk (erase w)))"
    by (rule object_set_get_runs [where po = po and qo = qo and qt = qt])
      (use p q b' b(2) n a in simp_all)
  from runs_ready [OF this assms(1)] obtain w' lk where
    run: "bnd (object_set p k q) (\<lambda>_. object_get p k) w = Inr (q, w')" "ready w'" "same_locks w w'"
    and e: "erase w' = linked p k q b t lk (erase w)" by auto
  have "lnks w' = lnks (erase w')" "objs w' = objs (erase w')" by simp_all
  then have "lnks w' = (lnks w)(lk \<mapsto> \<lparr>lk_which = b, lk_phantomized = False, lk_target = q, lk_src = p\<rparr>)"
    "o_count (the (objs w' q)) = (o_count qo)(unat b := o_count qo (unat b) + 1)"
    unfolding e using p(1) q(1) by (auto simp: linked_def)
  with run show ?thesis by blast
qed

theorem object_set_then_get_witness:
  "\<exists>w'. bnd (object_set 200 16 500) (\<lambda>_. object_get 200 16) object_pair = Inr (500, w') \<and>
     o_count (the (objs w' 500)) 0 = 2"
proof -
  have s: "hashtable_size fresh_table = 0" using fresh_table_ok(2,3) by (simp add: hashtable_size_map)
  have t: "o_links (new_object 5 1 312) = Some fresh_table" "o_links (new_object 6 1 612) = Some fresh_table"
    "\<not> o_phantomized (new_object 5 1 312)" "(500 :: addr) \<noteq> NULL" "ht_map fresh_table 16 = None"
    using fresh_table_ok by (simp_all add: new_object_def)
  have b: "0 = (if (500 :: addr) \<noteq> 200 \<and> hashtable_size fresh_table = 0 then o_which (new_object 6 1 612)
      else BIT_FLIP (o_which (new_object 6 1 612)))" "unat (0 :: bit_t) < 3"
    using s by (simp_all add: new_object_def)
  have n: "0 \<le> o_count (new_object 6 1 612) (unat (0 :: bit_t))"
    "o_count (new_object 6 1 612) (unat (0 :: bit_t)) + 1 < 2 ^ 31" by (simp_all add: new_object_def)
  from object_set_then_get [OF object_pair_ready object_pair_objs(1) t(3,1) fresh_table_ok(2,4) t(5)
      object_pair_objs(2) t(2,4) b n]
  show ?thesis by (auto simp: new_object_def)
qed

end
