(* ===== verification/Reclaim.thy ===== *)
theory Reclaim
  imports Effects Layout
begin

text \<open>
  Reference counting alone: in a heap where every link is strong and no object is in the hands of a collector,
  the workers free exactly the objects that cannot be reached from the stack, as long as the links form no cycle. The
  invariant \<open>strong\<close> relates the counts to the links and to the references from the stack, \<open>delete_tasks\<close> the queue to the
  objects whose count is zero.
\<close>

section \<open>Scheduling the end of an object\<close>

lemma runs_from:
  assumes "\<And>v a. P v \<Longrightarrow> 0 < a \<Longrightarrow> next_addr v = a \<Longrightarrow> runs (\<lambda>w. erase w = erase v \<and> a \<le> next_addr w) m Q"
  shows "runs P m Q"
proof (rule runsI)
  fix t st w assume c: "calm t st w" and p: "P w"
  have "0 < next_addr w" using c by (simp add: calm_def at_locks_def)
  from runsE [OF assms [OF p this refl] c] show "\<exists>x w'. m w = Inr (x, w') \<and> calm t st w' \<and> Q x w'" by blast
qed

lemma stable_grown [simp]:
  "stable (\<lambda>w. erase w = v \<and> a \<le> next_addr w)"
  "stable (\<lambda>w. \<exists>t\<ge>a. t < next_addr w \<and> erase w = f t)"
  "stable (\<lambda>w. \<exists>t\<ge>a. (b \<longrightarrow> t < next_addr w) \<and> erase w = f t)"
  by (rule stableI; fastforce)+

lemma runs_above:
  assumes "runs (\<lambda>w. erase w = v \<and> a \<le> next_addr w) m Q'" and "hoare (above a) m (\<lambda>_. above a)"
    and "\<And>x w. Q' x w \<Longrightarrow> a \<le> next_addr w \<Longrightarrow> Q x w"
  shows "runs (\<lambda>w. erase w = v \<and> a \<le> next_addr w) m Q"
proof (rule runsI)
  fix t st w assume c: "calm t st w" and p: "erase w = v \<and> a \<le> next_addr w"
  from runsE [OF assms(1) c p] obtain x w' where r: "m w = Inr (x, w')" "calm t st w'" "Q' x w'" .
  have "above a w'" by (rule hoareD [OF assms(2) _ r(1)]) (use p in \<open>simp add: above_def\<close>)
  with assms(3) [OF r(3)] r show "\<exists>x w'. m w = Inr (x, w') \<and> calm t st w' \<and> Q x w'" by (auto simp: above_def)
qed

lemma bnd_ret_right [simp]: "bnd m ret = m"
  by (rule ext) (auto simp: bnd_def ret_def split: sum.splits)

lemma runs_cong: "runs P m' Q \<Longrightarrow> (\<And>w. P w \<Longrightarrow> m w = m' w) \<Longrightarrow> runs P m Q"
  unfolding runs_def by metis

definition delete_task :: "addr \<Rightarrow> task" where
  "delete_task q = \<lparr>t_run = Object_request_delete_task_run, t_runarg = q\<rparr>"

definition schedule :: "addr \<Rightarrow> task \<Rightarrow> world \<Rightarrow> world" where
  "schedule t tk v = v\<lparr>tsks := (tsks v)(t \<mapsto> tk), task_count := task_count v + 1, work := Some (the (work v) @ [t])\<rparr>"

lemma schedule_simps [simp]:
  "erase (schedule t tk v) = schedule t tk (erase v)" "objs (schedule t tk v) = objs v" "lnks (schedule t tk v) = lnks v"
  "tsks (schedule t tk v) = (tsks v)(t \<mapsto> tk)" "work (schedule t tk v) = Some (the (work v) @ [t])"
  "task_count (schedule t tk v) = task_count v + 1" "lock_view (schedule t tk v) = lock_view v"
  by (simp_all add: schedule_def lock_view_def)

lemma request_delete_runs:
  assumes "work v = Some ts" and "0 < a"
  shows "runs (\<lambda>w. erase w = v \<and> a \<le> next_addr w) (object_request_delete q)
    (\<lambda>_ w. \<exists>t\<ge>a. t < next_addr w \<and> erase w = schedule t (delete_task q) v)"
  unfolding object_request_delete_def task_create_def bnd_assoc bnd_ret
proof (rule runs_bnd)
  show "runs (\<lambda>w. erase w = v \<and> a \<le> next_addr w) (xmalloc sizeof_task)
      (\<lambda>t w. a \<le> t \<and> t < next_addr w \<and> erase w = v)"
    by (rule runs_pre [OF runs_malloc]) auto
next
  fix t
  show "runs (\<lambda>w. a \<le> t \<and> t < next_addr w \<and> erase w = v)
      (bnd (modify (\<lambda>w. w\<lparr>tsks := (tsks w)(t \<mapsto> \<lparr>t_run = Object_request_delete_task_run, t_runarg = q\<rparr>)\<rparr>)) (\<lambda>_. task_start t))
      (\<lambda>_ w. \<exists>t\<ge>a. t < next_addr w \<and> erase w = schedule t (delete_task q) v)"
  proof (rule runs_step)
    fix w assume w: "a \<le> t \<and> t < next_addr w \<and> erase w = v" and m: "mem w = []"
    let ?w = "schedule t (delete_task q) w"
    have "calloc_ok u = Inr (True, u)" if "mem u = []" for u
      using that by (cases u) (simp add: calloc_ok_Inr)
    moreover have "work w = Some ts" using w assms(1) by auto
    ultimately have "bnd (modify (\<lambda>w. w\<lparr>tsks := (tsks w)(t \<mapsto> delete_task q)\<rparr>)) (\<lambda>_. task_start t) w = Inr ((), ?w)"
      using m by (simp add: task_start_def worker_add_task_def bnd_def modify_def gets_def schedule_def whenM_def ret_def)
    then show "\<exists>x w'. bnd (modify (\<lambda>w. w\<lparr>tsks := (tsks w)(t \<mapsto> \<lparr>t_run = Object_request_delete_task_run, t_runarg = q\<rparr>)\<rparr>))
        (\<lambda>_. task_start t) w = Inr (x, w') \<and> lock_view w' = lock_view w \<and>
        (\<exists>t\<ge>a. t < next_addr w' \<and> erase w' = schedule t (delete_task q) v)"
      unfolding delete_task_def [symmetric] using w by (auto simp: schedule_def lock_view_def)
  qed
qed

section \<open>Objects that only strong links refer to\<close>

text \<open>An object with \<open>n\<close> references, all of them strong, and out of the hands of any collector.\<close>

definition plain :: "obj \<Rightarrow> nat \<Rightarrow> bool" where
  "plain ob n \<longleftrightarrow> o_magic ob = OBJECT_MAGIC_NUMBER \<and> unat (o_which ob) < 2 \<and> \<not> o_phantomized ob \<and> o_collector ob = NULL \<and> n < 2 ^ 31 \<and>
     o_count ob = (\<lambda>_. 0)(unat (o_which ob) := int n) \<and> (\<exists>t. o_links ob = Some t \<and> ht_inv t)"

lemma bit_cases: "unat b < 2 \<Longrightarrow> b = 0 \<or> b = (1 :: bit_t)"
  by (metis One_nat_def less_2_cases unat_1 unat_eq_zero word_unat_eq_iff)

lemma plain_counts:
  assumes "plain ob n"
  shows "o_count ob (unat (o_which ob)) = int n" "o_count ob (unat (BIT_FLIP (o_which ob))) = 0"
    "o_count ob 2 = 0" "unat (o_which ob) < 3" "unat (BIT_FLIP (o_which ob)) < 3"
  using assms bit_cases [of "o_which ob"] by (auto simp: plain_def)

lemma bump_count_queue [simp]:
  "work (bump_count q b d v) = work v" "tsks (bump_count q b d v) = tsks v" "task_count (bump_count q b d v) = task_count v"
  "next_addr (bump_count q b d v) = next_addr v" "acid_collect_count (bump_count q b d v) = acid_collect_count v"
  by (simp_all add: bump_count_def set_obj_def)

definition decremented :: "addr \<Rightarrow> nat \<Rightarrow> bit_t \<Rightarrow> addr \<Rightarrow> world \<Rightarrow> world" where
  "decremented q n b t v =
     (if n = 0 then schedule t (delete_task q) (bump_count q b (- 1) v) else bump_count q b (- 1) v)"

lemma decremented_simps [simp]:
  "erase (decremented q n b t v) = decremented q n b t (erase v)" "objs (decremented q n b t v) = objs (bump_count q b (- 1) v)"
  "lnks (decremented q n b t v) = lnks v"
  by (simp_all add: decremented_def)

text \<open>\<open>object_dec\<close> of one of \<open>n + 1\<close> references: the last one starts a task that deletes the object.\<close>

lemma object_dec_plain_runs:
  assumes ob: "objs v q = Some ob" "plain ob (Suc n)" "b = o_which ob" and q: "work v = Some ts" "0 < a"
  shows "runs (\<lambda>w. erase w = v \<and> a \<le> next_addr w) (object_dec q b)
    (\<lambda>_ w. \<exists>t\<ge>a. (n = 0 \<longrightarrow> t < next_addr w) \<and> erase w = decremented q n b t v)"
proof (cases "n = 0")
  case False
  have "runs (\<lambda>w. erase w = v) (object_dec q b) (\<lambda>_ w. erase w = bump_count q b (- 1) v)"
    by (rule object_dec_runs [OF ob(1)]) (use plain_counts [OF ob(2)] ob(2,3) False in \<open>auto simp: plain_def\<close>)
  moreover have "Ex ((\<le>) a)" by (rule exI [of _ a]) simp
  ultimately show ?thesis using False by (auto simp: runs_def decremented_def)
next
  case True
  let ?v = "bump_count q b (- 1) v"
  let ?ob = "ob\<lparr>o_count := (o_count ob)(unat b := 0)\<rparr>"
  note c = plain_counts [OF ob(2)]
  have o: "objs ?v q = Some ?ob" using ob c True by simp
  have dec: "runs (\<lambda>w. erase w = v \<and> a \<le> next_addr w) (block [count_add q b (- 1), bnd (count_at q b) (\<lambda>n. assertM (n \<ge> 0))])
      (\<lambda>_ w. erase w = ?v \<and> a \<le> next_addr w)"
  proof (rule runs_step)
    fix w assume w: "erase w = v \<and> a \<le> next_addr w"
    then have ow: "objs w q = Some ob" using ob(1) by auto
    have add: "count_add q b (- 1) w = Inr ((), bump_count q b (- 1) w)"
      by (rule count_add_ok [OF ow]) (use c ob(3) True in auto)
    have o': "objs (bump_count q b (- 1) w) q = Some ?ob" using ow ob(3) c True by simp
    have "lock_view (bump_count q b (- 1) w) = lock_view w" by simp
    then show "\<exists>x w'. block [count_add q b (- 1), bnd (count_at q b) (\<lambda>n. assertM (n \<ge> 0))] w = Inr (x, w') \<and>
        lock_view w' = lock_view w \<and> erase w' = ?v \<and> a \<le> next_addr w'"
      using w add field_reads_ok(4) [OF o', of b] c ob(3)
      by (auto simp: bnd_def assertM_def ret_def lock_view_def)
  qed
  let ?Q = "\<lambda>w. \<exists>t\<ge>a. t < next_addr w \<and> erase w = schedule t (delete_task q) ?v"
  let ?last = "bnd (count_at q b) (\<lambda>n.
       bnd (obj_which q) (\<lambda>which.
       whenM (n = 0 \<and> b = which)
         (bnd (count_at q (BIT_FLIP which)) (\<lambda>m.
          bnd (count_at q 2) (\<lambda>p.
          if m = 0 \<and> p = 0 then object_request_delete q
          else block [
            bnd (obj_collector q) (\<lambda>c.
              whenM (c = NULL) (block [
                bnd collector_create (object_set_collector q),
                bnd (obj_collector q) (\<lambda>c. bnd (task_create Collector_run c) task_start)])),
            bnd (obj_collector q) (\<lambda>c. collector_add_object c q)])))))"
  have last: "runs (\<lambda>w. erase w = ?v \<and> a \<le> next_addr w) ?last (\<lambda>_. ?Q)"
  proof (rule runs_cong)
    show "runs (\<lambda>w. erase w = ?v \<and> a \<le> next_addr w) (object_request_delete q) (\<lambda>_. ?Q)"
      by (rule request_delete_runs [where ts = ts]) (use q in simp_all)
    fix w assume "erase w = ?v \<and> a \<le> next_addr w"
    then have "objs w q = Some ?ob" using o by (metis erase_simps(1))
    from field_reads_ok [OF this] show "?last w = object_request_delete q w"
      using c ob(3) by (simp add: bnd_def whenM_def)
  qed
  have "runs (\<lambda>w. erase w = v \<and> a \<le> next_addr w) (object_dec q b) (\<lambda>_. ?Q)"
    unfolding object_dec_def
  proof (rule runs_with_locks)
    have "runs (\<lambda>w. erase w = v \<and> a \<le> next_addr w)
        (bnd (block [count_add q b (- 1), bnd (count_at q b) (\<lambda>n. assertM (n \<ge> 0))]) (\<lambda>_. block [?last])) (\<lambda>_. ?Q)"
      by (rule runs_bnd [OF dec]) (use last in simp)
    then show "runs (\<lambda>w. erase w = v \<and> a \<le> next_addr w)
        (block [count_add q b (- 1), bnd (count_at q b) (\<lambda>n. assertM (n \<ge> 0)), ?last]) (\<lambda>_. ?Q)"
      by (simp add: bnd_assoc)
    show "lockable w r" if "?Q w" "r \<in> set [LObj q]" for w r
    proof -
      obtain t where "erase w = schedule t (delete_task q) ?v" using \<open>?Q w\<close> by blast
      then have "objs w q = Some ?ob" using o by (metis erase_simps(1) schedule_simps(2))
      then show ?thesis using that(2) by simp
    qed
  qed (use ob(1) in \<open>auto intro!: stable_grown\<close>)
  then show ?thesis using True by (auto simp: runs_def decremented_def)
qed

section \<open>Dropping a link\<close>

definition unlink_at :: "addr \<Rightarrow> world \<Rightarrow> world" where
  "unlink_at lk v = v\<lparr>lnks := (lnks v)(lk := None)\<rparr>"

lemma unlink_at_simps [simp]:
  "erase (unlink_at lk v) = unlink_at lk (erase v)" "objs (unlink_at lk v) = objs v"
  "lnks (unlink_at lk v) = (lnks v)(lk := None)" "lock_view (unlink_at lk v) = lock_view v"
  "work (unlink_at lk v) = work v" "tsks (unlink_at lk v) = tsks v" "task_count (unlink_at lk v) = task_count v"
  "next_addr (unlink_at lk v) = next_addr v" "acid_collect_count (unlink_at lk v) = acid_collect_count v"
  by (simp_all add: unlink_at_def lock_view_def)

lemma get_link_ok: "lnks w lk = Some l \<Longrightarrow> get_link lk w = Inr (l, w)"
  by (simp add: get_link_def)

lemma runs_read:
  assumes "\<And>w. P w \<Longrightarrow> m w = Inr (c, w)" and "runs P (f c) Q"
  shows "runs P (bnd m f) Q"
  by (rule runs_cong [OF assms(2)]) (simp add: bnd_def assms(1))

lemma link_dec_runs:
  assumes l: "lnks v lk = Some l" "\<not> lk_phantomized l" "lk_src l = p" "lk_target l = q" "objs v p \<noteq> None" "q \<noteq> NULL"
    and ob: "objs v q = Some ob" "plain ob (Suc n)" "lk_which l = o_which ob" and w: "work v = Some ts" "0 < a"
  shows "runs (\<lambda>w. erase w = v \<and> a \<le> next_addr w) (link_dec lk)
    (\<lambda>_ w. \<exists>t\<ge>a. (n = 0 \<longrightarrow> t < next_addr w) \<and> erase w = decremented q n (lk_which l) t v)"
proof -
  let ?P = "\<lambda>w. erase w = v \<and> a \<le> next_addr w"
  let ?Q = "\<lambda>w. \<exists>t\<ge>a. (n = 0 \<longrightarrow> t < next_addr w) \<and> erase w = decremented q n (lk_which l) t v"
  have get: "get_link lk w = Inr (l, w)" if "?P w" for w
    using that l(1) by (intro get_link_ok) auto
  have "runs ?P (bnd (get_link lk) (\<lambda>l. if lk_phantomized l then object_dec_phantom (lk_target l)
      else object_dec (lk_target l) (lk_which l))) (\<lambda>_. ?Q)"
    by (rule runs_read [OF get]) (use l(2,4) object_dec_plain_runs [OF ob w] in simp_all)
  then have body: "runs ?P (with_locks [LObj p, LObj q] (bnd (get_link lk) (\<lambda>l.
      if lk_phantomized l then object_dec_phantom (lk_target l)
      else object_dec (lk_target l) (lk_which l)))) (\<lambda>_. ?Q)"
  proof (rule runs_with_locks [rotated 2])
    show "lockable w r" if "?Q w" "r \<in> set [LObj p, LObj q]" for w r
    proof -
      obtain t where "erase w = decremented q n (lk_which l) t v" using \<open>?Q w\<close> by blast
      then have "objs w = objs (decremented q n (lk_which l) t v)" by (metis erase_simps(1))
      then show ?thesis using that(2) l(5) by auto
    qed
  qed (use l(5) ob(1) in auto)
  show ?thesis
    unfolding link_dec_def by (rule runs_read [OF get]) (use l(3,4,6) body in \<open>simp_all add: whenM_def\<close>)
qed

lemma link_destroy_runs:
  assumes l: "lnks v lk = Some l" "\<not> lk_phantomized l" "lk_src l = p" "lk_target l = q" "objs v p \<noteq> None" "q \<noteq> NULL"
    and ob: "objs v q = Some ob" "plain ob (Suc n)" "lk_which l = o_which ob" and w: "work v = Some ts" "0 < a"
  shows "runs (\<lambda>w. erase w = v \<and> a \<le> next_addr w) (link_destroy lk)
    (\<lambda>_ w. \<exists>t\<ge>a. (n = 0 \<longrightarrow> t < next_addr w) \<and> erase w = unlink_at lk (decremented q n (lk_which l) t v))"
proof -
  let ?P = "\<lambda>w. erase w = v \<and> a \<le> next_addr w"
  let ?D = "\<lambda>w. \<exists>t\<ge>a. (n = 0 \<longrightarrow> t < next_addr w) \<and> erase w = decremented q n (lk_which l) t v"
  let ?Q = "\<lambda>w. \<exists>t\<ge>a. (n = 0 \<longrightarrow> t < next_addr w) \<and> erase w = unlink_at lk (decremented q n (lk_which l) t v)"
  have get: "get_link lk w = Inr (l, w)" if "?P w" for w
    using that l(1) by (intro get_link_ok) auto
  have read: "runs ?P (with_locks [LObj (lk_src l)] (bnd (get_link lk) (\<lambda>l. ret (lk_target l = NULL))))
      (\<lambda>b w. b = False \<and> ?P w)"
  proof (rule runs_with_locks)
    show "runs ?P (bnd (get_link lk) (\<lambda>l. ret (lk_target l = NULL))) (\<lambda>b w. b = False \<and> ?P w)"
      by (rule runs_read [OF get]) (use l(4,6) in \<open>auto intro: runs_ret\<close>)
  qed (use l(3,5) in \<open>auto intro!: stableI\<close>)
  have free: "runs ?D (link_free lk) (\<lambda>_. ?Q)"
  proof (rule runs_step)
    fix w assume "?D w"
    then obtain t where t: "t \<ge> a" "n = 0 \<longrightarrow> t < next_addr w" "erase w = decremented q n (lk_which l) t v" by blast
    then have "lnks w = lnks (decremented q n (lk_which l) t v)" by (metis erase_simps(2))
    then have "get_link lk w = Inr (l, w)" using l(1) by (intro get_link_ok) simp
    then have "link_free lk w = Inr ((), unlink_at lk w)" by (simp add: link_free_def bnd_def modify_def unlink_at_def)
    then show "\<exists>x w'. link_free lk w = Inr (x, w') \<and> lock_view w' = lock_view w \<and> ?Q w'"
      using t by auto
  qed
  have "runs ?P (bnd (link_dec lk) (\<lambda>_. link_free lk)) (\<lambda>_. ?Q)"
    by (rule runs_bnd [OF link_dec_runs [OF l ob w] free])
  then show ?thesis
    unfolding link_destroy_def
    by (intro runs_read [OF get] runs_bnd_eq [OF read]) (simp_all add: whenM_def)
qed

section \<open>Heaps with strong links only\<close>

text \<open>\<open>s p\<close> is the number of references to \<open>p\<close> from the stack, \<open>L\<close> the set of the links that are counted.\<close>

definition links_to :: "addr set \<Rightarrow> world \<Rightarrow> addr \<Rightarrow> addr set" where
  "links_to L w p = {lk \<in> L. map_option lk_target (lnks w lk) = Some p}"

definition owed :: "(addr \<Rightarrow> nat) \<Rightarrow> addr set \<Rightarrow> world \<Rightarrow> addr \<Rightarrow> nat" where
  "owed s L w p = s p + card (links_to L w p)"

definition table_of :: "world \<Rightarrow> addr \<Rightarrow> key \<Rightarrow> addr option" where
  "table_of w p = (case objs w p of None \<Rightarrow> Map.empty | Some ob \<Rightarrow> (case o_links ob of None \<Rightarrow> Map.empty | Some t \<Rightarrow> ht_map t))"

definition all_links :: "world \<Rightarrow> addr set" where
  "all_links w = (\<Union>p. ran (table_of w p))"

definition good_link :: "world \<Rightarrow> addr \<Rightarrow> bool" where
  "good_link w lk \<longleftrightarrow> (\<exists>l q. lnks w lk = Some l \<and> \<not> lk_phantomized l \<and> objs w (lk_src l) \<noteq> None \<and>
     objs w (lk_target l) = Some q \<and> lk_which l = o_which q)"

definition strong :: "(addr \<Rightarrow> nat) \<Rightarrow> addr set \<Rightarrow> world \<Rightarrow> bool" where
  "strong s L w \<longleftrightarrow> finite L \<and> finite (dom (objs w)) \<and> objs w NULL = None \<and>
     (\<forall>p ob. objs w p = Some ob \<longrightarrow> plain ob (owed s L w p)) \<and> (\<forall>p. objs w p = None \<longrightarrow> s p = 0) \<and>
     (\<forall>lk\<in>L. good_link w lk) \<and>
     (\<forall>p k lk. table_of w p k = Some lk \<longrightarrow> lk \<in> L \<and> map_option lk_src (lnks w lk) = Some p) \<and>
     (\<forall>p. inj_on (table_of w p) (dom (table_of w p)))"

definition zero :: "(addr \<Rightarrow> nat) \<Rightarrow> addr set \<Rightarrow> world \<Rightarrow> addr set" where
  "zero s L w = {p \<in> dom (objs w). owed s L w p = 0}"

lemma owed_drop:
  assumes "finite L" and "lk \<in> L" and "map_option lk_target (lnks w lk) = Some q"
    and "\<And>lk'. lk' \<noteq> lk \<Longrightarrow> lnks w' lk' = lnks w lk'"
  shows "owed s L w p = owed s (L - {lk}) w' p + (if p = q then 1 else 0)"
proof -
  have "links_to (L - {lk}) w' p = links_to L w p - {lk}"
    using assms(4) by (auto simp: links_to_def)
  moreover have "finite (links_to L w p)" using assms(1) by (simp add: links_to_def)
  moreover have "lk \<in> links_to L w p \<longleftrightarrow> p = q" using assms(2,3) by (auto simp: links_to_def)
  ultimately show ?thesis using card.remove [of "links_to L w p" lk] by (cases "p = q") (simp_all add: owed_def)
qed

lemma strong_drop:
  assumes s: "strong s L v" and lk: "lk \<in> L" "lk \<notin> all_links v" "lnks v lk = Some l"
  shows "\<exists>ob n. objs v (lk_target l) = Some ob \<and> plain ob (Suc n) \<and> lk_which l = o_which ob \<and>
    \<not> lk_phantomized l \<and> objs v (lk_src l) \<noteq> None \<and> lk_target l \<noteq> NULL \<and>
    (\<forall>w. objs w = objs (bump_count (lk_target l) (lk_which l) (- 1) v) \<longrightarrow> lnks w = (lnks v)(lk := x) \<longrightarrow>
      strong s (L - {lk}) w \<and> zero s (L - {lk}) w = zero s L v \<union> (if n = 0 then {lk_target l} else {}) \<and>
      lk_target l \<notin> zero s L v \<and> table_of w = table_of v)"
proof -
  let ?q = "lk_target l"
  let ?b = "lk_which l"
  have "good_link v lk" using s lk(1) by (simp add: strong_def)
  then obtain ob where g: "\<not> lk_phantomized l" "objs v (lk_src l) \<noteq> None" "objs v ?q = Some ob" "?b = o_which ob"
    using lk(3) by (auto simp: good_link_def)
  have fin: "finite L" using s by (simp add: strong_def)
  have tgt: "map_option lk_target (lnks v lk) = Some ?q" using lk(3) by simp
  have pl: "plain o1 (owed s L v p)" if "objs v p = Some o1" for p o1 using s that by (simp add: strong_def)
  obtain n where n: "owed s L v ?q = Suc n" using owed_drop [OF fin lk(1) tgt, of v s ?q] by auto
  have "strong s (L - {lk}) w \<and> zero s (L - {lk}) w = zero s L v \<union> (if n = 0 then {?q} else {}) \<and>
      ?q \<notin> zero s L v \<and> table_of w = table_of v"
    if ow: "objs w = objs (bump_count ?q ?b (- 1) v)" and lw: "lnks w = (lnks v)(lk := x)" for w
  proof -
    have owed: "owed s L v p = owed s (L - {lk}) w p + (if p = ?q then 1 else 0)" for p
      by (rule owed_drop [OF fin lk(1) tgt]) (simp add: lw)
    have d: "objs w p = None \<longleftrightarrow> objs v p = None" for p using ow g(3) by auto
    have tab: "table_of w = table_of v"
      using ow g(3) by (auto simp: table_of_def fun_eq_iff)
    have wh: "map_option o_which (objs w p) = map_option o_which (objs v p)" for p using ow g(3) by auto
    have good: "good_link w k" if "k \<in> L - {lk}" for k
    proof -
      have "good_link v k" using s that by (simp add: strong_def)
      then obtain m o1 where m: "lnks v k = Some m" "\<not> lk_phantomized m" "objs v (lk_src m) \<noteq> None"
        "objs v (lk_target m) = Some o1" "lk_which m = o_which o1" by (auto simp: good_link_def)
      then obtain o2 where "objs w (lk_target m) = Some o2" using d [of "lk_target m"] by auto
      then show ?thesis using m that d [of "lk_src m"] wh [of "lk_target m"] lw by (auto simp: good_link_def)
    qed
    have plain: "plain o1 (owed s (L - {lk}) w p)" if o1: "objs w p = Some o1" for p o1
    proof (cases "p = ?q")
      case True
      have "o1 = ob\<lparr>o_count := (o_count ob)(unat ?b := o_count ob (unat ?b) - 1)\<rparr>"
        using o1 ow g(3) True by simp
      then show ?thesis using pl [OF g(3)] owed [of ?q] n g(4) True by (auto simp: plain_def)
    next
      case False
      then show ?thesis using o1 ow pl [of p o1] owed [of p] by simp
    qed
    have tabs: "k \<in> L - {lk} \<and> map_option lk_src (lnks w k) = Some p" if "table_of w p i = Some k" for p i k
    proof -
      have "k \<in> all_links v" using that tab by (auto simp: all_links_def ran_def)
      then have "k \<noteq> lk" using lk(2) by blast
      then show ?thesis using s that tab lw by (auto simp: strong_def)
    qed
    have "strong s (L - {lk}) w"
      unfolding strong_def
    proof (intro conjI allI impI ballI)
      show "finite (dom (objs w))" using s d by (simp add: strong_def dom_def)
    qed (use s d fin good plain tabs tab in \<open>auto simp: strong_def\<close>)
    moreover have "zero s (L - {lk}) w = zero s L v \<union> (if n = 0 then {?q} else {})"
      using owed n g(3) d unfolding zero_def dom_def
      by (auto split: if_splits)
    moreover have "?q \<notin> zero s L v" using n by (simp add: zero_def)
    ultimately show ?thesis using tab by blast
  qed
  moreover have "plain ob (Suc n)" using pl [OF g(3)] n by simp
  moreover have "?q \<noteq> NULL" using g(3) s by (auto simp: strong_def)
  ultimately show ?thesis using g by blast
qed

section \<open>The queue of objects to delete\<close>

text \<open>The tasks \<open>X\<close> are in the hands of a worker and delete the objects \<open>R\<close>, those in the queue delete \<open>Q\<close>.\<close>

definition delete_tasks :: "addr list \<Rightarrow> addr list \<Rightarrow> addr list \<Rightarrow> world \<Rightarrow> bool" where
  "delete_tasks X R Q w \<longleftrightarrow> (\<exists>ts. work w = Some ts \<and> length X = length R \<and>
     map (tsks w) (X @ ts) = map (\<lambda>q. Some (delete_task q)) (R @ Q) \<and> distinct (X @ ts) \<and>
     (\<forall>t\<in>set (X @ ts). 0 < t \<and> t < next_addr w) \<and> task_count w = of_nat (length (X @ ts)))"

definition heap_state :: "(addr \<Rightarrow> nat) \<Rightarrow> addr set \<Rightarrow> addr list \<Rightarrow> addr list \<Rightarrow> addr list \<Rightarrow> world \<Rightarrow> bool" where
  "heap_state s L X R Q w \<longleftrightarrow> strong s L w \<and> delete_tasks X R Q w \<and> distinct (R @ Q) \<and> set (R @ Q) = zero s L w"

definition edges :: "world \<Rightarrow> (addr \<times> addr) set" where
  "edges w = {(p, q). \<exists>k lk l. table_of w p k = Some lk \<and> lnks w lk = Some l \<and> lk_target l = q}"

definition shape :: "world \<Rightarrow> addr set \<times> (addr \<times> addr) set \<times> 64 word" where
  "shape w = (dom (objs w), edges w, acid_collect_count w)"

text \<open>In the middle of deleting an object: its links \<open>lks\<close> are still counted and in no table any more.\<close>

definition busy :: "(addr \<Rightarrow> nat) \<Rightarrow> addr list \<Rightarrow> addr list \<Rightarrow> addr list \<Rightarrow> addr set \<times> (addr \<times> addr) set \<times> 64 word \<Rightarrow>
    world \<Rightarrow> bool" where
  "busy s X R lks F w \<longleftrightarrow> distinct lks \<and> set lks \<inter> all_links w = {} \<and> shape w = F \<and>
     (\<exists>Q. heap_state s (all_links w \<union> set lks) X R Q w)"

text \<open>All of this looks at the objects and links only.\<close>

lemma heap_same:
  assumes "objs w = objs v" and "lnks w = lnks v"
  shows "table_of w = table_of v" "owed s L w = owed s L v" "strong s L w = strong s L v" "zero s L w = zero s L v"
    "all_links w = all_links v" "edges w = edges v"
    "acid_collect_count w = acid_collect_count v \<Longrightarrow> shape w = shape v"
proof -
  show t: "table_of w = table_of v" using assms by (simp add: table_of_def fun_eq_iff)
  show o: "owed s L w = owed s L v" for s L using assms by (simp add: owed_def links_to_def fun_eq_iff)
  show "strong s L w = strong s L v" "zero s L w = zero s L v"
    using assms by (simp_all add: strong_def zero_def o t good_link_def)
  show al: "all_links w = all_links v" and e: "edges w = edges v" using assms by (simp_all add: all_links_def edges_def t)
  show "acid_collect_count w = acid_collect_count v \<Longrightarrow> shape w = shape v" using assms e by (simp add: shape_def)
qed

lemma erase_eqs:
  assumes "erase w = erase v"
  shows "objs w = objs v" "lnks w = lnks v" "work w = work v" "tsks w = tsks v" "task_count w = task_count v"
    "acid_collect_count w = acid_collect_count v" "strong s L w = strong s L v" "zero s L w = zero s L v"
    "all_links w = all_links v" "shape w = shape v" "table_of w = table_of v"
proof -
  show o: "objs w = objs v" "lnks w = lnks v" "work w = work v" "tsks w = tsks v" "task_count w = task_count v"
    using assms by (metis erase_simps(1), metis erase_simps(2), metis erase_simps(6), metis erase_simps(5), metis erase_simps(7))
  show c: "acid_collect_count w = acid_collect_count v"
    using arg_cong [OF assms, of acid_collect_count] by (simp add: erase_def)
  show "strong s L w = strong s L v" "zero s L w = zero s L v" "all_links w = all_links v" "shape w = shape v"
    "table_of w = table_of v"
    using heap_same [OF o(1,2)] c by simp_all
qed

lemma delete_tasks_same:
  assumes "delete_tasks X R Q v" and "work w = work v" and "tsks w = tsks v" and "task_count w = task_count v"
    and "next_addr v \<le> next_addr w"
  shows "delete_tasks X R Q w"
  using assms(1) unfolding delete_tasks_def assms(2-4) using assms(5) by (meson order_less_le_trans)

lemmas delete_tasks_grow = delete_tasks_same [OF _ erase_eqs(3-5)]

lemma heap_state_grow:
  assumes "heap_state s L X R Q v" and "erase w = erase v" and "next_addr v \<le> next_addr w"
  shows "heap_state s L X R Q w"
  using assms(1) delete_tasks_grow [OF _ assms(2,2,2,3)] erase_eqs(7,8) [OF assms(2)] unfolding heap_state_def by simp

lemma busy_grow:
  assumes "busy s X R lks F v" and "erase w = erase v" and "next_addr v \<le> next_addr w"
  shows "busy s X R lks F w"
proof -
  obtain Q where "heap_state s (all_links v \<union> set lks) X R Q v" using assms(1) by (auto simp: busy_def)
  from heap_state_grow [OF this assms(2,3)] assms(1) erase_eqs(9,10) [OF assms(2)] show ?thesis by (auto simp: busy_def)
qed

lemma lock_eq_grow: "lock_eq w w' \<Longrightarrow> erase w' = erase w \<and> next_addr w \<le> next_addr w'"
  using erase_lock_eq by (auto simp: lock_eq_def)

lemma stable_busy [simp]: "stable (busy s X R lks F)" "stable (heap_state s L X R Q)"
  unfolding stable_def using lock_eq_grow busy_grow heap_state_grow by blast+

lemma delete_tasks_add:
  assumes v: "delete_tasks X R Q v" and t: "next_addr v \<le> t" "t < next_addr w" "0 < next_addr v"
    and w: "tsks w = (tsks v)(t \<mapsto> delete_task q)" "work w = Some (the (work v) @ [t])" "task_count w = task_count v + 1"
  shows "delete_tasks X R (Q @ [q]) w"
proof -
  obtain ts where ts: "work v = Some ts" "length X = length R"
    "map (tsks v) (X @ ts) = map (\<lambda>q. Some (delete_task q)) (R @ Q)" "distinct (X @ ts)"
    "\<forall>t\<in>set (X @ ts). 0 < t \<and> t < next_addr v" "task_count v = of_nat (length (X @ ts))"
    using v by (auto simp: delete_tasks_def)
  have new: "t \<notin> set (X @ ts)" using ts(5) t(1) by (meson linorder_not_less)
  then have eq: "map (tsks w) (X @ ts) = map (tsks v) (X @ ts)" unfolding w(1) by (intro map_cong) auto
  have "map (tsks w) ((X @ ts) @ [t]) = map (\<lambda>q. Some (delete_task q)) ((R @ Q) @ [q])"
    unfolding map_append [of _ "X @ ts"] map_append [of _ "R @ Q"] eq ts(3) using w(1) by simp
  then show ?thesis
    unfolding delete_tasks_def
  proof (intro exI [of _ "ts @ [t]"] conjI)
    have "next_addr v < next_addr w" "0 < t" using t by simp_all
    then have "\<forall>r\<in>set (X @ ts). 0 < r \<and> r < next_addr w" using ts(5) by (meson order_less_trans)
    then show "\<forall>r\<in>set (X @ ts @ [t]). 0 < r \<and> r < next_addr w" using \<open>0 < t\<close> t(2) by auto
  qed (use ts(1,2,4,6) new w in simp_all)
qed

lemma decremented_tasks:
  assumes v: "delete_tasks X R Q v" and t: "next_addr v \<le> t" "n = 0 \<longrightarrow> t < next_addr w" "0 < next_addr v"
    and w: "next_addr v \<le> next_addr w" "tsks w = tsks (decremented q n b t v)" "work w = work (decremented q n b t v)"
      "task_count w = task_count (decremented q n b t v)"
  shows "delete_tasks X R (Q @ (if n = 0 then [q] else [])) w"
proof (cases "n = 0")
  case True
  then show ?thesis using delete_tasks_add [OF v t(1) _ t(3), of w q] t(2) w by (simp add: decremented_def)
next
  case False
  then have "tsks w = tsks v" "work w = work v" "task_count w = task_count v"
    using w by (simp_all add: decremented_def)
  then show ?thesis using delete_tasks_same [OF v _ _ _ w(1)] False by simp
qed

section \<open>Deleting an object\<close>

lemma busy_link_destroy: "runs (busy s X R (lk # lks) F) (link_destroy lk) (\<lambda>_. busy s X R lks F)"
proof (rule runs_from)
  fix v a assume b: "busy s X R (lk # lks) F v" and a: "0 < a" "next_addr v = a"
  let ?L = "all_links v \<union> set (lk # lks)"
  from b obtain Q where h: "heap_state s ?L X R Q v" by (auto simp: busy_def)
  then have st: "strong s ?L v" by (simp add: heap_state_def)
  from h obtain ts where ts: "work v = Some ts" by (auto simp: heap_state_def delete_tasks_def)
  have new: "lk \<notin> all_links v" "lk \<notin> set lks" using b by (auto simp: busy_def)
  have "good_link v lk" using st by (simp add: strong_def)
  then obtain l where l: "lnks v lk = Some l" by (auto simp: good_link_def)
  from strong_drop [OF st _ new(1) l, where x = None] obtain ob n where
    ob: "objs v (lk_target l) = Some ob" "plain ob (Suc n)" "lk_which l = o_which ob" and
    g: "\<not> lk_phantomized l" "objs v (lk_src l) \<noteq> None" "lk_target l \<noteq> NULL" and
    after: "\<And>w. objs w = objs (bump_count (lk_target l) (lk_which l) (- 1) v) \<Longrightarrow> lnks w = (lnks v)(lk := None) \<Longrightarrow>
      strong s (?L - {lk}) w \<and> zero s (?L - {lk}) w = zero s ?L v \<union> (if n = 0 then {lk_target l} else {}) \<and>
      lk_target l \<notin> zero s ?L v \<and> table_of w = table_of v" by auto
  let ?u = "\<lambda>t. unlink_at lk (decremented (lk_target l) n (lk_which l) t v)"
  have run: "runs (\<lambda>w. erase w = erase v \<and> a \<le> next_addr w) (link_destroy lk)
      (\<lambda>_ w. \<exists>t\<ge>a. (n = 0 \<longrightarrow> t < next_addr w) \<and> erase w = unlink_at lk (decremented (lk_target l) n (lk_which l) t (erase v)))"
    by (rule link_destroy_runs [where ob = ob and ts = ts]) (use l g ob ts a in simp_all)
  have post: "busy s X R lks F w"
    if t: "a \<le> t" "n = 0 \<longrightarrow> t < next_addr w" and e: "erase w = erase (?u t)" and n: "a \<le> next_addr w" for t w
  proof -
    note eq = erase_eqs [OF e]
    have w: "objs w = objs (bump_count (lk_target l) (lk_which l) (- 1) v)" "lnks w = (lnks v)(lk := None)"
      using eq(1,2) by simp_all
    note af = after [OF w]
    have al: "all_links w = all_links v" using af by (simp add: all_links_def)
    have L: "?L - {lk} = all_links w \<union> set lks" using al new by auto
    have "delete_tasks X R (Q @ (if n = 0 then [lk_target l] else [])) w"
      by (rule decremented_tasks [of X R Q v])
        (use h t a n eq(3-5) in \<open>simp_all add: heap_state_def\<close>)
    moreover have "dom (objs w) = dom (objs v)" using w(1) ob(1) by auto
    moreover have "edges w = edges v"
    proof -
      have "k \<noteq> lk" if "table_of v p i = Some k" for p i k using that new(1) by (auto simp: all_links_def ran_def)
      then have "table_of v p i = Some k \<Longrightarrow> lnks w k = lnks v k" for p i k using w(2) by (metis fun_upd_other)
      then show ?thesis using af unfolding edges_def by (auto; metis)
    qed
    moreover have "acid_collect_count w = acid_collect_count v" using eq(6) by (simp add: decremented_def schedule_def)
    ultimately have "shape w = F" and
      hs: "heap_state s (all_links w \<union> set lks) X R (Q @ (if n = 0 then [lk_target l] else [])) w"
      using b h af unfolding heap_state_def busy_def shape_def L by auto
    then show ?thesis using b al unfolding busy_def by auto
  qed
  show "runs (\<lambda>w. erase w = erase v \<and> a \<le> next_addr w) (link_destroy lk) (\<lambda>_. busy s X R lks F)"
    by (rule runs_above [OF run addresses.keep_link_destroy]) (use post in auto)
qed

lemma runs_forM:
  assumes "\<And>x xs. runs (P (x # xs)) (f x) (\<lambda>_. P xs)"
  shows "runs (P xs) (forM xs f) (\<lambda>_. P [])"
proof (induction xs)
  case Nil
  then show ?case by (auto intro: runs_ret)
next
  case (Cons x xs)
  then show ?case by (auto intro: runs_bnd [OF assms])
qed

lemma table_values:
  fixes t :: "addr hashtable"
  assumes "ht_inv t" and inj: "inj_on (ht_map t) (dom (ht_map t))"
  shows "distinct (map te_value (concat (ht_buckets t)))" "set (map te_value (concat (ht_buckets t))) = ran (ht_map t)"
    "length (concat (ht_buckets t)) = hashtable_size t"
proof -
  let ?es = "concat (ht_buckets t)"
  have d: "distinct (map te_key ?es)" by (rule ht_entries_distinct [OF assms(1)])
  have m: "ht_map t = map_of (map te_assoc ?es)" by (simp add: ht_map_def map_concat)
  have map: "ht_map t k = Some v \<longleftrightarrow> (\<exists>e\<in>set ?es. te_key e = k \<and> te_value e = v)" for k v
    using d by (subst m, subst map_of_eq_Some_iff) (auto simp: te_assoc_def image_iff)
  have "inj_on te_value (set ?es)"
  proof (rule inj_onI)
    fix e1 e2 assume e: "e1 \<in> set ?es" "e2 \<in> set ?es" "te_value e1 = te_value e2"
    then have v: "ht_map t (te_key e1) = Some (te_value e1)" "ht_map t (te_key e2) = Some (te_value e1)"
      unfolding map by auto
    then have "te_key e1 = te_key e2" using inj by (metis domI inj_onD)
    then show "e1 = e2" using d e(1,2) by (metis distinct_map inj_onD)
  qed
  then show "distinct (map te_value ?es)" using d by (simp add: distinct_map)
  show "set (map te_value ?es) = ran (ht_map t)" unfolding ran_def map by auto
  show "length ?es = hashtable_size t" using assms(1) by (simp add: ht_inv_def hashtable_size_def)
qed

lemma links_array_runs:
  assumes ob: "objs v p = Some ob" "o_links ob = Some t" and t: "ht_inv t" "inj_on (ht_map t) (dom (ht_map t))"
  shows "runs (\<lambda>w. erase w = v \<and> a \<le> next_addr w) (links_array p te_value)
    (\<lambda>lks w. (distinct lks \<and> set lks = ran (ht_map t)) \<and> erase w = v \<and> a \<le> next_addr w)"
  unfolding links_array_def
proof (rule runs_read [where c = t])
  let ?P = "\<lambda>w. erase w = v \<and> a \<le> next_addr w"
  let ?es = "concat (ht_buckets t)"
  show "links_of p w = Inr (t, w)" if "?P w" for w
    by (rule field_reads_ok(5)) (use that ob in auto)
  have ret: "runs ?P (ret (map te_value ?es))
      (\<lambda>lks w. (distinct lks \<and> set lks = ran (ht_map t)) \<and> ?P w)"
    by (rule runs_ret) (use table_values [OF t] in simp)
  show "runs ?P (if hashtable_size t > 0
      then bnd (xmalloc (sizeof_pointer * int (hashtable_size t)))
        (\<lambda>_. bnd (in_table (hashtable_foreach t)) (\<lambda>es. ret (map te_value es)))
      else ret []) (\<lambda>lks w. (distinct lks \<and> set lks = ran (ht_map t)) \<and> ?P w)"
  proof (cases "hashtable_size t > 0")
    case True
    have "runs ?P (xmalloc (sizeof_pointer * int (hashtable_size t))) (\<lambda>_. ?P)"
      by (rule runs_pre [OF runs_malloc]) auto
    then show ?thesis
      using True ret
      by (simp add: hashtable_foreach_entries [OF t(1)])
        (rule runs_bnd, assumption, rule runs_read [where c = ?es], simp_all add: in_table_ret)
  next
    case False
    then have "map te_value ?es = []" using table_values(3) [OF t] by simp
    with ret False show ?thesis by simp
  qed
qed

definition emptied :: "addr \<Rightarrow> addr hashtable \<Rightarrow> world \<Rightarrow> world" where
  "emptied p t v = set_obj p (\<lambda>ob. ob\<lparr>o_links := Some (hashtable_remove_all t)\<rparr>) v"

definition cut :: "addr \<Rightarrow> addr set \<times> (addr \<times> addr) set \<times> 64 word \<Rightarrow> addr set \<times> (addr \<times> addr) set \<times> 64 word" where
  "cut p F = (case F of (D, E, c) \<Rightarrow> (D, {e \<in> E. fst e \<noteq> p}, c))"

lemma emptied_simps [simp]:
  "erase (emptied p t v) = emptied p t (erase v)" "lnks (emptied p t v) = lnks v" "work (emptied p t v) = work v"
  "tsks (emptied p t v) = tsks v" "task_count (emptied p t v) = task_count v" "next_addr (emptied p t v) = next_addr v"
  "acid_collect_count (emptied p t v) = acid_collect_count v" "lock_view (emptied p t v) = lock_view v"
  by (simp_all add: emptied_def set_obj_def lock_view_def)

lemma strong_emptied:
  assumes s: "strong s L v" and ob: "objs v p = Some ob" "o_links ob = Some t"
  defines "w \<equiv> emptied p t v"
  shows "strong s L w" "zero s L w = zero s L v" "all_links w = all_links v - ran (ht_map t)"
    "ran (ht_map t) \<subseteq> all_links v" "shape w = cut p (shape v)"
proof -
  have "plain ob (owed s L v p)" using s ob(1) by (simp add: strong_def)
  then have t: "ht_inv t" using ob(2) by (auto simp: plain_def)
  have rm: "ht_inv (hashtable_remove_all t)" "ht_map (hashtable_remove_all t) = Map.empty"
    using hashtable_remove_all_map [OF t] by auto
  have ow: "objs w = (objs v)(p \<mapsto> ob\<lparr>o_links := Some (hashtable_remove_all t)\<rparr>)" and lw: "lnks w = lnks v"
    using ob(1) by (simp_all add: w_def emptied_def set_obj_def)
  have tp: "table_of v p = ht_map t" using ob by (simp add: table_of_def)
  have tab: "table_of w = (table_of v)(p := Map.empty)" using ow rm(2) by (auto simp: table_of_def fun_eq_iff)
  have owed: "owed s L w = owed s L v" using lw by (simp add: owed_def links_to_def fun_eq_iff)
  have dom: "dom (objs w) = dom (objs v)" using ow ob(1) by auto
  have none: "objs w q = None \<longleftrightarrow> objs v q = None" for q using ow ob(1) by auto
  have good: "good_link w lk = good_link v lk" for lk
  proof -
    have "map_option o_which (objs w q) = map_option o_which (objs v q)" for q using ow ob(1) by simp
    then have "(\<exists>o1. objs w q = Some o1 \<and> b = o_which o1) \<longleftrightarrow> (\<exists>o1. objs v q = Some o1 \<and> b = o_which o1)" for q b
      by (metis map_option_eq_Some)
    then show ?thesis unfolding good_link_def lw none by blast
  qed
  have plain: "plain o1 (owed s L v q)" if "objs w q = Some o1" for q o1
    using s that ow ob rm(1) by (auto simp: strong_def plain_def split: if_splits)
  have tabs: "lk \<in> L \<and> map_option lk_src (lnks v lk) = Some q" if "table_of w q k = Some lk" for q k lk
    using s that tab by (auto simp: strong_def split: if_splits)
  have inj: "inj_on (table_of w q) (dom (table_of w q))" for q
    using s tab by (cases "q = p") (auto simp: strong_def)
  show "strong s L w"
    using s dom none good plain tabs inj unfolding strong_def owed lw by simp
  show "zero s L w = zero s L v" unfolding zero_def owed dom by simp
  have src: "q = p" if "table_of v q k = Some lk" "table_of v p j = Some lk" for q k j lk
    using s that unfolding strong_def by (metis option.sel)
  show "all_links w = all_links v - ran (ht_map t)"
  proof (rule set_eqI)
    fix lk
    have "lk \<in> all_links w \<longleftrightarrow> (\<exists>q k. q \<noteq> p \<and> table_of v q k = Some lk)"
      unfolding all_links_def ran_def tab by (auto split: if_splits)
    moreover have "lk \<in> all_links v \<longleftrightarrow> (\<exists>q k. table_of v q k = Some lk)"
      by (auto simp: all_links_def ran_def)
    moreover have "lk \<in> ran (ht_map t) \<longleftrightarrow> (\<exists>k. table_of v p k = Some lk)"
      by (auto simp: ran_def tp)
    ultimately show "lk \<in> all_links w \<longleftrightarrow> lk \<in> all_links v - ran (ht_map t)"
      unfolding Diff_iff by (metis src)
  qed
  show "ran (ht_map t) \<subseteq> all_links v" unfolding all_links_def tp [symmetric] by blast
  have "edges w = {e \<in> edges v. fst e \<noteq> p}" unfolding edges_def tab lw by (auto split: if_splits; blast)
  moreover have "acid_collect_count w = acid_collect_count v" by (simp add: w_def)
  ultimately show "shape w = cut p (shape v)" using dom by (simp add: shape_def cut_def)
qed

lemma busy_object:
  assumes "busy s X R lks F v" and "p \<in> set R"
  obtains ob t where "objs v p = Some ob" "o_links ob = Some t" "ht_inv t" "inj_on (ht_map t) (dom (ht_map t))" "plain ob 0"
proof -
  from assms(1) obtain Q where h: "heap_state s (all_links v \<union> set lks) X R Q v" by (auto simp: busy_def)
  then have "p \<in> zero s (all_links v \<union> set lks) v" and st: "strong s (all_links v \<union> set lks) v"
    using assms(2) by (auto simp: heap_state_def)
  then obtain ob where ob: "objs v p = Some ob" "plain ob 0"
    unfolding zero_def strong_def by (smt (verit) domD mem_Collect_eq)
  then obtain t where t: "o_links ob = Some t" "ht_inv t" by (auto simp: plain_def)
  have "table_of v p = ht_map t" using ob(1) t(1) by (simp add: table_of_def)
  then have "inj_on (ht_map t) (dom (ht_map t))" using st unfolding strong_def by metis
  then show ?thesis using that ob t by blast
qed

lemma busy_take_links:
  assumes p: "p \<in> set R"
  shows "runs (busy s X R [] F) (with_locks [LObj p]
       (bnd (links_array p te_value) (\<lambda>lks.
        bnd (links_remove_all p) (\<lambda>_.
        bnd (bnd (count_at p 0) (\<lambda>n. assertM (n = 0))) (\<lambda>_.
        bnd (bnd (count_at p 1) (\<lambda>n. assertM (n = 0))) (\<lambda>_.
        ret lks)))))) (\<lambda>lks. busy s X R lks (cut p F))"
proof (rule runs_with_locks [OF _ _ runs_from])
  fix v a assume b: "busy s X R [] F v" and a: "0 < a" "next_addr v = a"
  obtain ob t where ob: "objs v p = Some ob" "o_links ob = Some t" and t: "ht_inv t" "inj_on (ht_map t) (dom (ht_map t))"
    and pl: "plain ob 0" by (rule busy_object [OF b p])
  let ?good = "\<lambda>lks. distinct lks \<and> set lks = ran (ht_map t)"
  have "o_count ob = (\<lambda>_. 0)" using pl by (auto simp: plain_def)
  then have z: "o_count ob 0 = 0" "o_count ob 1 = 0" by simp_all
  have rest: "runs (\<lambda>w. ?good lks \<and> erase w = erase v \<and> a \<le> next_addr w)
      (bnd (links_remove_all p) (\<lambda>_.
        bnd (bnd (count_at p 0) (\<lambda>n. assertM (n = 0))) (\<lambda>_.
        bnd (bnd (count_at p 1) (\<lambda>n. assertM (n = 0))) (\<lambda>_. ret lks))))
      (\<lambda>lks w. ?good lks \<and> erase w = erase (emptied p t v) \<and> a \<le> next_addr w)" for lks
  proof (rule runs_step)
    fix w assume w: "?good lks \<and> erase w = erase v \<and> a \<le> next_addr w"
    then have ow: "objs w p = Some ob" using ob(1) by (metis erase_simps(1))
    let ?w = "emptied p t w"
    have rm: "links_remove_all p w = Inr ((), ?w)"
      using ow ob(2) by (simp add: links_remove_all_def bnd_def field_reads_ok(5) [OF ow] put_links_def upd_obj_ok emptied_def)
    have "objs ?w p = Some (ob\<lparr>o_links := Some (hashtable_remove_all t)\<rparr>)" using ow by (simp add: emptied_def)
    note reads = field_reads_ok(4) [OF this]
    have "count_at p 0 ?w = Inr (0, ?w)" "count_at p 1 ?w = Inr (0, ?w)"
      using reads [of 0] reads [of 1] z by simp_all
    with rm show "\<exists>x w'. bnd (links_remove_all p) (\<lambda>_.
        bnd (bnd (count_at p 0) (\<lambda>n. assertM (n = 0))) (\<lambda>_.
        bnd (bnd (count_at p 1) (\<lambda>n. assertM (n = 0))) (\<lambda>_. ret lks))) w = Inr (x, w') \<and>
        lock_view w' = lock_view w \<and> ?good x \<and> erase w' = erase (emptied p t v) \<and> a \<le> next_addr w'"
      using w by (simp add: bnd_def assertM_def ret_def)
  qed
  have post: "busy s X R lks (cut p F) w" if g: "?good lks" and e: "erase w = erase (emptied p t v)" and n: "a \<le> next_addr w"
    for lks w
  proof -
    from b obtain Q where h: "heap_state s (all_links v) X R Q v" by (auto simp: busy_def)
    then have st: "strong s (all_links v) v" by (simp add: heap_state_def)
    note em = strong_emptied [OF st ob]
    have L: "all_links (emptied p t v) \<union> set lks = all_links v" using em(3,4) g by blast
    have "delete_tasks X R Q (emptied p t v)" using h by (simp add: heap_state_def delete_tasks_def)
    then have "heap_state s (all_links v) X R Q (emptied p t v)" using h em(1,2) by (simp add: heap_state_def)
    then have "busy s X R lks (cut p F) (emptied p t v)"
      unfolding busy_def L using g em(3,5) b by (auto simp: busy_def)
    then show ?thesis by (rule busy_grow [OF _ e]) (use n a in simp)
  qed
  have "runs (\<lambda>w. erase w = erase v \<and> a \<le> next_addr w) (bnd (links_array p te_value) (\<lambda>lks.
        bnd (links_remove_all p) (\<lambda>_.
        bnd (bnd (count_at p 0) (\<lambda>n. assertM (n = 0))) (\<lambda>_.
        bnd (bnd (count_at p 1) (\<lambda>n. assertM (n = 0))) (\<lambda>_. ret lks)))))
      (\<lambda>lks w. ?good lks \<and> erase w = erase (emptied p t v) \<and> a \<le> next_addr w)"
    by (rule runs_bnd [OF links_array_runs rest]) (use ob t in simp_all)
  then show "runs (\<lambda>w. erase w = erase v \<and> a \<le> next_addr w) (bnd (links_array p te_value) (\<lambda>lks.
        bnd (links_remove_all p) (\<lambda>_.
        bnd (bnd (count_at p 0) (\<lambda>n. assertM (n = 0))) (\<lambda>_.
        bnd (bnd (count_at p 1) (\<lambda>n. assertM (n = 0))) (\<lambda>_. ret lks))))) (\<lambda>lks. busy s X R lks (cut p F))"
    by (rule runs_post) (use post in blast)
next
  show "lockable w r" if "busy s X R [] F w" "r \<in> set [LObj p]" for w r
    using that(2) by (auto intro: busy_object [OF that(1) p])
  show "lockable w r" if "busy s X R lks (cut p F) w" "r \<in> set [LObj p]" for lks w r
    using that(2) by (auto intro: busy_object [OF that(1) p])
qed simp_all

lemma busy_remove_links:
  assumes "p \<in> set R"
  shows "runs (busy s X R [] F) (object_remove_links p) (\<lambda>_. busy s X R [] (cut p F))"
  unfolding object_remove_links_def
  by (rule runs_bnd [OF busy_take_links [OF assms]], rule runs_forM, rule busy_link_destroy)

definition freed :: "addr \<Rightarrow> obj \<Rightarrow> world \<Rightarrow> world" where
  "freed p ob v = v\<lparr>objs := (objs v)(p := None), acid_collect_count := acid_collect_count v + 1,
     dtor_calls := dtor_calls v @ (case o_dtor ob of None \<Rightarrow> [] | Some d \<Rightarrow> [(d, o_data ob)])\<rparr>"

lemma freed_simps [simp]:
  "objs (freed p ob v) = (objs v)(p := None)" "lnks (freed p ob v) = lnks v" "work (freed p ob v) = work v"
  "tsks (freed p ob v) = tsks v" "task_count (freed p ob v) = task_count v" "next_addr (freed p ob v) = next_addr v"
  "acid_collect_count (freed p ob v) = acid_collect_count v + 1"
  by (simp_all add: freed_def)

text \<open>The memory inside \<open>object_del\<close>, when the destructor has been called and the object is not yet freed.\<close>

definition closed :: "addr \<Rightarrow> obj \<Rightarrow> world \<Rightarrow> world" where
  "closed p ob v = (set_obj p (\<lambda>_. ob\<lparr>o_links := None, o_magic := 0\<rparr>) v)\<lparr>
     dtor_calls := dtor_calls v @ (case o_dtor ob of None \<Rightarrow> [] | Some d \<Rightarrow> [(d, o_data ob)])\<rparr>"

lemma closed_simps [simp]:
  "erase (closed p ob v) = closed p ob (erase v)" "objs (closed p ob v) = (objs v)(p \<mapsto> ob\<lparr>o_links := None, o_magic := 0\<rparr>)"
  "lock_view (closed p ob v) = lock_view v" "next_addr (closed p ob v) = next_addr v"
  by (cases v, simp add: closed_def set_obj_def erase_def lock_view_def)+

lemma set_no_collector_runs:
  assumes "objs v p = Some ob" and "o_collector ob = NULL"
  shows "runs (\<lambda>w. erase w = v \<and> a \<le> next_addr w) (object_set_collector p NULL) (\<lambda>_ w. erase w = v \<and> a \<le> next_addr w)"
  unfolding object_set_collector_def
proof (rule runs_with_locks)
  show "runs (\<lambda>w. erase w = v \<and> a \<le> next_addr w) (bnd (get_obj p) (\<lambda>ob. whenM (o_collector ob \<noteq> NULL) (block [
      whenM (NULL \<noteq> NULL) (bnd (coll_count NULL) counter_inc_ref),
      whenM (o_collector ob \<noteq> NULL) (bnd (coll_count (o_collector ob)) counter_dec_ref),
      upd_obj p (\<lambda>ob. ob\<lparr>o_collector := NULL\<rparr>)]))) (\<lambda>_ w. erase w = v \<and> a \<le> next_addr w)"
  proof (rule runs_read [where c = ob])
    show "get_obj p w = Inr (ob, w)" if "erase w = v \<and> a \<le> next_addr w" for w
      using that assms(1) by (auto simp: get_obj_def)
  qed (simp add: assms(2) whenM_def runs_ret)
qed (use assms(1) in auto)

lemma object_del_runs:
  assumes ob: "objs v p = Some ob" "o_collector ob = NULL" "o_links ob = Some t" "hashtable_size t = 0"
  shows "runs (\<lambda>w. erase w = v \<and> a \<le> next_addr w) (object_del p) (\<lambda>_ w. erase w = freed p ob v \<and> a \<le> next_addr w)"
proof -
  let ?P = "\<lambda>w. erase w = v \<and> a \<le> next_addr w"
  let ?C = "\<lambda>w. erase w = closed p ob v \<and> a \<le> next_addr w"
  let ?body = "block [bnd (links_size p) (\<lambda>n. assertM (n = 0)), upd_obj p (\<lambda>ob. ob\<lparr>o_links := None\<rparr>),
      upd_obj p (\<lambda>ob. ob\<lparr>o_magic := 0\<rparr>), call_dtor p]"
  have body: "runs ?P ?body (\<lambda>_. ?C)"
  proof (rule runs_step)
    fix w assume w: "?P w"
    then have ow: "objs w p = Some ob" using ob(1) by auto
    have l: "links_size p w = Inr (0, w)" using field_reads_ok(6) [OF ow ob(3)] ob(4) by simp
    have "?body w = Inr ((), closed p ob w)"
      using ow
      by (cases "o_dtor ob"; simp add: bnd_def l assertM_def ret_def upd_obj_def call_dtor_def get_obj_def modify_def
          closed_def set_obj_def; cases w; simp)
    then show "\<exists>x w'. ?body w = Inr (x, w') \<and> lock_view w' = lock_view w \<and> ?C w'" using w by auto
  qed
  have locked: "runs ?P (with_locks [LObj p] (bnd (object_set_collector p NULL) (\<lambda>_. ?body))) (\<lambda>_. ?C)"
  proof (rule runs_with_locks [OF _ _ runs_bnd [OF set_no_collector_runs [OF ob(1,2)] body]])
    show "lockable w r" if "?C w" "r \<in> set [LObj p]" for w r
    proof -
      have "objs w = objs (closed p ob v)" using that(1) by (metis erase_simps(1))
      then show ?thesis using that(2) by simp
    qed
  qed (use ob(1) in auto)
  have free: "runs ?C (block [bnd (get_obj p) (\<lambda>_. modify (\<lambda>w. w\<lparr>objs := (objs w)(p := None)\<rparr>)),
      modify (\<lambda>w. w\<lparr>acid_collect_count := acid_collect_count w + 1\<rparr>)]) (\<lambda>_ w. erase w = freed p ob v \<and> a \<le> next_addr w)"
  proof (rule runs_step)
    fix w assume w: "?C w"
    have e: "erase (w\<lparr>objs := (objs w)(p := None), acid_collect_count := acid_collect_count w + 1\<rparr>) =
        (erase w)\<lparr>objs := (objs (erase w))(p := None), acid_collect_count := acid_collect_count (erase w) + 1\<rparr>"
      by (cases w) (simp add: erase_def)
    have f: "(closed p ob v)\<lparr>objs := (objs (closed p ob v))(p := None),
        acid_collect_count := acid_collect_count (closed p ob v) + 1\<rparr> = freed p ob v"
      by (cases v) (simp add: closed_def freed_def set_obj_def)
    have "objs w = objs (closed p ob v)" using w by (metis erase_simps(1))
    then have "objs w p \<noteq> None" by simp
    then show "\<exists>x w'. block [bnd (get_obj p) (\<lambda>_. modify (\<lambda>w. w\<lparr>objs := (objs w)(p := None)\<rparr>)),
      modify (\<lambda>w. w\<lparr>acid_collect_count := acid_collect_count w + 1\<rparr>)] w = Inr (x, w') \<and>
      lock_view w' = lock_view w \<and> erase w' = freed p ob v \<and> a \<le> next_addr w'"
      using w e f by (auto simp: bnd_def get_obj_def modify_def ret_def lock_view_def)
  qed
  have "object_del p = bnd (with_locks [LObj p] (bnd (object_set_collector p NULL) (\<lambda>_. ?body)))
      (\<lambda>_. block [bnd (get_obj p) (\<lambda>_. modify (\<lambda>w. w\<lparr>objs := (objs w)(p := None)\<rparr>)),
        modify (\<lambda>w. w\<lparr>acid_collect_count := acid_collect_count w + 1\<rparr>)])"
    by (simp add: object_del_def)
  then show ?thesis using runs_bnd [OF locked free] by simp
qed

section \<open>One round of a worker\<close>

lemma edges_iff: "(p, q) \<in> edges w \<longleftrightarrow> (\<exists>lk\<in>ran (table_of w p). map_option lk_target (lnks w lk) = Some q)"
  by (auto simp: edges_def ran_def; blast)

lemma strong_links:
  assumes "strong s (all_links w) w"
  shows "links_to (all_links w) w q = {} \<longleftrightarrow> (\<forall>p. (p, q) \<notin> edges w)"
    "table_of w p = Map.empty \<longleftrightarrow> (\<forall>q. (p, q) \<notin> edges w)"
proof -
  show "links_to (all_links w) w q = {} \<longleftrightarrow> (\<forall>p. (p, q) \<notin> edges w)"
    unfolding links_to_def all_links_def edges_iff by blast
  have t: "\<exists>q. map_option lk_target (lnks w lk) = Some q" if "lk \<in> ran (table_of w p)" for lk
  proof -
    have "lk \<in> all_links w" using that by (auto simp: all_links_def)
    then have "good_link w lk" using assms by (simp add: strong_def)
    then show ?thesis by (auto simp: good_link_def)
  qed
  have "table_of w p = Map.empty \<longleftrightarrow> ran (table_of w p) = {}" by (simp add: ran_def fun_eq_iff) (metis not_None_eq)
  also have "\<dots> \<longleftrightarrow> (\<forall>q. (p, q) \<notin> edges w)" unfolding edges_iff using t by blast
  finally show "table_of w p = Map.empty \<longleftrightarrow> (\<forall>q. (p, q) \<notin> edges w)" .
qed

text \<open>An object that nothing refers to, read off the shape of the heap.\<close>

definition unowned :: "(addr \<Rightarrow> nat) \<Rightarrow> addr set \<times> (addr \<times> addr) set \<times> 64 word \<Rightarrow> addr set" where
  "unowned s F = (case F of (D, E, c) \<Rightarrow> {p \<in> D. s p = 0 \<and> (\<forall>q. (q, p) \<notin> E)})"

definition dropped :: "addr \<Rightarrow> addr set \<times> (addr \<times> addr) set \<times> 64 word \<Rightarrow> addr set \<times> (addr \<times> addr) set \<times> 64 word" where
  "dropped p F = (case F of (D, E, c) \<Rightarrow> (D - {p}, {e \<in> E. fst e \<noteq> p}, c + 1))"

lemma zero_unowned:
  assumes "strong s (all_links w) w"
  shows "zero s (all_links w) w = unowned s (shape w)"
proof -
  have "finite (links_to (all_links w) w q)" for q using assms by (simp add: strong_def links_to_def)
  then have "owed s (all_links w) w q = 0 \<longleftrightarrow> s q = 0 \<and> (\<forall>p. (p, q) \<notin> edges w)" for q
    using strong_links(1) [OF assms] by (simp add: owed_def)
  then show ?thesis by (auto simp: zero_def unowned_def shape_def)
qed

lemma strong_freed:
  assumes s: "strong s (all_links v) v" and p: "objs v p = Some ob" "owed s (all_links v) v p = 0" "\<forall>q. (p, q) \<notin> edges v"
    and w: "objs w = (objs v)(p := None)" "lnks w = lnks v" "acid_collect_count w = acid_collect_count v + 1"
  shows "strong s (all_links w) w" "zero s (all_links w) w = zero s (all_links v) v - {p}"
    "shape w = dropped p (shape v)" "all_links w = all_links v"
proof -
  have tp: "table_of v p = Map.empty" using strong_links(2) [OF s] p(3) by blast
  then have tab: "table_of w = table_of v" using w(1) by (auto simp: table_of_def fun_eq_iff)
  then show al: "all_links w = all_links v" by (simp add: all_links_def)
  have owed: "owed s L w = owed s L v" for L using w(2) by (simp add: owed_def links_to_def fun_eq_iff)
  have "finite (links_to (all_links v) v p)" using s by (simp add: strong_def links_to_def)
  then have to: "links_to (all_links v) v p = {}" and sp: "s p = 0" using p(2) by (auto simp: owed_def)
  have good: "good_link w lk" if lk: "lk \<in> all_links v" for lk
  proof -
    have g: "good_link v lk" using s lk by (simp add: strong_def)
    then obtain l where l: "lnks v lk = Some l" by (auto simp: good_link_def)
    have "lk_target l \<noteq> p" using to lk l by (auto simp: links_to_def)
    moreover obtain q k where q: "table_of v q k = Some lk" using lk by (auto simp: all_links_def ran_def)
    then have "lk_src l = q" using s l unfolding strong_def by (metis option.map(2) option.sel)
    moreover have "q \<noteq> p" using q tp by auto
    ultimately show ?thesis using g l w(1,2) by (auto simp: good_link_def)
  qed
  have fin: "finite (dom (objs w))" using s w(1) by (simp add: strong_def)
  show "strong s (all_links w) w"
    using s fin good sp w(1) unfolding strong_def owed al tab w(2) by (auto split: if_splits)
  show "zero s (all_links w) w = zero s (all_links v) v - {p}"
    unfolding zero_def owed al w(1) by auto
  have "edges w = edges v" unfolding edges_def tab w(2) ..
  moreover have "{e \<in> edges v. fst e \<noteq> p} = edges v" using p(3) by auto
  ultimately show "shape w = dropped p (shape v)" using w(1,3) by (auto simp: shape_def dropped_def)
qed

definition finished :: "(addr \<Rightarrow> nat) \<Rightarrow> addr list \<Rightarrow> addr list \<Rightarrow> addr set \<times> (addr \<times> addr) set \<times> 64 word \<Rightarrow> world \<Rightarrow> bool" where
  "finished s X R F w \<longleftrightarrow> strong s (all_links w) w \<and> shape w = F \<and>
     (\<exists>Q. delete_tasks X R Q w \<and> distinct Q \<and> set Q = zero s (all_links w) w)"

lemma finished_grow:
  assumes "finished s X R F v" and "erase w = erase v" and "next_addr v \<le> next_addr w"
  shows "finished s X R F w"
proof -
  note eq = erase_eqs [OF assms(2)]
  obtain Q where "delete_tasks X R Q v" "distinct Q" "set Q = zero s (all_links v) v"
    using assms(1) by (auto simp: finished_def)
  then have "delete_tasks X R Q w" "distinct Q" "set Q = zero s (all_links w) w"
    using delete_tasks_grow [OF _ assms(2,2,2,3)] eq(8,9) by simp_all
  then show ?thesis using assms(1) eq(7,9,10) unfolding finished_def by auto
qed

lemma stable_finished [simp]: "stable (finished s X R F)"
  unfolding stable_def using lock_eq_grow finished_grow by blast

lemma finished_busy: "finished s [] [] F w \<longleftrightarrow> busy s [] [] [] F w"
  by (auto simp: finished_def busy_def heap_state_def)

lemma dropped_cut [simp]: "dropped p (cut p F) = dropped p F"
  by (auto simp: dropped_def cut_def split: prod.splits)

lemma busy_del: "runs (busy s X [p] [] (cut p F)) (object_del p) (\<lambda>_. finished s X [p] (dropped p F))"
proof (rule runs_from)
  fix v a assume b: "busy s X [p] [] (cut p F) v" and a: "0 < a" "next_addr v = a"
  have pR: "p \<in> set [p]" by simp
  obtain ob t where ob: "objs v p = Some ob" "o_links ob = Some t" "ht_inv t" and pl: "plain ob 0"
    by (rule busy_object [OF b pR])
  from b obtain Q where h: "heap_state s (all_links v) X [p] Q v" and sh: "shape v = cut p F" by (auto simp: busy_def)
  then have st: "strong s (all_links v) v" and z: "set (p # Q) = zero s (all_links v) v" "distinct (p # Q)"
    and dt: "delete_tasks X [p] Q v"
    by (simp_all add: heap_state_def)
  have ed: "\<forall>q. (p, q) \<notin> edges v" using sh by (auto simp: shape_def cut_def split: prod.splits)
  then have "ht_map t = Map.empty" using strong_links(2) [OF st, of p] ob(1,2) by (simp add: table_of_def)
  then have size: "hashtable_size t = 0" using hashtable_size_map [OF ob(3)] by simp
  have owed: "owed s (all_links v) v p = 0" using z(1) by (auto simp: zero_def)
  have post: "finished s X [p] (dropped p F) w" if e: "erase w = freed p ob (erase v)" and n: "a \<le> next_addr w" for w
  proof -
    have w: "objs w = (objs v)(p := None)" "lnks w = lnks v" "acid_collect_count w = acid_collect_count v + 1"
      "work w = work v" "tsks w = tsks v" "task_count w = task_count v"
      using arg_cong [OF e, of objs] arg_cong [OF e, of lnks] arg_cong [OF e, of acid_collect_count]
        arg_cong [OF e, of work] arg_cong [OF e, of tsks] arg_cong [OF e, of task_count]
      by (simp_all add: erase_def)
    note fr = strong_freed [OF st ob(1) owed ed w(1-3)]
    have "delete_tasks X [p] Q w" by (rule delete_tasks_same [OF dt w(4-6)]) (use n a in simp)
    moreover have "set Q = zero s (all_links w) w" using fr(2) z by auto
    ultimately show ?thesis using fr(1,3) sh z(2) by (auto simp: finished_def)
  qed
  have "runs (\<lambda>w. erase w = erase v \<and> a \<le> next_addr w) (object_del p)
      (\<lambda>_ w. erase w = freed p ob (erase v) \<and> a \<le> next_addr w)"
    by (rule object_del_runs) (use ob pl size in \<open>simp_all add: plain_def\<close>)
  then show "runs (\<lambda>w. erase w = erase v \<and> a \<le> next_addr w) (object_del p) (\<lambda>_. finished s X [p] (dropped p F))"
    by (rule runs_post) (use post in blast)
qed

lemma delete_task_runs:
  "runs (busy s [tk] [p] [] F) (task_run tk) (\<lambda>_. busy s [] [] [] (dropped p F))"
  unfolding task_run_def
proof (rule runs_read [where c = "delete_task p"])
  show "get_task tk w = Inr (delete_task p, w)" if "busy s [tk] [p] [] F w" for w
    using that by (auto simp: busy_def heap_state_def delete_tasks_def get_task_def)
  have call: "runs (busy s [tk] [p] [] F) (task_call (t_run (delete_task p)) (t_runarg (delete_task p)))
      (\<lambda>again w. again = False \<and> finished s [tk] [p] (dropped p F) w)"
    by (simp add: task_call_def delete_task_def object_request_delete_task_run_def)
      (rule runs_bnd [OF busy_remove_links], simp, rule runs_bnd [OF busy_del], rule runs_ret, simp)
  have fin: "runs (finished s [tk] [p] (dropped p F)) (block [task_destroy tk, task_finished]) (\<lambda>_. busy s [] [] [] (dropped p F))"
  proof (rule runs_step)
    fix w assume f: "finished s [tk] [p] (dropped p F) w"
    then obtain Q ts where st: "strong s (all_links w) w" "shape w = dropped p F" and q: "distinct Q" "set Q = zero s (all_links w) w"
      and ts: "work w = Some ts" "map (tsks w) (tk # ts) = map (\<lambda>q. Some (delete_task q)) (p # Q)" "distinct (tk # ts)"
        "\<forall>t\<in>set (tk # ts). 0 < t \<and> t < next_addr w" "task_count w = of_nat (length (tk # ts))"
      by (auto simp: finished_def delete_tasks_def)
    let ?w = "w\<lparr>tsks := (tsks w)(tk := None), task_count := task_count w - 1,
      zero_broadcasts := zero_broadcasts w + (if task_count w - 1 = 0 then 1 else 0)\<rparr>"
    have run: "block [task_destroy tk, task_finished] w = Inr ((), ?w)"
      using ts by (simp add: task_destroy_def task_finished_def bnd_def get_task_def modify_def ret_def)
    have "map ((tsks w)(tk := None)) ts = map (tsks w) ts" using ts(3) by (intro map_cong) auto
    then have "delete_tasks [] [] Q ?w" using ts by (simp add: delete_tasks_def)
    moreover have "strong s (all_links w) ?w = strong s (all_links w) w" "zero s (all_links w) ?w = zero s (all_links w) w"
      "all_links ?w = all_links w" "shape ?w = shape w"
      by (rule heap_same; simp)+
    ultimately have "finished s [] [] (dropped p F) ?w" using st q unfolding finished_def by auto
    then show "\<exists>x w'. block [task_destroy tk, task_finished] w = Inr (x, w') \<and> lock_view w' = lock_view w \<and>
        busy s [] [] [] (dropped p F) w'"
      using run by (auto simp: finished_busy lock_view_def)
  qed
  show "runs (busy s [tk] [p] [] F) (bnd (task_call (t_run (delete_task p)) (t_runarg (delete_task p)))
      (\<lambda>again. if again then worker_add_task tk else block [task_destroy tk, task_finished])) (\<lambda>_. busy s [] [] [] (dropped p F))"
    by (rule runs_bnd_eq [OF call]) (use fin in simp)
qed

lemma runs_ex: "(\<And>y. runs (P y) m Q) \<Longrightarrow> runs (\<lambda>w. \<exists>y. P y w) m Q"
  unfolding runs_def by blast

text \<open>A round of a worker deletes one of the objects that nothing refers to, as long as there are any.\<close>

lemma worker_pass_runs:
  assumes "unowned s F \<noteq> {}"
  shows "runs (busy s [] [] [] F) worker_pass (\<lambda>_ w. \<exists>p\<in>unowned s F. busy s [] [] [] (dropped p F) w)"
  unfolding worker_pass_def
proof (rule runs_bnd)
  let ?taken = "\<lambda>tk w. tk \<noteq> NULL \<and> (\<exists>p\<in>unowned s F. busy s [tk] [p] [] F w)"
  show "runs (busy s [] [] [] F) worker_get_next_task ?taken"
  proof (rule runs_step)
    fix w assume b: "busy s [] [] [] F w"
    then obtain Q where st: "strong s (all_links w) w" "shape w = F" and dt: "delete_tasks [] [] Q w"
      and q: "distinct Q" "set Q = zero s (all_links w) w"
      by (auto simp: busy_def heap_state_def)
    have z: "set Q = unowned s F" using q zero_unowned [OF st(1)] st(2) by simp
    then obtain p Q' where Q: "Q = p # Q'" using assms by (cases Q) auto
    from dt obtain ts where ts: "work w = Some ts" "map (tsks w) ts = map (\<lambda>q. Some (delete_task q)) Q" "distinct ts"
        "\<forall>t\<in>set ts. 0 < t \<and> t < next_addr w" "task_count w = of_nat (length ts)"
      by (auto simp: delete_tasks_def)
    then obtain tk ts' where T: "ts = tk # ts'" using Q by (cases ts) auto
    let ?w = "w\<lparr>work := Some ts'\<rparr>"
    have run: "worker_get_next_task w = Inr (tk, ?w)"
      using ts(1) T by (simp add: worker_get_next_task_def bnd_def gets_def modify_def ret_def)
    have "delete_tasks [tk] [p] Q' ?w" using ts Q T by (simp add: delete_tasks_def)
    moreover have "strong s (all_links w) ?w = strong s (all_links w) w" "zero s (all_links w) ?w = zero s (all_links w) w"
      "all_links ?w = all_links w" "shape ?w = shape w"
      by (rule heap_same; simp)+
    ultimately have "busy s [tk] [p] [] F ?w"
      using st q Q by (auto simp: busy_def heap_state_def)
    moreover have "p \<in> unowned s F" "tk \<noteq> NULL" using z Q ts(4) T by auto
    ultimately show "\<exists>x w'. worker_get_next_task w = Inr (x, w') \<and> lock_view w' = lock_view w \<and> ?taken x w'"
      using run by (auto simp: lock_view_def)
  qed
  fix tk
  show "runs (?taken tk) (whenM (tk \<noteq> NULL) (task_run tk)) (\<lambda>_ w. \<exists>p\<in>unowned s F. busy s [] [] [] (dropped p F) w)"
  proof (cases "tk = NULL")
    case False
    have "runs (\<lambda>w. \<exists>p\<in>unowned s F. busy s [tk] [p] [] F w) (task_run tk)
        (\<lambda>_ w. \<exists>p\<in>unowned s F. busy s [] [] [] (dropped p F) w)"
      using delete_task_runs [of s tk _ F] unfolding runs_def by blast
    with False show ?thesis by (simp add: whenM_def)
  qed (simp add: runs_def)
qed

section \<open>What the stack can reach\<close>

definition live :: "(addr \<Rightarrow> nat) \<Rightarrow> addr set \<Rightarrow> (addr \<times> addr) set \<Rightarrow> addr set" where
  "live s D E = {p \<in> D. \<exists>r\<in>D. 0 < s r \<and> (r, p) \<in> E\<^sup>*}"

lemma unowned_exists:
  assumes "finite D" and "E \<subseteq> D \<times> D" and "acyclic E" and "D \<noteq> live s D E"
  shows "unowned s (D, E, c) \<noteq> {}"
proof -
  have "finite E" using assms(1,2) by (meson finite_SigmaI finite_subset)
  then have "wf E" using assms(3) by (rule finite_acyclic_wf)
  moreover have "live s D E \<subseteq> D" by (auto simp: live_def)
  then obtain x where "x \<in> D - live s D E" using assms(4) by blast
  ultimately obtain z where z: "z \<in> D - live s D E" "\<And>y. (y, z) \<in> E \<Longrightarrow> y \<notin> D - live s D E"
    by (rule wfE_min) blast
  have "(q, z) \<notin> E" for q
  proof
    assume e: "(q, z) \<in> E"
    then have "q \<in> live s D E" using z(2) assms(2) by blast
    then show False using e z(1) by (auto simp: live_def intro: rtrancl_into_rtrancl)
  qed
  moreover have "s z = 0" using z(1) by (auto simp: live_def)
  ultimately show ?thesis using z(1) by (auto simp: unowned_def)
qed

lemma live_dropped:
  assumes p: "p \<in> unowned s (D, E, c)"
  shows "live s (D - {p}) {e \<in> E. fst e \<noteq> p} = live s D E" "p \<notin> live s D E"
proof -
  let ?E = "{e \<in> E. fst e \<noteq> p}"
  have far: "(r, p) \<notin> E\<^sup>*" if "0 < s r" for r
  proof
    assume "(r, p) \<in> E\<^sup>*"
    then show False by (cases rule: rtranclE) (use p that in \<open>auto simp: unowned_def\<close>)
  qed
  then show dead: "p \<notin> live s D E" by (auto simp: live_def)
  have "(r, x) \<in> ?E\<^sup>*" if "(r, x) \<in> E\<^sup>*" "0 < s r" for r x
    using that(1)
  proof (induction rule: rtrancl_induct)
    case (step y z)
    then have "y \<noteq> p" using far [OF that(2)] by blast
    then show ?case using step by (auto intro: rtrancl_into_rtrancl)
  qed simp
  moreover have "?E\<^sup>* \<subseteq> E\<^sup>*" by (rule rtrancl_mono) blast
  moreover have "s p = 0" using p by (simp add: unowned_def)
  ultimately show "live s (D - {p}) ?E = live s D E"
    using dead unfolding live_def by (auto; blast)
qed

primrec worker_rounds :: "nat \<Rightarrow> unit W" where
  "worker_rounds 0 = ret ()"
| "worker_rounds (Suc n) = bnd worker_pass (\<lambda>_. worker_rounds n)"

lemma worker_rounds_runs:
  assumes "finite D" and "E \<subseteq> D \<times> D" and "acyclic E" and "card (D - live s D E) = n"
  shows "runs (busy s [] [] [] (D, E, c)) (worker_rounds n)
    (\<lambda>_ w. \<exists>E'. live s (live s D E) E' = live s D E \<and> busy s [] [] [] (live s D E, E', c + of_nat n) w)"
  using assms
proof (induction n arbitrary: D E c)
  case 0
  then have "D = live s D E" by (auto simp: live_def)
  then show ?case by (auto intro!: runs_ret)
next
  case (Suc n)
  let ?F = "(D, E, c)"
  have "D \<noteq> live s D E" using Suc.prems(4) by auto
  then have un: "unowned s ?F \<noteq> {}" using Suc.prems(1-3) by (intro unowned_exists)
  have rest: "runs (busy s [] [] [] (dropped p ?F)) (worker_rounds n)
      (\<lambda>_ w. \<exists>E'. live s (live s D E) E' = live s D E \<and> busy s [] [] [] (live s D E, E', c + of_nat (Suc n)) w)"
    if p: "p \<in> unowned s ?F" for p
  proof -
    let ?D = "D - {p}"
    let ?E = "{e \<in> E. fst e \<noteq> p}"
    note lv = live_dropped [OF p]
    have pD: "p \<in> D" and np: "\<And>q. (q, p) \<notin> E" using p by (auto simp: unowned_def)
    have "?D - live s ?D ?E = (D - live s D E) - {p}" unfolding lv(1) by blast
    then have "card (?D - live s ?D ?E) = n"
      using Suc.prems(1,4) pD lv(2) by (simp add: card_Diff_singleton)
    moreover have "acyclic ?E" using Suc.prems(3) by (rule acyclic_subset) blast
    moreover have "?E \<subseteq> ?D \<times> ?D" using Suc.prems(2) np by auto
    ultimately have "runs (busy s [] [] [] (?D, ?E, c + 1)) (worker_rounds n)
      (\<lambda>_ w. \<exists>E'. live s (live s ?D ?E) E' = live s ?D ?E \<and> busy s [] [] [] (live s ?D ?E, E', c + 1 + of_nat n) w)"
      using Suc.prems(1) by (intro Suc.IH) simp_all
    then show ?thesis unfolding lv(1) by (simp add: dropped_def add.assoc)
  qed
  show ?case
    unfolding worker_rounds.simps
    by (rule runs_bnd [OF worker_pass_runs [OF un]]) (use rest in \<open>auto simp: runs_def; blast\<close>)
qed

text \<open>A heap at rest: only strong links, counts that agree with the links and with the references \<open>s\<close> from the stack,
  and one task in the queue for every object whose count is zero.\<close>

definition strong_heap :: "(addr \<Rightarrow> nat) \<Rightarrow> world \<Rightarrow> bool" where
  "strong_heap s w \<longleftrightarrow> (\<exists>Q. heap_state s (all_links w) [] [] Q w)"

lemma strong_heap_busy: "strong_heap s w \<longleftrightarrow> busy s [] [] [] (shape w) w"
  by (auto simp: strong_heap_def busy_def)

lemma strong_heap_edges:
  assumes "strong_heap s w"
  shows "finite (dom (objs w))" "edges w \<subseteq> dom (objs w) \<times> dom (objs w)"
proof -
  from assms have st: "strong s (all_links w) w" by (auto simp: strong_heap_def heap_state_def)
  then show "finite (dom (objs w))" by (simp add: strong_def)
  show "edges w \<subseteq> dom (objs w) \<times> dom (objs w)"
  proof
    fix e assume "e \<in> edges w"
    then obtain p k lk l where e: "e = (p, lk_target l)" "table_of w p k = Some lk" "lnks w lk = Some l"
      by (auto simp: edges_def)
    then have "lk \<in> all_links w" by (auto simp: all_links_def ran_def)
    then have "good_link w lk" using st by (simp add: strong_def)
    then have "objs w (lk_target l) \<noteq> None" using e(3) by (auto simp: good_link_def)
    moreover have "objs w p \<noteq> None" using e(2) by (auto simp: table_of_def split: option.splits)
    ultimately show "e \<in> dom (objs w) \<times> dom (objs w)" using e(1) by auto
  qed
qed

text \<open>What a client can reach: an object with a reference from the stack, or behind links of one.\<close>

definition reach :: "(addr \<Rightarrow> nat) \<Rightarrow> world \<Rightarrow> addr set" where
  "reach s w = live s (dom (objs w)) (edges w)"

lemma idle_when_all_live:
  assumes "busy s [] [] [] (D, E, c) w" and "live s D E = D"
  shows "work w = Some []" "task_count w = 0"
proof -
  from assms(1) obtain Q where h: "heap_state s (all_links w) [] [] Q w" and sh: "shape w = (D, E, c)"
    by (auto simp: busy_def)
  then have "set Q = unowned s (D, E, c)" using zero_unowned [of s w] by (simp add: heap_state_def)
  moreover have "unowned s (D, E, c) = {}"
  proof (rule ccontr)
    assume "unowned s (D, E, c) \<noteq> {}"
    then obtain p where p: "p \<in> unowned s (D, E, c)" by blast
    then have "p \<in> D" by (simp add: unowned_def)
    then show False using live_dropped(2) [OF p] assms(2) by simp
  qed
  ultimately show "work w = Some []" "task_count w = 0" using h by (auto simp: heap_state_def delete_tasks_def)
qed

end
