(* ===== verification/Mutator.thy ===== *)
theory Mutator
  imports Reclaim Census
begin

text \<open>
  A client that only sets fields to objects without links of their own, beside workers. Every link that it makes is
  strong and none closes a cycle, so that by theory \<open>Reclaim\<close> reference counting alone collects whatever it drops. The
  client is a step relation, in which the workers may run at any time.
\<close>

section \<open>Blocks are never used twice\<close>

definition fresh :: "world \<Rightarrow> bool" where
  "fresh w \<longleftrightarrow> 0 < next_addr w \<and> (\<forall>p. objs w p \<noteq> None \<or> lnks w p \<noteq> None \<longrightarrow> p < next_addr w)"

lemma freshI:
  assumes "fresh w" and "\<And>p. objs w' p \<noteq> None \<Longrightarrow> objs w p \<noteq> None" and "\<And>p. lnks w' p \<noteq> None \<Longrightarrow> lnks w p \<noteq> None"
    and "next_addr w \<le> next_addr w'"
  shows "fresh w'"
  using assms unfolding fresh_def by (meson order_less_le_trans)

lemma growing_fresh: "growing fresh"
  unfolding growing_def
proof (intro allI impI)
  fix w w' assume "bare w = bare w'" "next_addr w \<le> next_addr w'" "fresh w"
  then show "fresh w'" using bare_fields(1,2) [of w w'] by (auto intro: freshI)
qed

lemma fresh_writes:
  "hoare fresh (upd_obj p f) (\<lambda>_. fresh)" "hoare fresh (upd_link lk g) (\<lambda>_. fresh)"
  "hoare fresh (upd_sl sl h) (\<lambda>_. fresh)" "hoare fresh (upd_coll c k) (\<lambda>_. fresh)"
  "hoare fresh (upd_ctr n j) (\<lambda>_. fresh)" "hoare fresh (in_table op) (\<lambda>_. fresh)"
  "hoare fresh idlock_init (\<lambda>_. fresh)"
  by (auto simp: hoare_def access_Inr in_table_Inr idlock_init_def bnd_Inr fresh_def split: if_splits)

lemma fresh_modify:
  "(\<And>w. objs (f w) = objs w \<and> lnks (f w) = lnks w \<and> next_addr (f w) = next_addr w) \<Longrightarrow> hoare fresh (modify f) (\<lambda>_. fresh)"
  by (auto simp: hoare_def fresh_def)

lemma fresh_links: "hoare fresh (link_create s t) (\<lambda>_. fresh)" "hoare fresh (link_free lk) (\<lambda>_. fresh)"
proof -
  show "hoare fresh (link_create s t) (\<lambda>_. fresh)"
  proof (rule hoareI)
    fix w x w' assume f: "fresh w" and "link_create s t w = Inr (x, w')"
    then obtain w1 l where m: "xmalloc sizeof_link w = Inr (x, w1)" and w': "w' = w1\<lparr>lnks := (lnks w1)(x \<mapsto> l)\<rparr>"
      by (auto simp: link_create_def bnd_Inr)
    have "fresh w1" by (rule hoareD [OF growing_locks(3) [OF growing_fresh] f m])
    moreover have "x < next_addr w1"
      using hoareD [OF xmalloc_fresh [of "next_addr w"] _ m] f by (auto simp: fresh_def)
    ultimately show "fresh w'" using w' by (auto simp: fresh_def split: if_splits)
  qed
  show "hoare fresh (link_free lk) (\<lambda>_. fresh)"
    by (auto simp: hoare_def link_free_def bnd_Inr access_Inr fresh_def split: if_splits)
qed

lemma fresh_objects:
  "hoare fresh (bnd (xmalloc sz) object_init) (\<lambda>_. fresh)"
  "hoare fresh (block [
     bnd (get_obj p) (\<lambda>_. modify (\<lambda>w. w\<lparr>objs := (objs w)(p := None)\<rparr>)),
     modify (\<lambda>w. w\<lparr>acid_collect_count := acid_collect_count w + 1\<rparr>)]) (\<lambda>_. fresh)"
proof -
  show "hoare fresh (bnd (xmalloc sz) object_init) (\<lambda>_. fresh)"
  proof (rule hoareI)
    fix w q w' assume f: "fresh w" and "bnd (xmalloc sz) object_init w = Inr (q, w')"
    then obtain p w1 where m: "xmalloc sz w = Inr (p, w1)" and run: "object_init p w1 = Inr (q, w')"
      by (auto simp: bnd_Inr)
    have "fresh w1" by (rule hoareD [OF growing_locks(3) [OF growing_fresh] f m])
    moreover have "p < next_addr w1"
      using hoareD [OF xmalloc_fresh [of "next_addr w"] _ m] f by (auto simp: fresh_def)
    moreover from object_init_Inr [OF run] obtain ob k where "w' = w1\<lparr>mem := k, id_count := id_count w1 + 1,
        objs := (objs w1)(p \<mapsto> ob), acid_world_count := acid_world_count w1 + 1\<rparr>" by blast
    ultimately show "fresh w'" by (auto simp: fresh_def split: if_splits)
  qed
qed (auto simp: hoare_def bnd_Inr access_Inr fresh_def split: if_splits)

interpretation blocks: layout_invariant fresh
  by unfold_locales
    (rule growing_fresh fresh_writes fresh_links fresh_objects | rule fresh_modify, simp)+

interpretation pool_blocks: pool_invariant fresh
  by unfold_locales
    (rule growing_locks(4) [OF growing_fresh] | simp add: fresh_def boot_def)+

section \<open>What the operations do to the counts\<close>

lemma strong_born:
  assumes s: "strong s L v" and h: "objs v h = None" "h \<noteq> NULL"
    and w: "objs w = (objs v)(h \<mapsto> new_object i 1 d)" "lnks w = lnks v"
  shows "strong (s(h := 1)) L w" "zero (s(h := 1)) L w = zero s L v" "all_links w = all_links v" "edges w = edges v"
proof -
  have sh: "s h = 0" using s h(1) by (simp add: strong_def)
  have tab: "table_of w = table_of v"
    using w(1) h(1) fresh_table_ok by (auto simp: table_of_def fun_eq_iff new_object_def)
  then show "all_links w = all_links v" "edges w = edges v" using w(2) by (simp_all add: all_links_def edges_def)
  have to: "links_to L w p = links_to L v p" for p using w(2) by (simp add: links_to_def)
  have none: "links_to L v h = {}"
  proof -
    have "lk_target l \<noteq> h" if "lk \<in> L" "lnks v lk = Some l" for lk l
    proof -
      have "good_link v lk" using s that(1) by (simp add: strong_def)
      then show ?thesis using that(2) h(1) by (auto simp: good_link_def)
    qed
    then show ?thesis by (auto simp: links_to_def)
  qed
  have owed: "owed (s(h := 1)) L w p = (if p = h then 1 else owed s L v p)" for p
    using to none by (simp add: owed_def)
  have good: "good_link w lk" if "lk \<in> L" for lk
  proof -
    have "good_link v lk" using s that by (simp add: strong_def)
    then show ?thesis using w h(1) by (auto simp: good_link_def)
  qed
  have fin: "finite (dom (objs w))" using s w(1) by (simp add: strong_def)
  have plain: "plain ob (owed (s(h := 1)) L w p)" if "objs w p = Some ob" for p ob
  proof (cases "p = h")
    case True
    then show ?thesis using that w(1) owed fresh_table_ok(2) by (auto simp: plain_def new_object_def)
  next
    case False
    then show ?thesis using that w(1) owed s by (simp add: strong_def)
  qed
  show "strong (s(h := 1)) L w"
    using s fin good plain w h unfolding strong_def tab by auto
  show "zero (s(h := 1)) L w = zero s L v"
    using owed w(1) h(1) by (auto simp: zero_def split: if_splits)
qed

text \<open>A reference from the stack that is given up.\<close>

lemma strong_unroot:
  assumes s: "strong s L v" and q: "s q = Suc m"
  shows "\<exists>ob n. objs v q = Some ob \<and> plain ob (Suc n) \<and>
    (\<forall>w. objs w = objs (bump_count q (o_which ob) (- 1) v) \<longrightarrow> lnks w = lnks v \<longrightarrow>
      strong (s(q := m)) L w \<and> zero (s(q := m)) L w = zero s L v \<union> (if n = 0 then {q} else {}) \<and>
      q \<notin> zero s L v \<and> table_of w = table_of v)"
proof -
  let ?s = "s(q := m)"
  have "objs v q \<noteq> None" using s q by (auto simp: strong_def)
  then obtain ob where ob: "objs v q = Some ob" by blast
  let ?n = "m + card (links_to L v q)"
  have pl: "plain o1 (owed s L v p)" if "objs v p = Some o1" for p o1 using s that by (simp add: strong_def)
  have n: "owed s L v q = Suc ?n" using q by (simp add: owed_def)
  have "strong ?s L w \<and> zero ?s L w = zero s L v \<union> (if ?n = 0 then {q} else {}) \<and>
      q \<notin> zero s L v \<and> table_of w = table_of v"
    if ow: "objs w = objs (bump_count q (o_which ob) (- 1) v)" and lw: "lnks w = lnks v" for w
  proof -
    let ?ob = "ob\<lparr>o_count := (o_count ob)(unat (o_which ob) := o_count ob (unat (o_which ob)) - 1)\<rparr>"
    have ow': "objs w = (objs v)(q \<mapsto> ?ob)" using ow ob by simp
    have tab: "table_of w = table_of v" using ow' ob by (auto simp: table_of_def fun_eq_iff)
    have owed: "owed ?s L w p = (if p = q then ?n else owed s L v p)" for p
      using lw by (simp add: owed_def links_to_def)
    have good: "good_link w lk" if "lk \<in> L" for lk
    proof -
      have "good_link v lk" using s that by (simp add: strong_def)
      then show ?thesis using ow' lw ob by (auto simp: good_link_def)
    qed
    have plain: "plain o1 (owed ?s L w p)" if "objs w p = Some o1" for p o1
    proof (cases "p = q")
      case True
      then show ?thesis using that ow' pl [OF ob] n owed [of q] by (auto simp: plain_def)
    next
      case False
      then show ?thesis using that ow' pl [of p o1] owed [of p] by simp
    qed
    have fin: "finite (dom (objs w))" using s ow' by (simp add: strong_def)
    have "strong ?s L w" using s fin good plain ow' ob lw unfolding strong_def tab by auto
    moreover have "zero ?s L w = zero s L v \<union> (if ?n = 0 then {q} else {})"
      using owed n ow' ob by (auto simp: zero_def split: if_splits)
    moreover have "q \<notin> zero s L v" using n by (simp add: zero_def)
    ultimately show ?thesis using tab by blast
  qed
  then show ?thesis using ob pl [OF ob] n by (intro exI [of _ ob] exI [of _ ?n]) simp
qed

lemma dissolve_runs:
  assumes h: "h = x - sizeof_Object" and q: "s h = Suc m"
  shows "runs (busy s [] [] [] F) (acid_dissolve x) (\<lambda>_. busy (s(h := m)) [] [] [] F)"
proof (rule runs_from)
  fix v a assume b: "busy s [] [] [] F v" and a: "0 < a" "next_addr v = a"
  from b obtain Q where hs: "heap_state s (all_links v) [] [] Q v" and F: "shape v = F" by (auto simp: busy_def)
  then have st: "strong s (all_links v) v" and dt: "delete_tasks [] [] Q v" by (simp_all add: heap_state_def)
  from dt obtain ts where ts: "work v = Some ts" by (auto simp: delete_tasks_def)
  from strong_unroot [OF st, of h m] q obtain ob n where ob: "objs v h = Some ob" "plain ob (Suc n)" and
    after: "\<And>w. objs w = objs (bump_count h (o_which ob) (- 1) v) \<Longrightarrow> lnks w = lnks v \<Longrightarrow>
      strong (s(h := m)) (all_links v) w \<and> zero (s(h := m)) (all_links v) w = zero s (all_links v) v \<union> (if n = 0 then {h} else {}) \<and>
      h \<notin> zero s (all_links v) v \<and> table_of w = table_of v" by auto
  let ?P = "\<lambda>w. erase w = erase v \<and> a \<le> next_addr w"
  let ?d = "decremented h n (o_which ob)"
  let ?Q = "\<lambda>w. \<exists>t\<ge>a. (n = 0 \<longrightarrow> t < next_addr w) \<and> erase w = ?d t (erase v)"
  have dec: "runs ?P (object_dec h (o_which ob)) (\<lambda>_. ?Q)"
    by (rule object_dec_plain_runs) (use ob ts a in simp_all)
  have "runs ?P (object_dec_strong h) (\<lambda>_. ?Q)"
    unfolding object_dec_strong_def
  proof (rule runs_read [where c = "o_which ob"])
    show "obj_which h w = Inr (o_which ob, w)" if "?P w" for w
    proof -
      have "objs w = objs v" using that by (metis erase_simps(1))
      then show ?thesis using ob(1) by (intro field_reads_ok(1)) simp
    qed
  qed (rule dec)
  then have run: "runs ?P (acid_dissolve x) (\<lambda>_. ?Q)"
    unfolding acid_dissolve_def Let_def h [symmetric]
  proof (rule runs_with_locks [rotated 2])
    show "lockable w r" if "?P w" "r \<in> set [LObj h]" for w r
    proof -
      have "objs w = objs v" using that(1) by (metis erase_simps(1))
      then show ?thesis using that(2) ob(1) by simp
    qed
    show "lockable w r" if "?Q w" "r \<in> set [LObj h]" for w r
    proof -
      obtain t where "erase w = ?d t (erase v)" using \<open>?Q w\<close> by blast
      then have "objs w = objs (?d t (erase v))" by (metis erase_simps(1))
      then show ?thesis using that(2) by simp
    qed
  qed simp_all
  have post: "busy (s(h := m)) [] [] [] F w"
    if t: "a \<le> t" "n = 0 \<longrightarrow> t < next_addr w" and e: "erase w = erase (?d t v)" and n: "a \<le> next_addr w" for t w
  proof -
    note eq = erase_eqs [OF e]
    have w: "objs w = objs (bump_count h (o_which ob) (- 1) v)" "lnks w = lnks v" using eq(1,2) by simp_all
    note af = after [OF w]
    have al: "all_links w = all_links v" using af by (simp add: all_links_def)
    have "delete_tasks [] [] (Q @ (if n = 0 then [h] else [])) w"
      by (rule decremented_tasks [OF dt, where t = t and n = n and b = "o_which ob"]) (use t a n eq(3-5) in simp_all)
    then have "heap_state (s(h := m)) (all_links w) [] [] (Q @ (if n = 0 then [h] else [])) w"
      using hs af unfolding heap_state_def al by auto
    moreover have "shape w = F"
    proof -
      have "dom (objs w) = dom (objs v)" using w(1) ob(1) by auto
      moreover have "edges w = edges v" using af w(2) by (simp add: edges_def)
      moreover have "acid_collect_count w = acid_collect_count v" using eq(6) by (simp add: decremented_def schedule_def)
      ultimately show ?thesis using F by (simp add: shape_def)
    qed
    ultimately show ?thesis by (auto simp: busy_def)
  qed
  show "runs (\<lambda>w. erase w = erase v \<and> a \<le> next_addr w) (acid_dissolve x) (\<lambda>_. busy (s(h := m)) [] [] [] F)"
    by (rule runs_above [OF run addresses.keep_acid(3)]) (use post in auto)
qed

lemma malloc_runs:
  "runs (\<lambda>w. busy s [] [] [] (D, E, c) w \<and> fresh w) (acid_malloc n)
     (\<lambda>x w. x - sizeof_Object \<notin> D \<and> busy (s(x - sizeof_Object := 1)) [] [] [] (insert (x - sizeof_Object) D, E, c) w \<and>
       (\<exists>i. objs w (x - sizeof_Object) = Some (new_object i 1 x)))"
proof (rule runs_from)
  fix v a assume b: "busy s [] [] [] (D, E, c) v \<and> fresh v" and a: "0 < a" "next_addr v = a"
  from b obtain Q where hs: "heap_state s (all_links v) [] [] Q v" and F: "shape v = (D, E, c)" by (auto simp: busy_def)
  then have st: "strong s (all_links v) v" and dt: "delete_tasks [] [] Q v" by (simp_all add: heap_state_def)
  let ?i = "id_count (erase v)"
  have post: "x - sizeof_Object \<notin> D \<and> busy (s(x - sizeof_Object := 1)) [] [] [] (insert (x - sizeof_Object) D, E, c) w \<and>
      (\<exists>i. objs w (x - sizeof_Object) = Some (new_object i 1 x))"
    if h: "a \<le> h" "x = h + sizeof_Object" and e: "erase w = born h (new_object ?i 1 x) (erase v)" and n: "a \<le> next_addr w"
    for h x w
  proof -
    have hx: "x - sizeof_Object = h" using h(2) by simp
    have new: "objs v h = None" using b h(1) a(2) by (auto simp: fresh_def)
    have "erase w = erase (born h (new_object ?i 1 x) v)" using e by simp
    note eq = erase_eqs [OF this]
    have ow: "objs w = (objs v)(h \<mapsto> new_object ?i 1 x)" and lw: "lnks w = lnks v" using eq(1,2) by simp_all
    have hn: "h \<noteq> NULL" using h(1) a by simp
    note sb = strong_born [OF st new hn ow lw]
    have "delete_tasks [] [] Q w"
      by (rule delete_tasks_same [OF dt]) (use eq(3-5) n a in \<open>simp_all add: born_def\<close>)
    then have "heap_state (s(h := 1)) (all_links w) [] [] Q w" using hs sb by (simp add: heap_state_def)
    moreover have "shape w = (insert h D, E, c)"
      using F sb(4) ow eq(6) by (auto simp: shape_def born_def)
    moreover have "h \<notin> D" using new F by (auto simp: shape_def)
    ultimately show ?thesis unfolding hx using ow by (auto simp: busy_def)
  qed
  show "runs (\<lambda>w. erase w = erase v \<and> a \<le> next_addr w) (acid_malloc n)
     (\<lambda>x w. x - sizeof_Object \<notin> D \<and> busy (s(x - sizeof_Object := 1)) [] [] [] (insert (x - sizeof_Object) D, E, c) w \<and>
       (\<exists>i. objs w (x - sizeof_Object) = Some (new_object i 1 x)))"
    by (rule runs_above [OF acid_malloc_runs [OF a(1)] addresses.keep_acid(1)]) (use post in blast)
qed

text \<open>A new link to an object \<open>q\<close> that the client holds.\<close>

lemma strong_linked:
  assumes s: "strong s L v" and p: "objs v p = Some po" "o_links po = Some t" "ht_capacity t \<noteq> MAX_POW_TWO" "ht_map t k = None"
    and q: "objs v q = Some qo" "0 < s q" "p \<noteq> q" "owed s L v q + 1 < 2 ^ 31" and lk: "lk \<notin> L"
    and ow: "objs w = objs (linked p k q (o_which qo) t lk v)" and lw: "lnks w = lnks (linked p k q (o_which qo) t lk v)"
  shows "strong s (insert lk L) w" "zero s (insert lk L) w = zero s L v" "all_links w = insert lk (all_links v)"
    "edges w = insert (p, q) (edges v)"
proof -
  let ?t = "table_added t k lk"
  let ?l = "\<lparr>lk_which = o_which qo, lk_phantomized = False, lk_target = q, lk_src = p\<rparr> :: link"
  let ?qo = "qo\<lparr>o_count := (o_count qo)(unat (o_which qo) := o_count qo (unat (o_which qo)) + 1)\<rparr>"
  have "plain po (owed s L v p)" using s p(1) by (simp add: strong_def)
  then have ti: "ht_inv t" using p(2) by (auto simp: plain_def)
  note ta = table_added_ok [OF ti p(3), of k lk]
  have ow': "objs w = (objs v)(p \<mapsto> po\<lparr>o_links := Some ?t\<rparr>, q \<mapsto> ?qo)"
    using ow p(1) q(1,3) by (simp add: linked_def)
  have lw': "lnks w = (lnks v)(lk \<mapsto> ?l)" using lw by (simp add: linked_def)
  have tp: "table_of v p = ht_map t" using p(1,2) by (simp add: table_of_def)
  have tab: "table_of w = (table_of v)(p := (ht_map t)(k \<mapsto> lk))"
    using ow' q(1,3) ta(2) by (auto simp: table_of_def fun_eq_iff)
  have sub: "r \<in> L" if "table_of v x i = Some r" for x i r using s that by (simp add: strong_def)
  have to: "links_to (insert lk L) w x = (if x = q then insert lk (links_to L v x) else links_to L v x)" for x
    using lk lw' by (auto simp: links_to_def)
  have fin: "finite L" using s by (simp add: strong_def)
  have "lk \<notin> links_to L v x" "finite (links_to L v x)" for x using lk fin by (simp_all add: links_to_def)
  then have owed: "owed s (insert lk L) w x = owed s L v x + (if x = q then 1 else 0)" for x
    by (simp add: owed_def to)
  have wh: "map_option o_which (objs w x) = map_option o_which (objs v x)" "objs w x = None \<longleftrightarrow> objs v x = None" for x
    using ow' p(1) q(1) by auto
  have good: "good_link w r" if r: "r \<in> insert lk L" for r
  proof (cases "r = lk")
    case True
    then show ?thesis using lw' ow' q(1) p(1) by (auto simp: good_link_def)
  next
    case False
    then have "good_link v r" using s r by (simp add: strong_def)
    then obtain m o1 where m: "lnks v r = Some m" "\<not> lk_phantomized m" "objs v (lk_src m) \<noteq> None"
        "objs v (lk_target m) = Some o1" "lk_which m = o_which o1" by (auto simp: good_link_def)
    then obtain o2 where "objs w (lk_target m) = Some o2" using wh(2) [of "lk_target m"] by auto
    then show ?thesis using m False wh(1) [of "lk_target m"] wh(2) [of "lk_src m"] lw' by (auto simp: good_link_def)
  qed
  have plain: "plain o1 (owed s (insert lk L) w x)" if o1: "objs w x = Some o1" for x o1
  proof -
    have pl: "plain o2 (owed s L v x)" if "objs v x = Some o2" for o2 using s that by (simp add: strong_def)
    consider "x = q" | "x = p" "x \<noteq> q" | "x \<noteq> p" "x \<noteq> q" by blast
    then show ?thesis
    proof cases
      case 1
      then show ?thesis using o1 ow' pl q(1,4) owed [of x] by (auto simp: plain_def)
    next
      case 2
      then show ?thesis using o1 ow' pl p(1) owed [of x] ta(1) by (auto simp: plain_def)
    next
      case 3
      then show ?thesis using o1 ow' pl owed [of x] by simp
    qed
  qed
  have tabs: "r \<in> insert lk L \<and> map_option lk_src (lnks w r) = Some x" if r: "table_of w x i = Some r" for x i r
  proof (cases "r = lk")
    case True
    have "x = p" using r True lk sub tab by (auto split: if_splits)
    then show ?thesis using True lw' by simp
  next
    case False
    then have "table_of v x i = Some r" using r tab tp by (auto split: if_splits)
    then show ?thesis using s False lw' by (simp add: strong_def)
  qed
  have inj: "inj_on (table_of w x) (dom (table_of w x))" for x
  proof (cases "x = p")
    case True
    have "inj_on (ht_map t) (dom (ht_map t))" using s tp unfolding strong_def by metis
    moreover have "lk \<notin> ran (ht_map t)" using lk sub [of p] tp by (auto simp: ran_def)
    ultimately show ?thesis using True tab p(4) by (auto simp: inj_on_def ran_def)
  next
    case False
    then show ?thesis using s tab by (simp add: strong_def)
  qed
  have find: "finite (dom (objs w))" using s ow' by (simp add: strong_def)
  show "strong s (insert lk L) w"
    using s fin find good plain tabs inj wh(2) unfolding strong_def by simp
  show "zero s (insert lk L) w = zero s L v"
    using owed wh(2) q(2) by (auto simp: zero_def owed_def dom_def simp del: not_None_eq)
  show "all_links w = insert lk (all_links v)"
  proof (rule set_eqI)
    fix r
    have "r \<in> all_links w \<longleftrightarrow> (\<exists>x i. table_of w x i = Some r)" by (auto simp: all_links_def ran_def)
    also have "\<dots> \<longleftrightarrow> r = lk \<or> (\<exists>x i. table_of v x i = Some r)"
      unfolding tab using tp p(4) by (auto simp: fun_upd_def; metis option.distinct(1))
    also have "\<dots> \<longleftrightarrow> r \<in> insert lk (all_links v)" by (auto simp: all_links_def ran_def)
    finally show "r \<in> all_links w \<longleftrightarrow> r \<in> insert lk (all_links v)" .
  qed
  show "edges w = insert (p, q) (edges v)"
  proof (rule set_eqI)
    fix e :: "addr \<times> addr"
    obtain x y where e: "e = (x, y)" by (cases e)
    have old: "r \<noteq> lk" if "r \<in> ran (table_of v x)" for r using that lk sub by (auto simp: ran_def)
    have rw: "ran (table_of w x) = (if x = p then insert lk (ran (table_of v x)) else ran (table_of v x))"
      using tab tp p(4) by (auto simp: ran_map_upd)
    show "e \<in> edges w \<longleftrightarrow> e \<in> insert (p, q) (edges v)"
      unfolding e insert_iff edges_iff rw using lw' old by (auto; blast)
  qed
qed

text \<open>The client may put \<open>y\<close> into field \<open>k\<close> of \<open>x\<close>: it reaches both, the field is empty and there is room for a link,
  and \<open>y\<close> has no links.\<close>

definition linkable :: "(addr \<Rightarrow> nat) \<Rightarrow> addr \<Rightarrow> key \<Rightarrow> addr \<Rightarrow> world \<Rightarrow> bool" where
  "linkable s x k y w \<longleftrightarrow> (let p = acid_get_header x; q = acid_get_header y in
     y \<noteq> NULL \<and> p \<noteq> q \<and> p \<in> reach s w \<and> 0 < s q \<and> table_of w q = Map.empty \<and> table_of w p k = None \<and>
     (\<exists>ob t. objs w p = Some ob \<and> o_links ob = Some t \<and> ht_capacity t \<noteq> MAX_POW_TWO) \<and>
     (\<exists>ob. objs w q = Some ob \<and> o_count ob (unat (o_which ob)) + 1 < 2 ^ 31))"

lemma set_field_linked:
  fixes x y :: addr
  defines "p \<equiv> acid_get_header x" and "q \<equiv> acid_get_header y"
  assumes st: "strong s (all_links v) v" and l: "linkable s x k y v" and a: "0 < a"
    and po: "objs v p = Some po" "o_links po = Some t" and qo: "objs v q = Some qo"
  shows "runs (\<lambda>w. erase w = erase v \<and> a \<le> next_addr w) (acid_set_field f x k y)
    (\<lambda>_ w. \<exists>lk\<ge>a. erase w = linked p k q (o_which qo) t lk (erase v))"
proof -
  have c: "ht_capacity t \<noteq> MAX_POW_TWO" "o_count qo (unat (o_which qo)) + 1 < 2 ^ 31"
    and g: "y \<noteq> NULL" "p \<noteq> q" "table_of v q = Map.empty" "table_of v p k = None"
    using l po qo by (auto simp: linkable_def Let_def p_def q_def)
  have pl: "plain po (owed s (all_links v) v p)" "plain qo (owed s (all_links v) v q)"
    using st po(1) qo(1) by (simp_all add: strong_def)
  then obtain qt where qt: "o_links qo = Some qt" "ht_inv qt" by (auto simp: plain_def)
  have t: "ht_inv t" "ht_map t k = None" using pl(1) po g(4) by (auto simp: plain_def table_of_def)
  have "ht_map qt = Map.empty" using g(3) qo qt(1) by (simp add: table_of_def)
  then have bit: "o_which qo = link_bit p q qo qt" using g(2) hashtable_size_map [OF qt(2)] by (simp add: link_bit_def)
  have qn: "q \<noteq> NULL" using qo st by (auto simp: strong_def)
  note cn = plain_counts [OF pl(2)]
  let ?P = "\<lambda>w. erase w = erase v \<and> a \<le> next_addr w"
  let ?Q = "\<lambda>w. \<exists>lk\<ge>a. erase w = linked p k q (o_which qo) t lk (erase v)"
  have set: "runs ?P (object_set p k q) (\<lambda>_. ?Q)"
    by (rule object_set_runs [where po = po and qo = qo and qt = qt])
      (use po t c qo qt qn bit cn pl a in \<open>simp_all add: plain_def\<close>)
  show ?thesis
    unfolding acid_set_field_def
  proof (rule runs_read [where c = True])
    show "acid_is_managed f y w = Inr (True, w)" if "?P w" for w
    proof -
      have "objs w = objs v" using that by (metis erase_simps(1))
      then have "objs w (y - sizeof_Object) = Some qo" using qo by (simp add: q_def acid_get_header_def)
      then show ?thesis using g(1) pl(2) by (simp add: acid_is_managed_def plain_def)
    qed
    have "runs ?P (bnd (object_set p k q) (\<lambda>_. ret y)) (\<lambda>_. ?Q)"
      by (rule runs_bnd [OF set], rule runs_ret)
    then show "runs ?P (bnd (whenM (True \<or> y = NULL) (object_set (acid_get_header x) k (if y = NULL then NULL else acid_get_header y)))
        (\<lambda>_. ret y)) (\<lambda>_. ?Q)"
      using g(1) by (simp add: whenM_def p_def q_def)
  qed
qed

lemma set_field_runs:
  fixes x y :: addr
  defines "p \<equiv> acid_get_header x" and "q \<equiv> acid_get_header y"
  shows "runs (\<lambda>w. busy s [] [] [] (D, E, c) w \<and> fresh w \<and> linkable s x k y w) (acid_set_field f x k y)
    (\<lambda>_. busy s [] [] [] (D, insert (p, q) E, c))"
proof (rule runs_from)
  fix v a assume asm: "busy s [] [] [] (D, E, c) v \<and> fresh v \<and> linkable s x k y v" and a: "0 < a" "next_addr v = a"
  from asm obtain Q where hs: "heap_state s (all_links v) [] [] Q v" and F: "shape v = (D, E, c)" by (auto simp: busy_def)
  then have st: "strong s (all_links v) v" and dt: "delete_tasks [] [] Q v" by (simp_all add: heap_state_def)
  from asm obtain po t qo where po: "objs v p = Some po" "o_links po = Some t" "ht_capacity t \<noteq> MAX_POW_TWO"
    and qo: "objs v q = Some qo" "o_count qo (unat (o_which qo)) + 1 < 2 ^ 31"
    and g: "p \<noteq> q" "0 < s q" "table_of v p k = None"
    by (auto simp: linkable_def Let_def p_def q_def)
  have pl: "plain qo (owed s (all_links v) v q)" using st qo(1) by (simp add: strong_def)
  have t: "ht_map t k = None" using po g(3) by (simp add: table_of_def)
  note set = set_field_linked [OF st _ a(1), of x k y po t qo f, folded p_def q_def]
  show "runs (\<lambda>w. erase w = erase v \<and> a \<le> next_addr w) (acid_set_field f x k y) (\<lambda>_. busy s [] [] [] (D, insert (p, q) E, c))"
  proof (rule runs_above [OF set addresses.keep_acid(5)])
    fix r :: addr and w
    assume "\<exists>lk\<ge>a. erase w = linked p k q (o_which qo) t lk (erase v)" and n: "a \<le> next_addr w"
    then obtain lk where lk: "a \<le> lk" "erase w = erase (linked p k q (o_which qo) t lk v)" by auto
    note eq = erase_eqs [OF lk(2)]
    have new: "lk \<notin> all_links v"
    proof
      assume "lk \<in> all_links v"
      then have "good_link v lk" using st by (simp add: strong_def)
      then have "lk < next_addr v" using asm by (auto simp: good_link_def fresh_def)
      then show False using lk(1) a by simp
    qed
    have "owed s (all_links v) v q + 1 < 2 ^ 31" using qo(2) unfolding plain_counts(1) [OF pl] by simp
    note sl = strong_linked [OF st po(1-3) t qo(1) g(2,1) this new eq(1,2)]
    have "delete_tasks [] [] Q w"
      by (rule delete_tasks_same [OF dt]) (use eq(3-5) n a in \<open>simp_all add: linked_def set_obj_def new_link_def\<close>)
    then have "heap_state s (all_links w) [] [] Q w" using hs sl(1-3) by (simp add: heap_state_def)
    moreover have "dom (objs w) = dom (objs v)" using eq(1) po(1) qo(1) by (auto simp: linked_def)
    moreover have "acid_collect_count w = acid_collect_count v"
      using eq(6) by (simp add: linked_def set_obj_def new_link_def)
    ultimately show "busy s [] [] [] (D, insert (p, q) E, c) w" using F sl(4) by (auto simp: busy_def shape_def)
  qed (use asm po qo in simp_all)
qed

lemma worker_idle_runs:
  assumes "unowned s F = {}"
  shows "runs (busy s [] [] [] F) worker_pass (\<lambda>_. busy s [] [] [] F)"
proof (rule runs_step)
  fix w assume b: "busy s [] [] [] F w"
  then obtain Q where hs: "heap_state s (all_links w) [] [] Q w" and F: "shape w = F" by (auto simp: busy_def)
  then have "set Q = {}" using zero_unowned [of s w] assms by (simp add: heap_state_def)
  then have "work w = Some []" using hs by (auto simp: heap_state_def delete_tasks_def)
  then have "worker_pass w = Inr ((), w)"
    by (simp add: worker_pass_def worker_get_next_task_def bnd_def gets_def whenM_def ret_def)
  then show "\<exists>x w'. worker_pass w = Inr (x, w') \<and> lock_view w' = lock_view w \<and> busy s [] [] [] F w'" using b by simp
qed

section \<open>Running a thread when all locks are free\<close>

text \<open>No mutex is held and the threads in \<open>T\<close> have their lockers.\<close>

definition quiet :: "thread_id set \<Rightarrow> world \<Rightarrow> bool" where
  "quiet T w \<longleftrightarrow> mem w = [] \<and> 0 < next_addr w \<and> mutexes w = (\<lambda>_. None) \<and>
     (\<forall>t\<in>T. \<exists>es. lockers w t = Some \<lparr>stack = Some es\<rparr>)"

lemma quiet_run:
  assumes "runs P m Q" and "quiet T w" and "t \<in> T" and "P (w\<lparr>self := t\<rparr>)"
  shows "\<exists>x w'. as_thread t m w = Inr (x, w') \<and> quiet T w' \<and> Q x w'"
proof -
  have "calm t (mutexes w, lockers w) (w\<lparr>self := t\<rparr>)"
    using assms(2,3) by (auto simp: quiet_def calm_def at_locks_def can_take_def)
  from runsE [OF assms(1) this assms(4)] obtain x w' where
    "m (w\<lparr>self := t\<rparr>) = Inr (x, w')" "calm t (mutexes w, lockers w) w'" "Q x w'" .
  then show ?thesis using assms(2) by (auto simp: as_thread_def quiet_def calm_def at_locks_def)
qed

lemma self_simps [simp]:
  "busy s X R lks F (w\<lparr>self := t\<rparr>) = busy s X R lks F w" "fresh (w\<lparr>self := t\<rparr>) = fresh w"
  "linkable s x k y (w\<lparr>self := t\<rparr>) = linkable s x k y w"
proof -
  let ?w = "w\<lparr>self := t\<rparr>"
  have h: "table_of ?w = table_of w" "strong s L ?w = strong s L w" "zero s L ?w = zero s L w" "all_links ?w = all_links w"
    "edges ?w = edges w" "shape ?w = shape w" for s L
    by (rule heap_same; simp)+
  have d: "delete_tasks X R Q ?w = delete_tasks X R Q w" for X R Q by (simp add: delete_tasks_def)
  show "busy s X R lks F ?w = busy s X R lks F w" "fresh ?w = fresh w" "linkable s x k y ?w = linkable s x k y w"
    by (simp_all add: busy_def heap_state_def fresh_def linkable_def Let_def reach_def h d)
qed

section \<open>The client and the workers\<close>

text \<open>Thread 0 is the client and the other threads of \<open>T\<close> are workers. The first component counts the references that the
  client holds on its stack.\<close>

inductive client_step :: "memory \<Rightarrow> thread_id set \<Rightarrow> (addr \<Rightarrow> nat) \<times> world \<Rightarrow> (addr \<Rightarrow> nat) \<times> world \<Rightarrow> bool" for f T where
  allocate: "as_thread 0 (acid_malloc n) w = Inr (x, w') \<Longrightarrow>
    client_step f T (s, w) (s(acid_get_header x := 1), w')"
| give_up: "s (acid_get_header x) = Suc m \<Longrightarrow> as_thread 0 (acid_dissolve x) w = Inr ((), w') \<Longrightarrow>
    client_step f T (s, w) (s(acid_get_header x := m), w')"
| point: "linkable s x k y w \<Longrightarrow> as_thread 0 (acid_set_field f x k y) w = Inr (z, w') \<Longrightarrow> client_step f T (s, w) (s, w')"
| work: "t \<in> T \<Longrightarrow> as_thread t worker_pass w = Inr ((), w') \<Longrightarrow> client_step f T (s, w) (s, w')"

inductive client_run :: "memory \<Rightarrow> nat \<Rightarrow> (addr \<Rightarrow> nat) \<times> world \<Rightarrow> bool" for f n where
  begun: "acid_start n (boot k) = Inr ((), w) \<Longrightarrow> forM [1..<Suc n] (\<lambda>t. as_thread t locker_setup) w = Inr ((), w') \<Longrightarrow>
    client_run f n (\<lambda>_. 0, w')"
| goes_on: "client_run f n c \<Longrightarrow> client_step f {0..n} c c' \<Longrightarrow> client_run f n c'"

inductive_cases client_stepE: "client_step f T c c'"

definition healthy :: "thread_id set \<Rightarrow> (addr \<Rightarrow> nat) \<times> world \<Rightarrow> bool" where
  "healthy T c \<longleftrightarrow> (case c of (s, w) \<Rightarrow> quiet T w \<and> strong_heap s w \<and> fresh w \<and> counted w \<and> acyclic (edges w))"

lemma healthy_busy: "healthy T (s, w) \<longleftrightarrow> quiet T w \<and> fresh w \<and> counted w \<and> acyclic (edges w) \<and>
    busy s [] [] [] (dom (objs w), edges w, acid_collect_count w) w"
  unfolding healthy_def strong_heap_busy shape_def by auto

lemma busy_shape: "busy s X R lks F w \<Longrightarrow> F = (dom (objs w), edges w, acid_collect_count w)"
  by (simp add: busy_def shape_def)

lemma healthyI:
  assumes "quiet T w" and "fresh w" and "counted w" and "busy s [] [] [] (D, E, c) w" and "acyclic E"
  shows "healthy T (s, w)"
  using busy_shape [OF assms(4)] assms by (simp add: healthy_busy)

lemma acyclic_leaf:
  assumes "acyclic E" and "\<And>r. (q, r) \<notin> E" and "p \<noteq> q"
  shows "acyclic (insert (p, q) E)"
proof -
  have "(q, p) \<notin> E\<^sup>*"
  proof
    assume "(q, p) \<in> E\<^sup>*"
    then show False using assms(2,3) by (cases rule: converse_rtranclE) auto
  qed
  then show ?thesis using assms(1) by (simp add: acyclic_insert)
qed

text \<open>Every operation that the client may call returns, and leaves the heap healthy.\<close>

lemma allocate_ok:
  assumes "healthy T (s, w)" and "0 \<in> T"
  shows "\<exists>x w'. as_thread 0 (acid_malloc n) w = Inr (x, w') \<and> healthy T (s(acid_get_header x := 1), w') \<and>
    acid_get_header x \<notin> dom (objs w) \<and>
    shape w' = (insert (acid_get_header x) (dom (objs w)), edges w, acid_collect_count w)"
proof -
  from assms(1) have h: "quiet T w" "fresh w" "counted w" "acyclic (edges w)"
    "busy s [] [] [] (dom (objs w), edges w, acid_collect_count w) (w\<lparr>self := 0\<rparr>) \<and> fresh (w\<lparr>self := 0\<rparr>)"
    by (simp_all add: healthy_busy)
  from quiet_run [OF malloc_runs h(1) assms(2) h(5)] obtain x w' where
    run: "as_thread 0 (acid_malloc n) w = Inr (x, w')" "quiet T w'"
    and b: "busy (s(x - sizeof_Object := 1)) [] [] [] (insert (x - sizeof_Object) (dom (objs w)), edges w, acid_collect_count w) w'"
    and new: "x - sizeof_Object \<notin> dom (objs w)"
    by blast
  note keep = pool_blocks.keep_as_thread [OF blocks.keep_acid(1) run(1) h(2)] numbers.keep_as_thread [OF layout.keep_acid(1) run(1) h(3)]
  from healthyI [OF run(2) keep b h(4)] run(1) new b show ?thesis by (auto simp: acid_get_header_def busy_def)
qed

lemma give_up_ok:
  assumes "healthy T (s, w)" and "0 \<in> T" and "s (acid_get_header x) = Suc m"
  shows "\<exists>w'. as_thread 0 (acid_dissolve x) w = Inr ((), w') \<and> healthy T (s(acid_get_header x := m), w') \<and>
    shape w' = shape w"
proof -
  from assms(1) have h: "quiet T w" "fresh w" "counted w" "acyclic (edges w)"
    "busy s [] [] [] (dom (objs w), edges w, acid_collect_count w) (w\<lparr>self := 0\<rparr>)"
    by (simp_all add: healthy_busy)
  have "runs (busy s [] [] [] F) (acid_dissolve x) (\<lambda>_. busy (s(acid_get_header x := m)) [] [] [] F)" for F
    by (rule dissolve_runs) (use assms(3) in \<open>simp_all add: acid_get_header_def\<close>)
  from quiet_run [OF this h(1) assms(2) h(5)] obtain w' where
    run: "as_thread 0 (acid_dissolve x) w = Inr ((), w')" "quiet T w'"
    and b: "busy (s(acid_get_header x := m)) [] [] [] (dom (objs w), edges w, acid_collect_count w) w'"
    by auto
  note keep = pool_blocks.keep_as_thread [OF blocks.keep_acid(3) run(1) h(2)] numbers.keep_as_thread [OF layout.keep_acid(3) run(1) h(3)]
  from healthyI [OF run(2) keep b h(4)] run(1) b show ?thesis by (auto simp: busy_def shape_def)
qed

lemma point_ok:
  assumes "healthy T (s, w)" and "0 \<in> T" and l: "linkable s x k y w"
  shows "\<exists>z w'. as_thread 0 (acid_set_field f x k y) w = Inr (z, w') \<and> healthy T (s, w') \<and>
    shape w' = (dom (objs w), insert (acid_get_header x, acid_get_header y) (edges w), acid_collect_count w)"
proof -
  let ?p = "acid_get_header x" let ?q = "acid_get_header y"
  from assms(1) have h: "quiet T w" "fresh w" "counted w" "acyclic (edges w)"
    "busy s [] [] [] (dom (objs w), edges w, acid_collect_count w) (w\<lparr>self := 0\<rparr>) \<and> fresh (w\<lparr>self := 0\<rparr>) \<and>
      linkable s x k y (w\<lparr>self := 0\<rparr>)"
    using l by (simp_all add: healthy_busy)
  from quiet_run [OF set_field_runs h(1) assms(2) h(5), of f] obtain z w' where
    run: "as_thread 0 (acid_set_field f x k y) w = Inr (z, w')" "quiet T w'"
    and b: "busy s [] [] [] (dom (objs w), insert (?p, ?q) (edges w), acid_collect_count w) w'"
    by blast
  note keep = pool_blocks.keep_as_thread [OF blocks.keep_acid(5) run(1) h(2)] numbers.keep_as_thread [OF layout.keep_acid(5) run(1) h(3)]
  have "acyclic (insert (?p, ?q) (edges w))"
    by (rule acyclic_leaf [OF h(4)]) (use l in \<open>auto simp: linkable_def Let_def edges_def\<close>)
  from healthyI [OF run(2) keep b this] run(1) b show ?thesis by (auto simp: busy_def)
qed

lemma work_ok:
  assumes "healthy T (s, w)" and "t \<in> T"
  shows "\<exists>w'. as_thread t worker_pass w = Inr ((), w') \<and> healthy T (s, w') \<and>
    (if unowned s (shape w) = {} then shape w' = shape w
     else \<exists>p\<in>unowned s (shape w). shape w' = dropped p (shape w))"
proof -
  from assms(1) have h: "quiet T w" "fresh w" "counted w" "acyclic (edges w)" "busy s [] [] [] (shape w) (w\<lparr>self := t\<rparr>)"
    by (simp_all add: healthy_busy shape_def)
  let ?next = "\<lambda>F. if unowned s (shape w) = {} then F = shape w else \<exists>p\<in>unowned s (shape w). F = dropped p (shape w)"
  have "runs (busy s [] [] [] (shape w)) worker_pass (\<lambda>_ w'. \<exists>F. ?next F \<and> busy s [] [] [] F w')"
  proof (cases "unowned s (shape w) = {}")
    case True
    then show ?thesis by (intro runs_post [OF worker_idle_runs]) auto
  next
    case False
    show ?thesis
      by (rule runs_post [OF worker_pass_runs [OF False]]) (use False in \<open>simp del: split_paired_Ex, blast\<close>)
  qed
  from quiet_run [OF this h(1) assms(2) h(5)] obtain w' F where
    run: "as_thread t worker_pass w = Inr ((), w')" "quiet T w'" and F: "?next F" and b: "busy s [] [] [] F w'"
    by auto
  have sw: "shape w' = F" using b by (simp add: busy_def)
  have "fst (snd F) \<subseteq> edges w"
    using F by (auto simp: dropped_def shape_def split: if_splits)
  then have e: "edges w' \<subseteq> edges w" using sw by (simp add: shape_def flip: sw)
  note keep = pool_blocks.keep_as_thread [OF pool_blocks.keep_worker_pass run(1) h(2)]
    numbers.keep_as_thread [OF numbers.keep_worker_pass run(1) h(3)]
  from b have "busy s [] [] [] (dom (objs w'), edges w', acid_collect_count w') w'" using sw by (simp add: shape_def)
  from healthyI [OF run(2) keep this acyclic_subset [OF h(4) e]] run(1) F sw show ?thesis by auto
qed

lemma healthy_step:
  assumes "client_step f T c c'" and "healthy T c" and "0 \<in> T"
  shows "healthy T c'"
  using assms
proof (cases rule: client_step.cases)
  case (allocate n w x w' s)
  then show ?thesis using allocate_ok [of T s w n] assms(2,3) by auto
next
  case (give_up s x m w w')
  then show ?thesis using give_up_ok [of T s w x m] assms(2,3) by auto
next
  case (point s x k y w z w')
  then show ?thesis using point_ok [of T s w x k y f] assms(2,3) by auto
next
  case (work t w w' s)
  then show ?thesis using work_ok [of T s w t] assms(2) by auto
qed

text \<open>The program starts with empty heaps and every thread sets up its locker.\<close>

definition empty_heap :: "thread_id set \<Rightarrow> world \<Rightarrow> bool" where
  "empty_heap T w \<longleftrightarrow> quiet T w \<and> objs w = Map.empty \<and> lnks w = Map.empty \<and> work w = Some [] \<and> task_count w = 0 \<and>
     acid_world_count w = 0 \<and> acid_collect_count w = 0"

lemma empty_heap_healthy:
  assumes "empty_heap T w"
  shows "healthy T (\<lambda>_. 0, w)"
proof -
  have t: "table_of w = (\<lambda>_ _. None)" using assms by (simp add: empty_heap_def table_of_def fun_eq_iff)
  then have al: "all_links w = {}" and ed: "edges w = {}" by (simp_all add: all_links_def edges_def)
  have "heap_state (\<lambda>_. 0) {} [] [] [] w"
    using assms by (simp add: empty_heap_def heap_state_def strong_def t zero_def delete_tasks_def)
  then have "strong_heap (\<lambda>_. 0) w" by (auto simp: strong_heap_def al)
  then show ?thesis using assms by (simp add: healthy_def ed empty_heap_def fresh_def counted_def quiet_def acyclic_def)
qed

lemma empty_heap_lockers:
  assumes "empty_heap T w" and "as_thread t locker_setup w = Inr ((), w')"
  shows "empty_heap (insert t T) w'"
  using assms
  by (auto simp: empty_heap_def quiet_def as_thread_def locker_setup_def locker_create_def bnd_Inr xmalloc_Nil calloc_ok_Inr
      sizeof_locker_def)

lemma empty_heap_start:
  assumes "acid_start n (boot k) = Inr ((), w)" and "forM [1..<Suc n] (\<lambda>t. as_thread t locker_setup) w = Inr ((), w')"
  shows "empty_heap {0..n} w'"
proof -
  have s: "empty_heap {0} w"
    using assms(1)
    by (auto simp: empty_heap_def quiet_def acid_start_def locker_setup_def locker_create_def workers_setup_def boot_def bnd_Inr
        xmalloc_Nil calloc_ok_Inr sizeof_locker_def sizeof_pointer_def)
  have "empty_heap (T \<union> set ts) w'"
    if "empty_heap T w" "forM ts (\<lambda>t. as_thread t locker_setup) w = Inr ((), w')" for T ts w
    using that
  proof (induction ts arbitrary: T w)
    case (Cons t ts)
    then obtain w1 where w1: "as_thread t locker_setup w = Inr ((), w1)"
      "forM ts (\<lambda>t. as_thread t locker_setup) w1 = Inr ((), w')" by (auto simp: bnd_Inr)
    have "empty_heap (insert t T \<union> set ts) w'"
      by (rule Cons.IH [OF empty_heap_lockers [OF Cons.prems(1) w1(1)] w1(2)])
    then show ?case by simp
  qed simp
  from this [OF s assms(2)] have "empty_heap ({0} \<union> set [1..<Suc n]) w'" .
  moreover have "{0} \<union> set [1..<Suc n] = {0..n}" by auto
  ultimately show ?thesis by simp
qed

lemma client_run_healthy: "client_run f n c \<Longrightarrow> healthy {0..n} c"
proof (induction rule: client_run.induct)
  case (begun k w w')
  then show ?case using empty_heap_start empty_heap_healthy by blast
next
  case (goes_on c c')
  then show ?case by (auto intro: healthy_step)
qed

section \<open>Properties\<close>

text \<open>C7: A client that only puts objects without links into empty fields never gets into trouble with any number of workers running
  beside it: whatever has happened so far, each of its calls and each round of a worker returns, and every count is
  the number of strong references, with no object in the hands of a collector and no cycle.\<close>

theorem strong_client_never_fails:
  assumes "client_run f n (s, w)"
  shows "(\<exists>x w'. as_thread 0 (acid_malloc sz) w = Inr (x, w')) \<and>
    (0 < s (acid_get_header x) \<longrightarrow> (\<exists>w'. as_thread 0 (acid_dissolve x) w = Inr ((), w'))) \<and>
    (linkable s x k y w \<longrightarrow> (\<exists>z w'. as_thread 0 (acid_set_field f x k y) w = Inr (z, w'))) \<and>
    (t \<le> n \<longrightarrow> (\<exists>w'. as_thread t worker_pass w = Inr ((), w'))) \<and>
    (\<forall>p ob. objs w p = Some ob \<longrightarrow> o_collector ob = NULL \<and> \<not> o_phantomized ob \<and>
      o_count ob = (\<lambda>_. 0)(unat (o_which ob) := int (s p + card (links_to (all_links w) w p)))) \<and> acyclic (edges w)"
proof -
  have h: "healthy {0..n} (s, w)" by (rule client_run_healthy [OF assms])
  have z: "0 \<in> {0..n}" by simp
  have "strong s (all_links w) w" using h by (auto simp: healthy_def strong_heap_def heap_state_def)
  then have "plain ob (owed s (all_links w) w p)" if "objs w p = Some ob" for p ob
    using that by (simp add: strong_def)
  then have counts: "o_collector ob = NULL \<and> \<not> o_phantomized ob \<and>
      o_count ob = (\<lambda>_. 0)(unat (o_which ob) := int (s p + card (links_to (all_links w) w p)))"
    if "objs w p = Some ob" for p ob
    using that unfolding owed_def plain_def by blast
  show ?thesis
  proof (intro conjI impI)
    show "\<exists>x w'. as_thread 0 (acid_malloc sz) w = Inr (x, w')" using allocate_ok [OF h z] by blast
    assume "0 < s (acid_get_header x)"
    then obtain m where "s (acid_get_header x) = Suc m" using gr0_implies_Suc by blast
    from give_up_ok [OF h z this] show "\<exists>w'. as_thread 0 (acid_dissolve x) w = Inr ((), w')" by blast
  next
    assume "linkable s x k y w"
    from point_ok [OF h z this] show "\<exists>z w'. as_thread 0 (acid_set_field f x k y) w = Inr (z, w')" by blast
  next
    assume "t \<le> n"
    then have "t \<in> {0..n}" by simp
    from work_ok [OF h this] show "\<exists>w'. as_thread t worker_pass w = Inr ((), w')" by blast
  next
    show "\<forall>p ob. objs w p = Some ob \<longrightarrow> o_collector ob = NULL \<and> \<not> o_phantomized ob \<and>
      o_count ob = (\<lambda>_. 0)(unat (o_which ob) := int (s p + card (links_to (all_links w) w p)))"
      using counts by blast
    show "acyclic (edges w)" using h by (simp add: healthy_def)
  qed
qed

lemma client_started: "\<exists>w. client_run f 1 (\<lambda>_. 0, w) \<and> objs w = Map.empty"
proof -
  have "\<not> isl (bnd (acid_start 1) (\<lambda>_. forM [1..<Suc 1] (\<lambda>t. as_thread t locker_setup)) (boot 9))" by code_simp
  from not_isl [OF this] obtain w w' where run: "acid_start 1 (boot 9) = Inr ((), w)"
    "forM [1..<Suc 1] (\<lambda>t. as_thread t locker_setup) w = Inr ((), w')" unfolding bnd_Inr by auto
  then have "objs w' = Map.empty" using empty_heap_start [OF run] by (simp add: empty_heap_def)
  then show ?thesis using client_run.begun [OF run] by blast
qed

text \<open>A client that has made an object and given up its only reference.\<close>

lemma client_dropped: "\<exists>w p. client_run f 1 (\<lambda>_. 0, w) \<and> dom (objs w) = {p}"
proof -
  obtain w where w: "client_run f 1 (\<lambda>_. 0, w)" "objs w = Map.empty" using client_started by blast
  obtain x w1 where a: "as_thread 0 (acid_malloc 8) w = Inr (x, w1)" "healthy {0..1} ((\<lambda>_. 0)(acid_get_header x := 1), w1)"
    "dom (objs w1) = {acid_get_header x}"
    using allocate_ok [OF client_run_healthy [OF w(1)], of 8] w(2) by (auto simp: shape_def)
  have r1: "client_run f 1 ((\<lambda>_. 0)(acid_get_header x := 1), w1)"
    by (rule client_run.goes_on [OF w(1) client_step.allocate [OF a(1)]])
  obtain w2 where d: "as_thread 0 (acid_dissolve x) w1 = Inr ((), w2)" "dom (objs w2) = {acid_get_header x}"
    using give_up_ok [OF a(2), of x 0] a(3) by (auto simp: shape_def)
  have "client_run f 1 (((\<lambda>_. 0)(acid_get_header x := 1))(acid_get_header x := 0), w2)"
    by (rule client_run.goes_on [OF r1 client_step.give_up [OF _ d(1)]]) simp
  moreover have "((\<lambda>_. 0)(acid_get_header x := 1))(acid_get_header x := 0) = (\<lambda>_. 0 :: nat)" by auto
  ultimately show ?thesis using d(2) by auto
qed

theorem strong_client_never_fails_witness:
  "\<exists>w. client_run (\<lambda>_. None) 1 (\<lambda>_. 0, w) \<and> dom (objs w) \<noteq> {} \<and> acyclic (edges w)"
proof -
  obtain w p where w: "client_run (\<lambda>_. None) 1 (\<lambda>_. 0, w)" "dom (objs w) = {p}" using client_dropped by blast
  from strong_client_never_fails [OF w(1)] w show ?thesis by blast
qed

text \<open>C5: Reference counting is enough without cycles: in a heap of strong links that form no cycle, as many rounds of a worker as
  there are unreachable objects run to their end and leave exactly the objects that can be reached from the stack; every
  other object is collected, each once, no reachable object is, and the queue is empty.\<close>

theorem acyclic_garbage_is_collected:
  assumes "ready w" and "strong_heap s w" and "acyclic (edges w)"
  shows "\<exists>w'. worker_rounds (card (dom (objs w) - reach s w)) w = Inr ((), w') \<and> ready w' \<and> same_locks w w' \<and>
    dom (objs w') = reach s w \<and> strong_heap s w' \<and> work w' = Some [] \<and> task_count w' = 0 \<and>
    acid_collect_count w' = acid_collect_count w + of_nat (card (dom (objs w) - reach s w))"
proof -
  let ?D = "dom (objs w)"
  let ?n = "card (?D - reach s w)"
  have sh: "shape w = (?D, edges w, acid_collect_count w)" by (simp add: shape_def)
  have "runs (busy s [] [] [] (?D, edges w, acid_collect_count w)) (worker_rounds ?n)
      (\<lambda>_ w'. \<exists>E'. live s (reach s w) E' = reach s w \<and>
        busy s [] [] [] (reach s w, E', acid_collect_count w + of_nat ?n) w')"
    unfolding reach_def using strong_heap_edges [OF assms(2)] assms(3) by (intro worker_rounds_runs) simp_all
  from runs_ready [OF this assms(1)] assms(2) obtain w' E' where
    run: "worker_rounds ?n w = Inr ((), w')" "ready w'" "same_locks w w'"
    and lv: "live s (reach s w) E' = reach s w" and b: "busy s [] [] [] (reach s w, E', acid_collect_count w + of_nat ?n) w'"
    by (auto simp: strong_heap_busy sh)
  from b have sw: "shape w' = (reach s w, E', acid_collect_count w + of_nat ?n)" by (simp add: busy_def)
  then have "strong_heap s w'" using b by (simp add: strong_heap_busy)
  moreover have "dom (objs w') = reach s w" "acid_collect_count w' = acid_collect_count w + of_nat ?n"
    using sw by (simp_all add: shape_def)
  ultimately show ?thesis using run idle_when_all_live [OF b lv] by blast
qed

theorem acyclic_garbage_is_collected_witness:
  "\<exists>w p w'. dom (objs w) = {p} \<and> worker_rounds 1 w = Inr ((), w') \<and> dom (objs w') = {}"
proof -
  obtain w p where w: "client_run (\<lambda>_. None) 1 (\<lambda>_. 0, w)" "dom (objs w) = {p}" using client_dropped by blast
  let ?w = "w\<lparr>self := 0\<rparr>"
  have h: "quiet {0..1} w" "strong_heap (\<lambda>_. 0) w" "acyclic (edges w)"
    using client_run_healthy [OF w(1)] by (simp_all add: healthy_def)
  have r: "ready ?w" using h(1) by (auto simp: quiet_def ready_def calm_def at_locks_def can_take_def)
  have e: "edges ?w = edges w" "strong_heap (\<lambda>_. 0) ?w = strong_heap (\<lambda>_. 0) w"
    using heap_same(6,7) [of ?w w] by (simp_all add: strong_heap_busy)
  have s: "strong_heap (\<lambda>_. 0) ?w" "acyclic (edges ?w)" using h e by simp_all
  have "reach (\<lambda>_. 0) ?w = {}" "dom (objs ?w) = {p}" using w(2) by (simp_all add: reach_def live_def)
  moreover from this have "card (dom (objs ?w) - reach (\<lambda>_. 0) ?w) = 1" by simp
  ultimately obtain w' where "worker_rounds 1 ?w = Inr ((), w')" "dom (objs w') = {}"
    using acyclic_garbage_is_collected [OF r s] by metis
  with \<open>dom (objs ?w) = {p}\<close> show ?thesis by blast
qed

text \<open>C4: Whatever such a client and the workers have done, any worker that goes on alone collects all garbage: after as many rounds as
  there are unreachable objects exactly the reachable ones are left, the queue is empty, and the objects created and not
  collected are those reachable. When the client holds no reference any more, nothing is left.\<close>

theorem client_garbage_is_collected:
  assumes "client_run f n (s, w)" and "t \<le> n"
  shows "\<exists>w'. as_thread t (worker_rounds (card (dom (objs w) - reach s w))) w = Inr ((), w') \<and>
    dom (objs w') = reach s w \<and> work w' = Some [] \<and> task_count w' = 0 \<and>
    acid_world_count w' - acid_collect_count w' = of_nat (card (reach s w)) \<and>
    (s = (\<lambda>_. 0) \<longrightarrow> objs w' = Map.empty \<and> acid_collect_count w' = acid_world_count w')"
proof -
  let ?n = "card (dom (objs w) - reach s w)"
  let ?F = "(dom (objs w), edges w, acid_collect_count w)"
  from client_run_healthy [OF assms(1)] have h: "quiet {0..n} w" "counted w" "acyclic (edges w)"
    "busy s [] [] [] ?F (w\<lparr>self := t\<rparr>)"
    by (simp_all add: healthy_busy)
  from client_run_healthy [OF assms(1)] have sh: "strong_heap s w" by (simp add: healthy_def)
  have t: "t \<in> {0..n}" using assms(2) by simp
  have "runs (busy s [] [] [] ?F) (worker_rounds ?n) (\<lambda>_ w'. \<exists>E'. live s (reach s w) E' = reach s w \<and>
      busy s [] [] [] (reach s w, E', acid_collect_count w + of_nat ?n) w')"
    unfolding reach_def using strong_heap_edges [OF sh] h(3) by (intro worker_rounds_runs) simp_all
  from quiet_run [OF this h(1) t h(4)] obtain w' E' where
    run: "as_thread t (worker_rounds ?n) w = Inr ((), w')" and lv: "live s (reach s w) E' = reach s w"
    and b: "busy s [] [] [] (reach s w, E', acid_collect_count w + of_nat ?n) w'" by auto
  have "hoare counted (worker_rounds m) (\<lambda>_. counted)" for m
    by (induction m) (auto intro: hoare_ret_same hoare_bnd_same numbers.keep_worker_pass)
  then have cn: "counted w'" using numbers.keep_as_thread [OF _ run h(2)] by blast
  have d: "dom (objs w') = reach s w" using busy_shape [OF b] by simp
  have c: "acid_world_count w' - acid_collect_count w' = of_nat (card (reach s w))"
    using cn by (simp add: counted_def d)
  have "objs w' = Map.empty \<and> acid_collect_count w' = acid_world_count w'" if "s = (\<lambda>_. 0)"
  proof -
    have "reach s w = {}" using that by (simp add: reach_def live_def)
    then show ?thesis using c d by simp
  qed
  then show ?thesis using run d c idle_when_all_live [OF b lv] by blast
qed

theorem client_garbage_is_collected_witness:
  "\<exists>w p w'. dom (objs w) = {p} \<and> as_thread 1 (worker_rounds 1) w = Inr ((), w') \<and> objs w' = Map.empty"
proof -
  obtain w p where w: "client_run (\<lambda>_. None) 1 (\<lambda>_. 0, w)" "dom (objs w) = {p}" using client_dropped by blast
  have "reach (\<lambda>_. 0) w = {}" by (simp add: reach_def live_def)
  with client_garbage_is_collected [OF w(1), of 1] w(2) show ?thesis by auto
qed

end
