(* ===== verification/Chains.thy ===== *)
theory Chains
  imports Examples Mutator
begin

text \<open>
  The programs of examples/main.c that build chains without a cycle, from the start of \<open>main\<close> to the end of \<open>acid_stop\<close>:
  they return whatever the worker does in between, and nothing that they made is left. The triples of this theory
  are total: the program produces a result.
\<close>

section \<open>Tables that have never grown\<close>

definition first_size :: "addr hashtable \<Rightarrow> bool" where
  "first_size t \<longleftrightarrow> ht_capacity t = ht_capacity fresh_table \<and> ht_threshold t = ht_threshold fresh_table"

definition small :: "world \<Rightarrow> bool" where
  "small w \<longleftrightarrow> (\<forall>p ob t. objs w p = Some ob \<longrightarrow> o_links ob = Some t \<longrightarrow> first_size t)"

lemma fresh_fields:
  assumes "hashtable_new_conf object_htc m = Inr ((st, Some (t :: addr hashtable)), m')"
  shows "ht_capacity t = 16" "ht_threshold t = 12"
proof -
  have "conf_initial_capacity object_htc = 16" "load_threshold 16 (conf_load_factor object_htc) = 12"
    "round_pow_two 16 = 16" by code_simp+
  then show "ht_capacity t = 16" "ht_threshold t = 12"
    using assms by (auto simp: hashtable_new_conf_def bnd_Inr Let_def split: if_splits)
qed

lemma first_size_fields: "first_size t \<longleftrightarrow> ht_capacity t = 16 \<and> ht_threshold t = 12"
  by (simp add: first_size_def fresh_fields [OF fresh_table_ok(1)])

interpretation small_tables: table_invariant first_size small
proof
  show "first_size t'" if "first_size t" "hashtable_remove t k m = Inr ((st, r, t'), m')"
    for t :: "addr hashtable" and k m st r t' and m' :: mem_schedule
    using that
    by (auto simp: first_size_def hashtable_remove_def remove_null_key_def take_entry_def bnd_Inr split: if_splits option.splits)
qed (auto simp: small_def first_size_fields hashtable_remove_all_def dest: fresh_fields)

interpretation small_threads: thread_invariant small
  by unfold_locales (rule growing_locks(4) [OF small_tables.grows] | simp add: small_def boot_def)+

lemma table_added_first_size:
  assumes "first_size t" and "ht_inv t" and "ht_map t = Map.empty"
  shows "first_size (table_added t k lk)"
proof -
  have "ht_size t = 0" using hashtable_size_map [OF assms(2)] assms(3) by (simp add: hashtable_size_def)
  then have "grow_if_full t m = Inr ((CC_OK, t), m)" for m
    using assms(1) by (simp add: grow_if_full_def first_size_fields ret_def)
  then show ?thesis
    using table_added_ok(3) [OF assms(2), of k lk] assms(1)
    by (auto simp: hashtable_add_def add_null_key_def put_new_entry_def bnd_Inr Let_def first_size_fields MAX_POW_TWO_def
        split: if_splits option.splits)
qed

section \<open>What the client's calls leave\<close>

lemma set_field_small:
  "runs (\<lambda>w. strong s (all_links w) w \<and> linkable s x k y w \<and> table_of w (acid_get_header x) = Map.empty \<and> small w)
     (acid_set_field f x k y) (\<lambda>_. small)"
proof (rule runs_from)
  let ?p = "acid_get_header x" and ?q = "acid_get_header y"
  fix v :: world and a :: addr
  assume asm: "strong s (all_links v) v \<and> linkable s x k y v \<and> table_of v ?p = Map.empty \<and> small v" and a: "0 < a"
  then obtain po t qo where po: "objs v ?p = Some po" "o_links po = Some t" and qo: "objs v ?q = Some qo"
    by (auto simp: linkable_def Let_def)
  have "plain po (owed s (all_links v) v ?p)" using asm po(1) by (simp add: strong_def)
  then have "ht_inv t" using po(2) by (auto simp: plain_def)
  moreover have "ht_map t = Map.empty" "first_size t" using asm po by (auto simp: table_of_def small_def)
  ultimately have new: "first_size (table_added t k lk)" for lk by (blast intro: table_added_first_size)
  show "runs (\<lambda>w. erase w = erase v \<and> a \<le> next_addr w) (acid_set_field f x k y) (\<lambda>_. small)"
  proof (rule runs_post [OF set_field_linked [OF _ _ a po qo]])
    fix z w assume "\<exists>lk\<ge>a. erase w = linked ?p k ?q (o_which qo) t lk (erase v)"
    then obtain lk where "objs w = objs (linked ?p k ?q (o_which qo) t lk v)"
      by (metis erase_simps(1) linked_simps(1))
    then have "objs w = (objs v)(?p \<mapsto> po\<lparr>o_links := Some (table_added t k lk)\<rparr>) \<or>
      (\<exists>n. objs w = (objs v)(?p \<mapsto> po\<lparr>o_links := Some (table_added t k lk)\<rparr>, ?q \<mapsto> qo\<lparr>o_count := n\<rparr>)) \<or> ?p = ?q"
      using po(1) qo by (auto simp: linked_def)
    moreover have "?p \<noteq> ?q" using asm by (simp add: linkable_def Let_def)
    ultimately show "small w" using asm new qo unfolding small_def by (auto split: if_splits)
  qed (use asm in auto)
qed

lemma malloc_positive: "runs (\<lambda>_. True) (acid_malloc n) (\<lambda>x _. sizeof_Object < x)"
proof (rule runs_from)
  fix v :: world and a :: addr assume a: "0 < a"
  show "runs (\<lambda>w. erase w = erase v \<and> a \<le> next_addr w) (acid_malloc n) (\<lambda>x _. sizeof_Object < x)"
    by (rule runs_post [OF acid_malloc_runs [OF a]]) (use a in auto)
qed

lemma set_field_result: "acid_set_field f x k y w = Inr (z, w') \<Longrightarrow> z = y"
  by (auto simp: acid_set_field_def bnd_Inr)

lemma counted_world: "counted w \<Longrightarrow> acid_world_count w = acid_collect_count w + of_nat (card (dom (objs w)))"
  unfolding counted_def by (metis add.commute diff_add_cancel)

text \<open>The client holds the references \<open>s\<close>, and \<open>N\<close> objects have been made so far.\<close>

definition well :: "(addr \<Rightarrow> nat) \<Rightarrow> nat \<Rightarrow> world \<Rightarrow> bool" where
  "well s N w \<longleftrightarrow> healthy {0..1} (s, w) \<and> small w \<and> card (dom (objs w)) \<le> N \<and> acid_world_count w = of_nat N"

lemma wellI:
  assumes "healthy {0..1} (s, w)" and "small w" and "finite (dom (objs v))" and "well s' N v"
    and "shape w = (D, E, acid_collect_count v + of_nat c)" and "card D + c = card (dom (objs v)) + d"
  shows "well s (N + d) w"
proof -
  have w: "counted w" "counted v" using assms(1,4) by (simp_all add: healthy_def well_def)
  have D: "dom (objs w) = D" "acid_collect_count w = acid_collect_count v + of_nat c" using assms(5) by (simp_all add: shape_def)
  have "acid_world_count w = acid_collect_count v + of_nat (card D + c)"
    using counted_world [OF w(1)] D by (simp add: add.commute add.left_commute)
  also have "\<dots> = acid_world_count v + of_nat d"
    unfolding assms(6) using counted_world [OF w(2)] by (simp add: add.commute add.left_commute)
  finally show ?thesis using assms(1,2,4,6) D by (simp add: well_def)
qed

lemma well_strong:
  assumes "well s N w"
  shows "strong_heap s w" "strong s (all_links w) w" "finite (dom (objs w))" "edges w \<subseteq> dom (objs w) \<times> dom (objs w)"
proof -
  show h: "strong_heap s w" using assms by (simp add: well_def healthy_def)
  then show "strong s (all_links w) w" by (auto simp: strong_heap_def heap_state_def)
  show "finite (dom (objs w))" "edges w \<subseteq> dom (objs w) \<times> dom (objs w)" using strong_heap_edges [OF h] .
qed

lemma reach_shape: "shape w = (D, E, c) \<Longrightarrow> reach s w = live s D E"
  by (simp add: reach_def shape_def)

lemma reach_more:
  assumes "\<And>p. s p \<le> s' p"
  shows "reach s w \<subseteq> reach s' w"
  using order_less_le_trans [OF _ assms] unfolding reach_def live_def by blast

lemma reach_extra: "s q = 0 \<Longrightarrow> reach s w \<subseteq> reach (s(q := 1)) w"
  by (rule reach_more) simp

lemma as_thread_runs:
  assumes "runs P m Q" and "quiet T w" and "t \<in> T" and "P (w\<lparr>self := t\<rparr>)" and "as_thread t m w = Inr (x, w')"
  shows "Q x w'"
  using quiet_run [OF assms(1-4)] assms(5) by auto

text \<open>A round of the worker takes away nothing that the client can reach, and takes something away as long as there is
  something out of reach.\<close>

lemma well_pass:
  assumes w: "well s N w"
  shows "\<exists>w'. as_thread 1 worker_pass w = Inr ((), w') \<and> well s N w' \<and> edges w' \<subseteq> edges w \<and>
    (\<forall>e\<in>edges w. fst e \<in> reach s w \<longrightarrow> e \<in> edges w') \<and> (\<forall>s'. (\<forall>p. s' p \<le> s p) \<longrightarrow> reach s' w' = reach s' w) \<and>
    (unowned s (shape w) \<noteq> {} \<longrightarrow> card (dom (objs w')) < card (dom (objs w)))"
proof -
  let ?D = "dom (objs w)"
  have h: "healthy {0..1} (s, w)" and "small w" using w by (simp_all add: well_def)
  have sw: "shape w = (?D, edges w, acid_collect_count w)" by (simp add: shape_def)
  from work_ok [OF h, of 1] obtain w' where run: "as_thread 1 worker_pass w = Inr ((), w')" and h': "healthy {0..1} (s, w')"
    and dr: "if unowned s (shape w) = {} then shape w' = shape w else \<exists>p\<in>unowned s (shape w). shape w' = dropped p (shape w)"
    by auto
  have sm: "small w'" by (rule small_threads.keep_as_thread [OF small_threads.keep_worker_pass run \<open>small w\<close>])
  note fin = well_strong(3) [OF w]
  show ?thesis
  proof (cases "unowned s (shape w) = {}")
    case True
    then have same: "shape w' = (?D, edges w, acid_collect_count w + of_nat 0)" using dr sw by simp
    have "well s (N + 0) w'" by (rule wellI [OF h' sm fin w same]) simp
    moreover have "reach s' w' = reach s' w" for s' using reach_shape [OF same] by (simp add: reach_def)
    moreover have "edges w' = edges w" using same by (simp add: shape_def)
    ultimately show ?thesis using run True by auto
  next
    case False
    with dr obtain p where p: "p \<in> unowned s (shape w)" and dp: "shape w' = dropped p (shape w)" by auto
    let ?E = "{e \<in> edges w. fst e \<noteq> p}"
    have sw': "shape w' = (?D - {p}, ?E, acid_collect_count w + of_nat 1)" using dp sw by (simp add: dropped_def)
    have pD: "p \<in> ?D" "s p = 0" using p sw by (auto simp: unowned_def)
    have card: "card (?D - {p}) + 1 = card ?D" using fin pD(1) card_Suc_Diff1 by fastforce
    have "well s (N + 0) w'" by (rule wellI [OF h' sm fin w sw']) (use card in simp)
    moreover have "edges w' = ?E" "dom (objs w') = ?D - {p}" using sw' by (simp_all add: shape_def)
    moreover have same: "reach s' w' = reach s' w" "p \<notin> reach s' w" if "\<forall>q. s' q \<le> s q" for s'
    proof -
      have "s' p = 0" using that pD(2) by (metis le_zero_eq)
      then have "p \<in> unowned s' (?D, edges w, acid_collect_count w)" using p sw by (simp add: unowned_def)
      from live_dropped [OF this] show "reach s' w' = reach s' w" "p \<notin> reach s' w"
        using reach_shape [OF sw'] by (simp_all add: reach_def)
    qed
    moreover have "p \<notin> reach s w" by (rule same(2)) simp
    ultimately show ?thesis using run card by auto
  qed
qed

lemma well_malloc:
  assumes w: "well s N w"
  shows "\<exists>x w'. as_thread 0 (acid_malloc n) w = Inr (x, w') \<and> well (s(acid_get_header x := 1)) (N + 1) w' \<and> x \<noteq> NULL \<and>
    acid_get_header x \<notin> dom (objs w) \<and> dom (objs w') = insert (acid_get_header x) (dom (objs w)) \<and> edges w' = edges w"
proof -
  have h: "healthy {0..1} (s, w)" and "small w" using w by (simp_all add: well_def)
  from allocate_ok [OF h, of n] obtain x w' where run: "as_thread 0 (acid_malloc n) w = Inr (x, w')"
    and h': "healthy {0..1} (s(acid_get_header x := 1), w')" and new: "acid_get_header x \<notin> dom (objs w)"
    and sw: "shape w' = (insert (acid_get_header x) (dom (objs w)), edges w, acid_collect_count w + of_nat 0)" by auto
  have "quiet {0..1} w" using h by (simp add: healthy_def)
  from as_thread_runs [OF malloc_positive this _ _ run] have "x \<noteq> NULL" by (auto simp: sizeof_Object_def)
  moreover have "small w'" by (rule small_threads.keep_as_thread [OF small_tables.keep_roots(1) run \<open>small w\<close>])
  moreover from this have "well (s(acid_get_header x := 1)) (N + 1) w'"
    by (rule wellI [OF h' _ well_strong(3) [OF w] w sw]) (use new well_strong(3) [OF w] in simp)
  ultimately show ?thesis using run new sw by (auto simp: shape_def)
qed

lemma well_dissolve:
  assumes w: "well s N w" and s: "s (acid_get_header x) = Suc m"
  shows "\<exists>w'. as_thread 0 (acid_dissolve x) w = Inr ((), w') \<and> well (s(acid_get_header x := m)) N w' \<and>
    dom (objs w') = dom (objs w) \<and> edges w' = edges w"
proof -
  have h: "healthy {0..1} (s, w)" and "small w" using w by (simp_all add: well_def)
  from give_up_ok [OF h _ s] obtain w' where run: "as_thread 0 (acid_dissolve x) w = Inr ((), w')"
    and h': "healthy {0..1} (s(acid_get_header x := m), w')" and sw: "shape w' = shape w" by auto
  then have sw': "shape w' = (dom (objs w), edges w, acid_collect_count w + of_nat 0)" by (simp add: shape_def)
  have "small w'" by (rule small_threads.keep_as_thread [OF small_tables.keep_roots(3) run \<open>small w\<close>])
  from wellI [OF h' this well_strong(3) [OF w] w sw', of 0] run sw' show ?thesis by (auto simp: shape_def)
qed

text \<open>An object without links to others.\<close>

lemma no_edges_no_links:
  assumes "well s N w" and "p \<notin> Domain (edges w)"
  shows "table_of w p = Map.empty"
proof (rule ext, rule ccontr)
  fix k assume "table_of w p k \<noteq> Map.empty k"
  then obtain lk where lk: "table_of w p k = Some lk" by auto
  then have "lk \<in> all_links w" by (auto simp: all_links_def ran_def)
  then have "good_link w lk" using well_strong(2) [OF assms(1)] by (simp add: strong_def)
  then obtain l where "lnks w lk = Some l" by (auto simp: good_link_def)
  then have "(p, lk_target l) \<in> edges w" using lk by (auto simp: edges_def)
  then show False using assms(2) by blast
qed

lemma no_edges_not_linked:
  assumes "well s N w" and "q \<notin> Range (edges w)"
  shows "links_to (all_links w) w q = {}"
proof (rule ccontr)
  assume "links_to (all_links w) w q \<noteq> {}"
  then obtain lk l p k where "lnks w lk = Some l" "lk_target l = q" "table_of w p k = Some lk"
    by (auto simp: links_to_def all_links_def ran_def)
  then have "(p, q) \<in> edges w" by (auto simp: edges_def)
  then show False using assms(2) by blast
qed

lemma well_set_field:
  assumes w: "well s N w" and y: "y \<noteq> NULL" and pq: "acid_get_header x \<noteq> acid_get_header y"
    and p: "acid_get_header x \<in> reach s w" "acid_get_header x \<notin> Domain (edges w)"
    and q: "s (acid_get_header y) = 1" "acid_get_header y \<notin> Domain (edges w) \<union> Range (edges w)"
  shows "\<exists>w'. as_thread 0 (acid_set_field f x k y) w = Inr (y, w') \<and> well s N w' \<and> dom (objs w') = dom (objs w) \<and>
    edges w' = insert (acid_get_header x, acid_get_header y) (edges w)"
proof -
  let ?p = "acid_get_header x" and ?q = "acid_get_header y"
  have h: "healthy {0..1} (s, w)" and sm: "small w" using w by (simp_all add: well_def)
  note st = well_strong(2) [OF w]
  obtain po where po: "objs w ?p = Some po" using p(1) by (auto simp: reach_def live_def)
  obtain qo where qo: "objs w ?q = Some qo" using st q(1) by (cases "objs w ?q") (auto simp: strong_def)
  have pl: "plain po (owed s (all_links w) w ?p)" "plain qo (owed s (all_links w) w ?q)" using st po qo by (simp_all add: strong_def)
  obtain t where t: "o_links po = Some t" using pl(1) by (auto simp: plain_def)
  have "first_size t" using sm po t by (simp add: small_def)
  then have cap: "ht_capacity t \<noteq> MAX_POW_TWO" by (simp add: first_size_fields MAX_POW_TWO_def)
  have tabs: "table_of w ?p = Map.empty" "table_of w ?q = Map.empty"
    using no_edges_no_links [OF w] p(2) q(2) by simp_all
  have "owed s (all_links w) w ?q = 1" using no_edges_not_linked [OF w, of ?q] q by (simp add: owed_def)
  then have "o_count qo (unat (o_which qo)) + 1 < 2 ^ 31" using plain_counts(1) [OF pl(2)] by simp
  then have l: "linkable s x k y w"
    using y pq p(1) q(1) tabs po t cap qo by (simp add: linkable_def Let_def)
  from point_ok [OF h _ l, of f] obtain z w' where run: "as_thread 0 (acid_set_field f x k y) w = Inr (z, w')"
    and h': "healthy {0..1} (s, w')"
    and sw: "shape w' = (dom (objs w), insert (?p, ?q) (edges w), acid_collect_count w + of_nat 0)" by auto
  have z: "z = y" using set_field_result run by (auto simp: as_thread_def)
  have quiet: "quiet {0..1} w" using h by (simp add: healthy_def)
  have same: "strong s L (w\<lparr>self := 0\<rparr>) = strong s L w" "all_links (w\<lparr>self := 0\<rparr>) = all_links w"
    "table_of (w\<lparr>self := 0\<rparr>) = table_of w" "small (w\<lparr>self := 0\<rparr>) = small w" for L
    by (rule heap_same; simp)+ (simp add: small_def)
  have "small w'"
    by (rule as_thread_runs [OF set_field_small [of s] quiet _ _ run]) (use st l tabs(1) sm same in simp_all)
  from wellI [OF h' this well_strong(3) [OF w] w sw, of 0] run z sw show ?thesis by (auto simp: shape_def)
qed

section \<open>Programs that return\<close>

definition succeeds :: "('s \<Rightarrow> bool) \<Rightarrow> ('s, 'a) M \<Rightarrow> ('a \<Rightarrow> 's \<Rightarrow> bool) \<Rightarrow> bool" where
  "succeeds P m Q \<longleftrightarrow> (\<forall>s. P s \<longrightarrow> (\<exists>x s'. m s = Inr (x, s') \<and> Q x s'))"

lemma succeedsI: "(\<And>s. P s \<Longrightarrow> \<exists>x s'. m s = Inr (x, s') \<and> Q x s') \<Longrightarrow> succeeds P m Q"
  by (simp add: succeeds_def)

lemma succeedsE:
  assumes "succeeds P m Q" and "P s"
  obtains x s' where "m s = Inr (x, s')" and "Q x s'"
  using assms unfolding succeeds_def by blast

lemma succeeds_ret: "(\<And>s. P s \<Longrightarrow> Q x s) \<Longrightarrow> succeeds P (ret x) Q"
  by (simp add: succeeds_def ret_def)

lemma succeeds_bnd:
  assumes "succeeds P m R" and "\<And>x. succeeds (R x) (f x) Q"
  shows "succeeds P (bnd m f) Q"
proof (rule succeedsI)
  fix s assume "P s"
  with assms(1) obtain x s1 where m: "m s = Inr (x, s1)" and "R x s1" by (rule succeedsE)
  with assms(2) obtain y s2 where "f x s1 = Inr (y, s2)" "Q y s2" by (blast elim: succeedsE)
  with m show "\<exists>y s2. bnd m f s = Inr (y, s2) \<and> Q y s2" by (simp add: bnd_def)
qed

lemma succeeds_post: "succeeds P m Q' \<Longrightarrow> (\<And>x s. Q' x s \<Longrightarrow> Q x s) \<Longrightarrow> succeeds P m Q"
  unfolding succeeds_def by blast

lemma succeeds_fix: "(\<And>a. succeeds (P a) m Q) \<Longrightarrow> succeeds (\<lambda>s. \<exists>a. P a s) m Q"
  unfolding succeeds_def by blast

text \<open>A call of the library, with the rounds of the worker before it.\<close>

definition worker_keeps :: "(world \<Rightarrow> bool) \<Rightarrow> bool" where
  "worker_keeps R \<longleftrightarrow> succeeds R (as_thread 1 worker_pass) (\<lambda>_. R)"

lemma rounds_keep: "worker_keeps R \<Longrightarrow> succeeds R (rounds k) (\<lambda>_. R)"
  unfolding worker_keeps_def by (induction k) (auto intro: succeeds_ret succeeds_bnd)

lemma call_succeeds:
  assumes "worker_keeps R" and "succeeds R (as_thread 0 m) Q"
  shows "succeeds (\<lambda>c. R (lib c)) (call m) (\<lambda>x c. Q x (lib c))"
proof (rule succeedsI)
  fix c :: client assume r: "R (lib c)"
  show "\<exists>x c'. call m c = Inr (x, c') \<and> Q x (lib c')"
  proof (cases "turns c")
    case Nil
    from assms(2) r obtain x w where "as_thread 0 m (lib c) = Inr (x, w)" "Q x w" by (rule succeedsE)
    then show ?thesis using Nil by (simp add: call_def bnd_def in_lib_def zoom_def gets_def)
  next
    case (Cons k ks)
    from rounds_keep [OF assms(1)] r obtain u w1 where w1: "rounds k (lib c) = Inr (u, w1)" "R w1" by (rule succeedsE)
    from assms(2) w1(2) obtain x w where "as_thread 0 m w1 = Inr (x, w)" "Q x w" by (rule succeedsE)
    then show ?thesis using Cons w1(1) by (simp add: call_def bnd_def in_lib_def zoom_def gets_def modify_def)
  qed
qed

lemma set_field_succeeds:
  assumes "worker_keeps R" and "succeeds R (as_thread 0 (acid_set_field no_foreign x k y)) (\<lambda>z w. z = y \<and> Q w)"
  shows "succeeds (\<lambda>c. R (lib c)) (Examples.set_field x k y) (\<lambda>_ c. Q (lib c) \<and> cells c x k = y)"
  unfolding set_field_def
  by (rule succeeds_bnd [OF call_succeeds [OF assms]]) (simp add: succeeds_def modify_def)

section \<open>Chains\<close>

text \<open>The end of a chain, before and after the next object is there, and when it has been linked.\<close>

definition chain_end :: "(addr \<Rightarrow> nat) \<Rightarrow> nat \<Rightarrow> addr \<Rightarrow> world \<Rightarrow> bool" where
  "chain_end s N p w \<longleftrightarrow> well s N w \<and> p \<in> reach s w \<and> p \<notin> Domain (edges w)"

definition next_made :: "(addr \<Rightarrow> nat) \<Rightarrow> nat \<Rightarrow> addr \<Rightarrow> addr \<Rightarrow> world \<Rightarrow> bool" where
  "next_made s N p q w \<longleftrightarrow> well (s(q := 1)) N w \<and> s q = 0 \<and> p \<in> reach s w \<and> p \<notin> Domain (edges w) \<and>
     q \<notin> Domain (edges w) \<union> Range (edges w) \<and> p \<noteq> q"

definition next_linked :: "(addr \<Rightarrow> nat) \<Rightarrow> nat \<Rightarrow> addr \<Rightarrow> addr \<Rightarrow> world \<Rightarrow> bool" where
  "next_linked s N p q w \<longleftrightarrow> well (s(q := 1)) N w \<and> s q = 0 \<and> p \<in> reach s w \<and> (p, q) \<in> edges w \<and> q \<notin> Domain (edges w)"

lemma worker_keepsI:
  assumes "\<And>w w'. R w \<Longrightarrow> well s N w \<and> (well s N w' \<longrightarrow> edges w' \<subseteq> edges w \<longrightarrow>
    (\<forall>e\<in>edges w. fst e \<in> reach s w \<longrightarrow> e \<in> edges w') \<longrightarrow> (\<forall>s'. (\<forall>p. s' p \<le> s p) \<longrightarrow> reach s' w' = reach s' w) \<longrightarrow> R w')"
  shows "worker_keeps R"
  unfolding worker_keeps_def
proof (rule succeedsI)
  fix w assume r: "R w"
  then have "well s N w" using assms by blast
  from well_pass [OF this] assms [OF r] show "\<exists>x w'. as_thread 1 worker_pass w = Inr (x, w') \<and> R w'" by blast
qed

lemma states_kept:
  "worker_keeps (well s N)" "worker_keeps (chain_end s N p)" "worker_keeps (next_made s N p q)"
  "worker_keeps (next_linked s N p q)"
proof -
  show "worker_keeps (well s N)" by (rule worker_keepsI [of _ s N]) simp
  show "worker_keeps (chain_end s N p)"
    by (rule worker_keepsI [of _ s N]) (auto simp: chain_end_def)
  have le: "\<forall>r. s r \<le> (s(q := 1)) r" if "s q = 0" using that by simp
  show "worker_keeps (next_made s N p q)"
    by (rule worker_keepsI [of _ "s(q := 1)" N]) (use le in \<open>auto simp: next_made_def\<close>)
  show "worker_keeps (next_linked s N p q)"
  proof (rule worker_keepsI [of _ "s(q := 1)" N])
    fix w w' assume n: "next_linked s N p q w"
    then have "p \<in> reach (s(q := 1)) w" using reach_extra [of s q w] by (auto simp: next_linked_def)
    with n le show "well (s(q := 1)) N w \<and> (well (s(q := 1)) N w' \<longrightarrow> edges w' \<subseteq> edges w \<longrightarrow>
      (\<forall>e\<in>edges w. fst e \<in> reach (s(q := 1)) w \<longrightarrow> e \<in> edges w') \<longrightarrow>
      (\<forall>s'. (\<forall>r. s' r \<le> (s(q := 1)) r) \<longrightarrow> reach s' w' = reach s' w) \<longrightarrow> next_linked s N p q w')"
      by (auto simp: next_linked_def)
  qed
qed

lemma reachI: "p \<in> dom (objs w) \<Longrightarrow> 0 < s p \<Longrightarrow> p \<in> reach s w"
  by (auto simp: reach_def live_def)

lemma reach_same: "dom (objs w') = dom (objs w) \<Longrightarrow> edges w \<subseteq> edges w' \<Longrightarrow> reach s w \<subseteq> reach s w'"
  unfolding reach_def live_def using rtrancl_mono [of "edges w" "edges w'"] by auto

lemma reach_step: "p \<in> reach s w \<Longrightarrow> (p, q) \<in> edges w \<Longrightarrow> q \<in> dom (objs w) \<Longrightarrow> q \<in> reach s w"
  unfolding reach_def live_def by (auto intro: rtrancl_into_rtrancl)

lemma first_object:
  "succeeds (\<lambda>c. well (\<lambda>_. 0) N (lib c)) (new n)
     (\<lambda>x c. chain_end ((\<lambda>_. 0)(acid_get_header x := 1)) (N + 1) (acid_get_header x) (lib c))"
  unfolding new_def
proof (rule call_succeeds [OF states_kept(1)], rule succeedsI)
  fix w assume w: "well (\<lambda>_. 0) N w"
  from well_malloc [OF this, of n] obtain x w' where run: "as_thread 0 (acid_malloc n) w = Inr (x, w')"
    and x: "well ((\<lambda>_. 0)(acid_get_header x := 1)) (N + 1) w'" "acid_get_header x \<notin> dom (objs w)"
      "dom (objs w') = insert (acid_get_header x) (dom (objs w))" "edges w' = edges w" by blast
  moreover have "acid_get_header x \<notin> Domain (edges w')" using well_strong(4) [OF w] x(2,4) by auto
  ultimately show "\<exists>x w'. as_thread 0 (acid_malloc n) w = Inr (x, w') \<and>
      chain_end ((\<lambda>_. 0)(acid_get_header x := 1)) (N + 1) (acid_get_header x) w'"
    by (auto simp: chain_end_def intro!: reachI)
qed

lemma next_object:
  "succeeds (\<lambda>c. chain_end s N p (lib c)) (new n)
     (\<lambda>x c. x \<noteq> NULL \<and> next_made s (N + 1) p (acid_get_header x) (lib c))"
  unfolding new_def
proof (rule call_succeeds [OF states_kept(2)], rule succeedsI)
  fix w assume c: "chain_end s N p w"
  then have w: "well s N w" by (simp add: chain_end_def)
  from well_malloc [OF this, of n] obtain x w' where run: "as_thread 0 (acid_malloc n) w = Inr (x, w')" "x \<noteq> NULL"
    and x: "well (s(acid_get_header x := 1)) (N + 1) w'" "acid_get_header x \<notin> dom (objs w)"
      "dom (objs w') = insert (acid_get_header x) (dom (objs w))" "edges w' = edges w" by blast
  have "acid_get_header x \<notin> Domain (edges w') \<union> Range (edges w')" using well_strong(4) [OF w] x(2,4) by auto
  moreover have "s (acid_get_header x) = 0" using well_strong(2) [OF w] x(2) by (auto simp: strong_def)
  moreover have "p \<in> reach s w'" "p \<noteq> acid_get_header x"
    using c x(2-4) by (auto simp: chain_end_def reach_def live_def)
  ultimately have "next_made s (N + 1) p (acid_get_header x) w'"
    using c x by (simp add: next_made_def chain_end_def)
  with run show "\<exists>x w'. as_thread 0 (acid_malloc n) w = Inr (x, w') \<and> x \<noteq> NULL \<and> next_made s (N + 1) p (acid_get_header x) w'"
    by blast
qed

lemma next_is_linked:
  assumes "y \<noteq> NULL"
  shows "succeeds (\<lambda>c. next_made s N (acid_get_header x) (acid_get_header y) (lib c)) (Examples.set_field x k y)
    (\<lambda>_ c. next_linked s N (acid_get_header x) (acid_get_header y) (lib c) \<and> cells c x k = y)"
proof (rule set_field_succeeds [OF states_kept(3)], rule succeedsI)
  let ?p = "acid_get_header x" and ?q = "acid_get_header y"
  fix w assume n: "next_made s N ?p ?q w"
  then have w: "well (s(?q := 1)) N w" and r: "?p \<in> reach (s(?q := 1)) w"
    using reach_extra [of s ?q w] by (auto simp: next_made_def)
  from well_set_field [OF w assms _ r, of no_foreign k] n obtain w' where
    run: "as_thread 0 (acid_set_field no_foreign x k y) w = Inr (y, w')" and w': "well (s(?q := 1)) N w'"
      "dom (objs w') = dom (objs w)" "edges w' = insert (?p, ?q) (edges w)" by (auto simp: next_made_def)
  have "next_linked s N ?p ?q w'"
    using n w' reach_same [OF w'(2), of s] by (auto simp: next_linked_def next_made_def)
  with run show "\<exists>z w'. as_thread 0 (acid_set_field no_foreign x k y) w = Inr (z, w') \<and> z = y \<and> next_linked s N ?p ?q w'"
    by blast
qed

lemma next_is_end:
  "succeeds (\<lambda>c. next_linked s N p (acid_get_header x) (lib c)) (cleanup x) (\<lambda>_ c. chain_end s N (acid_get_header x) (lib c))"
  unfolding cleanup_def acid_dissolve_cleanup_def
proof (rule call_succeeds [OF states_kept(4)], rule succeedsI)
  let ?q = "acid_get_header x"
  fix w assume n: "next_linked s N p ?q w"
  then have w: "well (s(?q := 1)) N w" and z: "s ?q = 0" by (simp_all add: next_linked_def)
  have s: "(s(?q := 1)) ?q = Suc 0" "(s(?q := 1))(?q := 0) = s" using z by auto
  from well_dissolve [OF w s(1)] obtain w' where run: "as_thread 0 (acid_dissolve x) w = Inr ((), w')"
    and w': "well s N w'" "dom (objs w') = dom (objs w)" "edges w' = edges w" unfolding s(2) by blast
  have "?q \<in> dom (objs w')" using n well_strong(4) [OF w'(1)] w'(3) by (auto simp: next_linked_def)
  moreover have "p \<in> reach s w'" "(p, ?q) \<in> edges w'" using n w'(2,3) by (simp_all add: next_linked_def reach_def)
  ultimately have "?q \<in> reach s w'" by (blast intro: reach_step)
  then have "chain_end s N ?q w'" using n w' by (simp add: chain_end_def next_linked_def)
  with run show "\<exists>u w'. as_thread 0 (acid_dissolve x) w = Inr (u, w') \<and> chain_end s N ?q w'" by blast
qed

lemma last_reference:
  assumes "s = (\<lambda>_. 0)(acid_get_header x := 1)"
  shows "succeeds (\<lambda>c. well s N (lib c)) (cleanup x) (\<lambda>_ c. well (\<lambda>_. 0) N (lib c))"
  unfolding cleanup_def acid_dissolve_cleanup_def
proof (rule call_succeeds [OF states_kept(1)], rule succeedsI)
  fix w assume "well s N w"
  moreover have "s (acid_get_header x) = Suc 0" "s(acid_get_header x := 0) = (\<lambda>_. 0)" using assms by auto
  ultimately show "\<exists>u w'. as_thread 0 (acid_dissolve x) w = Inr (u, w') \<and> well (\<lambda>_. 0) N w'"
    using well_dissolve [of s N w x 0] by auto
qed

lemma slist_from_succeeds:
  "succeeds (\<lambda>c. chain_end s N (acid_get_header cur) (lib c)) (slist_from k cur) (\<lambda>_ c. well s (N + k) (lib c))"
proof (induction k arbitrary: N cur)
  case 0
  show ?case by (auto simp: chain_end_def intro: succeeds_ret)
next
  case (Suc k)
  let ?rest = "\<lambda>next. bnd (get_field cur 0) (\<lambda>cur. bnd (cleanup next) (\<lambda>_. slist_from k cur))"
  have rest: "succeeds (\<lambda>c. next_linked s (N + 1) (acid_get_header cur) (acid_get_header x) (lib c) \<and> cells c cur 0 = x)
      (?rest x) (\<lambda>_ c. well s (N + Suc k) (lib c))" for x
  proof (rule succeeds_bnd)
    show "succeeds (\<lambda>c. next_linked s (N + 1) (acid_get_header cur) (acid_get_header x) (lib c) \<and> cells c cur 0 = x)
        (get_field cur 0) (\<lambda>y c. y = x \<and> next_linked s (N + 1) (acid_get_header cur) (acid_get_header x) (lib c))"
      by (simp add: succeeds_def get_field_def gets_def)
    fix y
    have "succeeds (\<lambda>c. next_linked s (N + 1) (acid_get_header cur) (acid_get_header x) (lib c))
        (bnd (cleanup x) (\<lambda>_. slist_from k x)) (\<lambda>_ c. well s (N + Suc k) (lib c))"
      using succeeds_bnd [OF next_is_end [of s "N + 1" "acid_get_header cur" x] Suc.IH] by simp
    then show "succeeds (\<lambda>c. y = x \<and> next_linked s (N + 1) (acid_get_header cur) (acid_get_header x) (lib c))
        (bnd (cleanup x) (\<lambda>_. slist_from k y)) (\<lambda>_ c. well s (N + Suc k) (lib c))"
      by (auto simp: succeeds_def)
  qed
  have "succeeds (\<lambda>c. x \<noteq> NULL \<and> next_made s (N + 1) (acid_get_header cur) (acid_get_header x) (lib c))
      (bnd (Examples.set_field cur 0 x) (\<lambda>_. ?rest x)) (\<lambda>_ c. well s (N + Suc k) (lib c))" for x
  proof (cases "x = NULL")
    case False
    from succeeds_bnd [OF next_is_linked [OF this] rest] False show ?thesis by simp
  qed (simp add: succeeds_def)
  then show ?case unfolding slist_from.simps by (rule succeeds_bnd [OF next_object])
qed

section \<open>The whole run\<close>

text \<open>The programs without links that could close a cycle, and how many objects each of them makes.\<close>

fun makes_chain :: "program \<Rightarrow> bool" where
  "makes_chain Test1 = True"
| "makes_chain (Slist_create n) = True"
| "makes_chain _ = False"

fun objects_made :: "program \<Rightarrow> nat" where
  "objects_made Test1 = 1"
| "objects_made (Slist_create n) = n + 1"
| "objects_made _ = 0"

lemma chain_program:
  assumes "makes_chain p"
  shows "succeeds (\<lambda>c. well (\<lambda>_. 0) N (lib c)) (run_program p) (\<lambda>_ c. well (\<lambda>_. 0) (N + objects_made p) (lib c))"
proof -
  let ?s = "\<lambda>x. (\<lambda>_. 0)(acid_get_header x := 1)"
  have list: "succeeds (\<lambda>c. chain_end (?s x) M (acid_get_header x) (lib c)) (bnd (slist_from n x) (\<lambda>_. cleanup x))
      (\<lambda>_ c. well (\<lambda>_. 0) (M + n) (lib c))" for x M n
    by (rule succeeds_bnd [OF slist_from_succeeds last_reference]) simp
  have one: "succeeds (\<lambda>c. chain_end (?s x) M (acid_get_header x) (lib c)) (bnd (write_field x 0 42) (\<lambda>_. cleanup x))
      (\<lambda>_ c. well (\<lambda>_. 0) M (lib c))" for x M
  proof (rule succeeds_bnd [OF _ last_reference])
    show "succeeds (\<lambda>c. chain_end (?s x) M (acid_get_header x) (lib c)) (write_field x 0 42) (\<lambda>_ c. well (?s x) M (lib c))"
      by (simp add: succeeds_def write_field_def modify_def chain_end_def)
  qed simp
  show ?thesis
  proof (cases p)
    case Test1
    with succeeds_bnd [OF first_object one] show ?thesis by (simp add: test1_def)
  next
    case (Slist_create n)
    with succeeds_bnd [OF first_object list] show ?thesis by (simp add: slist_create_def add.commute add.left_commute)
  qed (use assms in simp_all)
qed

lemma chain_programs:
  "\<forall>p\<in>set ps. makes_chain p \<Longrightarrow> succeeds (\<lambda>c. well (\<lambda>_. 0) N (lib c)) (block (map run_program ps))
     (\<lambda>_ c. well (\<lambda>_. 0) (N + sum_list (map objects_made ps)) (lib c))"
proof (induction ps arbitrary: N)
  case (Cons p ps)
  then have "succeeds (\<lambda>c. well (\<lambda>_. 0) (N + objects_made p) (lib c)) (block (map run_program ps))
      (\<lambda>_ c. well (\<lambda>_. 0) (N + objects_made p + sum_list (map objects_made ps)) (lib c))" by simp
  from succeeds_bnd [OF chain_program this] Cons.prems show ?case by (simp add: add.assoc)
qed (simp add: succeeds_ret)

text \<open>Waiting ends: every round of the worker takes away an object, and \<open>task_count\<close> is zero only when none is left, as long as
  there are not enough of them for the counter to wrap.\<close>

lemma idle_when_empty:
  assumes w: "well (\<lambda>_. 0) N w" and N: "N < 2 ^ 32"
  shows "task_count w = 0 \<longleftrightarrow> dom (objs w) = {}" "unowned (\<lambda>_. 0) (shape w) = {} \<longleftrightarrow> dom (objs w) = {}" "work w \<noteq> None"
proof -
  note st = well_strong [OF w]
  have ac: "acyclic (edges w)" using w by (simp add: well_def healthy_def)
  have "live (\<lambda>_. 0) (dom (objs w)) (edges w) = {}" by (simp add: live_def)
  then show un: "unowned (\<lambda>_. 0) (shape w) = {} \<longleftrightarrow> dom (objs w) = {}"
    using unowned_exists [OF st(3,4) ac, of "\<lambda>_. 0"] by (auto simp: shape_def unowned_def)
  from st(1) obtain Q where q: "delete_tasks [] [] Q w" "distinct Q" "set Q = zero (\<lambda>_. 0) (all_links w) w"
    by (auto simp: strong_heap_def heap_state_def)
  have "set Q \<subseteq> dom (objs w)" using q(3) by (auto simp: zero_def)
  then have "length Q \<le> card (dom (objs w))" using q(2) st(3) card_mono distinct_card by metis
  moreover have "card (dom (objs w)) < 2 ^ 32" using w N by (simp add: well_def)
  ultimately have len: "length Q < 2 ^ 32" by linarith
  from q(1) obtain ts where ts: "work w = Some ts" "length ts = length Q" "task_count w = of_nat (length ts)"
    unfolding delete_tasks_def by (metis append_Nil length_map)
  then show "work w \<noteq> None" by simp
  have "task_count w = 0 \<longleftrightarrow> length Q = 0"
  proof
    assume "task_count w = 0"
    then have "unat (of_nat (length Q) :: 32 word) = 0" using ts by simp
    then show "length Q = 0" using len by (simp add: unat_of_nat)
  qed (use ts in simp)
  also have "\<dots> \<longleftrightarrow> unowned (\<lambda>_. 0) (shape w) = {}" using q(3) zero_unowned [OF st(2)] by auto
  finally show "task_count w = 0 \<longleftrightarrow> dom (objs w) = {}" using un by simp
qed

lemma wait_ends:
  assumes "N < 2 ^ 32"
  shows "succeeds (\<lambda>w. well (\<lambda>_. 0) N w \<and> card (dom (objs w)) < m) (wait_for_zero m) (\<lambda>_ w. well (\<lambda>_. 0) N w \<and> objs w = Map.empty)"
proof (induction m)
  case (Suc m)
  show ?case
  proof (rule succeedsI)
    fix w assume w: "well (\<lambda>_. 0) N w \<and> card (dom (objs w)) < Suc m"
    note idle = idle_when_empty [OF conjunct1 [OF w] assms]
    show "\<exists>u w'. wait_for_zero (Suc m) w = Inr (u, w') \<and> well (\<lambda>_. 0) N w' \<and> objs w' = Map.empty"
    proof (cases "task_count w = 0")
      case True
      then have "objs w = Map.empty" using idle(1) by simp
      with True w show ?thesis by (simp add: bnd_def gets_def ret_def)
    next
      case False
      then have "unowned (\<lambda>_. 0) (shape w) \<noteq> {}" using idle(1,2) by simp
      with well_pass [OF conjunct1 [OF w]] w obtain w1 where
        run: "as_thread 1 worker_pass w = Inr ((), w1)" and w1: "well (\<lambda>_. 0) N w1 \<and> card (dom (objs w1)) < m"
        by (metis less_Suc_eq_le order_less_le_trans)
      from Suc.IH w1 obtain u w2 where "wait_for_zero m w1 = Inr (u, w2)" "well (\<lambda>_. 0) N w2 \<and> objs w2 = Map.empty"
        by (rule succeedsE)
      with run False show ?thesis by (simp add: bnd_def gets_def)
    qed
  qed
qed (simp add: succeeds_def)

lemma main_starts:
  "\<exists>w1 w2. acid_start 1 (boot k) = Inr ((), w1) \<and> as_thread 1 locker_setup w1 = Inr ((), w2) \<and> well (\<lambda>_. 0) 0 w2"
proof -
  have "\<exists>w1 w2. acid_start 1 (boot k) = Inr ((), w1) \<and> as_thread 1 locker_setup w1 = Inr ((), w2)"
    by (simp add: acid_start_def as_thread_def locker_setup_def locker_create_def workers_setup_def boot_def bnd_def gets_def
        xmalloc_Nil calloc_ok_def zoom_def sizeof_locker_def sizeof_pointer_def modify_def ret_def whenM_def)
  then obtain w1 w2 where run: "acid_start 1 (boot k) = Inr ((), w1)" "as_thread 1 locker_setup w1 = Inr ((), w2)"
    by blast
  have f: "forM [1..<Suc 1] (\<lambda>t. as_thread t locker_setup) w1 = Inr ((), w2)"
    using run(2) by (simp add: bnd_def ret_def)
  note e = empty_heap_start [OF run(1) f]
  have "small w2" using e by (simp add: empty_heap_def small_def)
  then have "well (\<lambda>_. 0) 0 w2" using e empty_heap_healthy [OF e] by (simp add: well_def empty_heap_def)
  with run show ?thesis by blast
qed

lemma main_stops:
  assumes w: "well (\<lambda>_. 0) N w" and N: "N < 2 ^ 32" and o: "objs w = Map.empty"
  shows "\<exists>w'. as_thread 0 acid_stop w = Inr ((), w') \<and> objs w' = objs w \<and> work w' = None \<and>
    acid_world_count w' = acid_world_count w \<and> acid_collect_count w' = acid_collect_count w"
proof -
  have t: "task_count w = 0" and q: "work w \<noteq> None" using idle_when_empty [OF w N] o by simp_all
  have "quiet {0..1} w" using w by (simp add: well_def healthy_def)
  moreover have "0 \<in> {0..1 :: nat}" by simp
  ultimately obtain es where "lockers w 0 = Some \<lparr>stack = Some es\<rparr>" unfolding quiet_def by blast
  with t q show ?thesis
    by (auto simp: as_thread_def acid_stop_def acid_stop_nonblocking_def task_wait_for_zero_threads_def
        task_get_running_count_def workers_teardown_def workers_join_def locker_teardown_def stack_of_def
        bnd_def gets_def modify_def ret_def whenM_def)
qed

lemma chain_programs_end:
  assumes "\<forall>p\<in>set ps. makes_chain p" and "sum_list (map objects_made ps) = N" and "N < m" and "N < 2 ^ 32"
  shows "\<exists>c. main_with m (map run_program ps) 0 (client_start k ts) = Inr ((), c) \<and> objs (lib c) = Map.empty \<and>
    work (lib c) = None \<and> acid_world_count (lib c) = of_nat N \<and> acid_collect_count (lib c) = of_nat N"
proof -
  let ?W = "well (\<lambda>_. 0) N"
  obtain w1 w2 where s: "acid_start 1 (boot k) = Inr ((), w1)" "as_thread 1 locker_setup w1 = Inr ((), w2)"
    and w2: "well (\<lambda>_. 0) 0 w2" using main_starts by blast
  let ?c = "(client_start k ts)\<lparr>lib := w2\<rparr>"
  have "well (\<lambda>_. 0) 0 (lib ?c)" using w2 by simp
  from succeedsE [OF chain_programs [OF assms(1)] this] assms(2) obtain u c3 where
    p: "block (map run_program ps) ?c = Inr (u, c3)" and c3: "?W (lib c3)" by auto
  have "?W (lib c3) \<and> card (dom (objs (lib c3))) < m" using c3 assms(3) by (auto simp: well_def)
  from succeedsE [OF wait_ends [OF assms(4)] this] obtain u' w4 where
    w4: "wait_for_zero m (lib c3) = Inr (u', w4)" "?W w4" "objs w4 = Map.empty" by blast
  have b: "benzene_ring_scalability 0 c = Inr ((), c)" for c
    by (simp add: benzene_ring_scalability_def benzene_rings_def bnd_def ret_def)
  have "?W w4 \<and> card (dom (objs w4)) < m" using w4(2,3) assms(3) by simp
  from succeedsE [OF wait_ends [OF assms(4)] this] obtain u'' w6 where
    w6: "wait_for_zero m w4 = Inr (u'', w6)" "?W w6" "objs w6 = Map.empty" by blast
  from main_stops [OF w6(2) assms(4) w6(3)] obtain w7 where stop: "as_thread 0 acid_stop w6 = Inr ((), w7)"
    and w7: "objs w7 = Map.empty" "work w7 = None" "acid_world_count w7 = acid_world_count w6"
      "acid_collect_count w7 = acid_collect_count w6" using w6(3) by auto
  have "main_with m (map run_program ps) 0 (client_start k ts) = Inr ((), c3\<lparr>lib := w7\<rparr>)"
    using s p w4(1) b w6(1) stop by (simp add: main_with_def in_lib_def zoom_def bnd_def client_start_def ret_def)
  moreover have "acid_world_count w6 = of_nat N" "counted w6" using w6(2) by (simp_all add: well_def healthy_def)
  moreover from this have "acid_collect_count w6 = of_nat N" using counted_world [of w6] w6(3) by simp
  ultimately show ?thesis using w7 by (intro exI [of _ "c3\<lparr>lib := w7\<rparr>"]) simp
qed

section \<open>Properties\<close>

text \<open>C6: The programs of the example that build no cycle, in any number and order and with any sizes, run to their end as
  \<open>main\<close> runs them, however many rounds the worker makes before each call of the library. The two numbers that \<open>main\<close> prints
  are then both the number of objects the programs make, and no object is left.\<close>

theorem chain_examples_leave_nothing:
  assumes "\<forall>p\<in>set ps. makes_chain p" and "sum_list (map objects_made ps) = N" and "N < m" and "N < 2 ^ 32"
  shows "\<exists>c. main_with m (map run_program ps) 0 (client_start k ts) = Inr ((), c) \<and> objs (lib c) = Map.empty \<and>
    work (lib c) = None \<and> acid_world_count (lib c) = of_nat N \<and> acid_collect_count (lib c) = of_nat N"
  by (rule chain_programs_end [OF assms])

theorem chain_examples_leave_nothing_witness:
  "\<exists>c. main_with 13 (map run_program [Test1, Slist_create 10]) 0 (client_start 9 [0, 2, 1, 5]) = Inr ((), c) \<and>
     objs (lib c) = Map.empty \<and> acid_collect_count (lib c) = 12"
  using chain_examples_leave_nothing [of "[Test1, Slist_create 10]" 12 13 9 "[0, 2, 1, 5]"] by fastforce

end
