(* ===== verification/Symbolic.thy ===== *)
theory Symbolic
  imports Reclaim
begin

text \<open>
  Symbolic execution of the model: \<open>wp m v Q\<close> says that \<open>m\<close>, started in a memory like \<open>v\<close> by a thread that waits for
  nobody, returns with \<open>Q\<close>, whichever fresh addresses it is given (\<open>next_addr\<close> of \<open>v\<close> is a lower bound). The rules in
  \<open>wp_rules\<close> run the code forward; the later sections have the rules for one object, one link and one collector whose cells are set
  apart from the rest of the memory, and the operations on collectors in this form.
\<close>

section \<open>Symbolic execution\<close>

named_theorems wp_rules

definition fits :: "world \<Rightarrow> world \<Rightarrow> bool" where
  "fits v w \<longleftrightarrow> erase w = erase v \<and> next_addr v \<le> next_addr w"

definition wp :: "'a W \<Rightarrow> world \<Rightarrow> ('a \<Rightarrow> world \<Rightarrow> bool) \<Rightarrow> bool" where
  "wp m v Q \<longleftrightarrow> runs (fits v) m (\<lambda>x w. \<exists>u. fits u w \<and> Q x u)"

lemma fits_refl [simp]: "fits v v"
  by (simp add: fits_def)

lemma stable_fits [simp]: "stable (fits v)" "stable (\<lambda>w. \<exists>u. fits u w \<and> R u)"
  by (auto simp: stable_def fits_def dest!: lock_eq_grow intro: order_trans)

lemma fits_fields:
  assumes "fits v w"
  shows "objs w = objs v" "lnks w = lnks v" "colls w = colls v" "ctrs w = ctrs v" "tsks w = tsks v"
    "work w = work v" "task_count w = task_count v" "fuel w = fuel v" "lockable w r = lockable v r"
proof -
  have e: "erase w = erase v" using assms by (simp add: fits_def)
  show "objs w = objs v" "lnks w = lnks v" "colls w = colls v" "ctrs w = ctrs v" "tsks w = tsks v"
    "work w = work v" "task_count w = task_count v" "fuel w = fuel v" "lockable w r = lockable v r"
    using e by (metis erase_simps)+
qed

lemma wp_ret [wp_rules]: "Q x v \<Longrightarrow> wp (ret x) v Q"
  unfolding wp_def by (rule runs_ret) blast

lemma wp_bnd [wp_rules]: "wp m v (\<lambda>x u. wp (f x) u Q) \<Longrightarrow> wp (bnd m f) v Q"
  unfolding wp_def by (rule runs_bnd, assumption) (auto simp: runs_def)

lemma wp_block [wp_rules]:
  "Q () v \<Longrightarrow> wp (block []) v Q"
  "wp m v (\<lambda>_ u. wp (block ms) u Q) \<Longrightarrow> wp (block (m # ms)) v Q"
  unfolding block.simps by (rule wp_ret wp_bnd, assumption)+

lemma wp_forM [wp_rules]:
  "Q () v \<Longrightarrow> wp (forM [] f) v Q"
  "wp (f x) v (\<lambda>_ u. wp (forM xs f) u Q) \<Longrightarrow> wp (forM (x # xs) f) v Q"
  unfolding forM.simps by (rule wp_ret wp_bnd, assumption)+

lemma wp_whenM [wp_rules]: "(if b then wp m v Q else Q () v) \<Longrightarrow> wp (whenM b m) v Q"
  by (cases b) (auto simp: whenM_def intro: wp_ret)

lemma wp_assertM [wp_rules]: "b \<Longrightarrow> Q () v \<Longrightarrow> wp (assertM b) v Q"
  by (simp add: assertM_def wp_ret)

lemma wp_loopM [wp_rules]:
  "wp (body x) v (\<lambda>r u. wp (case r of Inl y \<Rightarrow> loopM n body y | Inr z \<Rightarrow> ret z) u Q) \<Longrightarrow> wp (loopM (Suc n) body x) v Q"
  unfolding loopM.simps by (rule wp_bnd)

lemma wp_step:
  assumes "\<And>w. fits v w \<Longrightarrow> mem w = [] \<Longrightarrow> m w = Inr (x, f w) \<and> lock_view (f w) = lock_view w \<and> fits u (f w)"
    and "Q x u"
  shows "wp m v Q"
  unfolding wp_def by (rule runs_step) (use assms in blast)

lemma wp_read:
  assumes "\<And>w. fits v w \<Longrightarrow> mem w = [] \<Longrightarrow> m w = Inr (x, w)" and "Q x v"
  shows "wp m v Q"
  by (rule wp_step [where f = "\<lambda>w. w" and Q = Q and x = x and u = v]) (use assms in auto)

lemma wp_gets: "(\<And>w. g (erase w) = g w) \<Longrightarrow> Q (g v) v \<Longrightarrow> wp (gets g) v Q"
  by (rule wp_read [where x = "g v"]) (auto simp: gets_def fits_def, metis)

lemma wp_modify:
  assumes "\<And>w. erase (f w) = f (erase w)" and "\<And>w. lock_view (f w) = lock_view w"
    and "\<And>w. next_addr (f w) = next_addr w" and "Q () (f v)"
  shows "wp (modify f) v Q"
  by (rule wp_step [where f = f and u = "f v" and Q = Q and x = "()"])
    (use assms in \<open>auto simp: modify_def fits_def\<close>)

lemma wp_fuel [wp_rules]: "Q (fuel v) v \<Longrightarrow> wp (gets fuel) v Q"
  by (rule wp_gets) simp_all

lemma wp_work [wp_rules]: "Q (work v) v \<Longrightarrow> wp (gets work) v Q"
  by (rule wp_gets) simp_all

lemma wp_xmalloc [wp_rules]:
  assumes "\<And>a. next_addr v \<le> a \<Longrightarrow> 0 < a \<Longrightarrow> a \<noteq> NULL \<Longrightarrow> Q a (v\<lparr>next_addr := a + 1\<rparr>)"
  shows "wp (xmalloc sz) v Q"
  unfolding wp_def
proof (rule runsI)
  fix t st w assume c: "calm t st w" and f: "fits v w"
  let ?a = "next_addr w" let ?w = "w\<lparr>next_addr := ?a + max 1 sz\<rparr>"
  from c have m: "mem w = []" "0 < ?a" by (auto simp: calm_def at_locks_def)
  have "calm t st ?w" using c by (auto simp: calm_def at_locks_def)
  moreover have "Q ?a (v\<lparr>next_addr := ?a + 1\<rparr>)" using assms f m by (simp add: fits_def)
  moreover have "fits (v\<lparr>next_addr := ?a + 1\<rparr>) ?w" using f by (simp add: fits_def)
  ultimately show "\<exists>x w'. xmalloc sz w = Inr (x, w') \<and> calm t st w' \<and> (\<exists>u. fits u w' \<and> Q x u)"
    using m by (auto simp: xmalloc_Nil)
qed

lemma wp_calloc [wp_rules]: "Q True v \<Longrightarrow> wp calloc_ok v Q"
proof (rule wp_read [where x = True])
  show "calloc_ok w = Inr (True, w)" if "mem w = []" for w
    using that by (cases w) (simp add: calloc_ok_Inr)
qed

lemma wp_locks [wp_rules]:
  assumes "\<forall>r\<in>set rs. lockable v r" and "length rs \<le> 4"
    and "wp body v (\<lambda>x u. (\<forall>r\<in>set rs. lockable u r) \<and> Q x u)"
  shows "wp (with_locks rs body) v Q"
  unfolding wp_def
proof (rule runs_post [OF runs_with_locks [OF _ _ assms(3) [unfolded wp_def]]])
  show "lockable w r" if "\<exists>u. fits u w \<and> (\<forall>r\<in>set rs. lockable u r) \<and> Q x u" "r \<in> set rs" for x w r
    using that by (auto simp: fits_fields)
  show "lockable w r" if "fits v w" "r \<in> set rs" for w r
    using that assms(1) by (simp add: fits_fields)
qed (use assms(2) in auto)

lemma wp_idlock_init [wp_rules]: "Q (id_count v) (v\<lparr>id_count := id_count v + 1\<rparr>) \<Longrightarrow> wp idlock_init v Q"
  unfolding idlock_init_def
  by (rule wp_bnd wp_gets wp_modify wp_ret | assumption | simp add: lock_view_def)+

section \<open>The cells of a memory\<close>

text \<open>A memory whose cells for one object, one link, one collector and one counter are set apart.\<close>

definition cells :: "addr \<Rightarrow> addr \<Rightarrow> world \<Rightarrow> obj option \<Rightarrow> link option \<Rightarrow> world" where
  "cells p l v ob lk = v\<lparr>objs := (objs v)(p := ob), lnks := (lnks v)(l := lk)\<rparr>"

definition ccells :: "addr \<Rightarrow> addr \<Rightarrow> world \<Rightarrow> collector option \<Rightarrow> counter option \<Rightarrow> world" where
  "ccells c n v co ct = v\<lparr>colls := (colls v)(c := co), ctrs := (ctrs v)(n := ct)\<rparr>"

lemma cells_fields [simp]:
  "objs (cells p l v ob lk) = (objs v)(p := ob)" "lnks (cells p l v ob lk) = (lnks v)(l := lk)"
  "colls (cells p l v ob lk) = colls v" "ctrs (cells p l v ob lk) = ctrs v" "tsks (cells p l v ob lk) = tsks v"
  "work (cells p l v ob lk) = work v" "fuel (cells p l v ob lk) = fuel v"
  "task_count (cells p l v ob lk) = task_count v" "next_addr (cells p l v ob lk) = next_addr v"
  "id_count (cells p l v ob lk) = id_count v"
  "acid_world_count (cells p l v ob lk) = acid_world_count v"
  "acid_collect_count (cells p l v ob lk) = acid_collect_count v"
  "dtor_calls (cells p l v ob lk) = dtor_calls v"
  "zero_broadcasts (cells p l v ob lk) = zero_broadcasts v"
  by (simp_all add: cells_def)

lemma ccells_fields [simp]:
  "objs (ccells c n v co ct) = objs v" "lnks (ccells c n v co ct) = lnks v"
  "colls (ccells c n v co ct) = (colls v)(c := co)" "ctrs (ccells c n v co ct) = (ctrs v)(n := ct)"
  "tsks (ccells c n v co ct) = tsks v" "work (ccells c n v co ct) = work v" "fuel (ccells c n v co ct) = fuel v"
  "task_count (ccells c n v co ct) = task_count v" "next_addr (ccells c n v co ct) = next_addr v"
  "id_count (ccells c n v co ct) = id_count v"
  "acid_world_count (ccells c n v co ct) = acid_world_count v"
  "acid_collect_count (ccells c n v co ct) = acid_collect_count v"
  "dtor_calls (ccells c n v co ct) = dtor_calls v"
  "zero_broadcasts (ccells c n v co ct) = zero_broadcasts v"
  by (simp_all add: ccells_def)

lemma cells_update [simp]:
  "(cells p l v ob lk)\<lparr>tsks := a\<rparr> = cells p l (v\<lparr>tsks := a\<rparr>) ob lk"
  "(cells p l v ob lk)\<lparr>work := b\<rparr> = cells p l (v\<lparr>work := b\<rparr>) ob lk"
  "(cells p l v ob lk)\<lparr>task_count := d\<rparr> = cells p l (v\<lparr>task_count := d\<rparr>) ob lk"
  "(cells p l v ob lk)\<lparr>next_addr := e\<rparr> = cells p l (v\<lparr>next_addr := e\<rparr>) ob lk"
  "(cells p l v ob lk)\<lparr>id_count := f\<rparr> = cells p l (v\<lparr>id_count := f\<rparr>) ob lk"
  "(cells p l v ob lk)\<lparr>acid_collect_count := g\<rparr> = cells p l (v\<lparr>acid_collect_count := g\<rparr>) ob lk"
  "(cells p l v ob lk)\<lparr>dtor_calls := h\<rparr> = cells p l (v\<lparr>dtor_calls := h\<rparr>) ob lk"
  "(cells p l v ob lk)\<lparr>zero_broadcasts := k\<rparr> = cells p l (v\<lparr>zero_broadcasts := k\<rparr>) ob lk"
  by (simp_all add: cells_def)

lemma ccells_update [simp]:
  "(ccells c n v co ct)\<lparr>tsks := a\<rparr> = ccells c n (v\<lparr>tsks := a\<rparr>) co ct"
  "(ccells c n v co ct)\<lparr>work := b\<rparr> = ccells c n (v\<lparr>work := b\<rparr>) co ct"
  "(ccells c n v co ct)\<lparr>task_count := d\<rparr> = ccells c n (v\<lparr>task_count := d\<rparr>) co ct"
  "(ccells c n v co ct)\<lparr>next_addr := e\<rparr> = ccells c n (v\<lparr>next_addr := e\<rparr>) co ct"
  "(ccells c n v co ct)\<lparr>id_count := f\<rparr> = ccells c n (v\<lparr>id_count := f\<rparr>) co ct"
  "(ccells c n v co ct)\<lparr>acid_collect_count := g\<rparr> = ccells c n (v\<lparr>acid_collect_count := g\<rparr>) co ct"
  "(ccells c n v co ct)\<lparr>dtor_calls := h\<rparr> = ccells c n (v\<lparr>dtor_calls := h\<rparr>) co ct"
  "(ccells c n v co ct)\<lparr>zero_broadcasts := k\<rparr> = ccells c n (v\<lparr>zero_broadcasts := k\<rparr>) co ct"
  by (simp_all add: ccells_def)

lemma fits_update:
  assumes "fits v w"
  shows "fits (v\<lparr>objs := a\<rparr>) (w\<lparr>objs := a\<rparr>)" "fits (v\<lparr>lnks := b\<rparr>) (w\<lparr>lnks := b\<rparr>)"
    "fits (v\<lparr>colls := d\<rparr>) (w\<lparr>colls := d\<rparr>)" "fits (v\<lparr>ctrs := e\<rparr>) (w\<lparr>ctrs := e\<rparr>)"
  using assms by (simp_all add: fits_def)

lemma wp_access:
  "objs v p = Some ob \<Longrightarrow> Q ob v \<Longrightarrow> wp (get_obj p) v Q"
  "objs v p = Some ob \<Longrightarrow> Q' () (v\<lparr>objs := (objs v)(p \<mapsto> f ob)\<rparr>) \<Longrightarrow> wp (upd_obj p f) v Q'"
  "lnks v l = Some lk \<Longrightarrow> R lk v \<Longrightarrow> wp (get_link l) v R"
  "lnks v l = Some lk \<Longrightarrow> Q' () (v\<lparr>lnks := (lnks v)(l \<mapsto> g lk)\<rparr>) \<Longrightarrow> wp (upd_link l g) v Q'"
  "colls v c = Some co \<Longrightarrow> S co v \<Longrightarrow> wp (get_coll c) v S"
  "colls v c = Some co \<Longrightarrow> Q' () (v\<lparr>colls := (colls v)(c \<mapsto> h co)\<rparr>) \<Longrightarrow> wp (upd_coll c h) v Q'"
  "ctrs v n = Some ct \<Longrightarrow> T ct v \<Longrightarrow> wp (get_ctr n) v T"
  "ctrs v n = Some ct \<Longrightarrow> Q' () (v\<lparr>ctrs := (ctrs v)(n \<mapsto> k ct)\<rparr>) \<Longrightarrow> wp (upd_ctr n k) v Q'"
  "tsks v t = Some tk \<Longrightarrow> U tk v \<Longrightarrow> wp (get_task t) v U"
proof -
  show "objs v p = Some ob \<Longrightarrow> Q ob v \<Longrightarrow> wp (get_obj p) v Q"
    "lnks v l = Some lk \<Longrightarrow> R lk v \<Longrightarrow> wp (get_link l) v R"
    "colls v c = Some co \<Longrightarrow> S co v \<Longrightarrow> wp (get_coll c) v S"
    "ctrs v n = Some ct \<Longrightarrow> T ct v \<Longrightarrow> wp (get_ctr n) v T"
    "tsks v t = Some tk \<Longrightarrow> U tk v \<Longrightarrow> wp (get_task t) v U"
    by (rule wp_read, simp add: access_Inr fits_fields, assumption)+
  show "objs v p = Some ob \<Longrightarrow> Q' () (v\<lparr>objs := (objs v)(p \<mapsto> f ob)\<rparr>) \<Longrightarrow> wp (upd_obj p f) v Q'"
    by (rule wp_step [where f = "\<lambda>w. w\<lparr>objs := (objs w)(p \<mapsto> f ob)\<rparr>"])
      (auto simp: access_Inr fits_fields lock_view_def intro: fits_update)
  show "lnks v l = Some lk \<Longrightarrow> Q' () (v\<lparr>lnks := (lnks v)(l \<mapsto> g lk)\<rparr>) \<Longrightarrow> wp (upd_link l g) v Q'"
    by (rule wp_step [where f = "\<lambda>w. w\<lparr>lnks := (lnks w)(l \<mapsto> g lk)\<rparr>"])
      (auto simp: access_Inr fits_fields lock_view_def intro: fits_update)
  show "colls v c = Some co \<Longrightarrow> Q' () (v\<lparr>colls := (colls v)(c \<mapsto> h co)\<rparr>) \<Longrightarrow> wp (upd_coll c h) v Q'"
    by (rule wp_step [where f = "\<lambda>w. w\<lparr>colls := (colls w)(c \<mapsto> h co)\<rparr>"])
      (auto simp: access_Inr fits_fields lock_view_def intro: fits_update)
  show "ctrs v n = Some ct \<Longrightarrow> Q' () (v\<lparr>ctrs := (ctrs v)(n \<mapsto> k ct)\<rparr>) \<Longrightarrow> wp (upd_ctr n k) v Q'"
    by (rule wp_step [where f = "\<lambda>w. w\<lparr>ctrs := (ctrs w)(n \<mapsto> k ct)\<rparr>"])
      (auto simp: access_Inr fits_fields lock_view_def intro: fits_update)
qed


lemma cells_put [simp]:
  "g = objs v \<Longrightarrow> (cells p l v ob lk)\<lparr>objs := g(p := x)\<rparr> = cells p l v x lk"
  "h = lnks v \<Longrightarrow> (cells p l v ob lk)\<lparr>lnks := h(l := y)\<rparr> = cells p l v ob y"
  by (cases v, simp add: cells_def)+

lemma ccells_put [simp]:
  "(cells p l (ccells c n v co ct) ob lk)\<lparr>colls := (colls v)(c := x)\<rparr> = cells p l (ccells c n v x ct) ob lk"
  "(cells p l (ccells c n v co ct) ob lk)\<lparr>ctrs := (ctrs v)(n := y)\<rparr> = cells p l (ccells c n v co y) ob lk"
  by (cases v, simp add: cells_def ccells_def)+

lemma cells_access [wp_rules]:
  "Q ob (cells p l v (Some ob) lk) \<Longrightarrow> wp (get_obj p) (cells p l v (Some ob) lk) Q"
  "Q' () (cells p l v (Some (f ob)) lk) \<Longrightarrow> wp (upd_obj p f) (cells p l v (Some ob) lk) Q'"
  "R k (cells p l v ob' (Some k)) \<Longrightarrow> wp (get_link l) (cells p l v ob' (Some k)) R"
  "Q' () (cells p l v ob' (Some (g k))) \<Longrightarrow> wp (upd_link l g) (cells p l v ob' (Some k)) Q'"
  "tsks v t = Some tk \<Longrightarrow> U tk (cells p l v ob' lk) \<Longrightarrow> wp (get_task t) (cells p l v ob' lk) U"
  by (rule wp_access; simp)+

lemma ccells_access [wp_rules]:
  "S co (cells p l (ccells c n v (Some co) ct) ob lk) \<Longrightarrow> wp (get_coll c) (cells p l (ccells c n v (Some co) ct) ob lk) S"
  "Q' () (cells p l (ccells c n v (Some (h co)) ct) ob lk) \<Longrightarrow>
    wp (upd_coll c h) (cells p l (ccells c n v (Some co) ct) ob lk) Q'"
  "T k (cells p l (ccells c n v co' (Some k)) ob lk) \<Longrightarrow> wp (get_ctr n) (cells p l (ccells c n v co' (Some k)) ob lk) T"
  "Q' () (cells p l (ccells c n v co' (Some (j k))) ob lk) \<Longrightarrow>
    wp (upd_ctr n j) (cells p l (ccells c n v co' (Some k)) ob lk) Q'"
  by (rule wp_access; simp)+

section \<open>Objects and collectors in their cells\<close>

text \<open>An object with table \<open>t\<close>, bit \<open>b\<close>, counts \<open>s\<close> and \<open>w\<close> (of \<open>b\<close> and of the other bit) and \<open>ph\<close> phantoms.\<close>

definition is_bit :: "bit_t \<Rightarrow> bool" where
  "is_bit b \<longleftrightarrow> b = 0 \<or> b = 1"

definition counts :: "obj \<Rightarrow> addr hashtable \<Rightarrow> bit_t \<Rightarrow> int \<Rightarrow> int \<Rightarrow> int \<Rightarrow> bool \<Rightarrow> addr \<Rightarrow> bool \<Rightarrow> obj" where
  "counts ob t b s w ph phz co cp = ob\<lparr>o_links := Some t, o_which := b, o_phantomized := phz,
     o_count := (o_count ob)(unat b := s, unat (BIT_FLIP b) := w, 2 := ph), o_collector := co, o_complete := cp\<rparr>"

lemma counts_fields [simp]:
  "o_links (counts ob t b s w ph phz co cp) = Some t" "o_which (counts ob t b s w ph phz co cp) = b"
  "o_phantomized (counts ob t b s w ph phz co cp) = phz" "o_collector (counts ob t b s w ph phz co cp) = co"
  "o_complete (counts ob t b s w ph phz co cp) = cp" "o_dtor (counts ob t b s w ph phz co cp) = o_dtor ob"
  "o_data (counts ob t b s w ph phz co cp) = o_data ob"
  by (simp_all add: counts_def)

lemma is_bit_flip [simp]: "is_bit b \<Longrightarrow> is_bit (BIT_FLIP b)"
  by (auto simp: is_bit_def)

lemma counts_update [simp]:
  "(counts ob t b s w ph phz co cp)\<lparr>o_links := Some t'\<rparr> = counts ob t' b s w ph phz co cp"
  "(counts ob t b s w ph phz co cp)\<lparr>o_phantomized := phz'\<rparr> = counts ob t b s w ph phz' co cp"
  "(counts ob t b s w ph phz co cp)\<lparr>o_collector := co'\<rparr> = counts ob t b s w ph phz co' cp"
  "(counts ob t b s w ph phz co cp)\<lparr>o_complete := cp'\<rparr> = counts ob t b s w ph phz co cp'"
  by (simp_all add: counts_def)

lemma counts_flip [simp]:
  "is_bit b \<Longrightarrow> (counts ob t b s w ph phz co cp)\<lparr>o_which := b XOR 1\<rparr> = counts ob t (BIT_FLIP b) w s ph phz co cp"
  by (auto simp: counts_def is_bit_def fun_upd_twist)

lemma o_count_counts:
  assumes "is_bit b"
  shows "o_count (counts ob t b s w ph phz co cp) (unat b) = s"
    "o_count (counts ob t b s w ph phz co cp) (unat (BIT_FLIP b)) = w"
    "o_count (counts ob t b s w ph phz co cp) 2 = ph"
    "o_count (counts ob t b x x ph phz co cp) 0 = x" "o_count (counts ob t b x x ph phz co cp) 1 = x"
    "(counts ob t b s w ph phz co cp)\<lparr>o_count := (o_count (counts ob t b s w ph phz co cp))(unat b := y)\<rparr> =
      counts ob t b y w ph phz co cp"
    "(counts ob t b s w ph phz co cp)\<lparr>o_count := (o_count (counts ob t b s w ph phz co cp))(unat (BIT_FLIP b) := y)\<rparr> =
      counts ob t b s y ph phz co cp"
    "(counts ob t b s w ph phz co cp)\<lparr>o_count := (o_count (counts ob t b s w ph phz co cp))(2 := y)\<rparr> =
      counts ob t b s w y phz co cp"
  using assms by (auto simp: counts_def is_bit_def fun_upd_twist)

lemma counts_settle:
  assumes "is_bit b"
  shows "(counts ob t b s w ph phz co cp)\<lparr>o_which := BIT_FLIP b,
      o_count := (o_count (counts ob t b s w ph phz co cp))(unat (BIT_FLIP b) := x)\<rparr> =
    counts ob t (BIT_FLIP b) x s ph phz co cp"
  using assms by (auto simp: counts_def is_bit_def fun_upd_twist)

definition in_int :: "int \<Rightarrow> bool" where
  "in_int x \<longleftrightarrow> - (2 ^ 31) \<le> x \<and> x < 2 ^ 31"

lemma unat_bit [simp]: "is_bit b \<Longrightarrow> unat b < 3" "unat (2 :: bit_t) = 2"
  by (auto simp: is_bit_def)

lemma wp_count_add:
  assumes "unat i < 3" and "in_int (o_count ob (unat i) + d)"
    and "Q () (cells p l v (Some (ob\<lparr>o_count := (o_count ob)(unat i := o_count ob (unat i) + d)\<rparr>)) lk)"
  shows "wp (count_add p i d) (cells p l v (Some ob) lk) Q"
  unfolding count_add_def
  by (rule wp_rules)+ (use assms in \<open>simp add: in_int_def Let_def, intro wp_rules, simp\<close>)

lemma wp_count_at:
  assumes "unat i < 3" and "Q (o_count ob (unat i)) (cells p l v (Some ob) lk)"
  shows "wp (count_at p i) (cells p l v (Some ob) lk) Q"
  unfolding count_at_def
  by (rule wp_rules)+ (use assms in \<open>simp, intro wp_rules, simp\<close>)

lemma wp_counts [wp_rules]:
  "is_bit b \<Longrightarrow> Q s (cells p l v (Some (counts ob t b s w ph phz co cp)) lk) \<Longrightarrow>
    wp (count_at p b) (cells p l v (Some (counts ob t b s w ph phz co cp)) lk) Q"
  "is_bit b \<Longrightarrow> Q w (cells p l v (Some (counts ob t b s w ph phz co cp)) lk) \<Longrightarrow>
    wp (count_at p (BIT_FLIP b)) (cells p l v (Some (counts ob t b s w ph phz co cp)) lk) Q"
  "is_bit b \<Longrightarrow> Q w (cells p l v (Some (counts ob t (BIT_FLIP b) s w ph phz co cp)) lk) \<Longrightarrow>
    wp (count_at p b) (cells p l v (Some (counts ob t (BIT_FLIP b) s w ph phz co cp)) lk) Q"
  "is_bit b \<Longrightarrow> Q ph (cells p l v (Some (counts ob t b s w ph phz co cp)) lk) \<Longrightarrow>
    wp (count_at p 2) (cells p l v (Some (counts ob t b s w ph phz co cp)) lk) Q"
  "is_bit b \<Longrightarrow> Q x (cells p l v (Some (counts ob t b x x ph phz co cp)) lk) \<Longrightarrow>
    wp (count_at p 0) (cells p l v (Some (counts ob t b x x ph phz co cp)) lk) Q"
  "is_bit b \<Longrightarrow> Q x (cells p l v (Some (counts ob t b x x ph phz co cp)) lk) \<Longrightarrow>
    wp (count_at p 1) (cells p l v (Some (counts ob t b x x ph phz co cp)) lk) Q"
  by (rule wp_count_at; insert o_count_counts [of "BIT_FLIP b"]; simp add: o_count_counts del: One_nat_def)+

lemma wp_counts_add [wp_rules]:
  "is_bit b \<Longrightarrow> in_int (s + d) \<Longrightarrow> Q () (cells p l v (Some (counts ob t b (s + d) w ph phz co cp)) lk) \<Longrightarrow>
    wp (count_add p b d) (cells p l v (Some (counts ob t b s w ph phz co cp)) lk) Q"
  "is_bit b \<Longrightarrow> in_int (w + d) \<Longrightarrow> Q () (cells p l v (Some (counts ob t b s (w + d) ph phz co cp)) lk) \<Longrightarrow>
    wp (count_add p (BIT_FLIP b) d) (cells p l v (Some (counts ob t b s w ph phz co cp)) lk) Q"
  "is_bit b \<Longrightarrow> in_int (w + d) \<Longrightarrow>
    Q () (cells p l v (Some (counts ob t (BIT_FLIP b) s (w + d) ph phz co cp)) lk) \<Longrightarrow>
    wp (count_add p b d) (cells p l v (Some (counts ob t (BIT_FLIP b) s w ph phz co cp)) lk) Q"
  "is_bit b \<Longrightarrow> in_int (ph + d) \<Longrightarrow> Q () (cells p l v (Some (counts ob t b s w (ph + d) phz co cp)) lk) \<Longrightarrow>
    wp (count_add p 2 d) (cells p l v (Some (counts ob t b s w ph phz co cp)) lk) Q"
  by (rule wp_count_add; insert o_count_counts [of "BIT_FLIP b"]; simp add: o_count_counts)+

lemma wp_obj_fields [wp_rules]:
  "Q (o_which ob) (cells p l v (Some ob) lk) \<Longrightarrow> wp (obj_which p) (cells p l v (Some ob) lk) Q"
  "R (o_collector ob) (cells p l v (Some ob) lk) \<Longrightarrow> wp (obj_collector p) (cells p l v (Some ob) lk) R"
  "S (o_phantomized ob) (cells p l v (Some ob) lk) \<Longrightarrow> wp (obj_phantomized p) (cells p l v (Some ob) lk) S"
  "o_links ob = Some t \<Longrightarrow> T t (cells p l v (Some ob) lk) \<Longrightarrow> wp (links_of p) (cells p l v (Some ob) lk) T"
  unfolding field_defs by (auto intro!: wp_rules)


text \<open>A collector that has not been merged, with the content of its five lists; \<open>i\<close> is its first lock number.\<close>

definition a_list :: "64 word \<Rightarrow> addr \<Rightarrow> addr list \<Rightarrow> safelist" where
  "a_list i n xs = \<lparr>sl_lock = i, sl_count = n, sl_data = Some xs, sl_forward = None\<rparr>"

definition lists :: "64 word \<Rightarrow> addr \<Rightarrow> (slfield \<Rightarrow> addr list) \<Rightarrow> collector" where
  "lists i n f =
     \<lparr>co_lock = i + 5, co_count = n, co_collect = a_list i n (f Collect),
      co_merged_list = a_list (i + 1) n (f Merged_list), co_recovery_list = a_list (i + 2) n (f Recovery_list),
      co_rebuild_list = a_list (i + 3) n (f Rebuild_list), co_clean_list = a_list (i + 4) n (f Clean_list),
      co_forward = NULL\<rparr>"

lemma lists_fields [simp]:
  "co_count (lists i n f) = n" "co_forward (lists i n f) = NULL"
  "sl_data (sl_of (lists i n f) x) = Some (f x)" "sl_forward (sl_of (lists i n f) x) = None"
  "sl_count (sl_of (lists i n f) x) = n"
  "sl_put x (sl_of (lists i n f) x\<lparr>sl_data := Some xs\<rparr>) (lists i n f) = lists i n (f(x := xs))"
  by (cases x; simp add: lists_def a_list_def)+

text \<open>The memory in the course of a collection: collector \<open>c\<close> with the lists \<open>f\<close>, and its counter \<open>n\<close>.\<close>

abbreviation gc' :: "addr \<Rightarrow> addr \<Rightarrow> addr \<Rightarrow> addr \<Rightarrow> 64 word \<Rightarrow> world \<Rightarrow> obj option \<Rightarrow> link option \<Rightarrow>
    (slfield \<Rightarrow> addr list) \<Rightarrow> 64 word \<Rightarrow> 64 word \<Rightarrow> world" where
  "gc' p l c n i v ob lk f r s \<equiv>
     cells p l (ccells c n v (Some (lists i n f)) (Some \<lparr>ref_count = r, store_count = s\<rparr>)) ob lk"

abbreviation gc :: "addr \<Rightarrow> addr \<Rightarrow> addr \<Rightarrow> addr \<Rightarrow> 64 word \<Rightarrow> world \<Rightarrow> obj \<Rightarrow> link option \<Rightarrow>
    (slfield \<Rightarrow> addr list) \<Rightarrow> 64 word \<Rightarrow> 64 word \<Rightarrow> world" where
  "gc p l c n i v ob lk f r s \<equiv> gc' p l c n i v (Some ob) lk f r s"

lemma gc_access [wp_rules]:
  "Q n (gc' p l c n i v ob lk f r s) \<Longrightarrow> wp (coll_count c) (gc' p l c n i v ob lk f r s) Q"
  "Q NULL (gc' p l c n i v ob lk f r s) \<Longrightarrow> wp (coll_forward c) (gc' p l c n i v ob lk f r s) Q"
  "S (sl_of (lists i n f) x) (gc' p l c n i v ob lk f r s) \<Longrightarrow> wp (get_sl (c, x)) (gc' p l c n i v ob lk f r s) S"
  "Q' (f x) (gc' p l c n i v ob lk f r s) \<Longrightarrow> wp (data_of (c, x)) (gc' p l c n i v ob lk f r s) Q'"
  "R () (gc' p l c n i v ob lk (f(x := xs)) r s) \<Longrightarrow>
    wp (upd_sl (c, x) (\<lambda>k. k\<lparr>sl_data := Some xs\<rparr>)) (gc' p l c n i v ob lk f r s) R"
  "R () (gc' p l c n i v ob lk f (r + 1) s) \<Longrightarrow> wp (counter_inc_ref n) (gc' p l c n i v ob lk f r s) R"
  "R () (gc' p l c n i v ob lk f (r - 1) s) \<Longrightarrow> wp (counter_dec_ref n) (gc' p l c n i v ob lk f r s) R"
  "R () (gc' p l c n i v ob lk f r (s + 1)) \<Longrightarrow> wp (counter_inc_store n) (gc' p l c n i v ob lk f r s) R"
  "R () (gc' p l c n i v ob lk f r (s - 1)) \<Longrightarrow> wp (counter_dec_store n) (gc' p l c n i v ob lk f r s) R"
  "T (r > 0 \<and> s = 0) (gc' p l c n i v ob lk f r s) \<Longrightarrow> wp (counter_continue_waiting n) (gc' p l c n i v ob lk f r s) T"
  "T (r = 0 \<and> s = 0) (gc' p l c n i v ob lk f r s) \<Longrightarrow> wp (counter_done n) (gc' p l c n i v ob lk f r s) T"
proof -
  show get: "S (sl_of (lists i n f) x) (gc' p l c n i v ob lk f r s) \<Longrightarrow> wp (get_sl (c, x)) (gc' p l c n i v ob lk f r s) S"
    for S by (rule wp_read) (auto simp: get_sl_Inr fits_fields)
  show "Q' (f x) (gc' p l c n i v ob lk f r s) \<Longrightarrow> wp (data_of (c, x)) (gc' p l c n i v ob lk f r s) Q'"
    unfolding data_of_def by (rule wp_rules get | simp)+
qed (unfold coll_count_def coll_forward_def upd_sl_def counter_ops counter_dec_store_def counter_continue_waiting_def
    counter_done_def, (rule wp_rules | simp)+)

lemma wp_poll [wp_rules]:
  "f x = [] \<Longrightarrow> Q NULL (gc' p l c n i v ob lk f r s) \<Longrightarrow> wp (safelist_poll (c, x)) (gc' p l c n i v ob lk f r s) Q"
  "f x = y # ys \<Longrightarrow> Q y (gc' p l c n i v ob lk (f(x := ys)) r (s - 1)) \<Longrightarrow>
    wp (safelist_poll (c, x)) (gc' p l c n i v ob lk f r s) Q"
  unfolding safelist_poll_def
  by (rule wp_rules | simp)+

lemma wp_safelist_add [wp_rules]:
  "fuel v = Suc m \<Longrightarrow> Q () (gc' p l c n i v ob lk (f(x := f x @ [y])) r (s + 1)) \<Longrightarrow>
    wp (safelist_add (c, x) y) (gc' p l c n i v ob lk f r s) Q"
  unfolding safelist_add_def safelist_add_once_def list_add_to_def
  by (rule wp_rules | simp del: loopM.simps)+


section \<open>Operations of collectors\<close>

lemma wp_set_collector [wp_rules]:
  "c \<noteq> NULL \<Longrightarrow> o_collector ob = c \<or> o_collector ob = NULL \<Longrightarrow>
    Q () (gc p l c n i v (ob\<lparr>o_collector := c\<rparr>) lk f (if o_collector ob = c then r else r + 1) s) \<Longrightarrow>
    wp (object_set_collector p c) (gc p l c n i v ob lk f r s) Q"
  "c \<noteq> NULL \<Longrightarrow> o_collector ob = c \<Longrightarrow> Q () (gc p l c n i v (ob\<lparr>o_collector := NULL\<rparr>) lk f (r - 1) s) \<Longrightarrow>
    wp (object_set_collector p NULL) (gc p l c n i v ob lk f r s) Q"
proof -
  have same: "ob\<lparr>o_collector := c\<rparr> = ob" if "o_collector ob = c" using that by (cases ob) simp
  show "c \<noteq> NULL \<Longrightarrow> o_collector ob = c \<or> o_collector ob = NULL \<Longrightarrow>
    Q () (gc p l c n i v (ob\<lparr>o_collector := c\<rparr>) lk f (if o_collector ob = c then r else r + 1) s) \<Longrightarrow>
    wp (object_set_collector p c) (gc p l c n i v ob lk f r s) Q"
    unfolding object_set_collector_def
    by (cases "o_collector ob = c") (rule wp_rules | simp add: same)+
qed (unfold object_set_collector_def, (rule wp_rules | simp)+)

lemma erase_more [simp]:
  "erase (w\<lparr>num_collector := a\<rparr>) = (erase w)\<lparr>num_collector := a\<rparr>"
  "erase (w\<lparr>acid_collect_count := b\<rparr>) = (erase w)\<lparr>acid_collect_count := b\<rparr>"
  "erase (w\<lparr>zero_broadcasts := d\<rparr>) = (erase w)\<lparr>zero_broadcasts := d\<rparr>"
  "erase (w\<lparr>dtor_calls := e\<rparr>) = (erase w)\<lparr>dtor_calls := e\<rparr>"
  "dtor_calls (erase w) = dtor_calls w" "acid_collect_count (erase w) = acid_collect_count w"
  "zero_broadcasts (erase w) = zero_broadcasts w" "acid_world_count (erase w) = acid_world_count w"
  by (cases w, simp add: erase_def)+

lemma wp_collector_create [wp_rules]:
  assumes "\<And>c n. next_addr v \<le> c \<Longrightarrow> next_addr v \<le> n \<Longrightarrow> c \<noteq> NULL \<Longrightarrow> n \<noteq> NULL \<Longrightarrow>
    Q c (gc p l c n (id_count v) (v\<lparr>next_addr := n + 1, id_count := id_count v + 6,
      num_collector := num_collector v + 1\<rparr>) ob lk (\<lambda>_. []) 0 0)"
  shows "wp collector_create (cells p l v (Some ob) lk) Q"
  unfolding collector_create_def counter_create_def safelist_init_def
  apply ((rule wp_rules wp_modify | (simp add: lock_view_def; fail))+)
  subgoal for c n
    using assms [of c n] by simp (cases v, simp add: cells_def ccells_def lists_def a_list_def add_ac)
  done

lemma wp_task_create [wp_rules]:
  assumes "\<And>t. next_addr v \<le> t \<Longrightarrow> t \<noteq> NULL \<Longrightarrow> Q t (cells p l (v\<lparr>next_addr := t + 1,
      tsks := (tsks v)(t \<mapsto> \<lparr>t_run = fn, t_runarg = x\<rparr>)\<rparr>) ob lk)"
  shows "wp (task_create fn x) (cells p l v ob lk) Q"
  unfolding task_create_def
  by (rule wp_rules wp_modify | (simp add: lock_view_def assms; fail))+

lemma wp_task_start [wp_rules]:
  assumes "work v = Some ts"
    and "Q () (cells p l (v\<lparr>task_count := task_count v + 1, work := Some (ts @ [t])\<rparr>) ob lk)"
  shows "wp (task_start t) (cells p l v ob lk) Q"
  unfolding task_start_def worker_add_task_def
  by (rule wp_rules wp_modify | (simp add: lock_view_def assms; fail) | simp add: assms)+

lemma wp_collector_add [wp_rules]:
  assumes "fuel v = Suc m" and "is_bit b" and "in_int (x + 1)" and "in_int (ph + 1)" and "c \<noteq> NULL"
    and "Q () (gc p l c n i v (counts ob t b (x + 1) y (ph + 1) phz c cp) lk (f(Collect := f Collect @ [p])) r (s + 1))"
  shows "wp (collector_add_object c p) (gc p l c n i v (counts ob t b x y ph phz c cp) lk f r s) Q"
  unfolding collector_add_object_def
  using assms by - (rule wp_rules | simp del: loopM.simps)+

lemma wp_collector_update [wp_rules]:
  assumes "fuel v = Suc m" and "Q c (gc p l c n i v ob lk f r s)"
  shows "wp (collector_update c) (gc p l c n i v ob lk f r s) Q"
  unfolding collector_update_def
  using assms by - (rule wp_rules | simp del: loopM.simps)+

lemma wp_collector_equals [wp_rules]:
  assumes "fuel v = Suc m" and "Q True (gc p l c n i v ob lk f r s)"
  shows "wp (collector_equals c c) (gc p l c n i v ob lk f r s) Q"
proof -
  have *: "bnd (locker_start2 (LColl c) (LColl c)) (\<lambda>_. bnd locker_end (\<lambda>_. ret (Inr True))) =
      with_locks [LColl c, LColl c] (ret (Inr True :: addr \<times> addr + bool))"
    by (simp add: with_locks_def locker_start2_def)
  show ?thesis
    unfolding collector_equals_def
    using assms * by - (rule wp_rules | simp del: loopM.simps)+
qed

end
