(* ===== verification/Cycles.thy ===== *)
theory Cycles
  imports Symbolic
begin

text \<open>
  Collections from their beginning to their end, on the smallest cycle, an object that refers to itself: when the last
  reference from outside goes, the object is phantomized, found dead, cleaned and freed with its link, its collector and its tasks; when
  other references are left, it is phantomized, recovered and its link rebuilt. The rest of the memory is arbitrary.
\<close>

section \<open>The last reference from outside\<close>

lemma in_int_simps [simp]: "in_int 0" "in_int 1" "in_int (numeral k) \<longleftrightarrow> numeral k < (2 ^ 31 :: int)"
  by (simp_all add: in_int_def)

lemma wp_dec_first:
  assumes "fuel v = Suc m" and "is_bit b" and "work v = Some ts" and "p \<noteq> NULL" and "y \<noteq> 0"
    and "\<And>c n d. next_addr v \<le> c \<Longrightarrow> next_addr v \<le> n \<Longrightarrow> next_addr v \<le> d \<Longrightarrow> c \<noteq> NULL \<Longrightarrow> n \<noteq> NULL \<Longrightarrow> d \<noteq> NULL \<Longrightarrow>
      Q () (gc p l c n (id_count v) (v\<lparr>id_count := id_count v + 6,
        num_collector := num_collector v + 1, next_addr := d + 1, tsks := (tsks v)(d \<mapsto> \<lparr>t_run = Collector_run, t_runarg = c\<rparr>),
        task_count := task_count v + 1, work := Some (ts @ [d])\<rparr>)
        (counts ob t b 1 y 1 False c True) lk ((\<lambda>_. [])(Collect := [p])) 1 1)"
  shows "wp (object_dec p b) (cells p l v (Some (counts ob t b 1 y 0 False NULL True)) lk) Q"
  unfolding object_dec_def
  by (rule wp_rules | (simp add: assms; fail) | simp add: assms(4,5))+


lemma wp_dec_again [wp_rules]:
  assumes "fuel v = Suc m" and "is_bit b" and "c \<noteq> NULL" and "p \<noteq> NULL"
    and "ph \<noteq> 0" and "in_int ph" and "in_int (ph + 1)"
    and "Q () (gc p l c n i v (counts ob t b 1 0 (ph + 1) phz c cp) lk (f(Collect := f Collect @ [p])) r (s + 1))"
  shows "wp (object_dec p b) (gc p l c n i v (counts ob t b 1 0 ph phz c cp) lk f r s) Q"
  unfolding object_dec_def
  by (rule wp_rules | (simp add: assms; fail) | simp add: assms)+

lemma wp_dec_phantom [wp_rules]:
  assumes "is_bit b" and "p \<noteq> NULL" and "1 < ph" and "in_int (ph - 1)"
    and "Q () (gc p l c n i v (counts ob t b x y (ph - 1) phz c' cp) lk f r s)"
  shows "wp (object_dec_phantom p) (gc p l c n i v (counts ob t b x y ph phz c' cp) lk f r s) Q"
proof -
  have pos: "0 < ph" "ph \<noteq> 1" using assms(3) by auto
  show ?thesis
    unfolding object_dec_phantom_def
    by (rule wp_rules | (simp add: assms pos; fail) | simp add: assms pos)+
qed

lemma wp_dec_phantom_last:
  assumes "is_bit b" and "p \<noteq> NULL" and "work v = Some ts"
    and "\<And>d. next_addr v \<le> d \<Longrightarrow> d \<noteq> NULL \<Longrightarrow>
      Q () (gc p l c n i (v\<lparr>next_addr := d + 1, tsks := (tsks v)(d \<mapsto> delete_task p),
        task_count := task_count v + 1, work := Some (ts @ [d])\<rparr>) (counts ob t b 0 0 0 phz c' cp) lk f r s)"
  shows "wp (object_dec_phantom p) (gc p l c n i v (counts ob t b 0 0 1 phz c' cp) lk f r s) Q"
  unfolding object_dec_phantom_def object_request_delete_def
  by (rule wp_rules | (simp add: assms; fail) | simp add: assms)+ (use assms(4) in \<open>simp add: delete_task_def\<close>)

section \<open>The rounds of the collector\<close>

text \<open>The only link of the object is its own.\<close>

definition self_link :: "addr \<Rightarrow> bit_t \<Rightarrow> bool \<Rightarrow> link" where
  "self_link p b phz = \<lparr>lk_which = b, lk_phantomized = phz, lk_target = p, lk_src = p\<rparr>"

definition one_link :: "addr hashtable \<Rightarrow> addr \<Rightarrow> bool" where
  "one_link t l \<longleftrightarrow> ht_inv t \<and> (\<exists>k. ht_map t = [k \<mapsto> l])"

lemma self_link_simps [simp]:
  "lk_which (self_link p b phz) = b" "lk_phantomized (self_link p b phz) = phz"
  "lk_target (self_link p b phz) = p" "lk_src (self_link p b phz) = p"
  "(self_link p b phz)\<lparr>lk_phantomized := x\<rparr> = self_link p b x"
  "(self_link p b phz)\<lparr>lk_which := d\<rparr> = self_link p d phz"
  by (simp_all add: self_link_def)

definition no_links :: "addr hashtable \<Rightarrow> bool" where
  "no_links t \<longleftrightarrow> ht_inv t \<and> ht_map t = Map.empty"

lemma no_links_simps [simp]:
  "no_links t \<Longrightarrow> hashtable_size t = 0" "no_links t \<Longrightarrow> no_links (hashtable_remove_all t)"
  "one_link t l \<Longrightarrow> no_links (hashtable_remove_all t)"
  using hashtable_remove_all_map by (auto simp: no_links_def one_link_def hashtable_size_0)

lemma one_link_values:
  assumes "one_link t l"
  shows "0 < hashtable_size t" "hashtable_foreach t = ret (concat (ht_buckets t))"
    "map te_value (concat (ht_buckets t)) = [l]"
proof -
  from assms obtain k where t: "ht_inv t" "ht_map t = [k \<mapsto> l]" by (auto simp: one_link_def)
  then show s: "0 < hashtable_size t" by (simp add: hashtable_size_map)
  show "hashtable_foreach t = ret (concat (ht_buckets t))" by (rule hashtable_foreach_entries [OF t(1) s])
  have "inj_on (ht_map t) (dom (ht_map t))" by (simp add: t(2))
  note v = table_values [OF t(1) this]
  have "length (map te_value (concat (ht_buckets t))) = 1"
    using v(3) t by (simp add: hashtable_size_map)
  then obtain x where x: "map te_value (concat (ht_buckets t)) = [x]" by (auto simp: length_Suc_conv)
  moreover have "x = l" using v(2) unfolding x t(2) by simp
  ultimately show "map te_value (concat (ht_buckets t)) = [l]" by simp
qed

lemma wp_in_table [wp_rules]: "Q x v \<Longrightarrow> wp (in_table (ret x)) v Q"
  by (rule wp_read) (simp_all add: in_table_ret)

lemma wp_links_array [wp_rules]:
  "o_links ob = Some t \<Longrightarrow> one_link t l \<Longrightarrow>
    (\<And>a. next_addr v \<le> a \<Longrightarrow> Q [l] (cells p l (v\<lparr>next_addr := a\<rparr>) (Some ob) lk)) \<Longrightarrow>
    wp (links_array p te_value) (cells p l v (Some ob) lk) Q"
  unfolding links_array_def
  apply (rule wp_rules | (simp; fail) | simp add: one_link_values)+
  done


lemma wp_link_dec [wp_rules]:
  "p \<noteq> NULL \<Longrightarrow> wp (if phz then object_dec_phantom p else object_dec p b) (cells p l v (Some ob) (Some (self_link p b phz)))
      (\<lambda>x u. objs u p \<noteq> None \<and> Q x u) \<Longrightarrow>
    wp (link_dec l) (cells p l v (Some ob) (Some (self_link p b phz))) Q"
  unfolding link_dec_def
  by (cases phz) (rule wp_rules | (simp; fail) | simp)+

lemma wp_merge_same [wp_rules]:
  "o_collector ob = c \<Longrightarrow> c \<noteq> NULL \<Longrightarrow> Q False (gc p l c n i v ob lk f r s) \<Longrightarrow>
    wp (object_merge_collectors p p) (gc p l c n i v ob lk f r s) Q"
  unfolding object_merge_collectors_def
  by (rule wp_rules | (simp; fail) | simp)+

lemma wp_link_phantomize [wp_rules]:
  assumes "fuel v = Suc m" and "is_bit b" and "c \<noteq> NULL" and "p \<noteq> NULL"
    and "Q () (gc p l c n i v (counts ob t b 1 0 3 True c cp) (Some (self_link p b True))
      (f(Collect := f Collect @ [p])) r (s + 1))"
  shows "wp (link_phantomize l) (gc p l c n i v (counts ob t b 1 0 1 True c cp) (Some (self_link p b False)) f r s) Q"
  unfolding link_phantomize_def
  by (rule wp_rules | (simp add: assms; fail) | simp add: assms)+


lemma wp_mark_first [wp_rules]:
  assumes "fuel v = Suc m" and "is_bit b" and "c \<noteq> NULL" and "p \<noteq> NULL" and "one_link t l" and "0 < y"
    and "\<And>a. next_addr v \<le> a \<Longrightarrow>
      Q (Some [l]) (gc p l c n i (v\<lparr>next_addr := a\<rparr>) (counts ob t (BIT_FLIP b) y 0 1 True c False) lk f r s)"
  shows "wp (phantomize_mark p) (gc p l c n i v (counts ob t b 1 y 1 False c True) lk f r s) Q"
  unfolding phantomize_mark_def
  by (rule wp_rules | (simp add: assms; fail) | simp add: assms)+

lemma wp_mark_again [wp_rules]:
  assumes "fuel v = Suc m" and "is_bit b" and "c \<noteq> NULL" and "p \<noteq> NULL"
    and "Q None (gc p l c n i v (counts ob t b 0 0 ph True c True) lk f r s)"
  shows "wp (phantomize_mark p) (gc p l c n i v (counts ob t b 1 0 ph True c True) lk f r s) Q"
  unfolding phantomize_mark_def
  by (rule wp_rules | (simp add: assms; fail) | simp add: assms)+

lemma wp_phantomize_one [wp_rules]:
  assumes "fuel v = Suc m" and "is_bit b" and "c \<noteq> NULL" and "p \<noteq> NULL" and "l \<noteq> NULL"
    and "Q () (gc p l c n i v (counts ob t b 1 0 3 True c cp) (Some (self_link p b True))
      (f(Collect := f Collect @ [p])) r (s + 1))"
  shows "wp (phantomize_one p l) (gc p l c n i v (counts ob t b 1 0 1 True c cp) (Some (self_link p b False)) f r s) Q"
  unfolding phantomize_one_def
  by (rule wp_rules | (simp add: assms; fail) | simp add: assms)+

lemma wp_phantomize_first:
  assumes "fuel v = Suc m" and "is_bit b" and "c \<noteq> NULL" and "p \<noteq> NULL" and "l \<noteq> NULL" and "one_link t l"
    and "\<And>a. next_addr v \<le> a \<Longrightarrow>
      Q () (gc p l c n i (v\<lparr>next_addr := a\<rparr>) (counts ob t (BIT_FLIP b) 1 0 3 True c True)
        (Some (self_link p (BIT_FLIP b) True)) (f(Collect := f Collect @ [p])) r (s + 1))"
  shows "wp (object_phantomize_node p c) (gc p l c n i v (counts ob t b 1 1 1 False c True)
    (Some (self_link p (BIT_FLIP b) False)) f r s) Q"
  unfolding object_phantomize_node_def
  by (rule wp_rules | (simp add: assms; fail) | simp add: assms)+

lemma wp_phantomize_again:
  assumes "fuel v = Suc m" and "is_bit b" and "c \<noteq> NULL" and "p \<noteq> NULL"
    and "Q () (gc p l c n i v (counts ob t b 0 0 ph True c True) lk f r s)"
  shows "wp (object_phantomize_node p c) (gc p l c n i v (counts ob t b 1 0 ph True c True) lk f r s) Q"
  unfolding object_phantomize_node_def
  by (rule wp_rules | (simp add: assms; fail) | simp add: assms)+

lemma recover_alt:
  "object_recover_node p c = bnd (with_locks [LObj p]
      (bnd (obj_collector p) (\<lambda>c.
       bnd (whenM (c \<noteq> NULL) (bnd (collector_update c) (object_set_collector p))) (\<lambda>_.
       bnd (obj_which p) (\<lambda>b.
       bnd (count_at p b) (\<lambda>n.
       if n > 0 then
         bnd (wait_for_phantomization p) (\<lambda>_.
         bnd (bnd (get_obj p) (\<lambda>ob. assertM (o_complete ob))) (\<lambda>_.
         bnd (upd_obj p (\<lambda>ob. ob\<lparr>o_phantomized := False\<rparr>)) (\<lambda>_.
         links_array p te_key)))
       else bnd (bnd (count_at p (BIT_FLIP b)) (\<lambda>m. assertM (m = 0))) (\<lambda>_. ret []))))))) (\<lambda>rebuild.
      block [
        rebuild_each p c rebuild NULL,
        with_locks [LObj p]
          (bnd (count_at p 2) (\<lambda>k. whenM (k = 0) (bnd (obj_collector p) (\<lambda>c. assertM (c = NULL)))))])"
  unfolding object_recover_node_def with_locks_def locker_start1_def bnd_assoc bnd_ret ..

lemma wp_recover_dead:
  assumes "fuel v = Suc m" and "is_bit b" and "c \<noteq> NULL" and "p \<noteq> NULL" and "0 < ph"
    and "Q () (gc p l c n i v (counts ob t b 0 0 ph phz c cp) lk f r s)"
  shows "wp (object_recover_node p c) (gc p l c n i v (counts ob t b 0 0 ph phz c cp) lk f r s) Q"
proof -
  have ph: "ph \<noteq> 0" using assms(5) by simp
  show ?thesis
    unfolding recover_alt
    by (rule wp_rules | (simp add: assms ph; fail) | simp add: assms ph)+
qed


lemma wp_links_array_Nil [wp_rules]:
  "o_links ob = Some t \<Longrightarrow> hashtable_size t = 0 \<Longrightarrow> Q [] (cells p l v (Some ob) lk) \<Longrightarrow>
    wp (links_array p te_value) (cells p l v (Some ob) lk) Q"
  unfolding links_array_def
  by (rule wp_rules | (simp; fail) | simp)+

lemma wp_links_remove_all [wp_rules]:
  "o_links ob = Some t \<Longrightarrow> Q () (cells p l v (Some (ob\<lparr>o_links := Some (hashtable_remove_all t)\<rparr>)) lk) \<Longrightarrow>
    wp (links_remove_all p) (cells p l v (Some ob) lk) Q"
  unfolding links_remove_all_def put_links_def
  by (rule wp_rules | (simp; fail) | simp)+

lemma wp_link_free [wp_rules]:
  "Q () (cells p l v ob None) \<Longrightarrow> wp (link_free l) (cells p l v ob (Some k)) Q"
  unfolding link_free_def
  by (rule wp_rules wp_modify | (simp add: lock_view_def; fail) | simp)+

lemma wp_link_destroy [wp_rules]:
  assumes "is_bit b" and "p \<noteq> NULL" and "1 < ph" and "in_int (ph - 1)"
    and "Q () (gc p l c n i v (counts ob t b x y (ph - 1) phz c' cp) None f r s)"
  shows "wp (link_destroy l) (gc p l c n i v (counts ob t b x y ph phz c' cp) (Some (self_link p d True)) f r s) Q"
  unfolding link_destroy_def
  by (rule wp_rules | (simp add: assms; fail) | simp add: assms)+

lemma wp_remove_first:
  assumes "is_bit b" and "p \<noteq> NULL" and "1 < ph" and "in_int (ph - 1)" and "one_link t l"
    and "\<And>a. next_addr v \<le> a \<Longrightarrow> Q () (gc p l c n i (v\<lparr>next_addr := a\<rparr>)
      (counts ob (hashtable_remove_all t) b 0 0 (ph - 1) phz c' cp) None f r s)"
  shows "wp (object_remove_links p) (gc p l c n i v (counts ob t b 0 0 ph phz c' cp) (Some (self_link p d True)) f r s) Q"
  unfolding object_remove_links_def
  by (rule wp_bnd, rule wp_locks, simp, simp, rule wp_bnd, rule wp_links_array, simp, rule assms(5))
    (rule wp_rules | (simp add: assms; fail) | simp add: assms)+

lemma wp_remove_again:
  assumes "is_bit b" and "p \<noteq> NULL" and "no_links t"
    and "Q () (cells p l v (Some (counts ob (hashtable_remove_all t) b 0 0 ph phz c' cp)) lk)"
  shows "wp (object_remove_links p) (cells p l v (Some (counts ob t b 0 0 ph phz c' cp)) lk) Q"
  unfolding object_remove_links_def
  by (rule wp_rules | (simp add: assms; fail) | simp add: assms)+

lemma wp_clean_first:
  assumes "is_bit b" and "p \<noteq> NULL" and "one_link t l"
    and "\<And>a. next_addr v \<le> a \<Longrightarrow> Q () (gc p l c n i (v\<lparr>next_addr := a\<rparr>)
      (counts ob (hashtable_remove_all t) b 0 0 1 phz c' cp) None f r s)"
  shows "wp (object_clean_node p) (gc p l c n i v (counts ob t b 0 0 3 phz c' cp) (Some (self_link p d True)) f r s) Q"
  unfolding object_clean_node_def
  by (rule wp_rules wp_remove_first | (simp add: assms; fail) | simp add: assms)+

lemma wp_clean_again:
  assumes "is_bit b" and "p \<noteq> NULL" and "no_links t" and "work v = Some ts"
    and "\<And>d. next_addr v \<le> d \<Longrightarrow> d \<noteq> NULL \<Longrightarrow>
      Q () (gc p l c n i (v\<lparr>next_addr := d + 1, tsks := (tsks v)(d \<mapsto> delete_task p),
        task_count := task_count v + 1, work := Some (ts @ [d])\<rparr>)
        (counts ob (hashtable_remove_all t) b 0 0 0 phz c' cp) lk f r s)"
  shows "wp (object_clean_node p) (gc p l c n i v (counts ob t b 0 0 1 phz c' cp) lk f r s) Q"
  unfolding object_clean_node_def
  by (rule wp_dec_phantom_last wp_remove_again wp_rules | (simp add: assms; fail) | simp add: assms)+


section \<open>The three tasks\<close>

fun queues :: "addr list \<Rightarrow> addr list \<Rightarrow> addr list \<Rightarrow> addr list \<Rightarrow> slfield \<Rightarrow> addr list" where
  "queues xs ys rs zs Collect = xs"
| "queues xs ys rs zs Recovery_list = ys"
| "queues xs ys rs zs Rebuild_list = rs"
| "queues xs ys rs zs Clean_list = zs"
| "queues xs ys rs zs Merged_list = []"

lemma all_slfield:
  "(\<forall>x. P x) \<longleftrightarrow> P Collect \<and> P Merged_list \<and> P Recovery_list \<and> P Rebuild_list \<and> P Clean_list"
  by (metis slfield.exhaust)

lemma queues_update [simp]:
  "(queues xs ys rs zs)(Collect := us) = queues us ys rs zs"
  "(queues xs ys rs zs)(Recovery_list := us) = queues xs us rs zs"
  "(queues xs ys rs zs)(Rebuild_list := us) = queues xs ys us zs"
  "(queues xs ys rs zs)(Clean_list := us) = queues xs ys rs us"
  "(\<lambda>_. []) = queues [] [] [] []"
  by (simp_all add: fun_eq_iff all_slfield)

lemma wp_drain:
  "fuel v = Suc m \<Longrightarrow> f x = [] \<Longrightarrow> Q () (gc' p l c n i v ob lk f r s) \<Longrightarrow>
    wp (drain (c, x) act) (gc' p l c n i v ob lk f r s) Q"
  unfolding drain_def
  by (rule wp_rules | (simp; fail) | simp)+

lemma wp_collect:
  assumes "fuel v = Suc (Suc (Suc m))" and "is_bit b" and "c \<noteq> NULL" and "p \<noteq> NULL" and "l \<noteq> NULL"
    and "one_link t l"
    and "\<And>a. next_addr v \<le> a \<Longrightarrow>
      Q () (gc p l c n i (v\<lparr>next_addr := a\<rparr>) (counts ob t (BIT_FLIP b) 0 0 3 True c True)
        (Some (self_link p (BIT_FLIP b) True)) (queues [] [p, p] [] []) 1 2)"
  shows "wp (drain (c, Collect) (\<lambda>obj. block [object_phantomize_node obj c, safelist_add (c, Recovery_list) obj]))
    (gc p l c n i v (counts ob t b 1 1 1 False c True) (Some (self_link p (BIT_FLIP b) False)) (queues [p] [] [] []) 1 1) Q"
  unfolding drain_def
  by (rule wp_rules wp_phantomize_first wp_phantomize_again | (simp add: assms; fail) | simp add: assms)+

lemma wp_recovery:
  assumes "fuel v = Suc (Suc (Suc m))" and "is_bit b" and "c \<noteq> NULL" and "p \<noteq> NULL"
    and "Q () (gc p l c n i v (counts ob t b 0 0 3 True c True) lk (queues [] [] [] [p, p]) 1 2)"
  shows "wp (drain (c, Recovery_list) (\<lambda>obj. block [object_recover_node obj c, safelist_add (c, Clean_list) obj]))
    (gc p l c n i v (counts ob t b 0 0 3 True c True) lk (queues [] [p, p] [] []) 1 2) Q"
  unfolding drain_def
  by (rule wp_rules wp_recover_dead | (simp add: assms; fail) | simp add: assms)+

lemma wp_clean:
  assumes "fuel v = Suc (Suc (Suc m))" and "is_bit b" and "c \<noteq> NULL" and "p \<noteq> NULL" and "one_link t l"
    and "work v = Some ts"
    and "\<And>d. next_addr v \<le> d \<Longrightarrow> d \<noteq> NULL \<Longrightarrow>
      Q () (gc p l c n i (v\<lparr>next_addr := d + 1, tsks := (tsks v)(d \<mapsto> delete_task p),
        task_count := task_count v + 1, work := Some (ts @ [d])\<rparr>)
        (counts ob (hashtable_remove_all (hashtable_remove_all t)) b 0 0 0 True c True) None (queues [] [] [] []) 1 0)"
  shows "wp (drain (c, Clean_list) object_clean_node) (gc p l c n i v (counts ob t b 0 0 3 True c True)
    (Some (self_link p b True)) (queues [] [] [] [p, p]) 1 2) Q"
  unfolding drain_def
  by (rule wp_clean_first wp_clean_again wp_rules | (simp add: assms; fail)
      | simp add: assms no_links_simps(3) [OF assms(5)])+


lemma collector_finish_alt:
  "collector_finish c =
     bnd (coll_forward c) (\<lambda>f.
     bnd (with_locks [LColl c, LColl f]
       (bnd (coll_count c) (\<lambda>n. bnd (counter_done n) (\<lambda>finished.
        bnd (whenM finished (collector_terminate c)) (\<lambda>_. ret finished))))) (\<lambda>finished.
     if finished then bnd (collector_destroy c) (\<lambda>_. ret False) else ret True))"
proof -
  have "(if b then bnd (block [collector_terminate c, locker_end, collector_destroy c]) (\<lambda>_. ret False)
         else bnd locker_end (\<lambda>_. ret True)) =
      bnd (bnd (whenM b (collector_terminate c)) (\<lambda>_. ret b)) (\<lambda>x. bnd locker_end (\<lambda>_.
        if x then bnd (collector_destroy c) (\<lambda>_. ret False) else ret True))" for b
    by (cases b) (simp_all add: whenM_def bnd_assoc)
  then show ?thesis
    by (simp add: collector_finish_def with_locks_def locker_start2_def bnd_assoc)
qed

lemma wp_run_first:
  assumes "fuel v = Suc (Suc (Suc m))" and "is_bit b" and "c \<noteq> NULL" and "p \<noteq> NULL" and "l \<noteq> NULL"
    and "one_link t l" and "work v = Some ts"
    and "\<And>d. next_addr v \<le> d \<Longrightarrow> d \<noteq> NULL \<Longrightarrow>
      Q True (gc p l c n i (v\<lparr>next_addr := d + 1, tsks := (tsks v)(d \<mapsto> delete_task p),
        task_count := task_count v + 1, work := Some (ts @ [d])\<rparr>)
        (counts ob (hashtable_remove_all (hashtable_remove_all t)) (BIT_FLIP b) 0 0 0 True c True) None (queues [] [] [] []) 1 0)"
  shows "wp (collector_run c) (gc p l c n i v (counts ob t b 1 1 1 False c True)
    (Some (self_link p (BIT_FLIP b) False)) (queues [p] [] [] []) 1 1) Q"
  unfolding collector_run_def collector_phases_def collector_finish_alt
  by (rule wp_collect wp_recovery wp_clean wp_drain [where x = Merged_list] wp_drain [where x = Rebuild_list] wp_rules
      | (simp add: assms; fail) | simp add: assms del: block.simps)+

definition dtor_call :: "obj \<Rightarrow> (nat \<times> addr) list" where
  "dtor_call ob = (case o_dtor ob of None \<Rightarrow> [] | Some d \<Rightarrow> [(d, o_data ob)])"

lemma dtor_call_counts [simp]: "dtor_call (counts ob t b s w ph phz co cp) = dtor_call ob"
  "dtor_call (ob\<lparr>o_links := x\<rparr>) = dtor_call ob" "dtor_call (ob\<lparr>o_magic := m\<rparr>) = dtor_call ob"
  by (simp_all add: dtor_call_def cong: option.case_cong)

lemma wp_call_dtor [wp_rules]:
  "Q () (cells p l (v\<lparr>dtor_calls := dtor_calls v @ dtor_call ob\<rparr>) (Some ob) lk) \<Longrightarrow>
    wp (call_dtor p) (cells p l v (Some ob) lk) Q"
  unfolding call_dtor_def dtor_call_def
  by (cases "o_dtor ob") (rule wp_rules wp_modify | (simp add: lock_view_def; fail) | simp)+

lemma wp_links_size [wp_rules]:
  "o_links ob = Some t \<Longrightarrow> Q (hashtable_size t) (cells p l v (Some ob) lk) \<Longrightarrow>
    wp (links_size p) (cells p l v (Some ob) lk) Q"
  unfolding links_size_def
  by (rule wp_rules | (simp; fail))+

lemma wp_delete:
  assumes "is_bit b" and "p \<noteq> NULL" and "c \<noteq> NULL" and "no_links t"
    and "Q False (cells p l (ccells c n (v\<lparr>dtor_calls := dtor_calls v @ dtor_call ob,
        acid_collect_count := acid_collect_count v + 1\<rparr>)
      (Some (lists i n f)) (Some \<lparr>ref_count = r - 1, store_count = s\<rparr>)) None lk)"
  shows "wp (object_request_delete_task_run p) (gc p l c n i v (counts ob t b 0 0 0 True c True) lk f r s) Q"
  unfolding object_request_delete_task_run_def object_del_def
  by (rule wp_remove_again wp_rules wp_modify | (simp add: lock_view_def assms; fail) | simp add: assms)+


lemma wp_sl_deinit:
  assumes "colls v c = Some co" and "sl_data (sl_of co x) \<noteq> None"
    and "Q () (v\<lparr>colls := (colls v)(c \<mapsto> sl_put x (sl_of co x\<lparr>sl_data := None\<rparr>) co)\<rparr>)"
  shows "wp (safelist_deinit (c, x)) v Q"
proof -
  have get: "wp (get_sl (c, x)) v R" if "R (sl_of co x) v" for R
    by (rule wp_read [where x = "sl_of co x"]) (use that assms(1) in \<open>auto simp: get_sl_Inr fits_fields\<close>)
  obtain xs where xs: "sl_data (sl_of co x) = Some xs" using assms(2) by auto
  show ?thesis
    unfolding safelist_deinit_def data_of_def upd_sl_def
    by (rule wp_bnd, rule wp_bnd, rule get, simp add: xs, rule wp_ret, rule wp_access(6) [OF assms(1)])
      (simp add: assms(3))
qed

lemma wp_destroy [wp_rules]:
  assumes "n \<noteq> NULL" and "Q () (cells p l (ccells c n v None None) ob lk)"
  shows "wp (collector_destroy c) (gc' p l c n i v ob lk f r s) Q"
  unfolding collector_destroy_def counter_destroy_def coll_count_def
  by ((rule wp_block, rule wp_sl_deinit, simp, simp add: lists_def a_list_def)+,
      (rule wp_rules wp_modify | (simp add: lock_view_def assms; fail) | simp add: assms)+)

text \<open>The last run of the collector, when nothing refers to it any more.\<close>

lemma wp_run_last:
  assumes "fuel v = Suc m" and "c \<noteq> NULL" and "n \<noteq> NULL"
    and "Q False (cells p l (ccells c n v None None) ob lk)"
  shows "wp (collector_run c) (gc' p l c n i v ob lk (queues [] [] [] []) 0 0) Q"
  unfolding collector_run_def collector_phases_def collector_finish_alt collector_terminate_def
    collector_set_forward_def
  by (rule wp_drain wp_rules | (simp add: assms; fail) | simp add: assms del: block.simps)+


lemma wp_take_task:
  assumes "work v = Some (d # ds)" and "d \<noteq> NULL" and "tsks v d = Some \<lparr>t_run = fn, t_runarg = x\<rparr>"
    and "wp (task_call fn x) (v\<lparr>work := Some ds\<rparr>)
      (\<lambda>again u. wp (if again then worker_add_task d else block [task_destroy d, task_finished]) u Q)"
  shows "wp worker_pass v Q"
  unfolding worker_pass_def worker_get_next_task_def task_run_def
  by (rule wp_rules wp_access wp_modify | (simp add: lock_view_def assms; fail) | simp add: assms)+

lemma wp_task_end:
  assumes "tsks v d \<noteq> None" and "d \<noteq> NULL"
    and "\<And>z. Q () (v\<lparr>tsks := (tsks v)(d := None), task_count := task_count v - 1, zero_broadcasts := z\<rparr>)"
  shows "wp (block [task_destroy d, task_finished]) v Q"
proof -
  obtain tk where tk: "tsks v d = Some tk" using assms(1) by auto
  show ?thesis
    unfolding task_destroy_def task_finished_def
    by (rule wp_rules wp_access wp_modify | (simp add: lock_view_def assms(2) tk; fail) | simp add: assms(2))+
      (use assms(3) [of "zero_broadcasts v"] assms(3) [of "Suc (zero_broadcasts v)"] in auto)
qed

lemma wp_task_again:
  assumes "work v = Some ds" and "Q () (v\<lparr>work := Some (ds @ [d])\<rparr>)"
  shows "wp (worker_add_task d) v Q"
  unfolding worker_add_task_def
  by (rule wp_rules wp_modify | (simp add: lock_view_def assms; fail) | simp add: assms)+


section \<open>From the last reference to the end\<close>

text \<open>What is left of the memory: the object and its link are gone, and the counters of the program have moved on.\<close>

definition without :: "addr \<Rightarrow> addr \<Rightarrow> obj \<Rightarrow> world \<Rightarrow> world \<Rightarrow> bool" where
  "without p l ob v u \<longleftrightarrow> objs u = (objs v)(p := None) \<and> lnks u = (lnks v)(l := None) \<and> colls u = colls v \<and>
     ctrs u = ctrs v \<and> tsks u = tsks v \<and> work u = work v \<and> task_count u = task_count v \<and>
     dtor_calls u = dtor_calls v @ dtor_call ob \<and> acid_world_count u = acid_world_count v \<and>
     acid_collect_count u = acid_collect_count v + 1"

lemma wp_dissolve:
  assumes "objs v p = Some ob" and "p \<noteq> NULL" and "wp (object_dec p (o_which ob)) v (\<lambda>_ u. (\<exists>y. objs u p = Some y) \<and> Q () u)"
  shows "wp (acid_dissolve (p + sizeof_Object)) v Q"
  unfolding acid_dissolve_def object_dec_strong_def obj_which_def Let_def
  by (rule wp_rules wp_access | (simp add: assms; fail) | simp add: assms)+

lemma wp_lost:
  assumes "fuel v = Suc (Suc (Suc m))" and "is_bit b" and "p \<noteq> NULL" and "l \<noteq> NULL" and "one_link t l"
    and "work v = Some []" and fresh: "\<forall>a\<ge>next_addr v. colls v a = None \<and> ctrs v a = None \<and> tsks v a = None"
  shows "wp (block [acid_dissolve (p + sizeof_Object), worker_pass, worker_pass, worker_pass])
    (cells p l v (Some (counts ob t b 1 1 0 False NULL True)) (Some (self_link p (BIT_FLIP b) False)))
    (\<lambda>_ u. without p l ob v u)"
  apply (rule wp_block)
  apply (rule wp_dissolve, simp, rule assms)
  apply (simp only: counts_fields)
  apply (rule wp_dec_first, rule assms, rule assms, rule assms, rule assms, simp)
  apply (simp del: block.simps)
  apply (rule wp_block)
  apply (rule wp_take_task, simp, simp, simp)
  apply (simp add: task_call_def del: block.simps)
  apply (rule wp_run_first)
  apply (simp_all add: assms del: block.simps)
  apply (rule wp_task_again, simp, simp del: block.simps)
  apply (rule wp_block)
  apply (rule wp_take_task, simp, simp, simp add: delete_task_def)
  apply (simp add: task_call_def del: block.simps)
  apply (rule wp_delete)
  apply (simp_all add: assms no_links_simps(3) [OF assms(5)] del: block.simps)
  apply (rule wp_task_end, simp, simp, simp del: block.simps)
  apply (rule wp_block)
  apply (rule wp_take_task, simp, simp, simp)
  apply (simp add: task_call_def del: block.simps)
  apply (rule wp_run_last)
  apply (simp_all add: assms del: block.simps)
  apply (rule wp_task_end, simp, simp, simp del: block.simps)
  apply (rule wp_block)
  subgoal for c n d e
    using fresh by (simp add: without_def assms fun_upd_idem)
  done

section \<open>An object that is still in use\<close>

lemma wp_dec_stays:
  assumes "is_bit b" and "1 < x" and "in_int (x - 1)"
    and "Q () (cells p l v (Some (counts ob t b (x - 1) y ph phz c cp)) lk)"
  shows "wp (object_dec p b) (cells p l v (Some (counts ob t b x y ph phz c cp)) lk) Q"
proof -
  have pos: "0 < x" "x \<noteq> 1" using assms(2) by auto
  show ?thesis
    unfolding object_dec_def
    by (rule wp_rules | (simp add: assms pos; fail) | simp add: assms pos)+
qed

lemma wp_link_phantomize_used:
  assumes "fuel v = Suc m" and "is_bit b" and "c \<noteq> NULL" and "p \<noteq> NULL" and "1 < x" and "in_int (x - 1)"
    and "Q () (gc p l c n i v (counts ob t b (x - 1) 0 2 True c cp) (Some (self_link p b True)) f r s)"
  shows "wp (link_phantomize l) (gc p l c n i v (counts ob t b x 0 1 True c cp) (Some (self_link p b False)) f r s) Q"
  unfolding link_phantomize_def
  by (rule wp_dec_stays wp_rules | (simp add: assms; fail) | simp add: assms)+

lemma wp_phantomize_one_used:
  assumes "fuel v = Suc m" and "is_bit b" and "c \<noteq> NULL" and "p \<noteq> NULL" and "l \<noteq> NULL"
    and "1 < x" and "in_int (x - 1)"
    and "Q () (gc p l c n i v (counts ob t b (x - 1) 0 2 True c cp) (Some (self_link p b True)) f r s)"
  shows "wp (phantomize_one p l) (gc p l c n i v (counts ob t b x 0 1 True c cp) (Some (self_link p b False)) f r s) Q"
  unfolding phantomize_one_def
  by (rule wp_link_phantomize_used wp_rules | (simp add: assms; fail) | simp add: assms)+

lemma wp_phantomize_used:
  assumes "fuel v = Suc m" and "is_bit b" and "c \<noteq> NULL" and "p \<noteq> NULL" and "l \<noteq> NULL" and "one_link t l"
    and "1 < x" and "in_int (x - 1)"
    and "\<And>a. next_addr v \<le> a \<Longrightarrow>
      Q () (gc p l c n i (v\<lparr>next_addr := a\<rparr>) (counts ob t (BIT_FLIP b) (x - 1) 0 2 True c True)
        (Some (self_link p (BIT_FLIP b) True)) f r s)"
  shows "wp (object_phantomize_node p c) (gc p l c n i v (counts ob t b 1 x 1 False c True)
    (Some (self_link p (BIT_FLIP b) False)) f r s) Q"
proof -
  have pos: "0 < x" using assms(7) by simp
  show ?thesis
    unfolding object_phantomize_node_def
    by (rule wp_phantomize_one_used wp_rules | (simp add: assms pos; fail) | simp add: assms pos)+
qed

text \<open>The wait is over at once when the object is complete.\<close>

lemma wp_wait [wp_rules]:
  assumes "o_complete ob" and "Q () (cells p l v (Some ob) lk)"
  shows "wp (wait_for_phantomization p) (cells p l v (Some ob) lk) Q"
proof -
  have n: "(10001 :: nat) = Suc 10000" by simp
  show ?thesis
    unfolding wait_for_phantomization_def n
    by (rule wp_rules | (simp add: assms; fail) | simp add: assms del: loopM.simps)+
qed

lemma wp_links_keys:
  assumes "o_links ob = Some t" and t: "ht_inv t" "ht_map t = [k \<mapsto> l]"
    and "\<And>a. next_addr v \<le> a \<Longrightarrow> Q [k] (cells p l (v\<lparr>next_addr := a\<rparr>) (Some ob) lk)"
  shows "wp (links_array p te_key) (cells p l v (Some ob) lk) Q"
proof -
  have one: "one_link t l" using t by (auto simp: one_link_def)
  from one_link_values(3) [OF this] obtain e where e: "concat (ht_buckets t) = [e]" by auto
  have "ht_map t = map_of (map te_assoc (concat (ht_buckets t)))" by (simp add: ht_map_def map_concat)
  then have "ht_map t (te_key e) = Some (te_value e)" by (simp add: e te_assoc_def)
  then have "te_key e = k" using t(2) by (auto split: if_splits)
  with e have "map te_key (concat (ht_buckets t)) = [k]" by simp
  then show ?thesis
    unfolding links_array_def
    by - (rule_tac wp_rules | (simp add: assms; fail) | simp add: assms(1) one_link_values [OF one])+
qed

lemma wp_links_get [wp_rules]:
  "o_links ob = Some t \<Longrightarrow> ht_inv t \<Longrightarrow> ht_map t k = Some j \<Longrightarrow> Q j (cells p l v (Some ob) lk) \<Longrightarrow>
    wp (links_get p k d) (cells p l v (Some ob) lk) Q"
  by (rule wp_read [where x = j]) (auto simp: links_get_ok or_else_def fits_fields)

lemma wp_rebuild_link:
  assumes "fuel v = Suc m" and "is_bit b" and "c \<noteq> NULL" and "p \<noteq> NULL" and "1 < ph"
    and "in_int (ph - 1)" and "in_int (y + 1)"
    and "Q () (gc p l c n i v (counts ob t b x (y + 1) (ph - 1) phz c cp) (Some (self_link p (BIT_FLIP b) False))
      (f(Rebuild_list := f Rebuild_list @ [p])) r (s + 1))"
  shows "wp (object_rebuild_link (c, Rebuild_list) l)
    (gc p l c n i v (counts ob t b x y ph phz c cp) (Some (self_link p d True)) f r s) Q"
proof -
  have pos: "0 < ph" "ph \<noteq> 1" using assms(5) by auto
  show ?thesis
    unfolding object_rebuild_link_def Let_def
    by (rule wp_rules | (simp add: assms pos; fail) | simp add: assms pos)+
qed

lemma wp_rebuild_link_again:
  assumes "p \<noteq> NULL" and "Q () (cells p l v (Some ob) (Some (self_link p d False)))"
  shows "wp (object_rebuild_link sl l) (cells p l v (Some ob) (Some (self_link p d False))) Q"
  unfolding object_rebuild_link_def Let_def
  by (rule wp_rules | (simp add: assms; fail) | simp add: assms)+

lemma wp_recover_used:
  assumes "fuel v = Suc m" and "is_bit b" and "c \<noteq> NULL" and "p \<noteq> NULL" and "l \<noteq> NULL"
    and "ht_inv t" "ht_map t = [k \<mapsto> l]" and "0 < x"
    and "\<And>a. next_addr v \<le> a \<Longrightarrow> Q () (gc p l c n i (v\<lparr>next_addr := a\<rparr>) (counts ob t b x 1 1 False c True)
      (Some (self_link p (BIT_FLIP b) False)) (f(Rebuild_list := f Rebuild_list @ [p])) r (s + 1))"
  shows "wp (object_recover_node p c) (gc p l c n i v (counts ob t b x 0 2 True c True) (Some (self_link p b True)) f r s) Q"
  unfolding recover_alt
  by (rule wp_rebuild_link wp_links_keys wp_rules | (simp add: assms; fail) | simp add: assms)+

lemma wp_recover_again:
  assumes "fuel v = Suc m" and "is_bit b" and "c \<noteq> NULL" and "p \<noteq> NULL" and "l \<noteq> NULL"
    and "ht_inv t" "ht_map t = [k \<mapsto> l]" and "0 < x" and "y \<noteq> 0"
    and "\<And>a. next_addr v \<le> a \<Longrightarrow> Q () (gc p l c n i (v\<lparr>next_addr := a\<rparr>) (counts ob t b x 1 y False c True)
      (Some (self_link p d False)) f r s)"
  shows "wp (object_recover_node p c) (gc p l c n i v (counts ob t b x 1 y phz c True) (Some (self_link p d False)) f r s) Q"
  unfolding recover_alt
  by (rule wp_rebuild_link_again wp_links_keys wp_rules | (simp add: assms; fail) | simp add: assms)+

lemma wp_count_pos:
  assumes "is_bit b" and "is_bit i" and "0 < x" and "0 < y"
    and "\<And>z. 0 < z \<Longrightarrow> Q z (cells p l v (Some (counts ob t b x y ph phz c cp)) lk)"
  shows "wp (count_at p i) (cells p l v (Some (counts ob t b x y ph phz c cp)) lk) Q"
proof -
  have "i = b \<or> i = BIT_FLIP b" using assms(1,2) by (auto simp: is_bit_def)
  with assms show ?thesis by (auto intro: wp_rules)
qed

lemma wp_clean_used:
  assumes "is_bit b" and "c \<noteq> NULL" and "p \<noteq> NULL" and "0 < x"
    and "Q () (gc p l c n i v (counts ob t b x 1 0 False NULL cp) lk f (r - 1) s)"
  shows "wp (object_clean_node p) (gc p l c n i v (counts ob t b x 1 1 False c cp) lk f r s) Q"
proof -
  have bits: "is_bit 0" "is_bit 1" by (simp_all add: is_bit_def)
  show ?thesis
    unfolding object_clean_node_def object_dec_phantom_def
    apply (rule wp_rules | rule wp_count_pos, rule assms, rule bits, rule assms, simp | (simp add: assms; fail) | simp add: assms)+
    done
qed


lemma wp_drain_rebuild:
  assumes "fuel v = Suc (Suc m)" and "is_bit b" and "c \<noteq> NULL" and "p \<noteq> NULL" and "l \<noteq> NULL"
    and "ht_inv t" "ht_map t = [k \<mapsto> l]" and "0 < x"
    and "\<And>a. next_addr v \<le> a \<Longrightarrow> Q () (gc p l c n i (v\<lparr>next_addr := a\<rparr>) (counts ob t b x 1 1 False c True)
      (Some (self_link p d False)) (queues [] [] [] [p]) 1 1)"
  shows "wp (drain (c, Rebuild_list) (\<lambda>obj. object_recover_node obj c)) (gc p l c n i v (counts ob t b x 1 1 False c True)
      (Some (self_link p d False)) (queues [] [] [p] [p]) 1 2) Q"
  unfolding drain_def
  by (rule wp_recover_again wp_rules | (simp add: assms; fail) | simp add: assms)+

lemma wp_drain_collect:
  assumes "fuel v = Suc (Suc m)" and "is_bit b" and "c \<noteq> NULL" and "p \<noteq> NULL" and "l \<noteq> NULL" and "one_link t l"
    and "1 < x" and "in_int (x - 1)"
    and "\<And>a. next_addr v \<le> a \<Longrightarrow>
      Q () (gc p l c n i (v\<lparr>next_addr := a\<rparr>) (counts ob t (BIT_FLIP b) (x - 1) 0 2 True c True)
        (Some (self_link p (BIT_FLIP b) True)) (queues [] [p] [] []) 1 1)"
  shows "wp (drain (c, Collect) (\<lambda>obj. block [object_phantomize_node obj c, safelist_add (c, Recovery_list) obj]))
    (gc p l c n i v (counts ob t b 1 x 1 False c True) (Some (self_link p (BIT_FLIP b) False)) (queues [p] [] [] []) 1 1) Q"
  unfolding drain_def
  by (rule wp_phantomize_used wp_rules | (simp add: assms; fail) | simp add: assms)+

lemma wp_drain_recovery:
  assumes "fuel v = Suc (Suc m)" and "is_bit b" and "c \<noteq> NULL" and "p \<noteq> NULL" and "l \<noteq> NULL"
    and "ht_inv t" "ht_map t = [k \<mapsto> l]" and "0 < x"
    and "\<And>a. next_addr v \<le> a \<Longrightarrow> Q () (gc p l c n i (v\<lparr>next_addr := a\<rparr>) (counts ob t b x 1 1 False c True)
      (Some (self_link p (BIT_FLIP b) False)) (queues [] [] [p] [p]) 1 2)"
  shows "wp (drain (c, Recovery_list) (\<lambda>obj. block [object_recover_node obj c, safelist_add (c, Clean_list) obj]))
    (gc p l c n i v (counts ob t b x 0 2 True c True) (Some (self_link p b True)) (queues [] [p] [] []) 1 1) Q"
  unfolding drain_def
  by (rule wp_recover_used wp_rules | (simp add: assms; fail) | simp add: assms)+

lemma wp_drain_clean:
  assumes "fuel v = Suc (Suc m)" and "is_bit b" and "c \<noteq> NULL" and "p \<noteq> NULL" and "0 < x"
    and "Q () (gc p l c n i v (counts ob t b x 1 0 False NULL cp) lk (queues [] [] [] []) 0 0)"
  shows "wp (drain (c, Clean_list) object_clean_node)
    (gc p l c n i v (counts ob t b x 1 1 False c cp) lk (queues [] [] [] [p]) 1 1) Q"
  unfolding drain_def
  by (rule wp_clean_used wp_rules | (simp add: assms; fail) | simp add: assms)+

lemma wp_finish_done:
  assumes "c \<noteq> NULL" and "n \<noteq> NULL" and "Q False (cells p l (ccells c n v None None) ob lk)"
  shows "wp (collector_finish c) (gc' p l c n i v ob lk f 0 0) Q"
  unfolding collector_finish_alt collector_terminate_def collector_set_forward_def
  by (rule wp_rules | (simp add: assms; fail) | simp add: assms)+

lemma wp_run_used:
  assumes "fuel v = Suc (Suc m)" and "is_bit b" and "c \<noteq> NULL" and "n \<noteq> NULL" and "p \<noteq> NULL" and "l \<noteq> NULL"
    and "ht_inv t" "ht_map t = [k \<mapsto> l]" and "1 < x" and "in_int (x - 1)"
    and "\<And>a. next_addr v \<le> a \<Longrightarrow> Q False (cells p l (ccells c n (v\<lparr>next_addr := a\<rparr>) None None)
      (Some (counts ob t (BIT_FLIP b) (x - 1) 1 0 False NULL True)) (Some (self_link p b False)))"
  shows "wp (collector_run c) (gc p l c n i v (counts ob t b 1 x 1 False c True)
    (Some (self_link p (BIT_FLIP b) False)) (queues [p] [] [] []) 1 1) Q"
proof -
  have pos: "0 < x - 1" "one_link t l" using assms(7-9) by (auto simp: one_link_def)
  show ?thesis
    unfolding collector_run_def collector_phases_def
    by (rule wp_drain_collect wp_drain_recovery wp_drain_rebuild wp_drain_clean wp_drain [where x = Merged_list]
          wp_finish_done wp_rules
        | (simp add: assms pos; fail) | simp add: assms pos del: block.simps)+
qed


definition settled :: "addr \<Rightarrow> addr \<Rightarrow> obj \<Rightarrow> link \<Rightarrow> world \<Rightarrow> world \<Rightarrow> bool" where
  "settled p l ob lk v u \<longleftrightarrow> objs u = (objs v)(p \<mapsto> ob) \<and> lnks u = (lnks v)(l \<mapsto> lk) \<and> colls u = colls v \<and>
     ctrs u = ctrs v \<and> tsks u = tsks v \<and> work u = work v \<and> task_count u = task_count v \<and>
     dtor_calls u = dtor_calls v \<and> acid_world_count u = acid_world_count v \<and>
     acid_collect_count u = acid_collect_count v"

lemma wp_used:
  assumes "fuel v = Suc (Suc m)" and "is_bit b" and "p \<noteq> NULL" and "l \<noteq> NULL"
    and "ht_inv t" "ht_map t = [k \<mapsto> l]" and "0 < x" and "in_int x"
    and "work v = Some []" and fresh: "\<forall>a\<ge>next_addr v. colls v a = None \<and> ctrs v a = None \<and> tsks v a = None"
  shows "wp (block [acid_dissolve (p + sizeof_Object), worker_pass])
    (cells p l v (Some (counts ob t b 1 (x + 1) 0 False NULL True)) (Some (self_link p (BIT_FLIP b) False)))
    (\<lambda>_ u. settled p l (counts ob t (BIT_FLIP b) x 1 0 False NULL True) (self_link p b False) v u)"
proof -
  have pos: "x + 1 \<noteq> 0" using assms(7) by simp
  show ?thesis
    apply (rule wp_block)
    apply (rule wp_dissolve, simp, rule assms)
    apply (simp only: counts_fields)
    apply (rule wp_dec_first, rule assms, rule assms, rule assms, rule assms, rule pos)
    apply (simp del: block.simps)
    apply (rule wp_block)
    apply (rule wp_take_task, simp, simp, simp)
    apply (simp add: task_call_def del: block.simps)
    apply (rule wp_run_used)
    apply (simp_all add: assms(1-9) del: block.simps)
    apply (rule wp_task_end, simp, simp, simp del: block.simps)
    apply (rule wp_block)
    subgoal for c n d e
      using fresh by (simp add: settled_def assms fun_upd_idem)
    done
qed

section \<open>Properties\<close>

lemma wp_ready:
  assumes "wp m w (\<lambda>_. R)" and "ready w" and "\<And>u w'. fits u w' \<Longrightarrow> R u \<Longrightarrow> R w'"
  shows "\<exists>x w'. m w = Inr (x, w') \<and> ready w' \<and> same_locks w w' \<and> R w'"
  using runs_ready [OF assms(1) [unfolded wp_def] assms(2) fits_refl] assms(3) by blast

lemma fits_more:
  assumes "fits v w"
  shows "dtor_calls w = dtor_calls v" "acid_collect_count w = acid_collect_count v"
    "acid_world_count w = acid_world_count v"
  using assms unfolding fits_def by (metis erase_more(5), metis erase_more(6), metis erase_more(8))

lemma wp_mono: "wp m v Q \<Longrightarrow> (\<And>x u. Q x u \<Longrightarrow> Q' x u) \<Longrightarrow> wp m v Q'"
  unfolding wp_def by (erule runs_post) blast

lemma without_fits: "fits u w' \<Longrightarrow> without p l ob v u \<Longrightarrow> without p l ob v w'"
  by (simp add: without_def fits_fields fits_more)

lemma settled_fits: "fits u w' \<Longrightarrow> settled p l ob lk v u \<Longrightarrow> settled p l ob lk v w'"
  by (simp add: settled_def fits_fields fits_more)

text \<open>An object with one link, to itself, that no collection works on: \<open>x\<close> references of the kind \<open>b\<close> and \<open>y\<close> of the
  other.\<close>

definition looped :: "addr \<Rightarrow> addr \<Rightarrow> obj \<Rightarrow> bit_t \<Rightarrow> int \<Rightarrow> int \<Rightarrow> world \<Rightarrow> bool" where
  "looped p l ob b x y w \<longleftrightarrow> objs w p = Some ob \<and> p \<noteq> NULL \<and> \<not> o_phantomized ob \<and> o_collector ob = NULL \<and> o_complete ob \<and>
     o_which ob = b \<and> (b = 0 \<or> b = 1) \<and> o_count ob (unat b) = x \<and> o_count ob (unat (BIT_FLIP b)) = y \<and> o_count ob 2 = 0 \<and>
     (\<exists>t k. o_links ob = Some t \<and> ht_inv t \<and> ht_map t = [k \<mapsto> l]) \<and> l \<noteq> NULL \<and>
     lnks w l = Some \<lparr>lk_which = BIT_FLIP b, lk_phantomized = False, lk_target = p, lk_src = p\<rparr>"

text \<open>Nothing is queued, and the memory where the allocator will allocate is free.\<close>

definition at_rest :: "world \<Rightarrow> bool" where
  "at_rest w \<longleftrightarrow> work w = Some [] \<and> 3 \<le> fuel w \<and>
     (\<forall>a\<ge>next_addr w. objs w a = None \<and> lnks w a = None \<and> colls w a = None \<and> ctrs w a = None \<and> tsks w a = None)"

lemma at_restD:
  assumes "at_rest w"
  obtains m where "fuel w = Suc (Suc (Suc m))" "work w = Some []"
    "\<forall>a\<ge>next_addr w. colls w a = None \<and> ctrs w a = None \<and> tsks w a = None"
  using assms by (intro that [of "fuel w - 3"]) (auto simp: at_rest_def)

lemma loopedD:
  assumes "looped p l ob b x y w"
  obtains t k where "is_bit b" "p \<noteq> NULL" "l \<noteq> NULL" "ht_inv t" "ht_map t = [k \<mapsto> l]" "counts ob t b x y 0 False NULL True = ob"
    "cells p l w (Some ob) (Some (self_link p (BIT_FLIP b) False)) = w"
proof -
  from assms obtain t k where t: "o_links ob = Some t" "ht_inv t" "ht_map t = [k \<mapsto> l]" and
    ob: "objs w p = Some ob" "\<not> o_phantomized ob" "o_collector ob = NULL" "o_complete ob" "o_which ob = b"
      "o_count ob (unat b) = x" "o_count ob (unat (BIT_FLIP b)) = y" "o_count ob 2 = 0" and
    b: "is_bit b" and nn: "p \<noteq> NULL" "l \<noteq> NULL" and
    l: "lnks w l = Some \<lparr>lk_which = BIT_FLIP b, lk_phantomized = False, lk_target = p, lk_src = p\<rparr>"
    by (auto simp: looped_def is_bit_def)
  have "counts ob t b x y 0 False NULL True = ob"
    using ob t(1) by (cases ob) (simp add: counts_def fun_upd_idem)
  moreover have "cells p l w (Some ob) (Some (self_link p (BIT_FLIP b) False)) = w"
    using ob(1) l by (cases w) (simp add: cells_def self_link_def fun_upd_idem)
  ultimately show thesis using that b nn t(2,3) by blast
qed

lemma wp_lost_looped:
  assumes "at_rest w" and "looped p l ob b 1 1 w"
  shows "wp (block [acid_dissolve (p + sizeof_Object), worker_pass, worker_pass, worker_pass]) w (\<lambda>_. without p l ob w)"
proof -
  from assms(2) obtain t k where o: "is_bit b" "p \<noteq> NULL" "l \<noteq> NULL" "ht_inv t" "ht_map t = [k \<mapsto> l]"
    "counts ob t b 1 1 0 False NULL True = ob" "cells p l w (Some ob) (Some (self_link p (BIT_FLIP b) False)) = w"
    by (rule loopedD)
  have one: "one_link t l" using o(4,5) by (auto simp: one_link_def)
  from assms(1) obtain m where m: "fuel w = Suc (Suc (Suc m))" "work w = Some []"
    "\<forall>a\<ge>next_addr w. colls w a = None \<and> ctrs w a = None \<and> tsks w a = None" by (rule at_restD)
  show ?thesis using wp_lost [OF m(1) o(1-3) one m(2,3), of ob] by (simp only: o(6,7))
qed

text \<open>C1: An object that only refers to itself is collected. When the client drops the last reference from outside to an object that still refers to itself, and
  nothing is queued, then the call returns, three rounds of a worker run to their end, and the object and its link are gone, after the
  destructor was called; every other object and link is as before, and no collector, counter or task is left behind.\<close>

theorem lost_cycle_is_collected:
  assumes "ready w" and "at_rest w" and "looped p l ob b 1 1 w"
  shows "\<exists>w'. block [acid_dissolve (p + sizeof_Object), worker_pass, worker_pass, worker_pass] w = Inr ((), w') \<and>
    ready w' \<and> same_locks w w' \<and> without p l ob w w'"
  using wp_ready [OF wp_lost_looped [OF assms(2,3)] assms(1) without_fits] by simp

text \<open>C2: What is in use survives. When the client drops its reference to an object that refers to itself and to which \<open>x\<close> other
  references of the weak kind lead, one round of a worker runs to its end; the object stays, the \<open>x\<close> references count as strong now,
  its own link is rebuilt as a weak one, and the rest of the memory is as before, without a collector, counter or task left behind.\<close>

theorem used_cycle_survives:
  assumes "ready w" and "at_rest w" and "looped p l ob b 1 (x + 1) w" and "0 < x" and "x < 2 ^ 31"
  shows "\<exists>w'. block [acid_dissolve (p + sizeof_Object), worker_pass] w = Inr ((), w') \<and> ready w' \<and> same_locks w w' \<and>
    settled p l (ob\<lparr>o_which := BIT_FLIP b, o_count := (o_count ob)(unat (BIT_FLIP b) := x)\<rparr>)
      \<lparr>lk_which = b, lk_phantomized = False, lk_target = p, lk_src = p\<rparr> w w'"
    (is "\<exists>w'. _ \<and> _ \<and> _ \<and> settled p l ?ob ?lk w w'")
proof -
  from assms(3) obtain t k where o: "is_bit b" "p \<noteq> NULL" "l \<noteq> NULL" "ht_inv t" "ht_map t = [k \<mapsto> l]"
    "counts ob t b 1 (x + 1) 0 False NULL True = ob" "cells p l w (Some ob) (Some (self_link p (BIT_FLIP b) False)) = w"
    by (rule loopedD)
  have ob': "counts ob t (BIT_FLIP b) x 1 0 False NULL True = ?ob"
    using counts_settle [OF o(1), of ob t 1 "x + 1" 0 False NULL True x] by (simp only: o(6))
  from assms(2) obtain m where m: "fuel w = Suc (Suc (Suc m))" "work w = Some []"
    "\<forall>a\<ge>next_addr w. colls w a = None \<and> ctrs w a = None \<and> tsks w a = None" by (rule at_restD)
  have x: "in_int x" using assms(4,5) by (simp add: in_int_def)
  have "wp (block [acid_dissolve (p + sizeof_Object), worker_pass]) w (\<lambda>_. settled p l ?ob (self_link p b False) w)"
    using wp_used [OF m(1) o(1-5) assms(4) x m(2,3), of ob] by (simp only: o(6,7) ob')
  from wp_ready [OF this assms(1) settled_fits] show ?thesis by (simp add: self_link_def)
qed

section \<open>From its creation\<close>

lemma wp_count_up:
  assumes "objs v p = Some ob" and "unat i < 3" and "in_int (o_count ob (unat i) + d)"
    and "Q () (v\<lparr>objs := (objs v)(p \<mapsto> ob\<lparr>o_count := (o_count ob)(unat i := o_count ob (unat i) + d)\<rparr>)\<rparr>)"
  shows "wp (count_add p i d) v Q"
  unfolding count_add_def
  by (rule wp_bnd, rule wp_access(1) [OF assms(1)])
    (use assms in \<open>simp add: in_int_def Let_def wp_access(2)\<close>)

lemma wp_links_add:
  assumes "objs v p = Some ob" and "o_links ob = Some t" and "ht_inv t" and "ht_capacity t \<noteq> MAX_POW_TWO"
    and "Q () (v\<lparr>objs := (objs v)(p \<mapsto> ob\<lparr>o_links := Some (table_added t k lk)\<rparr>)\<rparr>)"
  shows "wp (links_add p k lk) v Q"
proof (rule wp_step [where x = "()"])
  fix w assume w: "fits v w" "mem w = []"
  let ?f = "set_obj p (\<lambda>ob. ob\<lparr>o_links := Some (table_added t k lk)\<rparr>)"
  have o: "objs w p = Some ob" using w(1) assms(1) by (simp add: fits_fields)
  show "links_add p k lk w = Inr ((), ?f w) \<and> lock_view (?f w) = lock_view w \<and>
      fits (v\<lparr>objs := (objs v)(p \<mapsto> ob\<lparr>o_links := Some (table_added t k lk)\<rparr>)\<rparr>) (?f w)"
    using links_add_ok [OF o assms(2-4) w(2)] fits_update(1) [OF w(1)] o
    by (simp add: set_obj_def fits_fields(1) [OF w(1)] lock_view_def)
qed (rule assms(5))

lemma wp_links_get_None:
  assumes "objs v p = Some ob" and "o_links ob = Some t" and "ht_inv t" and "ht_map t k = None" and "Q d v"
  shows "wp (links_get p k d) v Q"
proof (rule wp_read [where x = d])
  show "links_get p k d w = Inr (d, w)" if "fits v w" for w
    using links_get_ok [of w p ob t k d] assms(1-4) fits_fields(1) [OF that] by (simp add: or_else_def)
qed (rule assms(5))

lemma wp_object_init:
  assumes "h \<noteq> NULL" and "Q h (born h (new_object (id_count v) 0 NULL) v)"
  shows "wp (object_init h) v Q"
proof (rule wp_step [where x = h])
  fix w assume w: "fits v w" "mem w = []"
  have "id_count w = id_count v" using w(1) by (metis erase_simps(10) fits_def)
  then show "object_init h w = Inr (h, born h (new_object (id_count v) 0 NULL) w) \<and>
      lock_view (born h (new_object (id_count v) 0 NULL) w) = lock_view w \<and>
      fits (born h (new_object (id_count v) 0 NULL) v) (born h (new_object (id_count v) 0 NULL) w)"
    using object_init_ok [OF assms(1) w(2)] w(1) by (simp add: fits_def) (simp add: born_def)
qed (rule assms(2))

lemma born_put [simp]: "g = objs v \<Longrightarrow> (born h ob v)\<lparr>objs := g(h \<mapsto> x)\<rparr> = born h x v"
  by (cases v) (simp add: born_def)

lemma new_object_simps [simp]:
  "o_which (new_object i s d) = 0" "o_count (new_object i s d) 0 = s"
  "(new_object i s d)\<lparr>o_count := (o_count (new_object i s d))(0 := y)\<rparr> = new_object i y d"
  "(new_object i s d)\<lparr>o_data := e\<rparr> = new_object i s e"
  by (simp_all add: new_object_def)

lemma wp_acid_malloc:
  assumes "\<And>h. next_addr v \<le> h \<Longrightarrow> 0 < h \<Longrightarrow>
    Q (h + sizeof_Object) (born h (new_object (id_count v) 1 (h + sizeof_Object)) (v\<lparr>next_addr := h + 1\<rparr>))"
  shows "wp (acid_malloc n) v Q"
  unfolding acid_malloc_alt bnd_assoc object_inc_strong_def obj_which_def
  by (rule wp_object_init wp_count_up wp_rules wp_access | (simp add: assms; fail) | simp add: assms)+


lemma wp_is_managed:
  assumes "objs v (x - sizeof_Object) = Some ob" and "o_magic ob = OBJECT_MAGIC_NUMBER" and "x \<noteq> NULL" and "Q True v"
  shows "wp (acid_is_managed f x) v Q"
  by (rule wp_read [where x = True]) (use assms in \<open>auto simp: acid_is_managed_def fits_fields\<close>)

definition looped_object :: "obj \<Rightarrow> key \<Rightarrow> addr \<Rightarrow> obj" where
  "looped_object ob k l = ob\<lparr>o_links := Some (table_added fresh_table k l), o_count := (o_count ob)(1 := 1)\<rparr>"

lemma wp_set_self:
  assumes "objs v h = Some ob" and "0 < h" and o: "ob = new_object i 1 d"
    and "\<And>l. next_addr v \<le> l \<Longrightarrow> 0 < l \<Longrightarrow> Q (h + sizeof_Object) (v\<lparr>next_addr := l + 1,
      lnks := (lnks v)(l \<mapsto> self_link h 1 False), objs := (objs v)(h \<mapsto> looped_object ob k l)\<rparr>)"
  shows "wp (acid_set_field f (h + sizeof_Object) k (h + sizeof_Object)) v Q"
proof -
  have ob: "o_magic ob = OBJECT_MAGIC_NUMBER" "o_links ob = Some fresh_table" "o_which ob = 0" "o_count ob (Suc 0) = 0"
      "\<not> o_phantomized ob"
    by (simp_all add: o new_object_def)
  have h: "h + sizeof_Object \<noteq> NULL" "h \<noteq> NULL" using assms(2) by (simp_all add: sizeof_Object_def)
  show ?thesis
    unfolding acid_set_field_def acid_get_header_def object_set_def object_set_link_def link_create_def link_count_def
      obj_phantomized_def obj_which_def
    apply (rule wp_is_managed wp_links_get_None wp_links_add wp_count_up wp_rules wp_access wp_modify
        | (simp add: assms(1) ob h fresh_table_ok lock_view_def; fail) | simp add: assms(1) ob h fresh_table_ok)+
    subgoal for l
      using assms(4) [of l] by (cases v) (simp add: looped_object_def self_link_def)
    done
qed


lemma looped_made:
  fixes v h l k i
  defines "o1 \<equiv> new_object i 1 (h + sizeof_Object)"
  defines "u \<equiv> (born h o1 (v\<lparr>next_addr := h + 1\<rparr>))\<lparr>next_addr := l + 1, lnks := (lnks v)(l \<mapsto> self_link h 1 False),
      objs := (objs v)(h \<mapsto> looped_object o1 k l)\<rparr>"
  assumes "at_rest v" and "next_addr v \<le> h" and "0 < h" and "h + 1 \<le> l"
  shows "at_rest u" "looped h l (looped_object o1 k l) 0 1 1 u"
proof -
  note t = table_added_ok [OF fresh_table_ok(2,4), of k l]
  show "at_rest u"
    using assms(3-6) by (auto simp: at_rest_def u_def born_def)
  show "looped h l (looped_object o1 k l) 0 1 1 u"
    using assms(5,6) t(1,2) fresh_table_ok(3)
    by (auto simp: looped_def u_def o1_def looped_object_def new_object_def self_link_def)
qed

text \<open>C3: A client that allocates an object, stores it in a field of itself and drops it leaves no trace: all calls return, and
  after three rounds of a worker the memory is as it was, with one object created and one collected.\<close>

theorem loop_comes_and_goes:
  assumes "ready w" and "at_rest w"
  shows "\<exists>w'. bnd (acid_malloc n) (\<lambda>x. bnd (acid_set_field f x k x) (\<lambda>_.
      block [acid_dissolve x, worker_pass, worker_pass, worker_pass])) w = Inr ((), w') \<and> ready w' \<and> same_locks w w' \<and>
    objs w' = objs w \<and> lnks w' = lnks w \<and> colls w' = colls w \<and> ctrs w' = ctrs w \<and> tsks w' = tsks w \<and>
    work w' = Some [] \<and> acid_world_count w' = acid_world_count w + 1 \<and> acid_collect_count w' = acid_collect_count w + 1"
    (is "\<exists>w'. _ \<and> _ \<and> _ \<and> ?R w'")
proof -
  have "wp (bnd (acid_malloc n) (\<lambda>x. bnd (acid_set_field f x k x) (\<lambda>_.
      block [acid_dissolve x, worker_pass, worker_pass, worker_pass]))) w (\<lambda>_. ?R)"
  proof (rule wp_bnd, rule wp_acid_malloc, rule wp_bnd, rule wp_set_self, simp, assumption, rule refl)
    fix h l
    assume h: "next_addr w \<le> h" "0 < h"
    let ?o = "new_object (id_count w) 1 (h + sizeof_Object)"
    let ?v = "born h ?o (w\<lparr>next_addr := h + 1\<rparr>)"
    let ?u = "?v\<lparr>next_addr := l + 1, lnks := (lnks w)(l \<mapsto> self_link h 1 False), objs := (objs w)(h \<mapsto> looped_object ?o k l)\<rparr>"
    assume l: "next_addr ?v \<le> l" "0 < l"
    have l': "h + 1 \<le> l" using l(1) by (simp add: born_def)
    note made = looped_made [OF assms(2) h l', of "id_count w" k]
    have free: "objs w h = None" "lnks w l = None" "work w = Some []"
      using assms(2) h l' by (auto simp: at_rest_def)
    have "wp (block [acid_dissolve (h + sizeof_Object), worker_pass, worker_pass, worker_pass]) ?u (\<lambda>_. ?R)"
    proof (rule wp_mono [OF wp_lost_looped [OF made]])
      show "?R u" if "without h l (looped_object ?o k l) ?u u" for u
        using that free by (simp add: without_def born_def fun_upd_idem)
    qed
    then show "wp (block [acid_dissolve (h + sizeof_Object), worker_pass, worker_pass, worker_pass])
      (?v\<lparr>next_addr := l + 1, lnks := (lnks ?v)(l \<mapsto> self_link h 1 False),
        objs := (objs ?v)(h \<mapsto> looped_object ?o k l)\<rparr>) (\<lambda>_. ?R)"
      by (simp del: block.simps)
  qed
  from wp_ready [OF this assms(1)] show ?thesis
    by (simp add: fits_fields fits_more del: block.simps)
qed


section \<open>Examples\<close>

text \<open>An object at 200 with a link at 300 to itself and \<open>y\<close> weak references.\<close>

definition lone_loop :: "int \<Rightarrow> world" where
  "lone_loop y = (ready_world 9)\<lparr>work := Some [],
     objs := [200 \<mapsto> (new_object 5 1 312)\<lparr>o_links := Some (table_added fresh_table 16 300),
       o_count := (\<lambda>_. 0)(0 := 1, 1 := y)\<rparr>],
     lnks := [300 \<mapsto> \<lparr>lk_which = 1, lk_phantomized = False, lk_target = 200, lk_src = 200\<rparr>]\<rparr>"

lemma lone_loop_ok:
  "ready (lone_loop y)" "at_rest (lone_loop y)" "looped 200 300 (the (objs (lone_loop y) 200)) 0 1 y (lone_loop y)"
proof -
  show "ready (lone_loop y)" using ready_world_ready [of 9] by (simp add: lone_loop_def)
  show "at_rest (lone_loop y)" by (simp add: at_rest_def lone_loop_def ready_world_def boot_def)
  show "looped 200 300 (the (objs (lone_loop y) 200)) 0 1 y (lone_loop y)"
    using table_added_ok [OF fresh_table_ok(2,4), of 16 300] fresh_table_ok(3)
    by (auto simp: looped_def lone_loop_def new_object_def)
qed

theorem lost_cycle_is_collected_witness:
  "\<exists>w'. block [acid_dissolve 312, worker_pass, worker_pass, worker_pass] (lone_loop 1) = Inr ((), w') \<and>
     objs w' 200 = None \<and> lnks w' 300 = None"
  using lost_cycle_is_collected [OF lone_loop_ok] by (auto simp: without_def sizeof_Object_def simp del: block.simps)

theorem used_cycle_survives_witness:
  "\<exists>w'. block [acid_dissolve 312, worker_pass] (lone_loop 2) = Inr ((), w') \<and> objs w' 200 \<noteq> None \<and>
     o_count (the (objs w' 200)) 1 = 1 \<and> tsks w' = tsks (lone_loop 2)"
proof -
  have "looped 200 300 (the (objs (lone_loop 2) 200)) 0 1 (1 + 1) (lone_loop 2)" using lone_loop_ok(3) [of 2] by simp
  from used_cycle_survives [OF lone_loop_ok(1,2) this] show ?thesis
    by (auto simp: settled_def sizeof_Object_def simp del: block.simps)
qed

theorem loop_comes_and_goes_witness:
  "\<exists>w'. bnd (acid_malloc 8) (\<lambda>x. bnd (acid_set_field (\<lambda>_. None) x 16 x) (\<lambda>_.
     block [acid_dissolve x, worker_pass, worker_pass, worker_pass])) (lone_loop 1) = Inr ((), w') \<and> objs w' = objs (lone_loop 1)"
  using loop_comes_and_goes [OF lone_loop_ok(1,2), of 8 "\<lambda>_. None" 16 1] by blast

end
