(* ===== verification/Clist.thy ===== *)
theory Clist
  imports World
begin

text \<open>
  The doubly linked list of Collections-C (lib/collectc/list.c), on a heap of nodes and list structs. The
  collector uses it for the queues of objects and tasks and for the stack of lock entries, where
  the other theories keep a \<open>List\<close> as the sequence of its elements; the lemmas of this theory say what each operation
  does to the nodes, and \<open>Clist_Spec\<close> concludes that the operations are those on sequences (\<open>stands_for\<close>).

  A size and an index are natural numbers: a list would need $2^{64}$ nodes for a \<open>size_t\<close> to wrap upwards, and where
  the code counts down from zero the wrap-around is written out. The struct's allocator functions are always
  \<open>calloc\<close> and \<open>free\<close>. An out parameter that is only written on success is an \<open>option\<close>.
\<close>

section \<open>Nodes and lists\<close>

record node =
  n_data :: addr
  n_next :: addr
  n_prev :: addr

record clist =
  l_size :: nat
  l_head :: addr
  l_tail :: addr

record lmem =
  nodes :: "addr \<Rightarrow> node option"
  lists :: "addr \<Rightarrow> clist option"
  l_fresh :: addr
  l_sched :: mem_schedule
  l_fuel :: nat

type_synonym 'a L = "(lmem, 'a) M"

definition sizeof_node :: int where "sizeof_node = 24"
definition sizeof_list :: int where "sizeof_list = 48"

definition deref :: "addr \<Rightarrow> node L" where
  "deref p w = (case nodes w p of None \<Rightarrow> Inl Bad_pointer | Some n \<Rightarrow> Inr (n, w))"

definition upd_node :: "addr \<Rightarrow> (node \<Rightarrow> node) \<Rightarrow> unit L" where
  "upd_node p f w =
     (case nodes w p of
        None \<Rightarrow> Inl Bad_pointer
      | Some n \<Rightarrow> Inr ((), w\<lparr>nodes := (nodes w)(p \<mapsto> f n)\<rparr>))"

definition set_next :: "addr \<Rightarrow> addr \<Rightarrow> unit L" where
  "set_next p v = upd_node p (\<lambda>n. n\<lparr>n_next := v\<rparr>)"

definition set_prev :: "addr \<Rightarrow> addr \<Rightarrow> unit L" where
  "set_prev p v = upd_node p (\<lambda>n. n\<lparr>n_prev := v\<rparr>)"

definition set_data :: "addr \<Rightarrow> addr \<Rightarrow> unit L" where
  "set_data p v = upd_node p (\<lambda>n. n\<lparr>n_data := v\<rparr>)"

definition get_list :: "addr \<Rightarrow> clist L" where
  "get_list l w = (case lists w l of None \<Rightarrow> Inl Bad_pointer | Some c \<Rightarrow> Inr (c, w))"

definition upd_list :: "addr \<Rightarrow> (clist \<Rightarrow> clist) \<Rightarrow> unit L" where
  "upd_list l f w =
     (case lists w l of
        None \<Rightarrow> Inl Bad_pointer
      | Some c \<Rightarrow> Inr ((), w\<lparr>lists := (lists w)(l \<mapsto> f c)\<rparr>))"

text \<open>\<open>calloc\<close> gives a zeroed block or NULL; \<open>free\<close> of NULL does nothing.\<close>

definition l_draw :: "bool L" where
  "l_draw = zoom l_sched (\<lambda>m w. w\<lparr>l_sched := m\<rparr>) draw_block"

definition calloc_node :: "addr L" where
  "calloc_node =
     bnd l_draw (\<lambda>ok.
     if \<not> ok then ret NULL else
     bnd (gets l_fresh) (\<lambda>p.
     bnd (modify (\<lambda>w. w\<lparr>nodes := (nodes w)(p \<mapsto> \<lparr>n_data = NULL, n_next = NULL, n_prev = NULL\<rparr>),
       l_fresh := p + sizeof_node\<rparr>)) (\<lambda>_.
     ret p)))"

definition calloc_list :: "addr L" where
  "calloc_list =
     bnd l_draw (\<lambda>ok.
     if \<not> ok then ret NULL else
     bnd (gets l_fresh) (\<lambda>p.
     bnd (modify (\<lambda>w. w\<lparr>lists := (lists w)(p \<mapsto> \<lparr>l_size = 0, l_head = NULL, l_tail = NULL\<rparr>),
       l_fresh := p + sizeof_list\<rparr>)) (\<lambda>_.
     ret p)))"

definition free_node :: "addr \<Rightarrow> unit L" where
  "free_node p =
     (if p = NULL then ret ()
      else bnd (deref p) (\<lambda>_. modify (\<lambda>w. w\<lparr>nodes := (nodes w)(p := None)\<rparr>)))"

definition free_list :: "addr \<Rightarrow> unit L" where
  "free_list l =
     (if l = NULL then ret ()
      else bnd (get_list l) (\<lambda>_. modify (\<lambda>w. w\<lparr>lists := (lists w)(l := None)\<rparr>)))"

text \<open>\<open>while (node) { next = node->next; ...; node = next; }\<close>, left with \<open>Inr\<close> and a result, or at the end
  with \<open>Inl\<close> and the last value of the local variable.\<close>

definition while_node :: "(addr \<Rightarrow> node \<Rightarrow> 'x \<Rightarrow> ('x + 'r) L) \<Rightarrow> addr \<Rightarrow> 'x \<Rightarrow> ('x + 'r) L" where
  "while_node body p x0 =
     bnd (gets l_fuel) (\<lambda>n.
     loopM n (\<lambda>(p, x).
       if p = NULL then ret (Inr (Inl x)) else
       bnd (deref p) (\<lambda>nd.
       bnd (body p nd x) (\<lambda>r.
       case r of Inl y \<Rightarrow> ret (Inl (n_next nd, y)) | Inr z \<Rightarrow> ret (Inr (Inr z))))) (p, x0))"

text \<open>\<open>while (node) { ... node->data ...; node = node->next; }\<close>, where the next node is read after the body.\<close>

definition each_node :: "(addr \<Rightarrow> 'x \<Rightarrow> ('x + 'r) L) \<Rightarrow> addr \<Rightarrow> 'x \<Rightarrow> ('x + 'r) L" where
  "each_node body p x0 =
     bnd (gets l_fuel) (\<lambda>n.
     loopM n (\<lambda>(p, x).
       if p = NULL then ret (Inr (Inl x)) else
       bnd (deref p) (\<lambda>nd.
       bnd (body (n_data nd) x) (\<lambda>r.
       case r of
         Inl y \<Rightarrow> bnd (deref p) (\<lambda>nd'. ret (Inl (n_next nd', y)))
       | Inr z \<Rightarrow> ret (Inr (Inr z))))) (p, x0))"

text \<open>\<open>for (i = 0; i < n; i++) node = node->next;\<close> and the same along \<open>prev\<close>.\<close>

primrec go_next :: "nat \<Rightarrow> addr \<Rightarrow> addr L" where
  "go_next 0 p = ret p"
| "go_next (Suc n) p = bnd (deref p) (\<lambda>nd. go_next n (n_next nd))"

primrec go_prev :: "nat \<Rightarrow> addr \<Rightarrow> addr L" where
  "go_prev 0 p = ret p"
| "go_prev (Suc n) p = bnd (deref p) (\<lambda>nd. go_prev n (n_prev nd))"

section \<open>Linking\<close>

definition link_behind :: "addr \<Rightarrow> addr \<Rightarrow> unit L" where
  "link_behind base ins = block [
     bnd (deref ins) (\<lambda>i. whenM (n_next i \<noteq> NULL) (set_prev (n_next i) (n_prev i))),
     bnd (deref ins) (\<lambda>i. whenM (n_prev i \<noteq> NULL) (set_next (n_prev i) (n_next i))),
     bnd (deref base) (\<lambda>b.
       if n_prev b = NULL then block [
         set_prev ins NULL,
         set_next ins base,
         set_prev base ins]
       else block [
         set_prev ins (n_prev b),
         bnd (deref ins) (\<lambda>i. set_next (n_prev i) ins),
         set_next ins base,
         set_prev base ins])]"

definition link_after :: "addr \<Rightarrow> addr \<Rightarrow> unit L" where
  "link_after base ins = block [
     bnd (deref ins) (\<lambda>i. whenM (n_next i \<noteq> NULL) (set_prev (n_next i) (n_prev i))),
     bnd (deref ins) (\<lambda>i. whenM (n_prev i \<noteq> NULL) (set_next (n_prev i) (n_next i))),
     bnd (deref base) (\<lambda>b.
       if n_next b = NULL then block [
         set_prev ins base,
         set_next base ins,
         set_next ins NULL]
       else block [
         set_next ins (n_next b),
         bnd (deref ins) (\<lambda>i. set_prev (n_next i) ins),
         set_prev ins base,
         set_next base ins])]"

definition dec_size :: "clist \<Rightarrow> clist" where
  "dec_size c = c\<lparr>l_size := (if l_size c = 0 then 2 ^ 64 - 1 else l_size c - 1)\<rparr>"

definition unlink :: "addr \<Rightarrow> addr \<Rightarrow> addr L" where
  "unlink l p =
     bnd (deref p) (\<lambda>nd.
     bnd (block [
       bnd (deref p) (\<lambda>n. whenM (n_prev n \<noteq> NULL) (set_next (n_prev n) (n_next n))),
       bnd (deref p) (\<lambda>n. whenM (n_prev n = NULL) (upd_list l (\<lambda>c. c\<lparr>l_head := n_next n\<rparr>))),
       bnd (deref p) (\<lambda>n. whenM (n_next n = NULL) (upd_list l (\<lambda>c. c\<lparr>l_tail := n_prev n\<rparr>))),
       bnd (deref p) (\<lambda>n. whenM (n_next n \<noteq> NULL) (set_prev (n_next n) (n_prev n))),
       free_node p,
       upd_list l dec_size]) (\<lambda>_.
     ret (n_data nd)))"

definition unlink_all :: "addr \<Rightarrow> (addr \<Rightarrow> unit L) \<Rightarrow> bool L" where
  "unlink_all l cb =
     bnd (get_list l) (\<lambda>c.
     if l_size c = 0 then ret False else
     bnd (while_node (\<lambda>p nd (_ :: unit).
       bnd (cb (n_data nd)) (\<lambda>_. bnd (unlink l p) (\<lambda>_. ret (Inl () :: unit + unit)))) (l_head c) ()) (\<lambda>_.
     ret True))"

definition get_node_at :: "addr \<Rightarrow> nat \<Rightarrow> (cc_stat \<times> addr) L" where
  "get_node_at l index =
     (if l = NULL then ret (CC_ERR_OUT_OF_RANGE, NULL) else
      bnd (get_list l) (\<lambda>c.
      if l_size c \<le> index then ret (CC_ERR_OUT_OF_RANGE, NULL) else
      bnd (if index < l_size c div 2 then go_next index (l_head c)
           else go_prev (l_size c - 1 - index) (l_tail c)) (\<lambda>p.
      ret (CC_OK, p))))"

definition get_node :: "addr \<Rightarrow> addr \<Rightarrow> addr L" where
  "get_node l element =
     bnd (get_list l) (\<lambda>c.
     bnd (while_node (\<lambda>p nd (_ :: unit). ret (if n_data nd = element then Inr p else Inl ())) (l_head c) ()) (\<lambda>r.
     ret (case r of Inl _ \<Rightarrow> NULL | Inr p \<Rightarrow> p)))"

section \<open>The operations\<close>

definition list_new_conf :: "(cc_stat \<times> addr option) L" where
  "list_new_conf =
     bnd calloc_list (\<lambda>l. ret (if l = NULL then (CC_ERR_ALLOC, None) else (CC_OK, Some l)))"

definition list_new :: "(cc_stat \<times> addr option) L" where
  "list_new = list_new_conf"

definition list_add_first :: "addr \<Rightarrow> addr \<Rightarrow> cc_stat L" where
  "list_add_first l element =
     bnd calloc_node (\<lambda>p.
     if p = NULL then ret CC_ERR_ALLOC else
     bnd (set_data p element) (\<lambda>_.
     bnd (get_list l) (\<lambda>c.
     bnd (if l_size c = 0 then block [
            upd_list l (\<lambda>c. c\<lparr>l_head := p\<rparr>),
            upd_list l (\<lambda>c. c\<lparr>l_tail := p\<rparr>)]
          else block [
            set_next p (l_head c),
            set_prev (l_head c) p,
            upd_list l (\<lambda>c. c\<lparr>l_head := p\<rparr>)]) (\<lambda>_.
     bnd (upd_list l (\<lambda>c. c\<lparr>l_size := l_size c + 1\<rparr>)) (\<lambda>_.
     ret CC_OK)))))"

definition list_add_last :: "addr \<Rightarrow> addr \<Rightarrow> cc_stat L" where
  "list_add_last l element =
     bnd calloc_node (\<lambda>p.
     if p = NULL then ret CC_ERR_ALLOC else
     bnd (set_data p element) (\<lambda>_.
     bnd (get_list l) (\<lambda>c.
     bnd (if l_size c = 0 then block [
            upd_list l (\<lambda>c. c\<lparr>l_head := p\<rparr>),
            upd_list l (\<lambda>c. c\<lparr>l_tail := p\<rparr>)]
          else block [
            set_prev p (l_tail c),
            set_next (l_tail c) p,
            upd_list l (\<lambda>c. c\<lparr>l_tail := p\<rparr>)]) (\<lambda>_.
     bnd (upd_list l (\<lambda>c. c\<lparr>l_size := l_size c + 1\<rparr>)) (\<lambda>_.
     ret CC_OK)))))"

definition list_add :: "addr \<Rightarrow> addr \<Rightarrow> cc_stat L" where
  "list_add l element = list_add_last l element"

definition list_add_at :: "addr \<Rightarrow> addr \<Rightarrow> nat \<Rightarrow> cc_stat L" where
  "list_add_at l element index =
     bnd (get_node_at l index) (\<lambda>(stat, base).
     if stat \<noteq> CC_OK then ret stat else
     bnd calloc_node (\<lambda>p.
     if p = NULL then ret CC_ERR_ALLOC else
     bnd (block [
       set_data p element,
       link_behind base p,
       whenM (index = 0) (upd_list l (\<lambda>c. c\<lparr>l_head := p\<rparr>)),
       upd_list l (\<lambda>c. c\<lparr>l_size := l_size c + 1\<rparr>)]) (\<lambda>_.
     ret CC_OK)))"

definition list_remove :: "addr \<Rightarrow> addr \<Rightarrow> (cc_stat \<times> addr option) L" where
  "list_remove l element =
     bnd (get_node l element) (\<lambda>p.
     if p = NULL then ret (CC_ERR_VALUE_NOT_FOUND, None) else
     bnd (deref p) (\<lambda>nd.
     bnd (unlink l p) (\<lambda>_.
     ret (CC_OK, Some (n_data nd)))))"

definition list_remove_at :: "addr \<Rightarrow> nat \<Rightarrow> (cc_stat \<times> addr option) L" where
  "list_remove_at l index =
     bnd (get_node_at l index) (\<lambda>(stat, p).
     if stat \<noteq> CC_OK then ret (stat, None) else
     bnd (deref p) (\<lambda>nd.
     bnd (unlink l p) (\<lambda>_.
     ret (CC_OK, Some (n_data nd)))))"

definition list_remove_first :: "addr \<Rightarrow> (cc_stat \<times> addr option) L" where
  "list_remove_first l =
     bnd (get_list l) (\<lambda>c.
     if l_size c = 0 then ret (CC_ERR_VALUE_NOT_FOUND, None)
     else bnd (unlink l (l_head c)) (\<lambda>e. ret (CC_OK, Some e)))"

definition list_remove_last :: "addr \<Rightarrow> (cc_stat \<times> addr option) L" where
  "list_remove_last l =
     bnd (get_list l) (\<lambda>c.
     if l_size c = 0 then ret (CC_ERR_VALUE_NOT_FOUND, None)
     else bnd (unlink l (l_tail c)) (\<lambda>e. ret (CC_OK, Some e)))"

definition list_remove_all_cb :: "addr \<Rightarrow> (addr \<Rightarrow> unit L) \<Rightarrow> cc_stat L" where
  "list_remove_all_cb l cb =
     bnd (unlink_all l cb) (\<lambda>unlinked.
     if unlinked then
       bnd (block [upd_list l (\<lambda>c. c\<lparr>l_head := NULL\<rparr>), upd_list l (\<lambda>c. c\<lparr>l_tail := NULL\<rparr>)]) (\<lambda>_. ret CC_OK)
     else ret CC_ERR_VALUE_NOT_FOUND)"

definition list_remove_all :: "addr \<Rightarrow> cc_stat L" where
  "list_remove_all l = list_remove_all_cb l (\<lambda>_. ret ())"

definition list_destroy :: "addr \<Rightarrow> unit L" where
  "list_destroy l =
     bnd (get_list l) (\<lambda>c.
     bnd (if l_size c > 0 then bnd (list_remove_all l) (\<lambda>_. ret ()) else ret ()) (\<lambda>_.
     free_list l))"

definition list_destroy_cb :: "addr \<Rightarrow> (addr \<Rightarrow> unit L) \<Rightarrow> unit L" where
  "list_destroy_cb l cb = bnd (list_remove_all_cb l cb) (\<lambda>_. free_list l)"

definition list_replace_at :: "addr \<Rightarrow> addr \<Rightarrow> nat \<Rightarrow> (cc_stat \<times> addr option) L" where
  "list_replace_at l element index =
     bnd (get_node_at l index) (\<lambda>(stat, p).
     if stat \<noteq> CC_OK then ret (stat, None) else
     bnd (deref p) (\<lambda>nd.
     bnd (set_data p element) (\<lambda>_.
     ret (CC_OK, Some (n_data nd)))))"

definition list_get_first :: "addr \<Rightarrow> (cc_stat \<times> addr option) L" where
  "list_get_first l =
     bnd (get_list l) (\<lambda>c.
     if l_size c = 0 then ret (CC_ERR_VALUE_NOT_FOUND, None)
     else bnd (deref (l_head c)) (\<lambda>nd. ret (CC_OK, Some (n_data nd))))"

definition list_get_last :: "addr \<Rightarrow> (cc_stat \<times> addr option) L" where
  "list_get_last l =
     bnd (get_list l) (\<lambda>c.
     if l_size c = 0 then ret (CC_ERR_VALUE_NOT_FOUND, None)
     else bnd (deref (l_tail c)) (\<lambda>nd. ret (CC_OK, Some (n_data nd))))"

definition list_get_at :: "addr \<Rightarrow> nat \<Rightarrow> (cc_stat \<times> addr option) L" where
  "list_get_at l index =
     bnd (get_node_at l index) (\<lambda>(stat, p).
     if stat \<noteq> CC_OK then ret (stat, None)
     else bnd (deref p) (\<lambda>nd. ret (CC_OK, Some (n_data nd))))"

definition list_size :: "addr \<Rightarrow> nat L" where
  "list_size l = bnd (get_list l) (\<lambda>c. ret (l_size c))"

definition list_contains_value :: "addr \<Rightarrow> addr \<Rightarrow> (addr \<Rightarrow> addr \<Rightarrow> int) \<Rightarrow> nat L" where
  "list_contains_value l element cmp =
     bnd (get_list l) (\<lambda>c.
     bnd (while_node (\<lambda>p nd n. ret (Inl (if cmp (n_data nd) element = 0 then n + 1 else n) :: nat + unit))
       (l_head c) 0) (\<lambda>r.
     ret (case r of Inl n \<Rightarrow> n | Inr _ \<Rightarrow> 0)))"

definition cmp_addr :: "addr \<Rightarrow> addr \<Rightarrow> int" where
  "cmp_addr a b = (if a < b then -1 else if a > b then 1 else 0)"

definition list_contains :: "addr \<Rightarrow> addr \<Rightarrow> nat L" where
  "list_contains l element = list_contains_value l element cmp_addr"

definition list_index_of :: "addr \<Rightarrow> addr \<Rightarrow> (addr \<Rightarrow> addr \<Rightarrow> int) \<Rightarrow> (cc_stat \<times> nat option) L" where
  "list_index_of l element cmp =
     bnd (get_list l) (\<lambda>c.
     bnd (while_node (\<lambda>p nd i. ret (if cmp (n_data nd) element = 0 then Inr i else Inl (i + 1)))
       (l_head c) 0) (\<lambda>r.
     ret (case r of Inl _ \<Rightarrow> (CC_ERR_OUT_OF_RANGE, None) | Inr i \<Rightarrow> (CC_OK, Some i))))"

definition list_foreach :: "addr \<Rightarrow> (addr \<Rightarrow> unit L) \<Rightarrow> unit L" where
  "list_foreach l op =
     bnd (get_list l) (\<lambda>c.
     bnd (each_node (\<lambda>d (_ :: unit). bnd (op d) (\<lambda>_. ret (Inl () :: unit + unit))) (l_head c) ()) (\<lambda>_.
     ret ()))"

text \<open>The block of \<open>list_size\<close> pointers that \<open>list_to_array\<close> allocates is the list of its entries.\<close>

primrec read_n :: "nat \<Rightarrow> addr \<Rightarrow> addr list L" where
  "read_n 0 p = ret []"
| "read_n (Suc n) p = bnd (deref p) (\<lambda>nd. bnd (read_n n (n_next nd)) (\<lambda>xs. ret (n_data nd # xs)))"

definition list_to_array :: "addr \<Rightarrow> (cc_stat \<times> addr list option) L" where
  "list_to_array l =
     bnd (get_list l) (\<lambda>c.
     if l_size c = 0 then ret (CC_ERR_INVALID_RANGE, None) else
     bnd l_draw (\<lambda>ok.
     if \<not> ok then ret (CC_ERR_ALLOC, None) else
     bnd (read_n (l_size c) (l_head c)) (\<lambda>xs.
     ret (CC_OK, Some xs))))"

section \<open>What a list stands for\<close>

text \<open>A segment of linked nodes, each given by its address and its element, after \<open>pv\<close> and before \<open>nx\<close>.\<close>

definition first_of :: "(addr \<times> addr) list \<Rightarrow> addr \<Rightarrow> addr" where
  "first_of qs nx = (case qs of [] \<Rightarrow> nx | q # _ \<Rightarrow> fst q)"

definition final_of :: "addr \<Rightarrow> (addr \<times> addr) list \<Rightarrow> addr" where
  "final_of pv qs = (if qs = [] then pv else fst (last qs))"

fun seg :: "(addr \<Rightarrow> node option) \<Rightarrow> addr \<Rightarrow> (addr \<times> addr) list \<Rightarrow> addr \<Rightarrow> bool" where
  "seg ns pv [] nx \<longleftrightarrow> True"
| "seg ns pv (q # qs) nx \<longleftrightarrow>
     fst q \<noteq> NULL \<and> ns (fst q) = Some \<lparr>n_data = snd q, n_next = first_of qs nx, n_prev = pv\<rparr> \<and> seg ns (fst q) qs nx"

definition is_list :: "lmem \<Rightarrow> addr \<Rightarrow> (addr \<times> addr) list \<Rightarrow> bool" where
  "is_list w l qs \<longleftrightarrow>
     l \<noteq> NULL \<and> lists w l = Some \<lparr>l_size = length qs, l_head = first_of qs NULL, l_tail = final_of NULL qs\<rparr> \<and>
     seg (nodes w) NULL qs NULL \<and> distinct (map fst qs) \<and> 0 < l_fresh w \<and> (\<forall>p\<ge>l_fresh w. nodes w p = None \<and> lists w p = None)"

definition stands_for :: "lmem \<Rightarrow> addr \<Rightarrow> addr list \<Rightarrow> bool" where
  "stands_for w l xs \<longleftrightarrow> (\<exists>qs. is_list w l qs \<and> map snd qs = xs)"

lemma first_of_simps [simp]: "first_of [] nx = nx" "first_of (q # qs) nx = fst q"
  by (simp_all add: first_of_def)

lemma final_of_simps [simp]:
  "final_of pv [] = pv" "final_of pv (q # qs) = final_of (fst q) qs" "final_of pv (xs @ [q]) = fst q"
  by (auto simp: final_of_def)

lemma first_of_append: "first_of (xs @ ys) nx = first_of xs (first_of ys nx)"
  by (cases xs) auto

lemma final_of_append: "final_of pv (xs @ ys) = final_of (final_of pv xs) ys"
  by (auto simp: final_of_def)

lemma seg_append: "seg ns pv (xs @ ys) nx \<longleftrightarrow> seg ns pv xs (first_of ys nx) \<and> seg ns (final_of pv xs) ys nx"
  by (induction xs arbitrary: pv) (auto simp: first_of_append)

lemma seg_upd [simp]: "p \<notin> fst ` set qs \<Longrightarrow> seg (ns(p := v)) pv qs nx = seg ns pv qs nx"
  by (induction qs arbitrary: pv) auto

lemma seg_nodes: "seg ns pv qs nx \<Longrightarrow> q \<in> set qs \<Longrightarrow> fst q \<noteq> NULL \<and> (\<exists>n. ns (fst q) = Some n \<and> n_data n = snd q)"
  by (induction qs arbitrary: pv) auto

lemma first_of_NULL: "seg ns pv qs nx \<Longrightarrow> first_of qs NULL = NULL \<longleftrightarrow> qs = []"
  by (cases qs) auto

lemma final_of_NULL: "seg ns pv qs nx \<Longrightarrow> final_of NULL qs = NULL \<longleftrightarrow> qs = []"
  by (cases qs rule: rev_cases) (auto simp: seg_append)

lemma first_of_in: "qs \<noteq> [] \<Longrightarrow> first_of qs nx \<in> fst ` set qs"
  by (cases qs) auto

lemma final_of_in: "qs \<noteq> [] \<Longrightarrow> final_of pv qs \<in> fst ` set qs"
  by (auto simp: final_of_def)

text \<open>Redirecting the pointers at the two ends of a segment.\<close>

definition put_next :: "addr \<Rightarrow> addr \<Rightarrow> (addr \<Rightarrow> node option) \<Rightarrow> addr \<Rightarrow> node option" where
  "put_next p v ns = (if p = NULL then ns else ns(p := map_option (\<lambda>n. n\<lparr>n_next := v\<rparr>) (ns p)))"

definition put_prev :: "addr \<Rightarrow> addr \<Rightarrow> (addr \<Rightarrow> node option) \<Rightarrow> addr \<Rightarrow> node option" where
  "put_prev p v ns = (if p = NULL then ns else ns(p := map_option (\<lambda>n. n\<lparr>n_prev := v\<rparr>) (ns p)))"

lemma put_other [simp]: "p \<noteq> q \<Longrightarrow> put_next p v ns q = ns q" "p \<noteq> q \<Longrightarrow> put_prev p v ns q = ns q"
  by (simp_all add: put_next_def put_prev_def)

lemma put_NULL [simp]: "put_next NULL v ns = ns" "put_prev NULL v ns = ns"
  by (simp_all add: put_next_def put_prev_def)

lemma put_same [simp]:
  "p \<noteq> NULL \<Longrightarrow> put_next p v ns p = map_option (\<lambda>n. n\<lparr>n_next := v\<rparr>) (ns p)"
  "p \<noteq> NULL \<Longrightarrow> put_prev p v ns p = map_option (\<lambda>n. n\<lparr>n_prev := v\<rparr>) (ns p)"
  by (simp_all add: put_next_def put_prev_def)

lemma put_None [simp]: "put_next p v ns q = None \<longleftrightarrow> ns q = None" "put_prev p v ns q = None \<longleftrightarrow> ns q = None"
  by (auto simp: put_next_def put_prev_def)

lemma seg_put_other [simp]:
  "p \<notin> fst ` set qs \<Longrightarrow> seg (put_next p v ns) pv qs nx = seg ns pv qs nx"
  "p \<notin> fst ` set qs \<Longrightarrow> seg (put_prev p v ns) pv qs nx = seg ns pv qs nx"
  by (simp_all add: put_next_def put_prev_def)

lemma seg_put_next:
  assumes "seg ns pv qs nx" and "distinct (map fst qs)"
  shows "seg (put_next (final_of NULL qs) v ns) pv qs v"
proof (cases qs rule: rev_cases)
  case (snoc rs q)
  then show ?thesis using assms by (simp add: seg_append)
qed simp

lemma seg_put_prev:
  assumes "seg ns pv qs nx" and "distinct (map fst qs)"
  shows "seg (put_prev (first_of qs NULL) v ns) v qs nx"
  using assms by (cases qs) simp_all

lemma put_commute: "put_next a u (put_prev b v ns) = put_prev b v (put_next a u ns)"
  by (cases "a = b"; cases "ns b") (auto simp: put_next_def put_prev_def fun_upd_twist option.map_comp comp_def)

text \<open>The last node of one segment and the first of the next.\<close>

lemma seg_ends:
  assumes "seg ns pv xs n1" and "seg ns p ys nx" and "fst ` set xs \<inter> fst ` set ys = {}"
  shows "final_of NULL xs = NULL \<longleftrightarrow> xs = []" "first_of ys NULL = NULL \<longleftrightarrow> ys = []"
    "final_of NULL xs \<notin> fst ` set ys" "first_of ys NULL \<notin> fst ` set xs"
    "final_of NULL xs \<noteq> NULL \<Longrightarrow> ns (final_of NULL xs) \<noteq> None" "first_of ys NULL \<noteq> NULL \<Longrightarrow> ns (first_of ys NULL) \<noteq> None"
    "q \<notin> fst ` set xs \<Longrightarrow> q \<noteq> NULL \<Longrightarrow> final_of NULL xs \<noteq> q" "q \<notin> fst ` set ys \<Longrightarrow> q \<noteq> NULL \<Longrightarrow> first_of ys NULL \<noteq> q"
proof -
  have x: "xs = [] \<or> final_of NULL xs \<in> fst ` set xs" and y: "ys = [] \<or> first_of ys NULL \<in> fst ` set ys"
    using final_of_in first_of_in by blast+
  have nx: "\<forall>p\<in>fst ` set xs. p \<noteq> NULL \<and> ns p \<noteq> None" and ny: "\<forall>p\<in>fst ` set ys. p \<noteq> NULL \<and> ns p \<noteq> None"
    using seg_nodes [OF assms(1)] seg_nodes [OF assms(2)] by fastforce+
  show f: "final_of NULL xs = NULL \<longleftrightarrow> xs = []" and g: "first_of ys NULL = NULL \<longleftrightarrow> ys = []"
    using x y nx ny by (auto simp del: image_iff)
  show "final_of NULL xs \<notin> fst ` set ys" using x ny assms(3) f by (metis IntI empty_iff)
  show "first_of ys NULL \<notin> fst ` set xs" using y nx assms(3) g by (metis IntI empty_iff)
  show "final_of NULL xs \<noteq> NULL \<Longrightarrow> ns (final_of NULL xs) \<noteq> None" using x nx f by blast
  show "first_of ys NULL \<noteq> NULL \<Longrightarrow> ns (first_of ys NULL) \<noteq> None" using y ny g by blast
  show "q \<notin> fst ` set xs \<Longrightarrow> q \<noteq> NULL \<Longrightarrow> final_of NULL xs \<noteq> q" using x f by metis
  show "q \<notin> fst ` set ys \<Longrightarrow> q \<noteq> NULL \<Longrightarrow> first_of ys NULL \<noteq> q" using y g by metis
qed

text \<open>The gap left by a node, and a node put into a gap.\<close>

lemma seg_bypass:
  assumes S: "seg ns NULL (xs @ q # ys) NULL" and D: "distinct (map fst (xs @ q # ys))"
    and ns': "ns' = put_prev (first_of ys NULL) (final_of NULL xs) (put_next (final_of NULL xs) (first_of ys NULL) ns)"
  shows "seg ns' NULL (xs @ ys) NULL" "ns' (fst q) = ns (fst q)"
    "r \<notin> fst ` set (xs @ ys) \<Longrightarrow> ns' r = ns r"
proof -
  let ?a = "final_of NULL xs" and ?b = "first_of ys NULL"
  have S1: "seg ns NULL xs (fst q)" and S2: "seg ns (fst q) ys NULL" "fst q \<noteq> NULL" using S by (simp_all add: seg_append)
  have D': "distinct (map fst xs)" "distinct (map fst ys)" "fst ` set xs \<inter> fst ` set ys = {}"
    "fst q \<notin> fst ` set xs" "fst q \<notin> fst ` set ys" using D by auto
  note e = seg_ends [OF S1 S2(1) D'(3)]
  have "seg ns' NULL xs ?b" unfolding ns' using e(4) seg_put_next [OF S1 D'(1)] by simp
  moreover have "seg ns' ?a ys NULL"
    unfolding ns' put_commute [symmetric] using e(3) seg_put_prev [OF S2(1) D'(2)] by simp
  ultimately show "seg ns' NULL (xs @ ys) NULL" by (simp add: seg_append)
  have out: "ns' r = ns r" if "r = NULL \<or> r \<noteq> ?a" "r = NULL \<or> r \<noteq> ?b" for r
    using that unfolding ns' by (cases "?a = NULL"; cases "?b = NULL"; cases "r = NULL") auto
  show "ns' (fst q) = ns (fst q)" using e(7) [OF D'(4) S2(2)] e(8) [OF D'(5) S2(2)] by (intro out) auto
  show "ns' r = ns r" if "r \<notin> fst ` set (xs @ ys)"
    using that e(7,8) [of r] by (intro out) auto
qed

lemma seg_put_in:
  assumes S: "seg ns NULL (xs @ ys) NULL" and D: "distinct (map fst (xs @ q # ys))" and q: "fst q \<noteq> NULL"
    and ns': "ns' = put_prev (first_of ys NULL) (fst q) (put_next (final_of NULL xs) (fst q)
      (ns(fst q \<mapsto> \<lparr>n_data = snd q, n_next = first_of ys NULL, n_prev = final_of NULL xs\<rparr>)))"
  shows "seg ns' NULL (xs @ q # ys) NULL" "r \<notin> fst ` set (xs @ q # ys) \<Longrightarrow> ns' r = ns r"
proof -
  let ?a = "final_of NULL xs" and ?b = "first_of ys NULL"
  let ?n0 = "ns(fst q \<mapsto> \<lparr>n_data = snd q, n_next = ?b, n_prev = ?a\<rparr>)"
  have D': "distinct (map fst xs)" "distinct (map fst ys)" "fst ` set xs \<inter> fst ` set ys = {}"
    "fst q \<notin> fst ` set xs" "fst q \<notin> fst ` set ys" using D by auto
  have S1: "seg ?n0 NULL xs ?b" and S2: "seg ?n0 ?a ys NULL" using S D' by (simp_all add: seg_append)
  note e = seg_ends [OF S1 S2 D'(3)]
  have aq: "?a \<noteq> fst q" "?b \<noteq> fst q" using e(7) [OF D'(4) q] e(8) [OF D'(5) q] by auto
  have "seg ns' NULL xs (fst q)" unfolding ns' using e(4) seg_put_next [OF S1 D'(1)] by simp
  moreover have "seg ns' (fst q) ys NULL"
    unfolding ns' put_commute [symmetric] using e(3) seg_put_prev [OF S2 D'(2)] by simp
  ultimately show "seg ns' NULL (xs @ q # ys) NULL" using q aq by (simp add: seg_append ns')
  have out: "ns' r = ?n0 r" if "r = NULL \<or> r \<noteq> ?a" "r = NULL \<or> r \<noteq> ?b" for r
    using that unfolding ns' by (cases "?a = NULL"; cases "?b = NULL"; cases "r = NULL") auto
  show "ns' r = ns r" if "r \<notin> fst ` set (xs @ q # ys)"
    using that e(7,8) [of r] out [of r] by auto
qed

section \<open>Steps on a heap of nodes\<close>

lemma deref_ok: "nodes w p = Some n \<Longrightarrow> deref p w = Inr (n, w)"
  by (simp add: deref_def)

lemma set_next_ok: "nodes w p \<noteq> None \<Longrightarrow> p \<noteq> NULL \<Longrightarrow> set_next p v w = Inr ((), w\<lparr>nodes := put_next p v (nodes w)\<rparr>)"
  and set_prev_ok: "nodes w p \<noteq> None \<Longrightarrow> p \<noteq> NULL \<Longrightarrow> set_prev p v w = Inr ((), w\<lparr>nodes := put_prev p v (nodes w)\<rparr>)"
  by (auto simp: set_next_def set_prev_def upd_node_def put_next_def put_prev_def)

lemma upd_list_ok: "lists w l = Some c \<Longrightarrow> upd_list l f w = Inr ((), w\<lparr>lists := (lists w)(l \<mapsto> f c)\<rparr>)"
  by (simp add: upd_list_def)

lemma get_list_ok: "lists w l = Some c \<Longrightarrow> get_list l w = Inr (c, w)"
  by (simp add: get_list_def)

text \<open>Everything that does not belong to the list \<open>l\<close> with the nodes \<open>ps\<close> is as before.\<close>

definition elsewhere :: "addr \<Rightarrow> addr set \<Rightarrow> lmem \<Rightarrow> lmem \<Rightarrow> bool" where
  "elsewhere l ps w w' \<longleftrightarrow> l_fresh w \<le> l_fresh w' \<and> l_fuel w' = l_fuel w \<and>
     (\<forall>p. p \<notin> ps \<longrightarrow> p < l_fresh w \<longrightarrow> nodes w' p = nodes w p) \<and>
     (\<forall>k. k \<noteq> l \<longrightarrow> k < l_fresh w \<longrightarrow> lists w' k = lists w k)"

lemma seg_agree:
  "(\<And>q. q \<in> set qs \<Longrightarrow> ns' (fst q) = ns (fst q)) \<Longrightarrow> seg ns' pv qs nx = seg ns pv qs nx"
  by (induction qs arbitrary: pv) auto

lemma bnd_eqI: "m s = Inr (x, s1) \<Longrightarrow> f x s1 = r \<Longrightarrow> bnd m f s = r"
  by (simp add: bnd_def)

lemma block_eqI: "m s = Inr ((), s1) \<Longrightarrow> block ms s1 = r \<Longrightarrow> block (m # ms) s = r"
  by (simp add: bnd_def)

text \<open>The two statements of \<open>unlink\<close> that bridge the gap.\<close>

lemma bridge_next:
  assumes "nodes w p = Some \<lparr>n_data = x, n_next = b, n_prev = a\<rparr>" and "a \<noteq> NULL \<Longrightarrow> nodes w a \<noteq> None"
  shows "bnd (deref p) (\<lambda>n. whenM (n_prev n \<noteq> NULL) (set_next (n_prev n) (n_next n))) w =
    Inr ((), w\<lparr>nodes := put_next a b (nodes w)\<rparr>)"
  using assms by (cases w; cases "a = NULL") (auto simp: bnd_def deref_ok set_next_ok whenM_def ret_def)

lemma bridge_prev:
  assumes "nodes w p = Some \<lparr>n_data = x, n_next = b, n_prev = a\<rparr>" and "b \<noteq> NULL \<Longrightarrow> nodes w b \<noteq> None"
  shows "bnd (deref p) (\<lambda>n. whenM (n_next n \<noteq> NULL) (set_prev (n_next n) (n_prev n))) w =
    Inr ((), w\<lparr>nodes := put_prev b a (nodes w)\<rparr>)"
  using assms by (cases w; cases "b = NULL") (auto simp: bnd_def deref_ok set_prev_ok whenM_def ret_def)

lemma unlink_ok:
  assumes "is_list w l (xs @ q # ys)"
  shows "\<exists>w'. unlink l (fst q) w = Inr (snd q, w') \<and> is_list w' l (xs @ ys) \<and>
    elsewhere l (fst ` set (xs @ q # ys)) w w' \<and> l_sched w' = l_sched w \<and> l_fresh w' = l_fresh w \<and> nodes w' (fst q) = None"
proof -
  let ?p = "fst q" and ?a = "final_of NULL xs" and ?b = "first_of ys NULL"
  let ?n1 = "put_next ?a ?b (nodes w)"
  let ?n2 = "put_prev ?b ?a ?n1"
  let ?c = "\<lparr>l_size = Suc (length xs + length ys), l_head = first_of (xs @ q # ys) NULL,
      l_tail = final_of NULL (xs @ q # ys)\<rparr>"
  have L: "l \<noteq> NULL" "lists w l = Some ?c"
    and S: "seg (nodes w) NULL xs ?p" "seg (nodes w) ?p ys NULL" "?p \<noteq> NULL"
      "nodes w ?p = Some \<lparr>n_data = snd q, n_next = ?b, n_prev = ?a\<rparr>"
    and D: "distinct (map fst xs)" "distinct (map fst ys)" "?p \<notin> fst ` set xs" "?p \<notin> fst ` set ys"
      "fst ` set xs \<inter> fst ` set ys = {}"
    and F: "0 < l_fresh w"
      "\<forall>p\<ge>l_fresh w. nodes w p = None \<and> lists w p = None"
    using assms by (auto simp: is_list_def seg_append)
  note e = seg_ends [OF S(1,2) D(5)]
  note a = e(1) and b = e(2) and na = e(5) and nb = e(6)
  have pa: "?a \<noteq> ?p" and pb: "?b \<noteq> ?p" using e(7) [OF D(3) S(3)] e(8) [OF D(4) S(3)] by simp_all
  let ?c' = "\<lparr>l_size = length (xs @ ys), l_head = first_of (xs @ ys) NULL, l_tail = final_of NULL (xs @ ys)\<rparr>"
  let ?w = "w\<lparr>nodes := ?n2(?p := None), lists := (lists w)(l \<mapsto> ?c')\<rparr>"
  have n1: "?n1 ?p = nodes w ?p" "?n2 ?p = nodes w ?p" using pa pb by simp_all
  have run: "unlink l ?p w = Inr (snd q, ?w)"
  proof -
    let ?w1 = "w\<lparr>nodes := ?n1\<rparr>"
    have s1: "bnd (deref ?p) (\<lambda>n. whenM (n_prev n \<noteq> NULL) (set_next (n_prev n) (n_next n))) w = Inr ((), ?w1)"
      by (rule bridge_next [OF S(4) na])
    let ?c2 = "?c\<lparr>l_head := (if xs = [] then ?b else l_head ?c)\<rparr>"
    let ?w2 = "?w1\<lparr>lists := (lists w)(l \<mapsto> ?c2)\<rparr>"
    have s2: "bnd (deref ?p) (\<lambda>n. whenM (n_prev n = NULL) (upd_list l (\<lambda>c. c\<lparr>l_head := n_next n\<rparr>))) ?w1 = Inr ((), ?w2)"
      using a L S(4) n1 by (cases w) (auto simp: bnd_def deref_ok whenM_def upd_list_ok ret_def)
    let ?c3 = "?c2\<lparr>l_tail := (if ys = [] then ?a else l_tail ?c)\<rparr>"
    let ?w3 = "?w1\<lparr>lists := (lists w)(l \<mapsto> ?c3)\<rparr>"
    have s3: "bnd (deref ?p) (\<lambda>n. whenM (n_next n = NULL) (upd_list l (\<lambda>c. c\<lparr>l_tail := n_prev n\<rparr>))) ?w2 = Inr ((), ?w3)"
      using b S(4) n1 by (auto simp: bnd_def deref_ok whenM_def upd_list_ok ret_def)
    let ?w4 = "?w3\<lparr>nodes := ?n2\<rparr>"
    have s4: "bnd (deref ?p) (\<lambda>n. whenM (n_next n \<noteq> NULL) (set_prev (n_next n) (n_prev n))) ?w3 = Inr ((), ?w4)"
      using bridge_prev [of ?w3 ?p "snd q" ?b ?a] S(4) n1 nb by simp
    have s5: "free_node ?p ?w4 = Inr ((), ?w4\<lparr>nodes := ?n2(?p := None)\<rparr>)"
      using S(3,4) n1 by (simp add: free_node_def bnd_def deref_ok modify_def)
    have "dec_size ?c3 = ?c'"
      using a b by (cases xs; cases ys rule: rev_cases) (auto simp: dec_size_def first_of_append final_of_append)
    then have s6: "upd_list l dec_size (?w4\<lparr>nodes := ?n2(?p := None)\<rparr>) = Inr ((), ?w)"
      by (cases w) (simp add: upd_list_ok)
    show ?thesis
      unfolding unlink_def
      by (rule bnd_eqI, rule deref_ok [OF S(4)], rule bnd_eqI,
          (rule block_eqI, rule s1 s2 s3 s4 s5 s6)+) (simp_all add: ret_def)
  qed
  have all: "seg (nodes w) NULL (xs @ q # ys) NULL" "distinct (map fst (xs @ q # ys))" using assms by (simp_all add: is_list_def)
  note gap = seg_bypass [OF all refl]
  have seg: "seg (?n2(?p := None)) NULL (xs @ ys) NULL"
    using gap(1) D(3,4) by (subst seg_upd) auto
  have "\<forall>p\<ge>l_fresh w. p \<noteq> l"
    using L F(2) by (metis option.distinct(1))
  then have il: "is_list ?w l (xs @ ys)"
    using L(1) F D seg by (auto simp: is_list_def)
  have "elsewhere l (fst ` set (xs @ q # ys)) w ?w" using gap(3) by (auto simp: elsewhere_def)
  then show ?thesis using run il by auto
qed

lemma l_draw_ok: "l_draw w = Inr (fst (draw (l_sched w)), w\<lparr>l_sched := snd (draw (l_sched w))\<rparr>)"
  by (simp add: l_draw_def zoom_def draw_block_def)

definition with_node :: "lmem \<Rightarrow> lmem" where
  "with_node w = w\<lparr>l_sched := snd (draw (l_sched w)),
     nodes := (nodes w)(l_fresh w \<mapsto> \<lparr>n_data = NULL, n_next = NULL, n_prev = NULL\<rparr>), l_fresh := l_fresh w + sizeof_node\<rparr>"

lemma calloc_node_ok:
  "fst (draw (l_sched w)) \<Longrightarrow> calloc_node w = Inr (l_fresh w, with_node w)"
  "\<not> fst (draw (l_sched w)) \<Longrightarrow> calloc_node w = Inr (NULL, w\<lparr>l_sched := snd (draw (l_sched w))\<rparr>)"
  by (simp_all add: calloc_node_def bnd_def l_draw_ok gets_def modify_def ret_def with_node_def)

lemma is_list_fresh: "is_list w l qs \<Longrightarrow> l < l_fresh w \<and> (\<forall>p\<in>fst ` set qs. p < l_fresh w)"
  unfolding is_list_def
  by (metis (no_types, lifting) imageE linorder_not_less option.distinct(1) seg_nodes)

lemma is_list_sched [simp]: "is_list (w\<lparr>l_sched := m\<rparr>) l qs = is_list w l qs"
  by (simp add: is_list_def)

lemma first_of_nonempty: "qs \<noteq> [] \<Longrightarrow> first_of qs a = first_of qs b"
  by (cases qs) auto

lemma final_of_nonempty: "qs \<noteq> [] \<Longrightarrow> final_of a qs = final_of b qs"
  by (simp add: final_of_def)

text \<open>The memory after a new node with the element \<open>x\<close> has been put between \<open>xs\<close> and \<open>ys\<close>.\<close>

definition with_inserted :: "addr \<Rightarrow> (addr \<times> addr) list \<Rightarrow> addr \<Rightarrow> (addr \<times> addr) list \<Rightarrow> lmem \<Rightarrow> lmem" where
  "with_inserted l xs x ys w =
     (let p = l_fresh w; a = final_of NULL xs; b = first_of ys NULL; rs = xs @ (p, x) # ys in
      (with_node w)\<lparr>
        nodes := put_prev b p (put_next a p ((nodes w)(p \<mapsto> \<lparr>n_data = x, n_next = b, n_prev = a\<rparr>))),
        lists := (lists w)(l \<mapsto> \<lparr>l_size = length rs, l_head = first_of rs NULL, l_tail = final_of NULL rs\<rparr>)\<rparr>)"

lemma list_inserted:
  assumes w: "is_list w l (xs @ ys)"
  shows "is_list (with_inserted l xs x ys w) l (xs @ (l_fresh w, x) # ys) \<and>
    elsewhere l (fst ` set (xs @ ys)) w (with_inserted l xs x ys w) \<and>
    l_sched (with_inserted l xs x ys w) = snd (draw (l_sched w))"
proof -
  let ?p = "l_fresh w" and ?a = "final_of NULL xs" and ?b = "first_of ys NULL"
  let ?n0 = "(nodes w)(?p \<mapsto> \<lparr>n_data = x, n_next = ?b, n_prev = ?a\<rparr>)"
  let ?ns = "put_prev ?b ?p (put_next ?a ?p ?n0)"
  let ?rs = "xs @ (?p, x) # ys"
  let ?w = "with_inserted l xs x ys w"
  note fr = is_list_fresh [OF w]
  have S: "seg (nodes w) NULL (xs @ ys) NULL" and p: "0 < ?p" and L: "l \<noteq> NULL"
    and F: "\<forall>p\<ge>?p. nodes w p = None \<and> lists w p = None" using w by (auto simp: is_list_def)
  have pn: "?p \<notin> fst ` set (xs @ ys)" using fr by (meson less_irrefl)
  then have D: "distinct (map fst (xs @ (?p, x) # ys))" using w by (auto simp: is_list_def)
  have q: "?ns = put_prev ?b (fst (?p, x)) (put_next ?a (fst (?p, x))
      ((nodes w)(fst (?p, x) \<mapsto> \<lparr>n_data = snd (?p, x), n_next = ?b, n_prev = ?a\<rparr>)))" by simp
  have seg: "seg ?ns NULL ?rs NULL" by (rule seg_put_in(1) [OF S D _ q]) (use p in simp)
  have out: "?ns r = nodes w r" if "r \<noteq> ?p" "r \<notin> fst ` set (xs @ ys)" for r
    by (rule seg_put_in(2) [OF S D _ q]) (use p that in auto)
  have top: "?ns r = None \<and> r \<noteq> l \<and> lists w r = None" if "?p + sizeof_node \<le> r" for r
  proof -
    have "r \<noteq> ?p" "?p \<le> r" using that by (auto simp: sizeof_node_def)
    moreover from this have "r \<notin> fst ` set (xs @ ys)" "r \<noteq> l" using fr by force+
    ultimately show ?thesis using out [of r] F by simp
  qed
  have "is_list ?w l ?rs"
    using L seg D p top by (auto simp: is_list_def with_inserted_def with_node_def Let_def sizeof_node_def)
  moreover have "elsewhere l (fst ` set (xs @ ys)) w ?w"
    using out by (auto simp: elsewhere_def with_inserted_def with_node_def Let_def sizeof_node_def)
  ultimately show ?thesis by (simp add: with_inserted_def with_node_def Let_def)
qed

lemma list_add_last_ok:
  assumes w: "is_list w l qs" and d: "fst (draw (l_sched w))"
  shows "list_add_last l x w = Inr (CC_OK, with_inserted l qs x [] w)"
proof -
  let ?p = "l_fresh w" and ?t = "final_of NULL qs"
  note fr = is_list_fresh [OF w]
  have L: "lists w l = Some \<lparr>l_size = length qs, l_head = first_of qs NULL, l_tail = ?t\<rparr>" "?p \<noteq> NULL"
    and S: "seg (nodes w) NULL qs NULL" using w by (auto simp: is_list_def)
  have t: "?t = NULL \<longleftrightarrow> qs = []" by (rule final_of_NULL [OF S])
  have tp: "?t \<noteq> ?p" using fr final_of_in [of qs NULL] L(2) by (cases "qs = []") fastforce+
  have nt: "qs \<noteq> [] \<Longrightarrow> nodes w ?t \<noteq> None" using seg_nodes [OF S] final_of_in [of qs NULL] by fastforce
  show ?thesis
    using L t tp nt first_of_nonempty [of qs NULL ?p]
    by (cases "qs = []") (auto simp: list_add_last_def bnd_def calloc_node_ok(1) [OF d] with_node_def set_data_def
        upd_node_def get_list_ok upd_list_ok ret_def set_prev_def set_next_def put_next_def first_of_append
        fun_upd_twist with_inserted_def Let_def)
qed

lemma list_add_first_ok:
  assumes w: "is_list w l qs" and d: "fst (draw (l_sched w))"
  shows "list_add_first l x w = Inr (CC_OK, with_inserted l [] x qs w)"
proof -
  let ?p = "l_fresh w" and ?h = "first_of qs NULL"
  note fr = is_list_fresh [OF w]
  have L: "lists w l = Some \<lparr>l_size = length qs, l_head = ?h, l_tail = final_of NULL qs\<rparr>" "?p \<noteq> NULL"
    and S: "seg (nodes w) NULL qs NULL" using w by (auto simp: is_list_def)
  have h: "?h = NULL \<longleftrightarrow> qs = []" by (rule first_of_NULL [OF S])
  have hp: "?h \<noteq> ?p" using fr first_of_in [of qs NULL] L(2) by (cases "qs = []") fastforce+
  have nh: "qs \<noteq> [] \<Longrightarrow> nodes w ?h \<noteq> None" using seg_nodes [OF S] first_of_in [of qs NULL] by fastforce
  show ?thesis
    using L h hp nh final_of_nonempty [of qs NULL ?p]
    by (cases "qs = []") (auto simp: list_add_first_def bnd_def calloc_node_ok(1) [OF d] with_node_def set_data_def
        upd_node_def get_list_ok upd_list_ok ret_def set_prev_def set_next_def put_prev_def
        fun_upd_twist with_inserted_def Let_def)
qed

lemma list_add_fails:
  assumes "\<not> fst (draw (l_sched w))"
  shows "list_add_last l x w = Inr (CC_ERR_ALLOC, w\<lparr>l_sched := snd (draw (l_sched w))\<rparr>)"
    "list_add_first l x w = Inr (CC_ERR_ALLOC, w\<lparr>l_sched := snd (draw (l_sched w))\<rparr>)"
  by (simp_all add: list_add_last_def list_add_first_def bnd_def calloc_node_ok(2) [OF assms] ret_def)

section \<open>Walking a list\<close>

lemma go_next_ok:
  "seg (nodes w) pv qs nx \<Longrightarrow> i \<le> length qs \<Longrightarrow> go_next i (first_of qs nx) w = Inr (first_of (drop i qs) nx, w)"
proof (induction i arbitrary: pv qs)
  case 0
  then show ?case by (simp add: ret_def)
next
  case (Suc i)
  then obtain q rs where "qs = q # rs" by (cases qs) auto
  with Suc show ?case by (auto simp: bnd_def deref_ok)
qed

lemma go_prev_ok:
  "seg (nodes w) pv qs nx \<Longrightarrow> i \<le> length qs \<Longrightarrow>
   go_prev i (final_of pv qs) w = Inr (final_of pv (take (length qs - i) qs), w)"
proof (induction i arbitrary: nx qs)
  case 0
  then show ?case by (simp add: ret_def)
next
  case (Suc i)
  then obtain q rs where qs: "qs = rs @ [q]" by (cases qs rule: rev_cases) auto
  with Suc.prems have "seg (nodes w) pv rs (fst q)"
    "nodes w (fst q) = Some \<lparr>n_data = snd q, n_next = nx, n_prev = final_of pv rs\<rparr>" by (simp_all add: seg_append)
  with Suc qs show ?case by (simp add: bnd_def deref_ok)
qed

lemma seg_nth: "seg ns pv qs nx \<Longrightarrow> i < length qs \<Longrightarrow> \<exists>n. ns (fst (qs ! i)) = Some n \<and> n_data n = snd (qs ! i)"
  using seg_nodes nth_mem by blast

lemma get_node_at_ok:
  assumes w: "is_list w l qs"
  shows "get_node_at l i w = Inr (if i < length qs then (CC_OK, fst (qs ! i)) else (CC_ERR_OUT_OF_RANGE, NULL), w)"
proof (cases "i < length qs")
  case True
  have L: "l \<noteq> NULL" "lists w l = Some \<lparr>l_size = length qs, l_head = first_of qs NULL, l_tail = final_of NULL qs\<rparr>"
    and S: "seg (nodes w) NULL qs NULL" using w by (auto simp: is_list_def)
  have f: "first_of (drop i qs) NULL = fst (qs ! i)" using True by (simp add: Cons_nth_drop_Suc [symmetric])
  have "take (length qs - (length qs - 1 - i)) qs = take i qs @ [qs ! i]"
    using True by (simp add: take_Suc_conv_app_nth [symmetric])
  then have p: "final_of NULL (take (length qs - (length qs - 1 - i)) qs) = fst (qs ! i)" by simp
  have "go_next i (first_of qs NULL) w = Inr (fst (qs ! i), w)"
    using go_next_ok [OF S, of i] True f by simp
  moreover have "go_prev (length qs - 1 - i) (final_of NULL qs) w = Inr (fst (qs ! i), w)"
    using go_prev_ok [OF S, of "length qs - 1 - i"] True p by simp
  ultimately show ?thesis
    using True L by (simp add: get_node_at_def bnd_def get_list_ok ret_def)
next
  case False
  then show ?thesis using w by (simp add: get_node_at_def is_list_def bnd_def get_list_ok ret_def)
qed

text \<open>A loop over the nodes that only looks at the elements.\<close>

fun walk :: "(addr \<Rightarrow> addr \<Rightarrow> 'x \<Rightarrow> 'x + 'r) \<Rightarrow> (addr \<times> addr) list \<Rightarrow> 'x \<Rightarrow> 'x + 'r" where
  "walk step [] x = Inl x"
| "walk step (q # qs) x = (case step (fst q) (snd q) x of Inl y \<Rightarrow> walk step qs y | Inr z \<Rightarrow> Inr z)"

lemma while_node_walk:
  assumes "seg (nodes w) pv qs NULL" and "length qs < l_fuel w"
    and "\<And>p nd x. body p nd x = ret (step p (n_data nd) x)"
  shows "while_node body (first_of qs NULL) x w = Inr (walk step qs x, w)"
proof -
  let ?b = "\<lambda>(p, x). if p = NULL then ret (Inr (Inl x)) else
       bnd (deref p) (\<lambda>nd. bnd (body p nd x) (\<lambda>r.
       case r of Inl y \<Rightarrow> ret (Inl (n_next nd, y)) | Inr z \<Rightarrow> ret (Inr (Inr z))))"
  have "length qs < n \<Longrightarrow> loopM n ?b (first_of qs NULL, x) w = Inr (walk step qs x, w)" for n
    using assms(1)
  proof (induction qs arbitrary: pv n x)
    case Nil
    then show ?case by (cases n) (simp_all add: bnd_def ret_def)
  next
    case (Cons q qs)
    then obtain k where "n = Suc k" "length qs < k" by (cases n) auto
    with Cons show ?case
      by (auto simp: bnd_def deref_ok assms(3) ret_def split: sum.splits)
  qed
  then show ?thesis using assms(2) by (simp add: while_node_def bnd_def gets_def)
qed

lemma read_n_ok: "seg (nodes w) pv qs nx \<Longrightarrow> read_n (length qs) (first_of qs nx) w = Inr (map snd qs, w)"
  by (induction qs arbitrary: pv) (auto simp: bnd_def deref_ok ret_def)

section \<open>What the operations do\<close>

lemma list_remove_first_ok:
  assumes "is_list w l (q # ys)"
  shows "\<exists>w'. list_remove_first l w = Inr ((CC_OK, Some (snd q)), w') \<and> is_list w' l ys \<and>
    elsewhere l (fst ` set (q # ys)) w w' \<and> l_sched w' = l_sched w"
proof -
  from unlink_ok [of w l "[]" q ys] assms obtain w' where
    "unlink l (fst q) w = Inr (snd q, w')" "is_list w' l ys" "elsewhere l (fst ` set (q # ys)) w w'" "l_sched w' = l_sched w" by auto
  then show ?thesis
    using assms by (auto simp: list_remove_first_def bnd_def is_list_def get_list_ok ret_def)
qed

lemma list_remove_last_ok:
  assumes "is_list w l (xs @ [q])"
  shows "\<exists>w'. list_remove_last l w = Inr ((CC_OK, Some (snd q)), w') \<and> is_list w' l xs \<and>
    elsewhere l (fst ` set (xs @ [q])) w w' \<and> l_sched w' = l_sched w"
proof -
  from unlink_ok [of w l xs q "[]"] assms obtain w' where
    u: "unlink l (fst q) w = Inr (snd q, w')" "is_list w' l xs" "elsewhere l (fst ` set (xs @ [q])) w w'" "l_sched w' = l_sched w" by auto
  have "lists w l = Some \<lparr>l_size = Suc (length xs), l_head = first_of (xs @ [q]) NULL, l_tail = fst q\<rparr>"
    using assms by (simp add: is_list_def)
  then show ?thesis
    using u by (auto simp: list_remove_last_def bnd_def get_list_ok ret_def)
qed

lemma list_remove_empty:
  assumes "is_list w l []"
  shows "list_remove_first l w = Inr ((CC_ERR_VALUE_NOT_FOUND, None), w)"
    "list_remove_last l w = Inr ((CC_ERR_VALUE_NOT_FOUND, None), w)"
  using assms by (simp_all add: list_remove_first_def list_remove_last_def is_list_def bnd_def get_list_ok ret_def)

lemma list_remove_at_ok:
  assumes w: "is_list w l qs"
  shows "\<exists>w'. list_remove_at l i w =
      Inr (if i < length qs then (CC_OK, Some (snd (qs ! i))) else (CC_ERR_OUT_OF_RANGE, None), w') \<and>
    is_list w' l (take i qs @ drop (Suc i) qs) \<and> elsewhere l (fst ` set qs) w w' \<and> l_sched w' = l_sched w"
proof (cases "i < length qs")
  case True
  have q: "take i qs @ qs ! i # drop (Suc i) qs = qs" using True by (simp add: id_take_nth_drop [symmetric])
  from unlink_ok [of w l "take i qs" "qs ! i" "drop (Suc i) qs"] w q obtain w' where
    u: "unlink l (fst (qs ! i)) w = Inr (snd (qs ! i), w')" "is_list w' l (take i qs @ drop (Suc i) qs)"
    "elsewhere l (fst ` set qs) w w'" "l_sched w' = l_sched w" by auto
  moreover obtain n where "nodes w (fst (qs ! i)) = Some n" "n_data n = snd (qs ! i)"
    using seg_nth [of "nodes w" NULL qs NULL i] w True by (auto simp: is_list_def)
  ultimately show ?thesis
    using True by (simp add: list_remove_at_def bnd_def get_node_at_ok [OF w] deref_ok ret_def)
next
  case False
  then show ?thesis using w
    by (simp add: list_remove_at_def bnd_def get_node_at_ok [OF w] ret_def elsewhere_def)
qed

lemma list_reads_ok:
  assumes w: "is_list w l qs"
  shows "list_size l w = Inr (length qs, w)"
    "list_get_first l w = Inr (if qs = [] then (CC_ERR_VALUE_NOT_FOUND, None) else (CC_OK, Some (snd (hd qs))), w)"
    "list_get_last l w = Inr (if qs = [] then (CC_ERR_VALUE_NOT_FOUND, None) else (CC_OK, Some (snd (last qs))), w)"
    "list_get_at l i w = Inr (if i < length qs then (CC_OK, Some (snd (qs ! i))) else (CC_ERR_OUT_OF_RANGE, None), w)"
proof -
  have L: "lists w l = Some \<lparr>l_size = length qs, l_head = first_of qs NULL, l_tail = final_of NULL qs\<rparr>"
    and S: "seg (nodes w) NULL qs NULL" using w by (auto simp: is_list_def)
  show "list_size l w = Inr (length qs, w)" using L by (simp add: list_size_def bnd_def get_list_ok ret_def)
  show "list_get_first l w = Inr (if qs = [] then (CC_ERR_VALUE_NOT_FOUND, None) else (CC_OK, Some (snd (hd qs))), w)"
    using L S by (cases qs) (auto simp: list_get_first_def bnd_def get_list_ok ret_def deref_ok)
  show "list_get_last l w = Inr (if qs = [] then (CC_ERR_VALUE_NOT_FOUND, None) else (CC_OK, Some (snd (last qs))), w)"
    using L S by (cases qs rule: rev_cases) (auto simp: list_get_last_def bnd_def get_list_ok ret_def deref_ok seg_append)
  show "list_get_at l i w = Inr (if i < length qs then (CC_OK, Some (snd (qs ! i))) else (CC_ERR_OUT_OF_RANGE, None), w)"
    using seg_nth [OF S, of i] by (auto simp: list_get_at_def bnd_def get_node_at_ok [OF w] ret_def deref_ok)
qed

lemma is_list_struct:
  assumes "is_list w l qs"
  shows "lists w l = Some \<lparr>l_size = length qs, l_head = first_of qs NULL, l_tail = final_of NULL qs\<rparr>"
    "seg (nodes w) NULL qs NULL"
  using assms by (simp_all add: is_list_def)

lemma walk_count: "walk (\<lambda>p d n. Inl (if P d then n + 1 else n)) qs n = Inl (n + length (filter P (map snd qs)))"
  by (induction qs arbitrary: n) auto

lemma list_contains_value_ok:
  assumes w: "is_list w l qs" and f: "length qs < l_fuel w"
  shows "list_contains_value l x cmp w = Inr (length (filter (\<lambda>d. cmp d x = 0) (map snd qs)), w)"
  using while_node_walk [OF is_list_struct(2) [OF w] f,
      where body = "\<lambda>p nd n. ret (Inl (if cmp (n_data nd) x = 0 then n + 1 else n) :: nat + unit)"
        and step = "\<lambda>p d n. Inl (if cmp d x = 0 then n + 1 else n)" and x = 0]
  by (simp add: list_contains_value_def bnd_def get_list_ok [OF is_list_struct(1) [OF w]] walk_count ret_def)

lemma walk_index:
  "walk (\<lambda>p d i. if P d then Inr i else Inl (i + 1)) qs (k :: nat) =
     (let n = length (takeWhile (\<lambda>d. \<not> P d) (map snd qs)) in
      if n < length qs then Inr (k + n) else Inl (k + length qs))"
  by (induction qs arbitrary: k) (auto simp: Let_def)

lemma list_index_of_ok:
  assumes w: "is_list w l qs" and f: "length qs < l_fuel w"
  shows "list_index_of l x cmp w =
    Inr (let n = length (takeWhile (\<lambda>d. cmp d x \<noteq> 0) (map snd qs)) in
      if n < length qs then (CC_OK, Some n) else (CC_ERR_OUT_OF_RANGE, None), w)"
  using while_node_walk [OF is_list_struct(2) [OF w] f,
      where body = "\<lambda>p nd i. ret (if cmp (n_data nd) x = 0 then Inr i else Inl (i + 1))"
        and step = "\<lambda>p d i. if cmp d x = 0 then Inr i else Inl (i + 1)" and x = "0 :: nat"]
  by (auto simp: list_index_of_def bnd_def get_list_ok [OF is_list_struct(1) [OF w]] walk_index ret_def Let_def)

lemma list_to_array_ok:
  assumes w: "is_list w l qs" and "qs \<noteq> []"
  shows "list_to_array l w =
    Inr (if fst (draw (l_sched w)) then (CC_OK, Some (map snd qs)) else (CC_ERR_ALLOC, None),
      w\<lparr>l_sched := snd (draw (l_sched w))\<rparr>)"
  using assms read_n_ok [of "w\<lparr>l_sched := snd (draw (l_sched w))\<rparr>" NULL qs NULL] is_list_struct [OF w]
  by (simp add: list_to_array_def bnd_def get_list_ok l_draw_ok ret_def)

lemma list_add_at_ok:
  assumes w: "is_list w l (xs @ ys)" and ys: "ys \<noteq> []" and d: "fst (draw (l_sched w))"
  shows "list_add_at l x (length xs) w = Inr (CC_OK, with_inserted l xs x ys w)"
proof -
  let ?p = "l_fresh w" and ?a = "final_of NULL xs" and ?b = "first_of ys NULL"
  note fr = is_list_fresh [OF w]
  have L: "lists w l = Some \<lparr>l_size = length (xs @ ys), l_head = first_of (xs @ ys) NULL, l_tail = final_of NULL (xs @ ys)\<rparr>" "?p \<noteq> NULL"
    and S: "seg (nodes w) NULL xs ?b" "seg (nodes w) ?a ys NULL" using w by (auto simp: is_list_def seg_append)
  obtain q rs where q: "ys = q # rs" using ys by (cases ys) auto
  have b: "?b = fst q" "?b \<noteq> NULL" "?b \<noteq> ?p" "nodes w ?b = Some \<lparr>n_data = snd q, n_next = first_of rs NULL, n_prev = ?a\<rparr>"
    using S(2) fr q by auto
  have a: "?a = NULL \<longleftrightarrow> xs = []" by (rule final_of_NULL [OF S(1)])
  have "xs \<noteq> [] \<Longrightarrow> ?a < ?p" using fr final_of_in [of xs NULL] unfolding set_append image_Un by blast
  then have ap: "?a \<noteq> ?p" using L(2) a by (cases "xs = []") auto
  have na: "xs \<noteq> [] \<Longrightarrow> nodes w ?a \<noteq> None" using seg_nodes [OF S(1)] final_of_in [of xs NULL] by fastforce
  have "xs \<noteq> [] \<Longrightarrow> ?a \<in> fst ` set xs" "fst q \<notin> fst ` set xs" using w q by (auto simp: is_list_def final_of_in)
  then have ab: "?a \<noteq> fst q" using a b by metis
  show ?thesis
    using L a ap na b ab q first_of_nonempty [of xs "fst q" ?p]
    by (cases "xs = []") (auto simp: list_add_at_def bnd_def get_node_at_ok [OF w] calloc_node_ok(1) [OF d] with_node_def set_data_def
        upd_node_def upd_list_ok ret_def set_prev_def set_next_def put_next_def put_prev_def first_of_append final_of_append
        fun_upd_twist with_inserted_def Let_def link_behind_def whenM_def deref_def)
qed

lemma list_add_at_outside:
  assumes "is_list w l qs" and "length qs \<le> i"
  shows "list_add_at l x i w = Inr (CC_ERR_OUT_OF_RANGE, w)"
  using assms(2) by (simp add: list_add_at_def bnd_def get_node_at_ok [OF assms(1)] ret_def)

lemma list_replace_at_ok:
  assumes w: "is_list w l qs" and i: "i < length qs"
  shows "\<exists>w'. list_replace_at l x i w = Inr ((CC_OK, Some (snd (qs ! i))), w') \<and>
    is_list w' l (qs[i := (fst (qs ! i), x)]) \<and> elsewhere l (fst ` set qs) w w' \<and> l_sched w' = l_sched w"
proof -
  let ?q = "qs ! i"
  define xs ys where "xs = take i qs" and "ys = drop (Suc i) qs"
  have qs: "qs = xs @ ?q # ys" and li: "length xs = i" using i by (simp_all add: xs_def ys_def id_take_nth_drop [symmetric])
  obtain n where n: "nodes w (fst ?q) = Some n" "n_data n = snd ?q" "fst ?q \<noteq> NULL"
    using seg_nodes [OF is_list_struct(2) [OF w], of ?q] i by auto
  let ?w = "w\<lparr>nodes := (nodes w)(fst ?q \<mapsto> n\<lparr>n_data := x\<rparr>)\<rparr>"
  have up: "qs[i := (fst ?q, x)] = xs @ (fst ?q, x) # ys"
    using i by (simp add: upd_conv_take_nth_drop xs_def ys_def)
  have "is_list w l (xs @ ?q # ys)" using w qs by simp
  then have "is_list ?w l (xs @ (fst ?q, x) # ys)"
    using n by (auto simp: is_list_def seg_append first_of_append final_of_append)
  then have "is_list ?w l (qs[i := (fst ?q, x)])" by (simp add: up)
  moreover have "list_replace_at l x i w = Inr ((CC_OK, Some (snd ?q)), ?w)"
    using i n by (simp add: list_replace_at_def bnd_def get_node_at_ok [OF w] deref_ok set_data_def upd_node_def ret_def)
  moreover have "elsewhere l (fst ` set qs) w ?w" using i by (auto simp: elsewhere_def)
  ultimately show ?thesis by simp
qed

lemma elsewhere_refl [simp]: "elsewhere l ps w w"
  by (simp add: elsewhere_def)

lemma elsewhere_trans:
  assumes "elsewhere l ps w w1" and "elsewhere l qs w1 w2" and "\<forall>p\<in>qs. p \<in> ps \<or> l_fresh w \<le> p"
  shows "elsewhere l ps w w2"
proof -
  have "p \<notin> qs" if "p \<notin> ps" "p < l_fresh w" for p using assms(3) that by force
  then show ?thesis using assms(1,2) by (auto simp: elsewhere_def)
qed

lemma is_list_elsewhere:
  assumes e: "elsewhere l ps w w'" and k: "is_list w k ks" and "k \<noteq> l" "fst ` set ks \<inter> ps = {}"
    and f: "\<forall>p\<ge>l_fresh w'. nodes w' p = None \<and> lists w' p = None"
  shows "is_list w' k ks"
proof -
  note fr = is_list_fresh [OF k]
  have "\<forall>q\<in>set ks. nodes w' (fst q) = nodes w (fst q)" using e fr assms(4) by (force simp: elsewhere_def)
  then have "seg (nodes w') NULL ks NULL" using k seg_agree [of ks "nodes w'" "nodes w"] by (simp add: is_list_def)
  then show ?thesis using e k fr f assms(3) by (auto simp: is_list_def elsewhere_def)
qed

lemma walk_find: "walk (\<lambda>p d (_::unit). if d = x then Inr p else Inl ()) qs u =
   (case filter (\<lambda>q. snd q = x) qs of [] \<Rightarrow> Inl () | q # _ \<Rightarrow> Inr (fst q))"
  by (induction qs) auto

lemma get_node_ok:
  assumes w: "is_list w l qs" and f: "length qs < l_fuel w"
  shows "get_node l x w = Inr (case filter (\<lambda>q. snd q = x) qs of [] \<Rightarrow> NULL | q # _ \<Rightarrow> fst q, w)"
  using while_node_walk [OF is_list_struct(2) [OF w] f,
      where body = "\<lambda>p nd (_ :: unit). ret (if n_data nd = x then Inr p else Inl ())"
        and step = "\<lambda>p d _. if d = x then Inr p else Inl ()" and x = "()"]
  by (auto simp: get_node_def bnd_def get_list_ok [OF is_list_struct(1) [OF w]] walk_find ret_def split: list.splits)

lemma list_remove_ok:
  assumes w: "is_list w l (xs @ (p, x) # ys)" and f: "length xs + length ys + 1 < l_fuel w" and x: "x \<notin> snd ` set xs"
  shows "\<exists>w'. list_remove l x w = Inr ((CC_OK, Some x), w') \<and> is_list w' l (xs @ ys) \<and>
    elsewhere l (fst ` set (xs @ (p, x) # ys)) w w' \<and> l_sched w' = l_sched w"
proof -
  have "filter (\<lambda>q. snd q = x) xs = []" using x by (force simp: filter_empty_conv)
  then have g: "get_node l x w = Inr (p, w)" using f by (simp add: get_node_ok [OF w])
  have "p \<noteq> NULL" "\<exists>n. nodes w p = Some n \<and> n_data n = x"
    using seg_nodes [OF is_list_struct(2) [OF w], of "(p, x)"] by auto
  then show ?thesis using unlink_ok [OF w] by (auto simp: list_remove_def bnd_def g deref_ok ret_def)
qed

lemma list_remove_absent:
  assumes w: "is_list w l qs" and "length qs < l_fuel w" and "x \<notin> snd ` set qs"
  shows "list_remove l x w = Inr ((CC_ERR_VALUE_NOT_FOUND, None), w)"
proof -
  have "filter (\<lambda>q. snd q = x) qs = []" using assms(3) by (force simp: filter_empty_conv)
  then show ?thesis by (simp add: list_remove_def bnd_def get_node_ok [OF assms(1,2)] ret_def)
qed

text \<open>A loop over the nodes whose body keeps \<open>I\<close> of the nodes that are left.\<close>

lemma while_node_each:
  assumes step: "\<And>q rs x w. I (q # rs) x w \<Longrightarrow>
      \<exists>nd r w'. fst q \<noteq> NULL \<and> nodes w (fst q) = Some nd \<and> n_next nd = first_of rs NULL \<and>
        body (fst q) nd x w = Inr (r, w') \<and> (case r of Inl y \<Rightarrow> I rs y w' | Inr z \<Rightarrow> Q z w')"
    and start: "I qs x w" "length qs < l_fuel w"
  shows "\<exists>r w'. while_node body (first_of qs NULL) x w = Inr (r, w') \<and> (case r of Inl y \<Rightarrow> I [] y w' | Inr z \<Rightarrow> Q z w')"
proof -
  let ?b = "\<lambda>(p, x). if p = NULL then ret (Inr (Inl x)) else
       bnd (deref p) (\<lambda>nd. bnd (body p nd x) (\<lambda>r.
       case r of Inl y \<Rightarrow> ret (Inl (n_next nd, y)) | Inr z \<Rightarrow> ret (Inr (Inr z))))"
  have "length qs < n \<Longrightarrow> I qs x w \<Longrightarrow> \<exists>r w'. loopM n ?b (first_of qs NULL, x) w = Inr (r, w') \<and>
      (case r of Inl y \<Rightarrow> I [] y w' | Inr z \<Rightarrow> Q z w')" for n
  proof (induction qs arbitrary: n x w)
    case Nil
    then show ?case by (cases n) (simp_all add: bnd_def ret_def)
  next
    case (Cons q rs)
    then obtain k where n: "n = Suc k" "length rs < k" by (cases n) auto
    from step [OF Cons.prems(2)] obtain nd r w1 where s: "fst q \<noteq> NULL" "nodes w (fst q) = Some nd"
      "n_next nd = first_of rs NULL" "body (fst q) nd x w = Inr (r, w1)"
      "case r of Inl y \<Rightarrow> I rs y w1 | Inr z \<Rightarrow> Q z w1" by blast
    show ?case
    proof (cases r)
      case (Inl y)
      with s Cons.IH [OF n(2), of y w1] show ?thesis by (simp add: n bnd_def deref_ok ret_def)
    next
      case (Inr z)
      with s show ?thesis by (simp add: n bnd_def deref_ok ret_def)
    qed
  qed
  then show ?thesis using start by (simp add: while_node_def bnd_def gets_def)
qed

lemma elsewhere_step:
  assumes "elsewhere l ps w w1" and "elsewhere l qs w1 w2" and "qs \<subseteq> ps"
  shows "elsewhere l ps w w2"
  using assms by (auto intro: elsewhere_trans)

lemma unlink_all_ok:
  assumes w: "is_list w l qs" and f: "length qs < l_fuel w" and n: "qs \<noteq> []"
  shows "\<exists>w'. unlink_all l (\<lambda>_. ret ()) w = Inr (True, w') \<and> is_list w' l [] \<and> elsewhere l (fst ` set qs) w w' \<and>
    l_sched w' = l_sched w \<and> l_fresh w' = l_fresh w \<and> (\<forall>p\<in>fst ` set qs. nodes w' p = None)"
proof -
  define I where "I rs u w' \<longleftrightarrow> (\<exists>ds. qs = ds @ rs \<and> (\<forall>p\<in>fst ` set ds. nodes w' p = None)) \<and> is_list w' l rs \<and>
      elsewhere l (fst ` set qs) w w' \<and> l_sched w' = l_sched w \<and> l_fresh w' = l_fresh w" for rs and u :: unit and w'
  have "\<exists>r w'. while_node (\<lambda>p nd (_ :: unit). bnd (ret ()) (\<lambda>_. bnd (unlink l p) (\<lambda>_. ret (Inl () :: unit + unit))))
      (first_of qs NULL) () w = Inr (r, w') \<and> (case r of Inl y \<Rightarrow> I [] y w' | Inr z \<Rightarrow> False)"
  proof (rule while_node_each [OF _ _ f])
    fix q rs x w1 assume I: "I (q # rs) x w1"
    then obtain ds where ds: "qs = ds @ q # rs" "\<forall>p\<in>fst ` set ds. nodes w1 p = None" by (auto simp: I_def)
    have w1: "is_list w1 l (q # rs)" "elsewhere l (fst ` set qs) w w1" "l_sched w1 = l_sched w" "l_fresh w1 = l_fresh w" using I by (auto simp: I_def)
    from unlink_ok [of w1 l "[]" q rs] w1 obtain w2 where u: "unlink l (fst q) w1 = Inr (snd q, w2)" "is_list w2 l rs"
      "elsewhere l (fst ` set (q # rs)) w1 w2" "l_sched w2 = l_sched w1" "l_fresh w2 = l_fresh w1" "nodes w2 (fst q) = None" by auto
    have "distinct (map fst ds @ map fst (q # rs))" using w unfolding is_list_def ds(1) map_append by blast
    then have "fst ` set ds \<inter> fst ` set (q # rs) = {}" unfolding distinct_append set_map by blast
    then have out: "\<forall>p\<in>fst ` set ds. p \<notin> fst ` set (q # rs)" by blast
    have "\<forall>p\<in>fst ` set ds. p < l_fresh w" using is_list_fresh [OF w] unfolding ds(1) set_append image_Un by blast
    then have "\<forall>p\<in>fst ` set ds. p < l_fresh w1" using w1(2) unfolding elsewhere_def by (meson order_less_le_trans)
    with out have "\<forall>p\<in>fst ` set (ds @ [q]). nodes w2 p = None" using u ds(2) by (auto simp: elsewhere_def)
    moreover have "elsewhere l (fst ` set qs) w w2"
      by (rule elsewhere_step [OF w1(2) u(3)]) (auto simp: ds)
    ultimately have "I rs () w2" unfolding I_def
      by (intro conjI exI [of _ "ds @ [q]"]) (simp_all add: ds(1) u w1)
    then show "\<exists>nd r w'. fst q \<noteq> NULL \<and> nodes w1 (fst q) = Some nd \<and> n_next nd = first_of rs NULL \<and>
        bnd (ret ()) (\<lambda>_. bnd (unlink l (fst q)) (\<lambda>_. ret (Inl () :: unit + unit))) w1 = Inr (r, w') \<and>
        (case r of Inl y \<Rightarrow> I rs y w' | Inr z \<Rightarrow> False)"
      using u w1(1) by (auto simp: is_list_def bnd_def ret_def)
  qed (use w in \<open>simp add: I_def\<close>)
  then obtain r w' where r: "while_node (\<lambda>p nd (_ :: unit). bnd (ret ()) (\<lambda>_. bnd (unlink l p) (\<lambda>_. ret (Inl () :: unit + unit))))
      (first_of qs NULL) () w = Inr (r, w')" "case r of Inl y \<Rightarrow> I [] y w' | Inr z \<Rightarrow> False" by blast
  then have "I [] () w'" by (cases r) simp_all
  then show ?thesis
    using is_list_struct(1) [OF w] n r(1) unfolding I_def unlink_all_def
    by (intro exI [of _ w']) (simp add: bnd_def get_list_ok ret_def)
qed

lemma list_remove_all_ok:
  assumes w: "is_list w l qs" and f: "length qs < l_fuel w"
  shows "\<exists>w'. list_remove_all l w = Inr (if qs = [] then CC_ERR_VALUE_NOT_FOUND else CC_OK, w') \<and> is_list w' l [] \<and>
    elsewhere l (fst ` set qs) w w' \<and> l_sched w' = l_sched w \<and> l_fresh w' = l_fresh w \<and> (\<forall>p\<in>fst ` set qs. nodes w' p = None)"
proof (cases "qs = []")
  case True
  then show ?thesis using w
    by (auto simp: list_remove_all_def list_remove_all_cb_def unlink_all_def bnd_def get_list_ok [OF is_list_struct(1) [OF w]] ret_def)
next
  case False
  from unlink_all_ok [OF w f False] obtain w1 where u: "unlink_all l (\<lambda>_. ret ()) w = Inr (True, w1)" "is_list w1 l []"
    "elsewhere l (fst ` set qs) w w1" "l_sched w1 = l_sched w" "l_fresh w1 = l_fresh w" "\<forall>p\<in>fst ` set qs. nodes w1 p = None" by blast
  have "upd_list l (\<lambda>c. c\<lparr>l_head := NULL\<rparr>) w1 = Inr ((), w1)" "upd_list l (\<lambda>c. c\<lparr>l_tail := NULL\<rparr>) w1 = Inr ((), w1)"
    using is_list_struct(1) [OF u(2)] by (simp_all add: upd_list_ok fun_upd_idem)
  then show ?thesis using u False
    by (intro exI [of _ w1]) (simp add: list_remove_all_def list_remove_all_cb_def bnd_def ret_def)
qed

lemma list_destroy_ok:
  assumes w: "is_list w l qs" and f: "length qs < l_fuel w"
  shows "\<exists>w'. list_destroy l w = Inr ((), w') \<and> lists w' l = None \<and> (\<forall>p\<in>fst ` set qs. nodes w' p = None) \<and>
    elsewhere l (fst ` set qs) w w' \<and> l_sched w' = l_sched w \<and> l_fresh w' = l_fresh w \<and>
    (\<forall>p\<ge>l_fresh w'. nodes w' p = None \<and> lists w' p = None)"
proof -
  from list_remove_all_ok [OF w f] obtain st w1 where r: "list_remove_all l w = Inr (st, w1)" "is_list w1 l []"
    "elsewhere l (fst ` set qs) w w1" "l_sched w1 = l_sched w" "l_fresh w1 = l_fresh w" "\<forall>p\<in>fst ` set qs. nodes w1 p = None" by blast
  let ?f = "\<lambda>w. w\<lparr>lists := (lists w)(l := None)\<rparr>"
  have l: "l \<noteq> NULL" and above: "\<forall>p\<ge>l_fresh w. nodes w p = None \<and> lists w p = None"
      "\<forall>p\<ge>l_fresh w1. nodes w1 p = None \<and> lists w1 p = None" using w r(2) by (simp_all add: is_list_def)
  show ?thesis
  proof (cases "qs = []")
    case True
    then show ?thesis using l is_list_struct(1) [OF w] above
      by (intro exI [of _ "?f w"]) (simp add: list_destroy_def free_list_def bnd_def get_list_ok ret_def modify_def elsewhere_def)
  next
    case False
    then show ?thesis using l r above is_list_struct(1) [OF w] is_list_struct(1) [OF r(2)]
      by (intro exI [of _ "?f w1"]) (auto simp: list_destroy_def free_list_def bnd_def get_list_ok ret_def modify_def elsewhere_def)
  qed
qed

lemma list_new_ok:
  assumes "fst (draw (l_sched w))" and "0 < l_fresh w" and "\<forall>p\<ge>l_fresh w. nodes w p = None \<and> lists w p = None"
  shows "\<exists>w'. list_new w = Inr ((CC_OK, Some (l_fresh w)), w') \<and> is_list w' (l_fresh w) [] \<and> elsewhere (l_fresh w) {} w w'"
  using assms
  by (auto simp: list_new_def list_new_conf_def calloc_list_def bnd_def l_draw_ok gets_def modify_def ret_def is_list_def
      elsewhere_def sizeof_list_def)

text \<open>What \<open>link_behind\<close> does to the nodes: it closes the gap at \<open>p\<close> and puts \<open>p\<close> before \<open>base\<close>.\<close>

lemma link_behind_ok:
  assumes p: "nodes w p = Some \<lparr>n_data = x, n_next = f, n_prev = e\<rparr>" "p \<noteq> NULL" "e \<noteq> p" "f \<noteq> p"
    and ef: "e \<noteq> NULL \<Longrightarrow> nodes w e \<noteq> None" "f \<noteq> NULL \<Longrightarrow> nodes w f \<noteq> None"
    and ns: "ns = put_prev f e (put_next e f (nodes w))"
    and b: "ns base = Some nb" "n_prev nb = a" "base \<noteq> NULL" "base \<noteq> p"
    and a: "a \<noteq> p" "a \<noteq> base" "a \<noteq> NULL \<Longrightarrow> nodes w a \<noteq> None"
  shows "link_behind base p w =
    Inr ((), w\<lparr>nodes := put_prev base p (put_next a p (ns(p \<mapsto> \<lparr>n_data = x, n_next = base, n_prev = a\<rparr>)))\<rparr>)"
proof -
  have np: "ns p = nodes w p" using p ns by (cases "e = NULL"; cases "f = NULL") auto
  have na: "a \<noteq> NULL \<Longrightarrow> ns a \<noteq> None" using a(3) by (simp add: ns)
  let ?w = "w\<lparr>nodes := ns\<rparr>"
  have c1: "bnd (deref p) (\<lambda>i. whenM (n_next i \<noteq> NULL) (set_prev (n_next i) (n_prev i))) w =
      Inr ((), w\<lparr>nodes := put_prev f e (nodes w)\<rparr>)"
    by (rule bridge_prev [OF p(1) ef(2)])
  have c2: "bnd (deref p) (\<lambda>i. whenM (n_prev i \<noteq> NULL) (set_next (n_prev i) (n_next i))) (w\<lparr>nodes := put_prev f e (nodes w)\<rparr>) =
      Inr ((), ?w)"
    using bridge_next [of "w\<lparr>nodes := put_prev f e (nodes w)\<rparr>" p x f e] p ef(1) unfolding ns put_commute [symmetric]
    by (cases "f = NULL") auto
  have c3: "block [set_prev p NULL, set_next p base, set_prev base p] ?w =
      Inr ((), w\<lparr>nodes := put_prev base p (ns(p \<mapsto> \<lparr>n_data = x, n_next = base, n_prev = NULL\<rparr>))\<rparr>)"
    using np p b by (simp add: bnd_def set_prev_def set_next_def upd_node_def ret_def put_prev_def)
  have c4: "block [set_prev p a, bnd (deref p) (\<lambda>i. set_next (n_prev i) p), set_next p base, set_prev base p] ?w =
      Inr ((), w\<lparr>nodes := put_prev base p (put_next a p (ns(p \<mapsto> \<lparr>n_data = x, n_next = base, n_prev = a\<rparr>)))\<rparr>)" if "a \<noteq> NULL"
    using np p b a na that
    by (auto simp: bnd_def set_prev_def set_next_def upd_node_def ret_def put_prev_def put_next_def deref_ok fun_upd_twist)
  have d: "deref base ?w = Inr (nb, ?w)" by (rule deref_ok) (simp add: b)
  have c5: "bnd (deref base) (\<lambda>b.
       if n_prev b = NULL then block [set_prev p NULL, set_next p base, set_prev base p]
       else block [set_prev p (n_prev b), bnd (deref p) (\<lambda>i. set_next (n_prev i) p), set_next p base, set_prev base p]) ?w =
     Inr ((), w\<lparr>nodes := put_prev base p (put_next a p (ns(p \<mapsto> \<lparr>n_data = x, n_next = base, n_prev = a\<rparr>)))\<rparr>)"
    by (rule bnd_eqI, rule d, cases "a = NULL") (use b(2) c3 c4 in \<open>simp_all del: block.simps\<close>)
  show ?thesis
    unfolding link_behind_def
    by (rule block_eqI, rule c1, rule block_eqI, rule c2, rule block_eqI, rule c5) (simp add: ret_def)
qed

lemma link_behind_moves:
  assumes S: "seg (nodes w) NULL (xs @ b # ys @ p # zs) NULL" and D: "distinct (map fst (xs @ b # ys @ p # zs))"
  shows "\<exists>ns. link_behind (fst b) (fst p) w = Inr ((), w\<lparr>nodes := ns\<rparr>) \<and> seg ns NULL (xs @ p # b # ys @ zs) NULL \<and>
    (\<forall>r. r \<notin> fst ` set (xs @ b # ys @ p # zs) \<longrightarrow> ns r = nodes w r)"
proof -
  have S': "seg (nodes w) NULL ((xs @ b # ys) @ p # zs) NULL" and D': "distinct (map fst ((xs @ b # ys) @ p # zs))"
    using S D by simp_all
  let ?e = "final_of NULL (xs @ b # ys)" and ?f = "first_of zs NULL" and ?a = "final_of NULL xs"
  define ns where "ns = put_prev ?f ?e (put_next ?e ?f (nodes w))"
  note gap = seg_bypass [OF S' D' ns_def]
  have s: "seg (nodes w) NULL (xs @ b # ys) (fst p)" "seg (nodes w) (fst p) zs NULL" "fst p \<noteq> NULL" "fst b \<noteq> NULL"
    "nodes w (fst p) = Some \<lparr>n_data = snd p, n_next = ?f, n_prev = ?e\<rparr>"
    using S' by (simp_all add: seg_append first_of_append final_of_append)
  have d: "fst p \<notin> fst ` set (xs @ b # ys)" "fst p \<notin> fst ` set zs" "fst ` set (xs @ b # ys) \<inter> fst ` set zs = {}"
    "fst p \<notin> fst ` set xs" "fst b \<notin> fst ` set xs" "fst b \<noteq> fst p"
    using D by auto
  note e = seg_ends [OF s(1,2) d(3)]
  have nb: "ns (fst b) = Some \<lparr>n_data = snd b, n_next = first_of (ys @ zs) NULL, n_prev = ?a\<rparr>"
    and s0: "seg ns NULL (xs @ (b # ys @ zs)) NULL" and s1: "seg ns NULL xs (fst b)"
    using gap(1) by (simp_all add: seg_append)
  have dd: "distinct (map fst (xs @ p # (b # ys @ zs)))" using D by auto
  have ea: "?a \<noteq> q" if "q \<notin> fst ` set xs" "q \<noteq> NULL" for q
    using seg_ends(7) [of ns NULL xs "fst b" NULL "[]" NULL q] s1 that by simp
  have na: "?a \<noteq> NULL \<Longrightarrow> ns ?a \<noteq> None" using seg_ends(5) [of ns NULL xs "fst b" NULL "[]" NULL] s1 by simp
  have run: "link_behind (fst b) (fst p) w = Inr ((), w\<lparr>nodes := put_prev (fst b) (fst p) (put_next ?a (fst p)
      (ns(fst p \<mapsto> \<lparr>n_data = snd p, n_next = fst b, n_prev = ?a\<rparr>)))\<rparr>)"
  proof (rule link_behind_ok [OF s(5,3) _ _ _ _ ns_def nb _ s(4) d(6)])
    show "?e \<noteq> fst p" "?f \<noteq> fst p" using e(7) [OF d(1) s(3)] e(8) [OF d(2) s(3)] by simp_all
    show "?a \<noteq> fst p" "?a \<noteq> fst b" using ea d s by simp_all
  qed (use e(5,6) na in \<open>auto simp: ns_def\<close>)
  have q: "put_prev (fst b) (fst p) (put_next ?a (fst p) (ns(fst p \<mapsto> \<lparr>n_data = snd p, n_next = fst b, n_prev = ?a\<rparr>))) =
    put_prev (first_of (b # ys @ zs) NULL) (fst p) (put_next (final_of NULL xs) (fst p)
      (ns(fst p \<mapsto> \<lparr>n_data = snd p, n_next = first_of (b # ys @ zs) NULL, n_prev = final_of NULL xs\<rparr>)))" by simp
  note put_in = seg_put_in [OF s0 dd s(3) q]
  show ?thesis
    by (rule exI, rule conjI, rule run, rule conjI, rule put_in(1)) (use put_in(2) gap(3) in auto)
qed

end
