(* ===== verification/Clist_Spec.thy ===== *)
theory Clist_Spec
  imports Clist
begin

text \<open>
  The contract of a list: any sequence of operations on it answers, and leaves it, as the same operations on
  the plain sequence of its elements do, and does not touch another list. A step of the machine is an operation;
  the locale \<open>simulation\<close> lifts a lemma about one step to sequences of steps.
\<close>

section \<open>Sequences of operations\<close>

primrec mapM :: "('o \<Rightarrow> ('s, 'r) M) \<Rightarrow> 'o list \<Rightarrow> ('s, 'r list) M" where
  "mapM f [] = ret []"
| "mapM f (x # xs) = bnd (f x) (\<lambda>r. bnd (mapM f xs) (\<lambda>rs. ret (r # rs)))"

primrec answers :: "('o \<Rightarrow> 'a \<Rightarrow> 'r \<times> 'a) \<Rightarrow> 'o list \<Rightarrow> 'a \<Rightarrow> 'r list \<times> 'a" where
  "answers f [] a = ([], a)"
| "answers f (x # xs) a = (let (r, b) = f x a; (rs, c) = answers f xs b in (r # rs, c))"

text \<open>\<open>R n s a\<close>: the state \<open>s\<close> stands for \<open>a\<close>, and \<open>n\<close> more operations fit in the bound of the loops.\<close>

locale simulation =
  fixes exec :: "'o \<Rightarrow> ('s, 'r) M" and spec :: "'o \<Rightarrow> 'a \<Rightarrow> 'r \<times> 'a" and R :: "nat \<Rightarrow> 's \<Rightarrow> 'a \<Rightarrow> bool"
  assumes step: "R (Suc n) s a \<Longrightarrow> \<exists>s'. exec x s = Inr (fst (spec x a), s') \<and> R n s' (snd (spec x a))"
begin

lemma simulates:
  "R (length xs + n) s a \<Longrightarrow>
   \<exists>s'. mapM exec xs s = Inr (fst (answers spec xs a), s') \<and> R n s' (snd (answers spec xs a))"
proof (induction xs arbitrary: s a)
  case Nil
  then show ?case by (simp add: ret_def)
next
  case (Cons x xs)
  obtain r b where x: "spec x a = (r, b)" by (cases "spec x a")
  obtain rs c where xs: "answers spec xs b = (rs, c)" by (cases "answers spec xs b")
  have "R (Suc (length xs + n)) s a" using Cons.prems by simp
  from step [OF this, of x] obtain s1 where s1: "exec x s = Inr (r, s1)" "R (length xs + n) s1 b" by (auto simp: x)
  from Cons.IH [OF s1(2)] obtain s2 where "mapM exec xs s1 = Inr (rs, s2)" "R n s2 c" by (auto simp: xs)
  then show ?case using s1 x xs by (simp add: bnd_def ret_def)
qed

end

section \<open>The operations of a list\<close>

datatype list_op =
    Add_first addr
  | Add_last addr
  | Add_at addr nat
  | Remove addr
  | Remove_at nat
  | Remove_first
  | Remove_last
  | Remove_all
  | Replace_at addr nat
  | Get_first
  | Get_last
  | Get_at nat
  | Size_of
  | Contains addr
  | Index_of addr

datatype answer =
    Status cc_stat
  | Element cc_stat "addr option"
  | Count nat
  | Index cc_stat "nat option"

definition answer :: "('a \<Rightarrow> answer) \<Rightarrow> 'a L \<Rightarrow> answer L" where
  "answer f m = bnd m (\<lambda>x. ret (f x))"

primrec list_exec :: "addr \<Rightarrow> list_op \<Rightarrow> answer L" where
  "list_exec l (Add_first x) = answer Status (list_add_first l x)"
| "list_exec l (Add_last x) = answer Status (list_add_last l x)"
| "list_exec l (Add_at x i) = answer Status (list_add_at l x i)"
| "list_exec l (Remove x) = answer (case_prod Element) (list_remove l x)"
| "list_exec l (Remove_at i) = answer (case_prod Element) (list_remove_at l i)"
| "list_exec l Remove_first = answer (case_prod Element) (list_remove_first l)"
| "list_exec l Remove_last = answer (case_prod Element) (list_remove_last l)"
| "list_exec l Remove_all = answer Status (list_remove_all l)"
| "list_exec l (Replace_at x i) = answer (case_prod Element) (list_replace_at l x i)"
| "list_exec l Get_first = answer (case_prod Element) (list_get_first l)"
| "list_exec l Get_last = answer (case_prod Element) (list_get_last l)"
| "list_exec l (Get_at i) = answer (case_prod Element) (list_get_at l i)"
| "list_exec l Size_of = answer Count (list_size l)"
| "list_exec l (Contains x) = answer Count (list_contains l x)"
| "list_exec l (Index_of x) = answer (case_prod Index) (list_index_of l x cmp_addr)"

text \<open>The same operations on the sequence of the elements and the outcomes of the allocations to come.\<close>

type_synonym plain = "addr list \<times> mem_schedule"

definition adding :: "addr list \<Rightarrow> plain \<Rightarrow> answer \<times> plain" where
  "adding ys a =
     (let (ok, m) = draw (snd a) in if ok then (Status CC_OK, (ys, m)) else (Status CC_ERR_ALLOC, (fst a, m)))"

definition found :: "cc_stat \<Rightarrow> bool \<Rightarrow> addr \<Rightarrow> addr list \<Rightarrow> plain \<Rightarrow> answer \<times> plain" where
  "found missing b x ys a = (if b then (Element CC_OK (Some x), (ys, snd a)) else (Element missing None, a))"

primrec list_spec :: "list_op \<Rightarrow> plain \<Rightarrow> answer \<times> plain" where
  "list_spec (Add_first x) a = adding (x # fst a) a"
| "list_spec (Add_last x) a = adding (fst a @ [x]) a"
| "list_spec (Add_at x i) a =
     (if i < length (fst a) then adding (take i (fst a) @ x # drop i (fst a)) a else (Status CC_ERR_OUT_OF_RANGE, a))"
| "list_spec (Remove x) a = found CC_ERR_VALUE_NOT_FOUND (x \<in> set (fst a)) x (remove1 x (fst a)) a"
| "list_spec (Remove_at i) a =
     found CC_ERR_OUT_OF_RANGE (i < length (fst a)) (fst a ! i) (take i (fst a) @ drop (Suc i) (fst a)) a"
| "list_spec Remove_first a = found CC_ERR_VALUE_NOT_FOUND (fst a \<noteq> []) (hd (fst a)) (tl (fst a)) a"
| "list_spec Remove_last a = found CC_ERR_VALUE_NOT_FOUND (fst a \<noteq> []) (last (fst a)) (butlast (fst a)) a"
| "list_spec Remove_all a = (Status (if fst a = [] then CC_ERR_VALUE_NOT_FOUND else CC_OK), ([], snd a))"
| "list_spec (Replace_at x i) a = found CC_ERR_OUT_OF_RANGE (i < length (fst a)) (fst a ! i) ((fst a)[i := x]) a"
| "list_spec Get_first a = found CC_ERR_VALUE_NOT_FOUND (fst a \<noteq> []) (hd (fst a)) (fst a) a"
| "list_spec Get_last a = found CC_ERR_VALUE_NOT_FOUND (fst a \<noteq> []) (last (fst a)) (fst a) a"
| "list_spec (Get_at i) a = found CC_ERR_OUT_OF_RANGE (i < length (fst a)) (fst a ! i) (fst a) a"
| "list_spec Size_of a = (Count (length (fst a)), a)"
| "list_spec (Contains x) a = (Count (count_list (fst a) x), a)"
| "list_spec (Index_of x) a =
     (let i = length (takeWhile (\<lambda>y. y \<noteq> x) (fst a)) in
      (if i < length (fst a) then Index CC_OK (Some i) else Index CC_ERR_OUT_OF_RANGE None, a))"

text \<open>What an operation may do to the memory: the list has now the nodes \<open>qs'\<close>, which are its own or new.\<close>

definition becomes :: "addr \<Rightarrow> lmem \<Rightarrow> (addr \<times> addr) list \<Rightarrow> lmem \<Rightarrow> (addr \<times> addr) list \<Rightarrow> bool" where
  "becomes l w qs w' qs' \<longleftrightarrow> is_list w' l qs' \<and> elsewhere l (fst ` set qs) w w' \<and>
     fst ` set qs' \<subseteq> fst ` set qs \<union> {p. l_fresh w \<le> p}"

lemma becomes_same: "is_list w l qs \<Longrightarrow> becomes l w qs w qs"
  by (simp add: becomes_def)

lemma becomes_sched: "is_list w l qs \<Longrightarrow> becomes l w qs (w\<lparr>l_sched := m\<rparr>) qs"
  by (simp add: becomes_def elsewhere_def)

lemma becomes_less:
  assumes "is_list w' l qs'" and "elsewhere l (fst ` set qs) w w'" and "fst ` set qs' \<subseteq> fst ` set qs"
  shows "becomes l w qs w' qs'"
  using assms by (auto simp: becomes_def)

lemma becomes_inserted:
  assumes "is_list w l (xs @ ys)"
  shows "becomes l w (xs @ ys) (with_inserted l xs x ys w) (xs @ (l_fresh w, x) # ys)"
  using list_inserted [OF assms, of x] by (auto simp: becomes_def)

text \<open>Another list, with other nodes, is as before and still has other nodes.\<close>

lemma becomes_other:
  assumes b: "becomes l w qs w' qs'" and k: "is_list w k ks" "k \<noteq> l" "fst ` set ks \<inter> fst ` set qs = {}"
  shows "is_list w' k ks \<and> fst ` set ks \<inter> fst ` set qs' = {}"
proof -
  have "\<forall>p\<ge>l_fresh w'. nodes w' p = None \<and> lists w' p = None" using b by (simp add: becomes_def is_list_def)
  with b k have "is_list w' k ks" using is_list_elsewhere by (auto simp: becomes_def)
  moreover have "\<forall>p\<in>fst ` set ks. p < l_fresh w" using is_list_fresh [OF k(1)] by blast
  then have "fst ` set ks \<inter> fst ` set qs' = {}" using b k(3) unfolding becomes_def by force
  ultimately show ?thesis by blast
qed

text \<open>One operation, started in \<open>w\<close>, answers and leaves what \<open>r\<close> says.\<close>

definition does :: "addr \<Rightarrow> lmem \<Rightarrow> (addr \<times> addr) list \<Rightarrow> answer L \<Rightarrow> answer \<times> plain \<Rightarrow> bool" where
  "does l w qs m r \<longleftrightarrow> (\<exists>w' qs'. m w = Inr (fst r, w') \<and> becomes l w qs w' qs' \<and> snd r = (map snd qs', l_sched w'))"

lemma doesI:
  "m w = Inr (fst r, w') \<Longrightarrow> becomes l w qs w' qs' \<Longrightarrow> snd r = (map snd qs', l_sched w') \<Longrightarrow> does l w qs m r"
  by (auto simp: does_def)

lemma does_add:
  assumes "fst (draw (l_sched w)) \<Longrightarrow> m w = Inr (CC_OK, with_inserted l xs x ys w)"
    and "\<not> fst (draw (l_sched w)) \<Longrightarrow> m w = Inr (CC_ERR_ALLOC, w\<lparr>l_sched := snd (draw (l_sched w))\<rparr>)"
    and w: "is_list w l (xs @ ys)"
  shows "does l w (xs @ ys) (answer Status m) (adding (map snd xs @ x # map snd ys) (map snd (xs @ ys), l_sched w))"
proof (cases "fst (draw (l_sched w))")
  case True
  then show ?thesis
    using assms(1) list_inserted [OF w, of x]
    by (intro doesI [OF _ becomes_inserted [OF w]]) (auto simp: answer_def bnd_def ret_def adding_def split: prod.splits)
next
  case False
  then show ?thesis
    using assms(2)
    by (intro doesI [OF _ becomes_sched [OF w, of "snd (draw (l_sched w))"]]) (auto simp: answer_def bnd_def ret_def adding_def split: prod.splits)
qed

lemma does_take:
  assumes "\<exists>w'. m w = Inr ((CC_OK, Some x), w') \<and> is_list w' l qs' \<and> elsewhere l (fst ` set qs) w w' \<and> l_sched w' = l_sched w"
    and "fst ` set qs' \<subseteq> fst ` set qs" and "b" and "map snd qs' = ys"
  shows "does l w qs (answer (case_prod Element) m) (found e b x ys (xs, l_sched w))"
proof -
  from assms(1) obtain w' where "m w = Inr ((CC_OK, Some x), w')" "is_list w' l qs'" "elsewhere l (fst ` set qs) w w'"
    "l_sched w' = l_sched w" by blast
  then show ?thesis using assms(2-)
    by (intro doesI [OF _ becomes_less]) (auto simp: answer_def bnd_def ret_def found_def)
qed

lemma does_read:
  assumes "is_list w l qs" and "m w = Inr (y, w)" and "r = (f y, (map snd qs, l_sched w))"
  shows "does l w qs (answer f m) r"
  using assms by (intro doesI [OF _ becomes_same]) (auto simp: answer_def bnd_def ret_def)

lemma cmp_addr_0 [simp]: "cmp_addr d x = 0 \<longleftrightarrow> d = x"
  by (simp add: cmp_addr_def)

lemma list_exec_does:
  assumes w: "is_list w l qs" and f: "length qs < l_fuel w"
  shows "does l w qs (list_exec l x) (list_spec x (map snd qs, l_sched w))"
proof (cases x)
  case (Add_first d)
  then show ?thesis
    using does_add [of w "list_add_first l d" l "[]" d qs] list_add_first_ok [OF w] list_add_fails(2) w by simp
next
  case (Add_last d)
  then show ?thesis
    using does_add [of w "list_add_last l d" l qs d "[]"] list_add_last_ok [OF w] list_add_fails(1) w by simp
next
  case (Add_at d i)
  show ?thesis
  proof (cases "i < length qs")
    case True
    let ?xs = "take i qs" and ?ys = "drop i qs"
    have w': "is_list w l (?xs @ ?ys)" using w by simp
    have "fst (draw (l_sched w)) \<Longrightarrow> list_add_at l d i w = Inr (CC_OK, with_inserted l ?xs d ?ys w)"
      using list_add_at_ok [OF w', of d] True by simp
    moreover have "\<not> fst (draw (l_sched w)) \<Longrightarrow> list_add_at l d i w = Inr (CC_ERR_ALLOC, w\<lparr>l_sched := snd (draw (l_sched w))\<rparr>)"
      using True by (simp add: list_add_at_def bnd_def get_node_at_ok [OF w] calloc_node_ok(2) ret_def)
    ultimately show ?thesis
      using does_add [of w "list_add_at l d i" l ?xs d ?ys] w True by (simp add: Add_at take_map drop_map)
  next
    case False
    then show ?thesis using list_add_at_outside [OF w] by (simp add: Add_at does_read [OF w])
  qed
next
  case (Remove d)
  show ?thesis
  proof (cases "d \<in> snd ` set qs")
    case True
    then obtain xs q ys where q: "qs = xs @ q # ys" "snd q = d" "\<forall>p\<in>set xs. snd p \<noteq> d"
      using split_list_first_prop [of qs "\<lambda>p. snd p = d"] by fastforce
    moreover from this have "remove1 d (map snd qs) = map snd (xs @ ys)" "d \<notin> snd ` set xs" by (auto simp: remove1_append)
    ultimately show ?thesis
      using list_remove_ok [of w l xs "fst q" d ys] w f True by (auto simp: Remove intro!: does_take)
  next
    case False
    then show ?thesis
      using list_remove_absent [OF w f False] by (simp add: Remove found_def image_iff does_read [OF w])
  qed
next
  case (Remove_at i)
  show ?thesis
  proof (cases "i < length qs")
    case True
    have sub: "fst ` set (take i qs @ drop (Suc i) qs) \<subseteq> fst ` set qs"
      by (auto dest: in_set_takeD in_set_dropD)
    show ?thesis
      unfolding Remove_at list_exec.simps list_spec.simps fst_conv
      by (rule does_take [OF _ sub]) (use list_remove_at_ok [OF w, of i] True in \<open>simp_all add: take_map drop_map\<close>)
  next
    case False
    then show ?thesis
      by (auto simp: Remove_at found_def list_remove_at_def bnd_def get_node_at_ok [OF w] ret_def intro!: does_read [OF w])
  qed
next
  case Remove_first
  show ?thesis
  proof (cases qs)
    case Nil
    then show ?thesis
      using w list_remove_empty(1) [of w l] by (auto simp: Remove_first found_def intro!: does_read)
  next
    case (Cons q ys)
    then show ?thesis
      using list_remove_first_ok [of w l q ys] w by (auto simp: Remove_first intro!: does_take)
  qed
next
  case Remove_last
  show ?thesis
  proof (cases qs rule: rev_cases)
    case Nil
    then show ?thesis
      using w list_remove_empty(2) [of w l] by (auto simp: Remove_last found_def intro!: does_read)
  next
    case (snoc ys q)
    then show ?thesis
      using list_remove_last_ok [of w l ys q] w by (auto simp: Remove_last map_butlast intro!: does_take)
  qed
next
  case Remove_all
  from list_remove_all_ok [OF w f] obtain w' where
    "list_remove_all l w = Inr (if qs = [] then CC_ERR_VALUE_NOT_FOUND else CC_OK, w')" "is_list w' l []"
    "elsewhere l (fst ` set qs) w w'" "l_sched w' = l_sched w" by blast
  then show ?thesis
    by (intro doesI [OF _ becomes_less [of w' l "[]" qs w]]) (simp_all add: Remove_all answer_def bnd_def ret_def)
next
  case (Replace_at d i)
  show ?thesis
  proof (cases "i < length qs")
    case True
    have "map fst (qs[i := (fst (qs ! i), d)]) = map fst qs" using True list_update_id [of "map fst qs" i] by (simp add: map_update)
    then have sub: "fst ` set (qs[i := (fst (qs ! i), d)]) \<subseteq> fst ` set qs" by (metis order_refl set_map)
    show ?thesis
      unfolding Replace_at list_exec.simps list_spec.simps fst_conv
      by (rule does_take [OF _ sub]) (use list_replace_at_ok [OF w True, of d] True in \<open>simp_all add: map_update\<close>)
  next
    case False
    then show ?thesis
      by (auto simp: Replace_at found_def list_replace_at_def bnd_def get_node_at_ok [OF w] ret_def intro!: does_read [OF w])
  qed
next
  case Get_first
  show ?thesis
    unfolding Get_first list_exec.simps by (rule does_read [OF w], rule list_reads_ok(2) [OF w], simp add: found_def hd_map)
next
  case Get_last
  show ?thesis
    unfolding Get_last list_exec.simps by (rule does_read [OF w], rule list_reads_ok(3) [OF w], simp add: found_def last_map)
next
  case (Get_at i)
  show ?thesis
    unfolding Get_at list_exec.simps by (rule does_read [OF w], rule list_reads_ok(4) [OF w], simp add: found_def)
next
  case Size_of
  show ?thesis
    unfolding Size_of list_exec.simps by (rule does_read [OF w], rule list_reads_ok(1) [OF w], simp)
next
  case (Contains d)
  have "count_list (map snd qs) d = length (filter (\<lambda>y. y = d) (map snd qs))" by (induction qs) auto
  then show ?thesis
    unfolding Contains list_exec.simps list_contains_def
    by - (rule does_read [OF w], rule list_contains_value_ok [OF w f], simp)
next
  case (Index_of d)
  show ?thesis
    unfolding Index_of list_exec.simps by (rule does_read [OF w], rule list_index_of_ok [OF w f], simp add: Let_def)
qed

section \<open>Any sequence of operations\<close>

definition holding :: "addr \<Rightarrow> nat \<Rightarrow> lmem \<Rightarrow> plain \<Rightarrow> bool" where
  "holding l n w a \<longleftrightarrow>
     (\<exists>qs. is_list w l qs \<and> a = (map snd qs, l_sched w) \<and> length qs + n < l_fuel w)"

text \<open>\<open>holding\<close> with a second list \<open>k\<close> whose nodes are \<open>ks\<close>.\<close>

definition beside :: "addr \<Rightarrow> addr \<Rightarrow> (addr \<times> addr) list \<Rightarrow> nat \<Rightarrow> lmem \<Rightarrow> plain \<Rightarrow> bool" where
  "beside l k ks n w a \<longleftrightarrow>
     (\<exists>qs. is_list w l qs \<and> a = (map snd qs, l_sched w) \<and> length qs + n < l_fuel w \<and>
        k \<noteq> l \<and> is_list w k ks \<and> fst ` set ks \<inter> fst ` set qs = {})"

lemma list_spec_length: "length (fst (snd (list_spec x a))) \<le> Suc (length (fst a))"
  by (cases x) (auto simp: adding_def found_def Let_def length_remove1 split: prod.splits)

lemma list_exec_step:
  assumes w: "is_list w l qs" and f: "length qs + Suc n < l_fuel w"
  shows "\<exists>w' qs'. list_exec l x w = Inr (fst (list_spec x (map snd qs, l_sched w)), w') \<and> becomes l w qs w' qs' \<and>
    snd (list_spec x (map snd qs, l_sched w)) = (map snd qs', l_sched w') \<and> length qs' + n < l_fuel w'"
proof -
  from list_exec_does [OF w, of x] f obtain w' qs' where e:
    "list_exec l x w = Inr (fst (list_spec x (map snd qs, l_sched w)), w')" "becomes l w qs w' qs'"
    "snd (list_spec x (map snd qs, l_sched w)) = (map snd qs', l_sched w')" by (auto simp: does_def)
  moreover have "length qs' \<le> Suc (length qs)"
    using list_spec_length [of x "(map snd qs, l_sched w)"] e(3) by simp
  moreover have "l_fuel w' = l_fuel w" using e(2) by (simp add: becomes_def elsewhere_def)
  ultimately show ?thesis using f by fastforce
qed

interpretation one_list: simulation "list_exec l" list_spec "holding l" for l
proof
  fix n w a x assume "holding l (Suc n) w a"
  then obtain qs where "is_list w l qs" "a = (map snd qs, l_sched w)" "length qs + Suc n < l_fuel w" by (auto simp: holding_def)
  with list_exec_step [of w l qs n x] show "\<exists>w'. list_exec l x w = Inr (fst (list_spec x a), w') \<and> holding l n w' (snd (list_spec x a))"
    unfolding holding_def becomes_def by metis
qed

interpretation two_lists: simulation "list_exec l" list_spec "beside l k ks" for l k ks
proof
  fix n w a x assume "beside l k ks (Suc n) w a"
  then obtain qs where w: "is_list w l qs" "a = (map snd qs, l_sched w)" "length qs + Suc n < l_fuel w"
    "is_list w k ks" "k \<noteq> l" "fst ` set ks \<inter> fst ` set qs = {}" by (auto simp: beside_def)
  from list_exec_step [OF w(1,3), of x] obtain w' qs' where
    "list_exec l x w = Inr (fst (list_spec x a), w')" "becomes l w qs w' qs'"
    "snd (list_spec x a) = (map snd qs', l_sched w')" "length qs' + n < l_fuel w'" unfolding w(2) by blast
  moreover from becomes_other [OF this(2) w(4-6)] have "is_list w' k ks" "fst ` set ks \<inter> fst ` set qs' = {}" by simp_all
  ultimately show "\<exists>w'. list_exec l x w = Inr (fst (list_spec x a), w') \<and> beside l k ks n w' (snd (list_spec x a))"
    using w(5) unfolding beside_def becomes_def by blast
qed

text \<open>Two new lists, at 1 and 49.\<close>

definition two_new_lists :: lmem where
  "two_new_lists = \<lparr>nodes = Map.empty,
     lists = [1 \<mapsto> \<lparr>l_size = 0, l_head = NULL, l_tail = NULL\<rparr>, 49 \<mapsto> \<lparr>l_size = 0, l_head = NULL, l_tail = NULL\<rparr>],
     l_fresh = 97, l_sched = [], l_fuel = 100\<rparr>"

lemma two_new_lists_ok: "is_list two_new_lists 1 []" "is_list two_new_lists 49 []" "l_fuel two_new_lists = 100"
    "l_sched two_new_lists = []" "stands_for two_new_lists 1 []" "stands_for two_new_lists 49 []"
  by (auto simp: stands_for_def is_list_def two_new_lists_def)

text \<open>Two lists in use: 5 and 6 at 1, and 7 at 49.\<close>

definition two_used_lists :: lmem where
  "two_used_lists = \<lparr>nodes = [97 \<mapsto> \<lparr>n_data = 5, n_next = 121, n_prev = NULL\<rparr>,
       121 \<mapsto> \<lparr>n_data = 6, n_next = NULL, n_prev = 97\<rparr>, 145 \<mapsto> \<lparr>n_data = 7, n_next = NULL, n_prev = NULL\<rparr>],
     lists = [1 \<mapsto> \<lparr>l_size = 2, l_head = 97, l_tail = 121\<rparr>, 49 \<mapsto> \<lparr>l_size = 1, l_head = 145, l_tail = 145\<rparr>],
     l_fresh = 169, l_sched = [], l_fuel = 100\<rparr>"

lemma two_used_lists_ok: "is_list two_used_lists 1 [(97, 5), (121, 6)]" "is_list two_used_lists 49 [(145, 7)]"
    "l_fuel two_used_lists = 100" "l_sched two_used_lists = []"
  by (auto simp: is_list_def two_used_lists_def)

text \<open>C28: any sequence of operations on a list runs to the end, gives the answers that the same operations give on the
  sequence of its elements, and leaves a list of the elements they leave; an addition fails exactly when it does on the sequence, for
  an index out of range or because the allocator says so.\<close>

theorem list_refines_sequence:
  assumes "stands_for w l xs" and "length xs + length ops < l_fuel w"
  shows "\<exists>w'. mapM (list_exec l) ops w = Inr (fst (answers list_spec ops (xs, l_sched w)), w') \<and>
    stands_for w' l (fst (snd (answers list_spec ops (xs, l_sched w)))) \<and>
    l_sched w' = snd (snd (answers list_spec ops (xs, l_sched w)))"
proof -
  have "holding l (length ops + 0) w (xs, l_sched w)" using assms by (auto simp: holding_def stands_for_def)
  from one_list.simulates [OF this] show ?thesis by (fastforce simp: holding_def stands_for_def)
qed

theorem list_refines_sequence_witness:
  "\<exists>w'. mapM (list_exec 1) [Add_last 7, Add_first 8, Add_at 9 1, Remove 7, Get_last] two_new_lists =
      Inr ([Status CC_OK, Status CC_OK, Status CC_OK, Element CC_OK (Some 7), Element CC_OK (Some 9)], w') \<and>
    stands_for w' 1 [8, 9]"
  using list_refines_sequence [of two_new_lists 1 "[]" "[Add_last 7, Add_first 8, Add_at 9 1, Remove 7, Get_last]"]
  by (auto simp: two_new_lists_ok adding_def found_def)

text \<open>C29: operations on one list, whatever they are, leave every other list exactly as it was, node by node.\<close>

theorem lists_apart:
  assumes "is_list w l qs" and "is_list w k ks" and "k \<noteq> l" and "fst ` set ks \<inter> fst ` set qs = {}"
    and "length qs + length ops < l_fuel w"
  shows "\<exists>rs w'. mapM (list_exec l) ops w = Inr (rs, w') \<and> is_list w' k ks"
proof -
  have "beside l k ks (length ops + 0) w (map snd qs, l_sched w)" using assms by (auto simp: beside_def)
  from two_lists.simulates [OF this] show ?thesis by (auto simp: beside_def)
qed

theorem lists_apart_witness:
  "\<exists>rs w'. mapM (list_exec 1) [Add_last 7, Add_first 8, Remove_last] two_used_lists = Inr (rs, w') \<and>
    is_list w' 49 [(145, 7)]"
  using lists_apart [of two_used_lists 1 "[(97, 5), (121, 6)]" 49 "[(145, 7)]" "[Add_last 7, Add_first 8, Remove_last]"]
  by (auto simp: two_used_lists_ok)

lemma answers_append:
  "answers f (xs @ ys) a =
     (let (rs, b) = answers f xs a; (ts, c) = answers f ys b in (rs @ ts, c))"
  by (induction xs arbitrary: a) (auto simp: Let_def split: prod.splits)

lemma answers_add_last:
  "answers list_spec (map Add_last xs) (ys, []) = (replicate (length xs) (Status CC_OK), (ys @ xs, []))"
  by (induction xs arbitrary: ys) (auto simp: adding_def)

lemma answers_add_first:
  "answers list_spec (map Add_first xs) (ys, []) = (replicate (length xs) (Status CC_OK), (rev xs @ ys, []))"
  by (induction xs arbitrary: ys) (auto simp: adding_def)

lemma answers_remove_first:
  "answers list_spec (replicate (length xs) Remove_first) (xs @ ys, m) = (map (\<lambda>x. Element CC_OK (Some x)) xs, (ys, m))"
  by (induction xs) (auto simp: found_def)

text \<open>what is put in with \<open>list_add_last\<close> comes out of \<open>list_remove_first\<close> in the same order, and then the list is empty.\<close>

lemma list_is_a_queue:
  assumes "stands_for w l []" and "l_sched w = []" and "2 * length xs < l_fuel w"
  shows "\<exists>w'. mapM (list_exec l) (map Add_last xs @ replicate (length xs) Remove_first) w =
      Inr (replicate (length xs) (Status CC_OK) @ map (\<lambda>x. Element CC_OK (Some x)) xs, w') \<and> stands_for w' l []"
proof -
  have "holding l (length (map Add_last xs @ replicate (length xs) Remove_first) + 0) w ([], [])"
    using assms by (auto simp: holding_def stands_for_def)
  from one_list.simulates [OF this] show ?thesis
    using answers_remove_first [of xs "[]" "[]"]
    by (auto simp: answers_append answers_add_last holding_def stands_for_def)
qed

text \<open>\<open>list_destroy\<close> ends, frees the struct and every node of the list once, and leaves the other lists.\<close>

lemma list_destroy_frees:
  assumes "is_list w l qs" and "is_list w k ks" and "k \<noteq> l" and "fst ` set ks \<inter> fst ` set qs = {}"
    and "length qs < l_fuel w"
  shows "\<exists>w'. list_destroy l w = Inr ((), w') \<and> lists w' l = None \<and> (\<forall>q\<in>set qs. nodes w' (fst q) = None) \<and>
    stands_for w' k (map snd ks)"
proof -
  from list_destroy_ok [OF assms(1,5)] obtain w' where d: "list_destroy l w = Inr ((), w')" "lists w' l = None"
    "\<forall>p\<in>fst ` set qs. nodes w' p = None" "elsewhere l (fst ` set qs) w w'"
    "\<forall>p\<ge>l_fresh w'. nodes w' p = None \<and> lists w' p = None" by blast
  from is_list_elsewhere [OF d(4) assms(2-4) d(5)] have "stands_for w' k (map snd ks)" by (auto simp: stands_for_def)
  with d(1-3) show ?thesis by auto
qed

end
