(* ===== verification/Clist_Bulk.thy ===== *)
theory Clist_Bulk
  imports Clist_Spec
begin

text \<open>
  The operations of lib/collectc/list.c on whole lists: adding and splicing lists, reversing, copying and
  filtering. A new list is returned through an out parameter, which is only written on success.
\<close>

section \<open>Adding and splicing\<close>

definition pred_size :: "nat \<Rightarrow> nat" where
  "pred_size n = (if n = 0 then 2 ^ 64 - 1 else n - 1)"

definition free_chain :: "addr \<Rightarrow> unit L" where
  "free_chain h =
     bnd (while_node (\<lambda>p nd (_ :: unit). bnd (free_node p) (\<lambda>_. ret (Inl () :: unit + unit))) h ()) (\<lambda>_. ret ())"

text \<open>\<open>link_all_externally\<close> returns the flag and the two pointers it writes, head and tail.\<close>

primrec link_copies :: "nat \<Rightarrow> addr \<Rightarrow> addr \<Rightarrow> addr \<Rightarrow> (bool \<times> addr \<times> addr) L" where
  "link_copies 0 src h t = ret (True, h, t)"
| "link_copies (Suc n) src h t =
     bnd calloc_node (\<lambda>p.
     if p = NULL then bnd (free_chain h) (\<lambda>_. ret (False, NULL, t)) else
     bnd (deref src) (\<lambda>nd.
     bnd (set_data p (n_data nd)) (\<lambda>_.
     bnd (if h = NULL then ret () else block [set_next t p, set_prev p t]) (\<lambda>_.
     bnd (deref src) (\<lambda>nd'.
     link_copies n (n_next nd') (if h = NULL then p else h) p)))))"

definition link_all_externally :: "addr \<Rightarrow> (bool \<times> addr \<times> addr) L" where
  "link_all_externally l =
     bnd (get_list l) (\<lambda>c. link_copies (l_size c) (l_head c) NULL NULL)"

definition add_all_to_empty :: "addr \<Rightarrow> addr \<Rightarrow> cc_stat L" where
  "add_all_to_empty list1 list2 =
     bnd (get_list list2) (\<lambda>c2.
     if l_size c2 = 0 then ret CC_OK else
     bnd (link_all_externally list2) (\<lambda>(ok, h, t).
     if \<not> ok then ret CC_ERR_ALLOC else
     bnd (block [
       upd_list list1 (\<lambda>c. c\<lparr>l_head := h\<rparr>),
       upd_list list1 (\<lambda>c. c\<lparr>l_tail := t\<rparr>),
       bnd (get_list list2) (\<lambda>c2. upd_list list1 (\<lambda>c. c\<lparr>l_size := l_size c2\<rparr>))]) (\<lambda>_.
     ret CC_OK)))"

text \<open>The nodes before and at an index, \<open>base\<close> and \<open>end\<close>; a call of \<open>get_node_at\<close> that fails leaves NULL.\<close>

definition nodes_around :: "addr \<Rightarrow> nat \<Rightarrow> (addr \<times> addr) L" where
  "nodes_around l index =
     bnd (get_node_at l index) (\<lambda>(_, e).
     if e \<noteq> NULL then bnd (deref e) (\<lambda>nd. ret (n_prev nd, e))
     else bnd (get_node_at l (pred_size index)) (\<lambda>(_, b). ret (b, e)))"

definition list_add_all_at :: "addr \<Rightarrow> addr \<Rightarrow> nat \<Rightarrow> cc_stat L" where
  "list_add_all_at list1 list2 index =
     bnd (get_list list2) (\<lambda>c2.
     if l_size c2 = 0 then ret CC_OK else
     bnd (get_list list1) (\<lambda>c1.
     if index > l_size c1 then ret CC_ERR_OUT_OF_RANGE else
     bnd (link_all_externally list2) (\<lambda>(ok, h, t).
     if \<not> ok then ret CC_ERR_ALLOC else
     bnd (nodes_around list1 index) (\<lambda>(base, e).
     bnd (if e = NULL then block [
            bnd (get_list list1) (\<lambda>c. set_next (l_tail c) h),
            bnd (get_list list1) (\<lambda>c. set_prev h (l_tail c)),
            upd_list list1 (\<lambda>c. c\<lparr>l_tail := t\<rparr>)]
          else if base = NULL then block [
            bnd (get_list list1) (\<lambda>c. set_prev (l_head c) t),
            bnd (get_list list1) (\<lambda>c. set_next t (l_head c)),
            upd_list list1 (\<lambda>c. c\<lparr>l_head := h\<rparr>)]
          else block [
            set_prev h base,
            set_next base h,
            set_next t e,
            set_prev e t]) (\<lambda>_.
     bnd (get_list list2) (\<lambda>c2.
     bnd (upd_list list1 (\<lambda>c. c\<lparr>l_size := l_size c + l_size c2\<rparr>)) (\<lambda>_.
     ret CC_OK)))))))"

definition list_add_all :: "addr \<Rightarrow> addr \<Rightarrow> cc_stat L" where
  "list_add_all list1 list2 =
     bnd (get_list list1) (\<lambda>c1.
     if l_size c1 = 0 then add_all_to_empty list1 list2 else list_add_all_at list1 list2 (l_size c1))"

definition splice_between :: "addr \<Rightarrow> addr \<Rightarrow> addr \<Rightarrow> addr \<Rightarrow> unit L" where
  "splice_between l1 l2 left right = block [
     if left = NULL then block [
       bnd (get_list l1) (\<lambda>c1. bnd (get_list l2) (\<lambda>c2. set_prev (l_head c1) (l_tail c2))),
       bnd (get_list l1) (\<lambda>c1. bnd (get_list l2) (\<lambda>c2. set_next (l_tail c2) (l_head c1))),
       bnd (get_list l2) (\<lambda>c2. upd_list l1 (\<lambda>c. c\<lparr>l_head := l_head c2\<rparr>))]
     else if right = NULL then block [
       bnd (get_list l1) (\<lambda>c1. bnd (get_list l2) (\<lambda>c2. set_next (l_tail c1) (l_head c2))),
       bnd (get_list l1) (\<lambda>c1. bnd (get_list l2) (\<lambda>c2. set_prev (l_head c2) (l_tail c1))),
       bnd (get_list l2) (\<lambda>c2. upd_list l1 (\<lambda>c. c\<lparr>l_tail := l_tail c2\<rparr>))]
     else block [
       bnd (get_list l2) (\<lambda>c2. set_next left (l_head c2)),
       bnd (get_list l2) (\<lambda>c2. set_prev (l_head c2) left),
       bnd (get_list l2) (\<lambda>c2. set_prev right (l_tail c2)),
       bnd (get_list l2) (\<lambda>c2. set_next (l_tail c2) right)],
     bnd (get_list l2) (\<lambda>c2. upd_list l1 (\<lambda>c. c\<lparr>l_size := l_size c + l_size c2\<rparr>)),
     upd_list l2 (\<lambda>c. c\<lparr>l_head := NULL\<rparr>),
     upd_list l2 (\<lambda>c. c\<lparr>l_tail := NULL\<rparr>),
     upd_list l2 (\<lambda>c. c\<lparr>l_size := 0\<rparr>)]"

definition list_splice_at :: "addr \<Rightarrow> addr \<Rightarrow> nat \<Rightarrow> cc_stat L" where
  "list_splice_at list1 list2 index =
     bnd (get_list list2) (\<lambda>c2.
     if l_size c2 = 0 then ret CC_OK else
     bnd (get_list list1) (\<lambda>c1.
     if index > l_size c1 then ret CC_ERR_OUT_OF_RANGE else
     if l_size c1 = 0 then
       bnd (block [
         bnd (get_list list2) (\<lambda>c2. upd_list list1 (\<lambda>c. c\<lparr>l_head := l_head c2\<rparr>)),
         bnd (get_list list2) (\<lambda>c2. upd_list list1 (\<lambda>c. c\<lparr>l_tail := l_tail c2\<rparr>)),
         bnd (get_list list2) (\<lambda>c2. upd_list list1 (\<lambda>c. c\<lparr>l_size := l_size c2\<rparr>)),
         upd_list list2 (\<lambda>c. c\<lparr>l_head := NULL\<rparr>),
         upd_list list2 (\<lambda>c. c\<lparr>l_tail := NULL\<rparr>),
         upd_list list2 (\<lambda>c. c\<lparr>l_size := 0\<rparr>)]) (\<lambda>_.
       ret CC_OK)
     else
       bnd (nodes_around list1 index) (\<lambda>(base, e).
       bnd (splice_between list1 list2 base e) (\<lambda>_.
       ret CC_OK))))"

definition list_splice :: "addr \<Rightarrow> addr \<Rightarrow> cc_stat L" where
  "list_splice list1 list2 = bnd (get_list list1) (\<lambda>c1. list_splice_at list1 list2 (l_size c1))"

section \<open>Reversing\<close>

definition swap_adjacent :: "addr \<Rightarrow> addr \<Rightarrow> unit L" where
  "swap_adjacent n1 n2 =
     bnd (deref n1) (\<lambda>a.
     if n_next a = n2 then block [
       bnd (deref n2) (\<lambda>b. whenM (n_next b \<noteq> NULL) (set_prev (n_next b) n1)),
       bnd (deref n2) (\<lambda>b. set_next n1 (n_next b)),
       bnd (deref n1) (\<lambda>a. whenM (n_prev a \<noteq> NULL) (set_next (n_prev a) n2)),
       bnd (deref n1) (\<lambda>a. set_prev n2 (n_prev a)),
       set_prev n1 n2,
       set_next n2 n1]
     else
     bnd (deref n2) (\<lambda>b.
     if n_next b = n1 then block [
       bnd (deref n1) (\<lambda>a. whenM (n_next a \<noteq> NULL) (set_prev (n_next a) n2)),
       bnd (deref n1) (\<lambda>a. set_next n2 (n_next a)),
       bnd (deref n2) (\<lambda>b. whenM (n_prev b \<noteq> NULL) (set_next (n_prev b) n1)),
       bnd (deref n2) (\<lambda>b. set_prev n1 (n_prev b)),
       set_prev n2 n1,
       set_next n1 n2]
     else ret ()))"

definition swap :: "addr \<Rightarrow> addr \<Rightarrow> unit L" where
  "swap n1 n2 =
     bnd (deref n1) (\<lambda>a.
     bnd (if n_next a = n2 then ret True else bnd (deref n2) (\<lambda>b. ret (n_next b = n1))) (\<lambda>adjacent.
     if adjacent then swap_adjacent n1 n2 else
     bnd (deref n2) (\<lambda>b. block [
       whenM (n_prev a \<noteq> NULL) (set_next (n_prev a) n2),
       set_prev n2 (n_prev a),
       whenM (n_next a \<noteq> NULL) (set_prev (n_next a) n2),
       set_next n2 (n_next a),
       whenM (n_prev b \<noteq> NULL) (set_next (n_prev b) n1),
       set_prev n1 (n_prev b),
       whenM (n_next b \<noteq> NULL) (set_prev (n_next b) n1),
       set_next n1 (n_next b)])))"

primrec swap_inwards :: "nat \<Rightarrow> addr \<Rightarrow> addr \<Rightarrow> unit L" where
  "swap_inwards 0 left right = ret ()"
| "swap_inwards (Suc n) left right =
     bnd (deref left) (\<lambda>a.
     bnd (deref right) (\<lambda>b.
     bnd (swap left right) (\<lambda>_.
     swap_inwards n (n_next a) (n_prev b))))"

definition list_reverse :: "addr \<Rightarrow> unit L" where
  "list_reverse l =
     bnd (get_list l) (\<lambda>c.
     if l_size c = 0 \<or> l_size c = 1 then ret () else block [
       swap_inwards (l_size c div 2) (l_head c) (l_tail c),
       upd_list l (\<lambda>c'. c'\<lparr>l_head := l_tail c\<rparr>),
       upd_list l (\<lambda>c'. c'\<lparr>l_tail := l_head c\<rparr>)])"

section \<open>Copies\<close>

primrec add_run :: "nat \<Rightarrow> addr \<Rightarrow> addr \<Rightarrow> cc_stat L" where
  "add_run 0 sub p = ret CC_OK"
| "add_run (Suc n) sub p =
     bnd (deref p) (\<lambda>nd.
     bnd (list_add sub (n_data nd)) (\<lambda>stat.
     if stat \<noteq> CC_OK then bnd (list_destroy sub) (\<lambda>_. ret stat) else
     bnd (deref p) (\<lambda>nd'. add_run n sub (n_next nd'))))"

definition list_sublist :: "addr \<Rightarrow> nat \<Rightarrow> nat \<Rightarrow> (cc_stat \<times> addr option) L" where
  "list_sublist l b e =
     bnd (get_list l) (\<lambda>c.
     if b > e \<or> e \<ge> l_size c then ret (CC_ERR_INVALID_RANGE, None) else
     bnd list_new_conf (\<lambda>(stat, sub).
     case sub of None \<Rightarrow> ret (stat, None) | Some sub \<Rightarrow>
     bnd (get_node_at l b) (\<lambda>(stat, p).
     if stat \<noteq> CC_OK then bnd (free_list sub) (\<lambda>_. ret (stat, None)) else
     bnd (add_run (e + 1 - b) sub p) (\<lambda>stat.
     ret (stat, if stat = CC_OK then Some sub else None)))))"

definition list_copy_deep :: "addr \<Rightarrow> (addr \<Rightarrow> addr L) \<Rightarrow> (cc_stat \<times> addr option) L" where
  "list_copy_deep l cp =
     bnd list_new_conf (\<lambda>(stat, out).
     case out of None \<Rightarrow> ret (stat, None) | Some copy \<Rightarrow>
     bnd (get_list l) (\<lambda>c.
     if l_head c = NULL then ret (CC_OK, Some copy) else
     bnd (each_node (\<lambda>d (_ :: unit).
       bnd (cp d) (\<lambda>d'.
       bnd (list_add copy d') (\<lambda>stat.
       if stat \<noteq> CC_OK then bnd (list_destroy copy) (\<lambda>_. ret (Inr stat)) else ret (Inl ())))) (l_head c) ()) (\<lambda>r.
     ret (case r of Inl _ \<Rightarrow> (CC_OK, Some copy) | Inr stat \<Rightarrow> (stat, None)))))"

definition list_copy_shallow :: "addr \<Rightarrow> (cc_stat \<times> addr option) L" where
  "list_copy_shallow l =
     bnd list_new_conf (\<lambda>(stat, out).
     case out of None \<Rightarrow> ret (stat, None) | Some copy \<Rightarrow>
     bnd (get_list l) (\<lambda>c.
     if l_head c = NULL then ret (CC_OK, Some copy) else
     bnd (each_node (\<lambda>d (_ :: unit).
       bnd (list_add copy d) (\<lambda>stat.
       if stat \<noteq> CC_OK then bnd (list_destroy copy) (\<lambda>_. ret (Inr stat)) else ret (Inl ()))) (l_head c) ()) (\<lambda>r.
     ret (case r of Inl _ \<Rightarrow> (CC_OK, Some copy) | Inr stat \<Rightarrow> (stat, None)))))"

section \<open>Filtering\<close>

definition list_filter_mut :: "addr \<Rightarrow> (addr \<Rightarrow> bool) \<Rightarrow> cc_stat L" where
  "list_filter_mut l pred =
     bnd (get_list l) (\<lambda>c.
     if l_size c = 0 then ret CC_ERR_OUT_OF_RANGE else
     bnd (while_node (\<lambda>p nd (_ :: unit).
       bnd (if \<not> pred (n_data nd) then bnd (unlink l p) (\<lambda>_. ret ()) else ret ()) (\<lambda>_.
       ret (Inl () :: unit + unit))) (l_head c) ()) (\<lambda>_.
     ret CC_OK))"

definition list_filter :: "addr \<Rightarrow> (addr \<Rightarrow> bool) \<Rightarrow> (cc_stat \<times> addr option) L" where
  "list_filter l pred =
     bnd (get_list l) (\<lambda>c.
     if l_size c = 0 then ret (CC_ERR_OUT_OF_RANGE, None) else
     bnd list_new (\<lambda>(_, out).
     case out of None \<Rightarrow> ret (CC_ERR_ALLOC, None) | Some filtered \<Rightarrow>
     bnd (each_node (\<lambda>d (_ :: unit).
       bnd (if pred d then bnd (list_add filtered d) (\<lambda>_. ret ()) else ret ()) (\<lambda>_.
       ret (Inl () :: unit + unit))) (l_head c) ()) (\<lambda>_.
     ret (CC_OK, Some filtered))))"

section \<open>Relinking\<close>

text \<open>The nodes of a whole list, head and tail aside, and what relinking them leaves alone.\<close>

definition chain :: "lmem \<Rightarrow> (addr \<times> addr) list \<Rightarrow> bool" where
  "chain w qs \<longleftrightarrow> seg (nodes w) NULL qs NULL \<and> distinct (map fst qs)"

definition relinks :: "addr set \<Rightarrow> lmem \<Rightarrow> lmem \<Rightarrow> bool" where
  "relinks ps w w' \<longleftrightarrow> w' = w\<lparr>nodes := nodes w'\<rparr> \<and> (\<forall>p. p \<notin> ps \<longrightarrow> nodes w' p = nodes w p)"

lemma relinks_refl [simp]: "relinks ps w w"
  by (simp add: relinks_def)

lemma relinks_trans: "relinks ps w w1 \<Longrightarrow> relinks ps w1 w2 \<Longrightarrow> relinks ps w w2"
  by (cases w; cases w1; cases w2) (auto simp: relinks_def)

lemma link_behind_chain:
  assumes "chain w (xs @ b # ys @ p # zs)"
  shows "\<exists>w'. link_behind (fst b) (fst p) w = Inr ((), w') \<and> chain w' (xs @ p # b # ys @ zs) \<and>
    relinks (fst ` set (xs @ b # ys @ p # zs)) w w'"
proof -
  from link_behind_moves [of w xs b ys p zs] assms obtain ns where
    "link_behind (fst b) (fst p) w = Inr ((), w\<lparr>nodes := ns\<rparr>)" "seg ns NULL (xs @ p # b # ys @ zs) NULL"
    "\<forall>r. r \<notin> fst ` set (xs @ b # ys @ p # zs) \<longrightarrow> ns r = nodes w r" by (auto simp: chain_def)
  moreover have "distinct (map fst (xs @ p # b # ys @ zs))" using assms by (auto simp: chain_def)
  ultimately show ?thesis by (intro exI [of _ "w\<lparr>nodes := ns\<rparr>"]) (simp add: chain_def relinks_def)
qed

lemma chain_node:
  assumes "chain w (xs @ q # ys)"
  shows "deref (fst q) w = Inr (\<lparr>n_data = snd q, n_next = first_of ys NULL, n_prev = final_of NULL xs\<rparr>, w)"
  using assms by (intro deref_ok) (simp add: chain_def seg_append)

lemma chain_go_next:
  assumes "chain w (xs @ ys @ zs)" and "i \<le> length ys"
  shows "go_next i (first_of (ys @ zs) NULL) w = Inr (first_of (drop i ys @ zs) NULL, w)"
  using go_next_ok [of w "final_of NULL xs" "ys @ zs" NULL i] assms by (simp add: chain_def seg_append)

lemma first_of_prefix: "xs \<noteq> [] \<Longrightarrow> first_of (xs @ ys) a = first_of xs NULL"
  by (cases xs) simp_all

lemma is_list_chain: "is_list w l qs \<Longrightarrow> chain w qs"
  by (simp add: is_list_def chain_def)

lemma put_next_at: "put_next p v ns q = (if q = p \<and> p \<noteq> NULL then map_option (\<lambda>n. n\<lparr>n_next := v\<rparr>) (ns q) else ns q)"
  and put_prev_at: "put_prev p v ns q = (if q = p \<and> p \<noteq> NULL then map_option (\<lambda>n. n\<lparr>n_prev := v\<rparr>) (ns q) else ns q)"
  by (simp_all add: put_next_def put_prev_def)

text \<open>The nodes in the middle of a chain are exchanged for others.\<close>

lemma seg_middle:
  assumes S: "seg ns NULL (X @ M @ Z) NULL" and D: "distinct (map fst (X @ M @ Z))" and M': "M' \<noteq> []"
    and mid: "seg ns' (final_of NULL X) M' (first_of Z NULL)"
    and out: "\<And>r. r \<in> fst ` set X \<union> fst ` set Z \<Longrightarrow>
      ns' r = put_next (final_of NULL X) (first_of M' NULL) (put_prev (first_of Z NULL) (final_of NULL M') ns) r"
  shows "seg ns' NULL (X @ M' @ Z) NULL"
proof -
  let ?n = "put_next (final_of NULL X) (first_of M' NULL) (put_prev (first_of Z NULL) (final_of NULL M') ns)"
  have S1: "seg ns NULL X (first_of (M @ Z) NULL)" and S2: "seg ns (final_of (final_of NULL X) M) Z NULL"
    using S by (simp_all add: seg_append)
  have d: "distinct (map fst X)" "distinct (map fst Z)" "fst ` set X \<inter> fst ` set Z = {}" using D by auto
  note e = seg_ends [OF S1 S2 d(3)]
  have "seg ?n NULL X (first_of M' NULL)"
    unfolding put_commute using e(4) seg_put_next [OF S1 d(1)] by simp
  then have x: "seg ns' NULL X (first_of M' NULL)" using seg_agree [of X ns' ?n] out by simp
  have "seg ?n (final_of NULL M') Z NULL"
    using e(3) seg_put_prev [OF S2 d(2)] by simp
  then have z: "seg ns' (final_of NULL M') Z NULL" using seg_agree [of Z ns' ?n] out by simp
  from x z mid M' show ?thesis
    by (simp add: seg_append first_of_append final_of_append first_of_nonempty [of M' "first_of Z NULL" NULL]
        final_of_nonempty [of M' "final_of NULL X" NULL])
qed

lemma when_put:
  "(p \<noteq> NULL \<Longrightarrow> nodes w p \<noteq> None) \<Longrightarrow> whenM (p \<noteq> NULL) (set_next p v) w = Inr ((), w\<lparr>nodes := put_next p v (nodes w)\<rparr>)"
  "(p \<noteq> NULL \<Longrightarrow> nodes w p \<noteq> None) \<Longrightarrow> whenM (p \<noteq> NULL) (set_prev p v) w = Inr ((), w\<lparr>nodes := put_prev p v (nodes w)\<rparr>)"
  by (cases w; cases "p = NULL"; simp add: whenM_def set_next_ok set_prev_ok ret_def)+

lemma via_deref: "nodes w p = Some nd \<Longrightarrow> m nd w = r \<Longrightarrow> bnd (deref p) m w = r"
  by (simp add: bnd_def deref_ok)

text \<open>A list whose nodes have been relinked and whose struct has been set to match.\<close>

lemma relinked_list:
  assumes w: "is_list w l qs" and "chain w' qs'" and "mset qs' = mset qs"
    and ns: "\<And>p. p \<notin> fst ` set qs \<Longrightarrow> nodes w' p = nodes w p"
    and L: "lists w' l = Some \<lparr>l_size = length qs', l_head = first_of qs' NULL, l_tail = final_of NULL qs'\<rparr>"
    and ls: "\<And>k. k \<noteq> l \<Longrightarrow> lists w' k = lists w k" and "l_fresh w' = l_fresh w" "l_fuel w' = l_fuel w"
  shows "is_list w' l qs' \<and> elsewhere l (fst ` set qs) w w'"
proof -
  have "nodes w' p = None \<and> lists w' p = None" if "l_fresh w \<le> p" for p
  proof -
    have "p \<notin> fst ` set qs" "p \<noteq> l" using is_list_fresh [OF w] that by (meson not_less)+
    then show ?thesis using ns ls w that by (auto simp: is_list_def)
  qed
  then show ?thesis using assms by (auto simp: is_list_def elsewhere_def chain_def)
qed

end
