(* ===== verification/Clist_Sort.thy ===== *)
theory Clist_Sort
  imports Clist_Bulk
begin

text \<open>
  Sorting a list (lib/collectc/list.c): \<open>list_sort\<close>, which sorts an array of the elements, and the merge sort
  \<open>list_sort_in_place\<close>, which only relinks the nodes. The merge sort is shown to be the stable sort of
  the sequence of nodes.
\<close>

section \<open>Sorting\<close>

text \<open>
  \<open>list_sort\<close> sorts an array of the elements with the C library's \<open>qsort\<close>, whose result the standard
  does not fix for elements that compare as equal: it is a parameter. The comparison takes pointers to the elements,
  which it reads; here it takes the elements.
\<close>

primrec write_n :: "addr list \<Rightarrow> addr \<Rightarrow> unit L" where
  "write_n [] p = ret ()"
| "write_n (x # xs) p = bnd (set_data p x) (\<lambda>_. bnd (deref p) (\<lambda>nd. write_n xs (n_next nd)))"

definition list_sort ::
    "((addr \<Rightarrow> addr \<Rightarrow> int) \<Rightarrow> addr list \<Rightarrow> addr list) \<Rightarrow> addr \<Rightarrow> (addr \<Rightarrow> addr \<Rightarrow> int) \<Rightarrow> cc_stat L" where
  "list_sort qsort l cmp =
     bnd (list_to_array l) (\<lambda>(stat, array).
     case array of None \<Rightarrow> ret stat | Some elements \<Rightarrow>
     bnd (get_list l) (\<lambda>c.
     bnd (write_n (qsort cmp elements) (l_head c)) (\<lambda>_.
     ret CC_OK)))"

text \<open>
  \<open>merge\<close>: the rounds that are left, the processed nodes of the two partitions, the next node of each,
  and the two in and out parameters.
\<close>

primrec merge_rounds ::
    "(addr \<Rightarrow> addr \<Rightarrow> int) \<Rightarrow> nat \<Rightarrow> nat \<Rightarrow> nat \<Rightarrow> nat \<Rightarrow> nat \<Rightarrow> addr \<Rightarrow> addr \<Rightarrow> addr \<Rightarrow> addr \<Rightarrow> (addr \<times> addr) L" where
  "merge_rounds cmp ls rs 0 l r lp rp left right = ret (left, right)"
| "merge_rounds cmp ls rs (Suc n) l r lp rp left right =
     bnd (deref lp) (\<lambda>a.
     bnd (deref rp) (\<lambda>b.
     let i = ls + rs - Suc n in
     if cmp (n_data a) (n_data b) \<le> 0 then
       if i = 0 \<and> ls + rs = 2 then ret (left, right)
       else if l = ls then bnd (go_next (rs - 1 - r) rp) (\<lambda>q. ret (left, q))
       else merge_rounds cmp ls rs n (l + 1) r (n_next a) rp left right
     else
       bnd (link_behind lp rp) (\<lambda>_.
       if i = 0 \<and> ls + rs = 2 then ret (rp, lp)
       else if r + 1 = rs then bnd (go_next (ls - 1 - l) lp) (\<lambda>q. ret (left, q))
       else merge_rounds cmp ls rs n l (r + 1) lp (n_next b) (if i = 0 then rp else left) right)))"

definition merge :: "(addr \<Rightarrow> addr \<Rightarrow> int) \<Rightarrow> addr \<Rightarrow> addr \<Rightarrow> nat \<Rightarrow> nat \<Rightarrow> (addr \<times> addr) L" where
  "merge cmp left right ls rs =
     merge_rounds cmp ls rs (rs + ls) 0 0 left right left right"

function split :: "addr \<Rightarrow> (addr \<Rightarrow> addr \<Rightarrow> int) \<Rightarrow> addr \<Rightarrow> nat \<Rightarrow> addr L" where
  "split l cmp b n =
     (if n < 2 then ret b else
      bnd (go_next (n div 2) b) (\<lambda>center.
      bnd (split l cmp b (n div 2)) (\<lambda>lh.
      bnd (split l cmp center (n div 2 + n mod 2)) (\<lambda>rh.
      bnd (merge cmp lh rh (n div 2) (n div 2 + n mod 2)) (\<lambda>(lh, rh).
      bnd (block [
        upd_list l (\<lambda>c. c\<lparr>l_head := lh\<rparr>),
        upd_list l (\<lambda>c. c\<lparr>l_tail := rh\<rparr>)]) (\<lambda>_.
      ret lh))))))"
  by pat_completeness auto
termination
  by (relation "measure (\<lambda>(l, cmp, b, n). n)") (simp_all, presburger+)

declare split.simps [simp del]

definition list_sort_in_place :: "addr \<Rightarrow> (addr \<Rightarrow> addr \<Rightarrow> int) \<Rightarrow> unit L" where
  "list_sort_in_place l cmp =
     bnd (get_list l) (\<lambda>c. bnd (split l cmp (l_head c) (l_size c)) (\<lambda>_. ret ()))"

section \<open>The sequence that the merge sort makes\<close>

fun merge_lists :: "(addr \<Rightarrow> addr \<Rightarrow> int) \<Rightarrow> (addr \<times> addr) list \<Rightarrow> (addr \<times> addr) list \<Rightarrow> (addr \<times> addr) list" where
  "merge_lists cmp [] ys = ys"
| "merge_lists cmp xs [] = xs"
| "merge_lists cmp (x # xs) (y # ys) =
     (if cmp (snd x) (snd y) \<le> 0 then x # merge_lists cmp xs (y # ys) else y # merge_lists cmp (x # xs) ys)"

lemma merge_lists_Nil2 [simp]: "merge_lists cmp xs [] = xs"
  by (cases xs) simp_all

lemma merge_rounds_ok:
  assumes "chain w (P @ M @ L @ R @ B)" and "l + length L = ls" and "r + length R = rs" and "ls \<le> rs"
    and "length M = l + r" and "R \<noteq> []" and "M = [] \<Longrightarrow> L \<noteq> [] \<and> right = first_of R NULL"
    and "left = first_of (M @ L) NULL" and "n = length L + length R" and refl: "\<And>d. cmp d d \<le> 0"
  shows "\<exists>w'. merge_rounds cmp ls rs n l r (first_of (L @ R) NULL) (first_of R NULL) left right w =
      Inr ((first_of (M @ merge_lists cmp L R) NULL, final_of NULL (M @ merge_lists cmp L R)), w') \<and>
    chain w' (P @ M @ merge_lists cmp L R @ B) \<and> relinks (fst ` set (P @ M @ L @ R @ B)) w w'"
  using assms(1-9)
proof (induction n arbitrary: w M L R l r left)
  case 0
  then show ?case by simp
next
  case (Suc n)
  obtain y R' where R: "R = y # R'" using Suc.prems(6) by (cases R) auto
  have y: "deref (fst y) w = Inr (\<lparr>n_data = snd y, n_next = first_of (R' @ B) NULL, n_prev = final_of NULL (P @ M @ L)\<rparr>, w)"
    using chain_node [of w "P @ M @ L" y "R' @ B"] Suc.prems(1) R by simp
  have i: "ls + rs - Suc n = length M" using Suc.prems by simp
  show ?case
  proof (cases L)
    case Nil
    then have M: "M \<noteq> []" using Suc.prems(7) by auto
    have l: "l = ls" using Suc.prems(2) Nil by simp
    have "go_next (length R') (fst y) w = Inr (fst (last R), w)"
      using chain_go_next [of w "P @ M @ L" R B "length R'"] Suc.prems(1) R
      by (cases R' rule: rev_cases) (simp_all add: Nil)
    then show ?thesis
      using Suc.prems M by (intro exI [of _ w]) (auto simp: R Nil bnd_def y refl i l Let_def ret_def final_of_def first_of_prefix)
  next
    case (Cons x L')
    have x: "deref (fst x) w = Inr (\<lparr>n_data = snd x, n_next = first_of (L' @ R @ B) NULL, n_prev = final_of NULL (P @ M)\<rparr>, w)"
      using chain_node [of w "P @ M" x "L' @ R @ B"] Suc.prems(1) Cons by simp
    show ?thesis
    proof (cases "cmp (snd x) (snd y) \<le> 0")
      case True
      show ?thesis
      proof (cases "length M = 0 \<and> ls + rs = 2")
        case True
        then have "M = []" "L' = []" "R' = []" using Suc.prems Cons R by auto
        then show ?thesis using Suc.prems Cons R \<open>cmp (snd x) (snd y) \<le> 0\<close>
          by (intro exI [of _ w]) (simp add: bnd_def x y i Let_def ret_def)
      next
        case False
        have "chain w (P @ (M @ [x]) @ L' @ R @ B)" "l + 1 + length L' = ls" "n = length L' + length R" "left = first_of ((M @ [x]) @ L') NULL"
          using Suc.prems Cons by simp_all
        from Suc.IH [OF this(1,2) Suc.prems(3,4) _ Suc.prems(6) _ this(4,3)] Suc.prems(5) obtain w' where
          "merge_rounds cmp ls rs n (l + 1) r (first_of (L' @ R) NULL) (first_of R NULL) left right w =
            Inr ((first_of ((M @ [x]) @ merge_lists cmp L' R) NULL, final_of NULL ((M @ [x]) @ merge_lists cmp L' R)), w')"
          "chain w' (P @ (M @ [x]) @ merge_lists cmp L' R @ B)" "relinks (fst ` set (P @ (M @ [x]) @ L' @ R @ B)) w w'"
          by auto
        moreover have "first_of (L' @ R @ B) NULL = first_of (L' @ R) NULL"
          using first_of_prefix [of "L' @ R" B NULL] R by simp
        moreover have "l \<noteq> ls" using Suc.prems(2) Cons by simp
        ultimately show ?thesis using False \<open>cmp (snd x) (snd y) \<le> 0\<close>
          by (intro exI [of _ w']) (auto simp: bnd_def x y [unfolded R] i Let_def R Cons)
      qed
    next
      case False
      from link_behind_chain [of w "P @ M" x L' y "R' @ B"] Suc.prems(1) Cons R obtain w1 where
        b: "link_behind (fst x) (fst y) w = Inr ((), w1)" "chain w1 (P @ M @ y # x # L' @ R' @ B)"
          "relinks (fst ` set (P @ M @ L @ R @ B)) w w1" by auto
      have sets: "fst ` set (P @ (M @ [y]) @ L @ R' @ B) = fst ` set (P @ M @ L @ R @ B)" using R by auto
      show ?thesis
      proof (cases "length M = 0 \<and> ls + rs = 2")
        case True
        then have "M = []" "L' = []" "R' = []" using Suc.prems Cons R by auto
        then show ?thesis using Suc.prems Cons R False b
          by (intro exI [of _ w1]) (simp add: bnd_def x y i Let_def ret_def)
      next
        case notlast: False
        show ?thesis
        proof (cases "R' = []")
          case True
          then have "M \<noteq> []" using notlast Suc.prems Cons R by auto
          moreover have "go_next (length L') (fst x) w1 = Inr (fst (last L), w1)"
            using chain_go_next [of w1 "P @ M @ [y]" L B "length L'"] b(2) True
            by (cases L' rule: rev_cases) (simp_all add: Cons)
          ultimately show ?thesis using Suc.prems notlast False b True
            by (intro exI [of _ w1]) (auto simp: R Cons bnd_def x y i Let_def ret_def final_of_def first_of_prefix)
        next
          case more: False
          have "chain w1 (P @ (M @ [y]) @ L @ R' @ B)" "r + 1 + length R' = rs" "n = length L + length R'"
            using Suc.prems Cons R b(2) by simp_all
          moreover have "(if length M = 0 then fst y else left) = first_of ((M @ [y]) @ L) NULL"
            using Suc.prems(8) by (cases M) simp_all
          ultimately obtain w' where
            "merge_rounds cmp ls rs n l (r + 1) (first_of (L @ R') NULL) (first_of R' NULL) (if length M = 0 then fst y else left) right w1 =
              Inr ((first_of ((M @ [y]) @ merge_lists cmp L R') NULL, final_of NULL ((M @ [y]) @ merge_lists cmp L R')), w')"
            "chain w' (P @ (M @ [y]) @ merge_lists cmp L R' @ B)" "relinks (fst ` set (P @ (M @ [y]) @ L @ R' @ B)) w1 w'"
            using Suc.IH [OF _ Suc.prems(2) _ Suc.prems(4) _ more, where w = w1 and M = "M @ [y]" and r = "r + 1"] Suc.prems(5) by auto
          moreover have "first_of (R' @ B) NULL = first_of R' NULL" by (rule first_of_prefix [OF more])
          moreover have "r + 1 \<noteq> rs" using Suc.prems(3) more R by auto
          ultimately show ?thesis using notlast False b relinks_trans [OF b(3), of w'] unfolding sets
            by (intro exI [of _ w']) (auto simp: bnd_def x y [unfolded R] i Let_def R Cons)
        qed
      qed
    qed
  qed
qed

function msort :: "(addr \<Rightarrow> addr \<Rightarrow> int) \<Rightarrow> (addr \<times> addr) list \<Rightarrow> (addr \<times> addr) list" where
  "msort cmp qs =
     (if length qs < 2 then qs else
      merge_lists cmp (msort cmp (take (length qs div 2) qs)) (msort cmp (drop (length qs div 2) qs)))"
  by pat_completeness auto
termination
  by (relation "measure (\<lambda>(cmp, qs). length qs)") simp_all

declare msort.simps [simp del]

lemma mset_merge_lists [simp]: "mset (merge_lists cmp xs ys) = mset xs + mset ys"
  by (induction cmp xs ys rule: merge_lists.induct) simp_all

lemma mset_msort [simp]: "mset (msort cmp qs) = mset qs"
proof (induction cmp qs rule: msort.induct)
  case (1 cmp qs)
  have "mset (take n qs) + mset (drop n qs) = mset qs" for n
    by (metis append_take_drop_id mset_append)
  with 1 show ?case by (subst msort.simps) simp
qed

lemma set_msort [simp]: "set (msort cmp qs) = set qs"
  by (rule mset_eq_setD) simp

lemma length_msort [simp]: "length (msort cmp qs) = length qs"
  by (rule mset_eq_length) simp

lemma msort_Nil [simp]: "msort cmp qs = [] \<longleftrightarrow> qs = []"
  by (metis length_0_conv length_msort)

text \<open>While it sorts, the code writes any head and tail into the list.\<close>

definition sorting :: "addr \<Rightarrow> addr set \<Rightarrow> lmem \<Rightarrow> lmem \<Rightarrow> bool" where
  "sorting l ps w w' \<longleftrightarrow> w' = w\<lparr>nodes := nodes w', lists := lists w'\<rparr> \<and> (\<forall>p. p \<notin> ps \<longrightarrow> nodes w' p = nodes w p) \<and>
     lists w l \<noteq> None \<and> map_option l_size (lists w' l) = map_option l_size (lists w l) \<and> (\<forall>k. k \<noteq> l \<longrightarrow> lists w' k = lists w k)"

lemma sorting_refl: "lists w l \<noteq> None \<Longrightarrow> sorting l ps w w"
  by (simp add: sorting_def)

lemma sorting_trans: "sorting l ps w w1 \<Longrightarrow> sorting l ps w1 w2 \<Longrightarrow> sorting l ps w w2"
  unfolding sorting_def by (cases w; cases w1; cases w2) auto

lemma sorting_relinks: "relinks ps w w1 \<Longrightarrow> lists w l \<noteq> None \<Longrightarrow> sorting l ps w w1"
  unfolding sorting_def relinks_def by (cases w; cases w1) auto

lemma split_ok:
  assumes "chain w (P @ Q @ B)" and "length Q = n" and "lists w l \<noteq> None" and refl: "\<And>d. cmp d d \<le> 0"
  shows "\<exists>w'. split l cmp (first_of Q NULL) n w = Inr (first_of (msort cmp Q) NULL, w') \<and>
    chain w' (P @ msort cmp Q @ B) \<and> sorting l (fst ` set (P @ Q @ B)) w w' \<and>
    (2 \<le> n \<longrightarrow> map_option l_head (lists w' l) = Some (first_of (msort cmp Q) NULL) \<and>
      map_option l_tail (lists w' l) = Some (final_of NULL (msort cmp Q)))"
  using assms(1-3)
proof (induction n arbitrary: w P Q B rule: less_induct)
  case (less n)
  show ?case
  proof (cases "n < 2")
    case True
    then show ?thesis using less.prems sorting_refl
      by (intro exI [of _ w]) (simp add: split.simps [of l cmp _ n] msort.simps [of cmp Q] ret_def)
  next
    case False
    let ?k = "n div 2" and ?m = "n div 2 + n mod 2"
    define L R where "L = take ?k Q" and "R = drop ?k Q"
    have Q: "Q = L @ R" "length L = ?k" "length R = ?m" using less.prems(2) by (simp_all add: L_def R_def, presburger)
    have ne: "L \<noteq> []" "R \<noteq> []" using Q False by auto
    have k: "?k < n" "?m < n" using False by presburger+
    let ?all = "fst ` set (P @ Q @ B)"
    have s: "msort cmp Q = merge_lists cmp (msort cmp L) (msort cmp R)"
      using False less.prems(2) by (simp add: msort.simps [of cmp Q] L_def R_def)
    have c0: "chain w (P @ L @ R @ B)" using less.prems(1) Q by simp
    have go: "go_next ?k (first_of Q NULL) w = Inr (first_of R NULL, w)"
      using chain_go_next [of w P Q B ?k] less.prems(1) ne Q first_of_prefix [of Q B NULL] first_of_prefix [of R B NULL] by simp
    obtain w1 where w1: "split l cmp (first_of L NULL) ?k w = Inr (first_of (msort cmp L) NULL, w1)"
      "chain w1 (P @ msort cmp L @ R @ B)" "sorting l ?all w w1"
      using less.IH [OF k(1) c0 Q(2) less.prems(3)] Q by auto
    have l1: "lists w1 l \<noteq> None" using w1(3) by (auto simp: sorting_def)
    obtain w2 where w2: "split l cmp (first_of R NULL) ?m w1 = Inr (first_of (msort cmp R) NULL, w2)"
      "chain w2 (P @ msort cmp L @ msort cmp R @ B)" "sorting l ?all w1 w2"
      using less.IH [OF k(2) _ Q(3) l1, of "P @ msort cmp L" B] w1(2) Q by (auto simp: Un_assoc)
    have l2: "lists w2 l \<noteq> None" using w2(3) by (auto simp: sorting_def)
    have "merge_rounds cmp ?k ?m (?m + ?k) 0 0 (first_of (msort cmp L) NULL) (first_of (msort cmp R) NULL)
        (first_of (msort cmp L) NULL) (first_of (msort cmp R) NULL) w2 = merge cmp (first_of (msort cmp L) NULL) (first_of (msort cmp R) NULL) ?k ?m w2"
      by (simp add: merge_def)
    then obtain w3 where w3: "merge cmp (first_of (msort cmp L) NULL) (first_of (msort cmp R) NULL) ?k ?m w2 =
        Inr ((first_of (msort cmp Q) NULL, final_of NULL (msort cmp Q)), w3)"
      "chain w3 (P @ msort cmp Q @ B)" "relinks ?all w2 w3"
      using merge_rounds_ok [where P = P and M = "[]" and L = "msort cmp L" and R = "msort cmp R" and B = B and w = w2
          and cmp = cmp and l = 0 and r = 0 and ls = ?k and rs = ?m and n = "?m + ?k", where left = "first_of (msort cmp L) NULL" and right = "first_of (msort cmp R) NULL", OF _ _ _ _ _ _ _ _ _ refl]
        w2(2) ne Q s first_of_prefix [of "msort cmp L" "msort cmp R" NULL] refl
      by auto
    have l3: "lists w3 l \<noteq> None" using w3(3) l2 by (cases w3; cases w2) (auto simp: relinks_def)
    then obtain c where c: "lists w3 l = Some c" by auto
    let ?h = "first_of (msort cmp Q) NULL" and ?t = "final_of NULL (msort cmp Q)"
    let ?w = "w3\<lparr>lists := (lists w3)(l \<mapsto> c\<lparr>l_head := ?h, l_tail := ?t\<rparr>)\<rparr>"
    have run: "split l cmp (first_of Q NULL) n w = Inr (?h, ?w)"
      using False first_of_prefix [OF ne(1), of R NULL] w1(1) go
      by (simp add: split.simps [of l cmp _ n] bnd_def w2(1) w3(1) Q(1) [symmetric] upd_list_ok [OF c] ret_def upd_list_ok)
    have "sorting l ?all w3 ?w" using c unfolding sorting_def by (cases w3) auto
    then have "sorting l ?all w ?w"
      using sorting_trans [OF sorting_trans [OF sorting_trans [OF w1(3) w2(3)] sorting_relinks [OF w3(3) l2]]] by blast
    moreover have "chain ?w (P @ msort cmp Q @ B)" using w3(2) by (simp add: chain_def)
    ultimately show ?thesis using run by (intro exI [of _ ?w]) simp
  qed
qed

lemma merge_induct [case_names Nil1 Nil2 Cons]:
  assumes "\<And>ys. P [] ys" and "\<And>xs. P xs []"
    and "\<And>x xs y ys. P xs (y # ys) \<Longrightarrow> P (x # xs) ys \<Longrightarrow> P (x # xs) (y # ys)"
  shows "P xs ys"
proof (induction "length xs + length ys" arbitrary: xs ys rule: less_induct)
  case less
  then show ?case using assms by (cases xs; cases ys) simp_all
qed

lemma halves_induct [case_names halves]:
  assumes "\<And>qs. (\<not> length qs < 2 \<Longrightarrow> P (take (length qs div 2) qs)) \<Longrightarrow>
      (\<not> length qs < 2 \<Longrightarrow> P (drop (length qs div 2) qs)) \<Longrightarrow> P qs"
  shows "P qs"
  by (induction qs rule: length_induct) (auto intro: assms)

lemma set_merge_lists [simp]: "set (merge_lists cmp xs ys) = set xs \<union> set ys"
  by (induction cmp xs ys rule: merge_lists.induct) auto

text \<open>What a comparison function promises: it is a total preorder.\<close>

locale comparator =
  fixes cmp :: "addr \<Rightarrow> addr \<Rightarrow> int"
  assumes total: "cmp a b \<le> 0 \<or> cmp b a \<le> 0"
    and trans: "cmp a b \<le> 0 \<Longrightarrow> cmp b c \<le> 0 \<Longrightarrow> cmp a c \<le> 0"
begin

lemma refl: "cmp a a \<le> 0"
  using total [of a a] by simp

lemma flip: "0 < cmp a b \<Longrightarrow> cmp b a \<le> 0"
  using total [of a b] by simp

lemma sorted_merge_lists:
  assumes "sorted_wrt (\<lambda>p q. cmp (snd p) (snd q) \<le> 0) xs" and "sorted_wrt (\<lambda>p q. cmp (snd p) (snd q) \<le> 0) ys"
  shows "sorted_wrt (\<lambda>p q. cmp (snd p) (snd q) \<le> 0) (merge_lists cmp xs ys)"
  using assms
proof (induction xs ys rule: merge_induct)
  case (Cons x xs y ys)
  show ?case
  proof (cases "cmp (snd x) (snd y) \<le> 0")
    case True
    have "\<forall>z\<in>set ys. cmp (snd x) (snd z) \<le> 0" using trans [OF True] Cons.prems(2) by simp
    with True Cons show ?thesis by auto
  next
    case False
    then have yx: "cmp (snd y) (snd x) \<le> 0" by (intro flip) simp
    have "\<forall>z\<in>set xs. cmp (snd y) (snd z) \<le> 0" using trans [OF yx] Cons.prems(1) by simp
    with False yx Cons show ?thesis by auto
  qed
qed simp_all

lemma sorted_msort: "sorted_wrt (\<lambda>p q. cmp (snd p) (snd q) \<le> 0) (msort cmp qs)"
proof (induction qs rule: halves_induct)
  case (halves qs)
  show ?case
  proof (cases "length qs < 2")
    case True
    then have "qs = [] \<or> (\<exists>q. qs = [q])" by (cases qs; cases "tl qs") auto
    then show ?thesis by (subst msort.simps) auto
  next
    case False
    then show ?thesis using halves by (subst msort.simps) (simp add: sorted_merge_lists)
  qed
qed

text \<open>The elements that compare as equal to \<open>d\<close> stay in their order.\<close>

abbreviation alike :: "addr \<Rightarrow> addr \<times> addr \<Rightarrow> bool" where
  "alike d q \<equiv> cmp (snd q) d \<le> 0 \<and> cmp d (snd q) \<le> 0"

lemma stable_merge_lists:
  assumes "sorted_wrt (\<lambda>p q. cmp (snd p) (snd q) \<le> 0) xs"
  shows "filter (alike d) (merge_lists cmp xs ys) = filter (alike d) xs @ filter (alike d) ys"
  using assms
proof (induction xs ys rule: merge_induct)
  case (Cons x xs y ys)
  have "filter (alike d) (x # xs) = []" if "0 < cmp (snd x) (snd y)" "alike d y"
  proof -
    have "\<not> alike d z" if "z \<in> set (x # xs)" for z
    proof
      assume "alike d z"
      moreover have "cmp (snd x) (snd z) \<le> 0" using that Cons(3) refl by auto
      ultimately have "cmp (snd x) (snd y) \<le> 0" using \<open>alike d y\<close> trans by blast
      with \<open>0 < cmp (snd x) (snd y)\<close> show False by simp
    qed
    then show ?thesis by (simp add: filter_empty_conv)
  qed
  with Cons show ?case by auto
qed simp_all

lemma stable_msort: "filter (alike d) (msort cmp qs) = filter (alike d) qs"
proof (induction qs rule: halves_induct)
  case (halves qs)
  have "filter (alike d) (take n qs) @ filter (alike d) (drop n qs) = filter (alike d) qs" for n
    by (metis append_take_drop_id filter_append)
  with halves show ?case
    by (cases "length qs < 2") (simp_all add: msort.simps [of cmp qs] stable_merge_lists sorted_msort)
qed

end

interpretation pointers: comparator cmp_addr
  by standard (auto simp: cmp_addr_def split: if_splits)

lemma list_sort_in_place_ok:
  assumes w: "is_list w l qs" and c: "comparator cmp"
  shows "\<exists>w'. list_sort_in_place l cmp w = Inr ((), w') \<and> is_list w' l (msort cmp qs) \<and> elsewhere l (fst ` set qs) w w'"
proof -
  note L = is_list_struct(1) [OF w]
  obtain w' where s: "split l cmp (first_of qs NULL) (length qs) w = Inr (first_of (msort cmp qs) NULL, w')"
    "chain w' (msort cmp qs)" "sorting l (fst ` set qs) w w'"
    "2 \<le> length qs \<longrightarrow> map_option l_head (lists w' l) = Some (first_of (msort cmp qs) NULL) \<and>
      map_option l_tail (lists w' l) = Some (final_of NULL (msort cmp qs))"
    using split_ok [of w "[]" qs "[]" "length qs" l cmp] is_list_chain [OF w] L comparator.refl [OF c] by auto
  have run: "list_sort_in_place l cmp w = Inr ((), w')"
    by (simp add: list_sort_in_place_def bnd_def get_list_ok [OF L] s(1) ret_def)
  have "lists w' l = Some \<lparr>l_size = length qs, l_head = first_of (msort cmp qs) NULL, l_tail = final_of NULL (msort cmp qs)\<rparr>"
  proof (cases "2 \<le> length qs")
    case True
    then show ?thesis using s(3,4) L by (cases "lists w' l") (auto simp: sorting_def)
  next
    case False
    then have "w' = w" using s(1) by (simp add: split.simps [of l cmp _ "length qs"] ret_def)
    then show ?thesis using False L by (simp add: msort.simps [of cmp qs])
  qed
  with s have "is_list w' l (msort cmp qs) \<and> elsewhere l (fst ` set qs) w w'"
    by (intro relinked_list [OF w]) (cases w; cases w'; simp add: sorting_def)+
  with run show ?thesis by blast
qed

text \<open>C30: \<open>list_sort_in_place\<close> ends and leaves a list of the same nodes in ascending order, those whose elements compare as
  equal in the order they had; no element is copied and no other list is touched.\<close>

theorem list_sort_in_place_stable:
  assumes "is_list w l qs" and "comparator cmp"
  shows "\<exists>w' qs'. list_sort_in_place l cmp w = Inr ((), w') \<and> is_list w' l qs' \<and> elsewhere l (fst ` set qs) w w' \<and>
    mset qs' = mset qs \<and> sorted_wrt (\<lambda>p q. cmp (snd p) (snd q) \<le> 0) qs' \<and>
    (\<forall>d. filter (\<lambda>q. cmp (snd q) d \<le> 0 \<and> cmp d (snd q) \<le> 0) qs' = filter (\<lambda>q. cmp (snd q) d \<le> 0 \<and> cmp d (snd q) \<le> 0) qs)"
proof -
  from list_sort_in_place_ok [OF assms] obtain w' where
    "list_sort_in_place l cmp w = Inr ((), w')" "is_list w' l (msort cmp qs)" "elsewhere l (fst ` set qs) w w'" by blast
  then show ?thesis
    by (intro exI [of _ w'] exI [of _ "msort cmp qs"])
      (simp add: comparator.sorted_msort [OF assms(2)] comparator.stable_msort [OF assms(2)])
qed

theorem list_sort_in_place_stable_witness:
  "\<exists>w' qs'. list_sort_in_place 1 (\<lambda>a b. cmp_addr b a) two_used_lists = Inr ((), w') \<and> is_list w' 1 qs' \<and>
    mset qs' = {#(97, 5), (121, 6)#} \<and> sorted_wrt (\<lambda>p q. cmp_addr (snd q) (snd p) \<le> 0) qs'"
proof -
  have "comparator (\<lambda>a b. cmp_addr b a)" by standard (auto simp: cmp_addr_def split: if_splits)
  from list_sort_in_place_stable [OF two_used_lists_ok(1) this] show ?thesis by auto
qed

end
