(* ===== verification/Clist_Reverse.thy ===== *)
theory Clist_Reverse
  imports Clist_Bulk
begin

text \<open>
  \<open>list_reverse\<close> of lib/collectc/list.c exchanges the positions of nodes from the two ends inwards (\<open>swap\<close>,
  \<open>swap_adjacent\<close>), and so reverses the list without moving an element.
\<close>

lemma swap_adjacent_ok:
  assumes S: "seg (nodes w) NULL (X @ a # b # Z) NULL" and D: "distinct (map fst (X @ a # b # Z))"
  shows "\<exists>ns. swap_adjacent (fst a) (fst b) w = Inr ((), w\<lparr>nodes := ns\<rparr>) \<and> seg ns NULL (X @ b # a # Z) NULL \<and>
    (\<forall>r. r \<notin> fst ` set (X @ a # b # Z) \<longrightarrow> ns r = nodes w r)"
proof -
  let ?a = "fst a" and ?b = "fst b" and ?x = "final_of NULL X" and ?z = "first_of Z NULL" and ?N = "nodes w"
  have s: "seg ?N NULL X ?a" "seg ?N ?b Z NULL" "?a \<noteq> NULL" "?b \<noteq> NULL"
    "?N ?a = Some \<lparr>n_data = snd a, n_next = ?b, n_prev = ?x\<rparr>" "?N ?b = Some \<lparr>n_data = snd b, n_next = ?z, n_prev = ?a\<rparr>"
    using S by (simp_all add: seg_append)
  have d: "fst ` set X \<inter> fst ` set Z = {}" "?a \<noteq> ?b" "?a \<notin> fst ` set X" "?a \<notin> fst ` set Z" "?b \<notin> fst ` set X" "?b \<notin> fst ` set Z"
    using D by auto
  note e = seg_ends [OF s(1,2) d(1)]
  have ne: "?x \<noteq> ?a" "?x \<noteq> ?b" "?z \<noteq> ?a" "?z \<noteq> ?b"
    using e(7) [OF d(3) s(3)] e(7) [OF d(5) s(4)] e(8) [OF d(4) s(3)] e(8) [OF d(6) s(4)] by simp_all
  define n1 where "n1 = put_prev ?z ?a ?N"
  define n2 where "n2 = put_next ?a ?z n1"
  define n3 where "n3 = put_next ?x ?b n2"
  define n4 where "n4 = put_prev ?b ?x n3"
  define n5 where "n5 = put_prev ?a ?b n4"
  define n6 where "n6 = put_next ?b ?a n5"
  note ns = n6_def n5_def n4_def n3_def n2_def n1_def
  let ?w = "\<lambda>n. w\<lparr>nodes := n\<rparr>"
  have b1: "n1 ?b = ?N ?b" and a2: "n2 ?a = Some \<lparr>n_data = snd a, n_next = ?z, n_prev = ?x\<rparr>" and a3: "n3 ?a = n2 ?a"
    using s(3-6) ne d(2) by (simp_all add: ns)
  have r1: "bnd (deref ?b) (\<lambda>b. whenM (n_next b \<noteq> NULL) (set_prev (n_next b) ?a)) w = Inr ((), ?w n1)"
    by (rule via_deref [OF s(6)]) (simp add: when_put e(6) n1_def)
  have r2: "bnd (deref ?b) (\<lambda>b. set_next ?a (n_next b)) (?w n1) = Inr ((), ?w n2)"
    by (rule via_deref [where nd = "\<lparr>n_data = snd b, n_next = ?z, n_prev = ?a\<rparr>"]) (use b1 s(3,5,6) in \<open>simp_all add: set_next_ok n2_def n1_def\<close>)
  have r3: "bnd (deref ?a) (\<lambda>a. whenM (n_prev a \<noteq> NULL) (set_next (n_prev a) ?b)) (?w n2) = Inr ((), ?w n3)"
    by (rule via_deref [where nd = "\<lparr>n_data = snd a, n_next = ?z, n_prev = ?x\<rparr>"]) (use a2 e(5) in \<open>simp_all add: when_put n3_def n2_def n1_def\<close>)
  have r4: "bnd (deref ?a) (\<lambda>a. set_prev ?b (n_prev a)) (?w n3) = Inr ((), ?w n4)"
    by (rule via_deref [where nd = "\<lparr>n_data = snd a, n_next = ?z, n_prev = ?x\<rparr>"]) (use a2 a3 s(4,6) in \<open>simp_all add: set_prev_ok n4_def n3_def n2_def n1_def\<close>)
  have r5: "set_prev ?a ?b (?w n4) = Inr ((), ?w n5)" and r6: "set_next ?b ?a (?w n5) = Inr ((), ?w n6)"
    using s(3-6) by (simp_all add: set_prev_ok set_next_ok ns)
  have run: "swap_adjacent ?a ?b w = Inr ((), ?w n6)"
    unfolding swap_adjacent_def
    by (rule via_deref [OF s(5)], simp only: node.simps if_True refl,
        (rule block_eqI, rule r1 r2 r3 r4 r5 r6)+) (simp add: ret_def)
  have out: "n6 r = put_next ?x ?b (put_prev ?z ?a ?N) r" if "r \<notin> fst ` set [a, b]" for r
    using that by (simp add: ns put_next_at put_prev_at)
  have mid: "seg n6 ?x [b, a] ?z"
    using s(3-6) ne d(2) by (simp add: ns)
  have "seg n6 NULL (X @ [b, a] @ Z) NULL"
  proof (rule seg_middle [where M = "[a, b]" and ns = ?N])
    fix r assume "r \<in> fst ` set X \<union> fst ` set Z"
    then have "r \<noteq> ?a" "r \<noteq> ?b" using d(3-6) by blast+
    then show "n6 r = put_next ?x (first_of [b, a] NULL) (put_prev ?z (final_of NULL [b, a]) ?N) r" using out by simp
  qed (use S D mid in simp_all)
  moreover have "n6 r = ?N r" if "r \<notin> fst ` set (X @ a # b # Z)" for r
    using that e(7,8) [of r] out [of r] by (auto simp: put_next_at put_prev_at)
  ultimately show ?thesis using run by (intro exI [of _ n6]) simp
qed

text \<open>The eight writes of \<open>swap\<close> on two nodes that are not neighbours.\<close>

definition swapped :: "addr \<Rightarrow> addr \<Rightarrow> addr \<Rightarrow> addr \<Rightarrow> addr \<Rightarrow> addr \<Rightarrow> (addr \<Rightarrow> node option) \<Rightarrow> addr \<Rightarrow> node option" where
  "swapped x a y v b z ns =
     put_next a z (put_prev z a (put_prev a v (put_next v a (put_next b y (put_prev y b (put_prev b x (put_next x b ns)))))))"

lemma swap_run:
  assumes a: "nodes w a = Some \<lparr>n_data = d, n_next = y, n_prev = x\<rparr>" "a \<noteq> NULL"
    and b: "nodes w b = Some \<lparr>n_data = e, n_next = z, n_prev = v\<rparr>" "b \<noteq> NULL"
    and far: "y \<noteq> b" "z \<noteq> a"
    and ok: "\<And>p. p \<in> {x, y, v, z} \<Longrightarrow> p \<noteq> NULL \<Longrightarrow> nodes w p \<noteq> None"
  shows "swap a b w = Inr ((), w\<lparr>nodes := swapped x a y v b z (nodes w)\<rparr>)"
proof -
  define n1 where "n1 = put_next x b (nodes w)"
  define n2 where "n2 = put_prev b x n1"
  define n3 where "n3 = put_prev y b n2"
  define n4 where "n4 = put_next b y n3"
  define n5 where "n5 = put_next v a n4"
  define n6 where "n6 = put_prev a v n5"
  define n7 where "n7 = put_prev z a n6"
  define n8 where "n8 = put_next a z n7"
  note ns = n8_def n7_def n6_def n5_def n4_def n3_def n2_def n1_def
  let ?w = "\<lambda>n. w\<lparr>nodes := n\<rparr>"
  have r1: "whenM (x \<noteq> NULL) (set_next x b) w = Inr ((), ?w n1)"
    and r3: "whenM (y \<noteq> NULL) (set_prev y b) (?w n2) = Inr ((), ?w n3)"
    and r5: "whenM (v \<noteq> NULL) (set_next v a) (?w n4) = Inr ((), ?w n5)"
    and r7: "whenM (z \<noteq> NULL) (set_prev z a) (?w n6) = Inr ((), ?w n7)"
    using ok by (simp_all add: when_put ns)
  have r2: "set_prev b x (?w n1) = Inr ((), ?w n2)" and r4: "set_next b y (?w n3) = Inr ((), ?w n4)"
    and r6: "set_prev a v (?w n5) = Inr ((), ?w n6)" and r8: "set_next a z (?w n7) = Inr ((), ?w n8)"
    using a b by (simp_all add: set_prev_ok set_next_ok ns)
  have adj: "(if y = b then ret True else bnd (deref b) (\<lambda>b. ret (n_next b = a))) w = Inr (False, w)"
    using far b by (simp add: bnd_def deref_ok ret_def)
  have n8: "swapped x a y v b z (nodes w) = n8" by (simp add: swapped_def ns)
  show ?thesis
    unfolding swap_def n8
    by (rule via_deref [OF a(1)], simp only: node.simps, rule bnd_eqI, rule adj, simp only: if_False,
        rule via_deref [OF b(1)], simp only: node.simps, (rule block_eqI, rule r1 r2 r3 r4 r5 r6 r7 r8)+) (simp add: ret_def)
qed

lemma swapped_outside:
  assumes "r \<notin> {a, b, y, v}"
  shows "swapped x a y v b z ns r = put_next x b (put_prev z a ns) r"
  using assms unfolding put_commute by (simp add: swapped_def put_next_at put_prev_at)

lemma swapped_between:
  assumes "seg ns a Y b" and "Y \<noteq> []" and "distinct (map fst Y)" and "a \<notin> fst ` set Y" "b \<notin> fst ` set Y" "x \<notin> fst ` set Y" "z \<notin> fst ` set Y"
  shows "seg (swapped x a (first_of Y NULL) (final_of NULL Y) b z ns) b Y a"
proof -
  let ?n2 = "put_prev b x (put_next x b ns)"
  have "seg ?n2 a Y b" using assms by simp
  then have "seg (put_prev (first_of Y NULL) b ?n2) b Y b" using seg_put_prev assms(3) by blast
  then have "seg (put_next b (first_of Y NULL) (put_prev (first_of Y NULL) b ?n2)) b Y b" using assms(5) by simp
  then have "seg (put_next (final_of NULL Y) a (put_next b (first_of Y NULL) (put_prev (first_of Y NULL) b ?n2))) b Y a"
    using seg_put_next assms(3) by blast
  then show ?thesis using assms by (simp add: swapped_def)
qed

lemma swap_apart_ok:
  assumes S: "seg (nodes w) NULL (X @ a # Y @ b # Z) NULL" and D: "distinct (map fst (X @ a # Y @ b # Z))" and Y: "Y \<noteq> []"
  shows "\<exists>ns. swap (fst a) (fst b) w = Inr ((), w\<lparr>nodes := ns\<rparr>) \<and> seg ns NULL (X @ b # Y @ a # Z) NULL \<and>
    (\<forall>r. r \<notin> fst ` set (X @ a # Y @ b # Z) \<longrightarrow> ns r = nodes w r)"
proof -
  let ?a = "fst a" and ?b = "fst b" and ?x = "final_of NULL X" and ?z = "first_of Z NULL" and ?N = "nodes w"
    and ?y = "first_of Y NULL" and ?v = "final_of NULL Y"
  have s: "seg ?N NULL X ?a" "seg ?N ?b Z NULL" "seg ?N ?a Y ?b" "?a \<noteq> NULL" "?b \<noteq> NULL"
    "?N ?a = Some \<lparr>n_data = snd a, n_next = ?y, n_prev = ?x\<rparr>" "?N ?b = Some \<lparr>n_data = snd b, n_next = ?z, n_prev = ?v\<rparr>"
    using S first_of_nonempty [OF Y, of ?b NULL] final_of_nonempty [OF Y, of ?a NULL]
    by (simp_all add: seg_append first_of_append final_of_append)
  have d: "fst ` set X \<inter> fst ` set Z = {}" "?a \<noteq> ?b" "?a \<notin> fst ` set X" "?a \<notin> fst ` set Z" "?b \<notin> fst ` set X" "?b \<notin> fst ` set Z"
    "?a \<notin> fst ` set Y" "?b \<notin> fst ` set Y" "fst ` set X \<inter> fst ` set Y = {}" "fst ` set Y \<inter> fst ` set Z = {}"
    "distinct (map fst Y)"
    using D by auto
  note e = seg_ends [OF s(1,2) d(1)] and f = seg_ends [OF s(1,3) d(9)] and g = seg_ends [OF s(3,2) d(10)]
  have ne: "?x \<noteq> ?a" "?x \<noteq> ?b" "?z \<noteq> ?a" "?z \<noteq> ?b" "?y \<noteq> ?a" "?y \<noteq> ?b" "?v \<noteq> ?a" "?v \<noteq> ?b" "?y \<noteq> NULL" "?v \<noteq> NULL"
    using e(7) [OF d(3) s(4)] e(7) [OF d(5) s(5)] e(8) [OF d(4) s(4)] e(8) [OF d(6) s(5)]
      f(8) [OF d(7) s(4)] f(8) [OF d(8) s(5)] g(7) [OF d(7) s(4)] g(7) [OF d(8) s(5)] f(2) g(1) Y by simp_all
  have yin: "?y \<in> fst ` set Y" "?v \<in> fst ` set Y" using first_of_in [OF Y] final_of_in [OF Y] by auto
  let ?n = "swapped ?x ?a ?y ?v ?b ?z ?N"
  have run: "swap ?a ?b w = Inr ((), w\<lparr>nodes := ?n\<rparr>)"
    by (rule swap_run [OF s(6,4,7,5)]) (use ne e(5,6) f(6) g(5) in auto)
  have out: "?n r = put_next ?x ?b (put_prev ?z ?a ?N) r" if "r \<notin> fst ` set (a # Y @ [b])" for r
    by (rule swapped_outside) (use that yin in auto)
  have "seg ?n ?b Y ?a" by (rule swapped_between [OF s(3) Y d(11,7,8) f(3) g(4)])
  moreover have "?n ?b = Some \<lparr>n_data = snd b, n_next = ?y, n_prev = ?x\<rparr>" "?n ?a = Some \<lparr>n_data = snd a, n_next = ?z, n_prev = ?v\<rparr>"
    using s(4-7) ne d(2) not_sym [OF d(2)] by (simp_all add: swapped_def)
  ultimately have mid: "seg ?n ?x (b # Y @ [a]) ?z"
    using s(4,5) first_of_nonempty [OF Y, of ?a NULL] final_of_nonempty [OF Y, of ?b NULL]
    by (simp add: seg_append first_of_append)
  have "seg ?n NULL (X @ (b # Y @ [a]) @ Z) NULL"
  proof (rule seg_middle [where M = "a # Y @ [b]" and ns = ?N])
    fix r assume "r \<in> fst ` set X \<union> fst ` set Z"
    then have "r \<noteq> ?a" "r \<noteq> ?b" "r \<notin> fst ` set Y" using d(3-6,9,10) by blast+
    then have "r \<notin> fst ` set (a # Y @ [b])" by simp
    from out [OF this] show "?n r = put_next ?x (first_of (b # Y @ [a]) NULL) (put_prev ?z (final_of NULL (b # Y @ [a])) ?N) r" by simp
  qed (use S D mid in simp_all)
  moreover have "?n r = ?N r" if "r \<notin> fst ` set (X @ a # Y @ b # Z)" for r
  proof -
    have "r \<notin> fst ` set X" "r \<notin> fst ` set Z" "r \<notin> fst ` set (a # Y @ [b])" using that by auto
    then show ?thesis using e(7,8) [of r] by (auto simp: out put_next_at put_prev_at)
  qed
  ultimately show ?thesis using run by (intro exI [of _ ?n]) simp
qed

lemma swap_ok:
  assumes S: "seg (nodes w) NULL (X @ a # Y @ b # Z) NULL" and D: "distinct (map fst (X @ a # Y @ b # Z))"
  shows "\<exists>ns. swap (fst a) (fst b) w = Inr ((), w\<lparr>nodes := ns\<rparr>) \<and> seg ns NULL (X @ b # Y @ a # Z) NULL \<and>
    (\<forall>r. r \<notin> fst ` set (X @ a # Y @ b # Z) \<longrightarrow> ns r = nodes w r)"
proof (cases "Y = []")
  case True
  then have "seg (nodes w) NULL (X @ a # b # Z) NULL" using S by simp
  then have "nodes w (fst a) = Some \<lparr>n_data = snd a, n_next = fst b, n_prev = final_of NULL X\<rparr>" by (simp add: seg_append)
  then show ?thesis
    using swap_adjacent_ok [of w X a b Z] S D True by (simp add: swap_def bnd_def deref_ok ret_def)
next
  case False
  show ?thesis by (rule swap_apart_ok [OF S D False])
qed

lemma swap_chain:
  assumes "chain w (X @ a # Y @ b # Z)"
  shows "\<exists>w'. swap (fst a) (fst b) w = Inr ((), w') \<and> chain w' (X @ b # Y @ a # Z) \<and>
    relinks (fst ` set (X @ a # Y @ b # Z)) w w'"
proof -
  from swap_ok [of w X a Y b Z] assms obtain ns where
    "swap (fst a) (fst b) w = Inr ((), w\<lparr>nodes := ns\<rparr>)" "seg ns NULL (X @ b # Y @ a # Z) NULL"
    "\<forall>r. r \<notin> fst ` set (X @ a # Y @ b # Z) \<longrightarrow> ns r = nodes w r" by (auto simp: chain_def)
  moreover have "distinct (map fst (X @ b # Y @ a # Z))" using assms by (auto simp: chain_def)
  ultimately show ?thesis by (intro exI [of _ "w\<lparr>nodes := ns\<rparr>"]) (simp add: chain_def relinks_def)
qed

lemma swap_inwards_ok:
  assumes "chain w (A @ M @ B)" and "n = length M div 2"
  shows "\<exists>w'. swap_inwards n (first_of M NULL) (final_of NULL M) w = Inr ((), w') \<and> chain w' (A @ rev M @ B) \<and>
    relinks (fst ` set (A @ M @ B)) w w'"
  using assms
proof (induction n arbitrary: w A M B)
  case 0
  then have "length M < 2" by presburger
  then have "rev M = M" by (cases M; cases "tl M") auto
  with 0 show ?case by (simp add: ret_def)
next
  case (Suc n)
  then have "2 \<le> length M" by presburger
  then obtain a M' where "M = a # M'" "M' \<noteq> []" by (cases M; cases "tl M") auto
  then obtain Y b where M: "M = a # Y @ [b]" by (metis rev_exhaust)
  from swap_chain [of w A a Y b B] Suc.prems(1) M obtain w1 where
    s: "swap (fst a) (fst b) w = Inr ((), w1)" "chain w1 ((A @ [b]) @ Y @ a # B)" "relinks (fst ` set (A @ M @ B)) w w1" by auto
  have n: "n = length Y div 2" using Suc.prems(2) M by simp
  from Suc.IH [OF s(2) n] obtain w2 where
    w2: "swap_inwards n (first_of Y NULL) (final_of NULL Y) w1 = Inr ((), w2)" "chain w2 ((A @ [b]) @ rev Y @ a # B)"
      "relinks (fst ` set (A @ M @ B)) w1 w2" using M by (auto simp: insert_commute Un_commute)
  have "deref (fst a) w = Inr (\<lparr>n_data = snd a, n_next = first_of (Y @ b # B) NULL, n_prev = final_of NULL A\<rparr>, w)"
    "deref (fst b) w = Inr (\<lparr>n_data = snd b, n_next = first_of B NULL, n_prev = final_of NULL (A @ a # Y)\<rparr>, w)"
    using chain_node [of w A a "Y @ b # B"] chain_node [of w "A @ a # Y" b B] Suc.prems(1) M by simp_all
  moreover have "swap_inwards n (first_of (Y @ b # B) NULL) (final_of NULL (A @ a # Y)) w1 = Inr ((), w2)"
    using w2(1) n first_of_prefix [of Y "b # B" NULL] final_of_nonempty [of Y "fst a" NULL]
    by (cases "Y = []") (auto simp: final_of_append)
  ultimately show ?case
    using M s w2 relinks_trans [OF s(3) w2(3)] by (intro exI [of _ w2]) (simp add: bnd_def final_of_append)
qed

text \<open>C31: \<open>list_reverse\<close> ends and leaves the same nodes in the opposite order, by exchanging their positions and not
  their elements; nothing else changes.\<close>

theorem list_reverse_reverses:
  assumes w: "is_list w l qs"
  shows "\<exists>w'. list_reverse l w = Inr ((), w') \<and> is_list w' l (rev qs) \<and> elsewhere l (fst ` set qs) w w'"
proof -
  note L = is_list_struct(1) [OF w]
  show ?thesis
  proof (cases "length qs < 2")
    case True
    then have "length qs = 0 \<or> length qs = 1" by linarith
    moreover from this have "rev qs = qs" by (cases qs; cases "tl qs") auto
    ultimately show ?thesis
      using w by (intro exI [of _ w]) (auto simp: list_reverse_def bnd_def get_list_ok [OF L] ret_def)
  next
    case False
    have ends: "first_of (rev qs) NULL = final_of NULL qs" "final_of NULL (rev qs) = first_of qs NULL"
      by (cases qs rule: rev_cases; simp) (cases qs; simp)
    from swap_inwards_ok [of w "[]" qs "[]" "length qs div 2"] is_list_chain [OF w] obtain w1 where
      s: "swap_inwards (length qs div 2) (first_of qs NULL) (final_of NULL qs) w = Inr ((), w1)" "chain w1 (rev qs)"
        "relinks (fst ` set qs) w w1" by auto
    have same: "lists w1 = lists w" "l_fresh w1 = l_fresh w" "l_fuel w1 = l_fuel w" "\<And>p. p \<notin> fst ` set qs \<Longrightarrow> nodes w1 p = nodes w p"
      using s(3) by (cases w; cases w1; auto simp: relinks_def)+
    let ?w = "w1\<lparr>lists := (lists w)(l \<mapsto> \<lparr>l_size = length qs, l_head = final_of NULL qs, l_tail = first_of qs NULL\<rparr>)\<rparr>"
    have "list_reverse l w = Inr ((), ?w)"
      using False L by (auto simp: list_reverse_def bnd_def get_list_ok [OF L] s(1) same upd_list_ok ret_def)
    moreover have "is_list ?w l (rev qs) \<and> elsewhere l (fst ` set qs) w ?w"
      by (rule relinked_list [OF w]) (use s(2) same in \<open>simp_all add: chain_def ends\<close>)
    ultimately show ?thesis by blast
  qed
qed

theorem list_reverse_reverses_witness:
  "\<exists>w'. list_reverse 1 two_used_lists = Inr ((), w') \<and> is_list w' 1 [(121, 6), (97, 5)]"
  using list_reverse_reverses [OF two_used_lists_ok(1)] by auto

end
