(* ===== verification/Clist_Copy.thy ===== *)
theory Clist_Copy
  imports Clist_Bulk
begin

text \<open>
  What filtering in place, copying and splicing (lib/collectc/list.c) do: total correctness over the nodes of all lists,
  with the failures of the allocator.
\<close>

section \<open>What filtering does\<close>

text \<open>\<open>list_filter_mut\<close> ends, removes exactly the nodes whose elements fail the predicate, and keeps the order and
  the identity of the others; an empty list is reported and left alone.\<close>

lemma list_filter_mut_filters:
  assumes w: "is_list w l qs" and f: "length qs < l_fuel w"
  shows "\<exists>w'. list_filter_mut l pred w = Inr (if qs = [] then CC_ERR_OUT_OF_RANGE else CC_OK, w') \<and>
    is_list w' l (filter (pred \<circ> snd) qs) \<and> elsewhere l (fst ` set qs) w w'"
proof (cases "qs = []")
  case True
  then show ?thesis using w
    by (auto simp: list_filter_mut_def bnd_def get_list_ok [OF is_list_struct(1) [OF w]] ret_def)
next
  case False
  let ?body = "\<lambda>p nd (_ :: unit). bnd (if \<not> pred (n_data nd) then bnd (unlink l p) (\<lambda>_. ret ()) else ret ()) (\<lambda>_.
       ret (Inl () :: unit + unit))"
  define I where "I rs u w' \<longleftrightarrow> (\<exists>ds. qs = ds @ rs \<and> is_list w' l (filter (pred \<circ> snd) ds @ rs)) \<and>
      elsewhere l (fst ` set qs) w w'" for rs and u :: unit and w'
  have "\<exists>r w'. while_node ?body (first_of qs NULL) () w = Inr (r, w') \<and> (case r of Inl y \<Rightarrow> I [] y w' | Inr z \<Rightarrow> False)"
  proof (rule while_node_each [OF _ _ f])
    fix q rs x w1 assume "I (q # rs) x w1"
    then obtain ds where ds: "qs = ds @ q # rs" and w1: "is_list w1 l (filter (pred \<circ> snd) ds @ q # rs)"
      and e: "elsewhere l (fst ` set qs) w w1" by (auto simp: I_def)
    have q: "fst q \<noteq> NULL" "nodes w1 (fst q) = Some \<lparr>n_data = snd q, n_next = first_of rs NULL, n_prev = final_of NULL (filter (pred \<circ> snd) ds)\<rparr>"
      using w1 by (simp_all add: is_list_def seg_append)
    have "\<exists>w2. ?body (fst q) \<lparr>n_data = snd q, n_next = first_of rs NULL, n_prev = final_of NULL (filter (pred \<circ> snd) ds)\<rparr> () w1 = Inr (Inl (), w2) \<and> I rs () w2"
    proof (cases "pred (snd q)")
      case True
      then have "is_list w1 l (filter (pred \<circ> snd) (ds @ [q]) @ rs)" using w1 by simp
      then have "I rs () w1" using ds e unfolding I_def by (metis append.assoc append_Cons append_Nil)
      with True show ?thesis by (simp add: ret_def)
    next
      case False
      from unlink_ok [OF w1] obtain w2 where u: "unlink l (fst q) w1 = Inr (snd q, w2)"
        "is_list w2 l (filter (pred \<circ> snd) ds @ rs)" "elsewhere l (fst ` set (filter (pred \<circ> snd) ds @ q # rs)) w1 w2" by blast
      have "elsewhere l (fst ` set qs) w w2" by (rule elsewhere_step [OF e u(3)]) (auto simp: ds)
      moreover have "filter (pred \<circ> snd) (ds @ [q]) = filter (pred \<circ> snd) ds" using False by simp
      ultimately have "I rs () w2" using u(2) ds unfolding I_def by (metis append.assoc append_Cons append_Nil)
      with False u(1) show ?thesis by (simp add: bnd_def ret_def)
    qed
    with q show "\<exists>nd r w'. fst q \<noteq> NULL \<and> nodes w1 (fst q) = Some nd \<and> n_next nd = first_of rs NULL \<and>
        ?body (fst q) nd x w1 = Inr (r, w') \<and> (case r of Inl y \<Rightarrow> I rs y w' | Inr z \<Rightarrow> False)" by fastforce
  qed (use w in \<open>simp add: I_def\<close>)
  then obtain r w' where r: "while_node ?body (first_of qs NULL) () w = Inr (r, w')" "case r of Inl y \<Rightarrow> I [] y w' | Inr z \<Rightarrow> False"
    by blast
  then have "I [] () w'" by (cases r) simp_all
  then show ?thesis
    using is_list_struct(1) [OF w] False r(1) unfolding I_def list_filter_mut_def
    by (intro exI [of _ w']) (simp add: bnd_def get_list_ok ret_def)
qed

section \<open>What copying does\<close>

lemma each_node_each:
  assumes step: "\<And>q rs x w. I (q # rs) x w \<Longrightarrow>
      \<exists>nd r w'. fst q \<noteq> NULL \<and> nodes w (fst q) = Some nd \<and> body (n_data nd) x w = Inr (r, w') \<and>
        (case r of Inl y \<Rightarrow> I rs y w' \<and> (\<exists>nd'. nodes w' (fst q) = Some nd' \<and> n_next nd' = first_of rs NULL) | Inr z \<Rightarrow> Q z w')"
    and start: "I qs x w" "length qs < l_fuel w"
  shows "\<exists>r w'. each_node body (first_of qs NULL) x w = Inr (r, w') \<and> (case r of Inl y \<Rightarrow> I [] y w' | Inr z \<Rightarrow> Q z w')"
proof -
  let ?b = "\<lambda>(p, x). if p = NULL then ret (Inr (Inl x)) else
       bnd (deref p) (\<lambda>nd. bnd (body (n_data nd) x) (\<lambda>r.
       case r of Inl y \<Rightarrow> bnd (deref p) (\<lambda>nd'. ret (Inl (n_next nd', y))) | Inr z \<Rightarrow> ret (Inr (Inr z))))"
  have "length qs < n \<Longrightarrow> I qs x w \<Longrightarrow> \<exists>r w'. loopM n ?b (first_of qs NULL, x) w = Inr (r, w') \<and>
      (case r of Inl y \<Rightarrow> I [] y w' | Inr z \<Rightarrow> Q z w')" for n
  proof (induction qs arbitrary: n x w)
    case Nil
    then show ?case by (cases n) (simp_all add: bnd_def ret_def)
  next
    case (Cons q rs)
    then obtain k where n: "n = Suc k" "length rs < k" by (cases n) auto
    from step [OF Cons.prems(2)] obtain nd r w1 where s: "fst q \<noteq> NULL" "nodes w (fst q) = Some nd"
      "body (n_data nd) x w = Inr (r, w1)"
      "case r of Inl y \<Rightarrow> I rs y w1 \<and> (\<exists>nd'. nodes w1 (fst q) = Some nd' \<and> n_next nd' = first_of rs NULL) | Inr z \<Rightarrow> Q z w1" by blast
    show ?case
    proof (cases r)
      case (Inl y)
      with s obtain nd' where "nodes w1 (fst q) = Some nd'" "n_next nd' = first_of rs NULL" "I rs y w1" by auto
      with s Inl Cons.IH [OF n(2), of y w1] show ?thesis by (simp add: n bnd_def deref_ok ret_def)
    next
      case (Inr z)
      with s show ?thesis by (simp add: n bnd_def deref_ok ret_def)
    qed
  qed
  then show ?thesis using start by (simp add: each_node_def bnd_def gets_def)
qed

lemma with_inserted_outside:
  assumes w: "is_list w l (xs @ ys)"
  shows "r \<notin> fst ` set (xs @ (l_fresh w, x) # ys) \<Longrightarrow> nodes (with_inserted l xs x ys w) r = nodes w r"
    "k \<noteq> l \<Longrightarrow> lists (with_inserted l xs x ys w) k = lists w k"
    "l_fuel (with_inserted l xs x ys w) = l_fuel w" "l_fresh (with_inserted l xs x ys w) = l_fresh w + sizeof_node"
proof -
  let ?p = "l_fresh w"
  have S: "seg (nodes w) NULL (xs @ ys) NULL" and p: "?p \<noteq> NULL" using w by (auto simp: is_list_def)
  have "?p \<notin> fst ` set (xs @ ys)" using is_list_fresh [OF w] by (meson less_irrefl)
  then have D: "distinct (map fst (xs @ (?p, x) # ys))" using w by (auto simp: is_list_def)
  show "nodes (with_inserted l xs x ys w) r = nodes w r" if "r \<notin> fst ` set (xs @ (?p, x) # ys)"
    using seg_put_in(2) [OF S D, of _ r] p that by (simp add: with_inserted_def Let_def)
qed (simp_all add: with_inserted_def with_node_def Let_def)

text \<open>The memory \<open>w\<close> with nothing but a new list \<open>k\<close> with the new nodes \<open>cs\<close> added.\<close>

definition grown :: "lmem \<Rightarrow> addr \<Rightarrow> (addr \<times> addr) list \<Rightarrow> lmem \<Rightarrow> bool" where
  "grown w k cs w' \<longleftrightarrow> is_list w' k cs \<and> l_fresh w \<le> k \<and> (\<forall>p\<in>fst ` set cs. l_fresh w \<le> p) \<and>
     (\<forall>p. p \<notin> fst ` set cs \<longrightarrow> nodes w' p = nodes w p) \<and> (\<forall>j. j \<noteq> k \<longrightarrow> lists w' j = lists w j) \<and> l_fuel w' = l_fuel w"

definition clean :: "lmem \<Rightarrow> bool" where
  "clean w \<longleftrightarrow> 0 < l_fresh w \<and> (\<forall>p\<ge>l_fresh w. nodes w p = None \<and> lists w p = None)"

lemma is_list_clean: "is_list w l qs \<Longrightarrow> clean w"
  by (simp add: is_list_def clean_def)

lemma list_new_conf_cases:
  assumes "clean w"
  shows "(\<exists>w1. list_new_conf w = Inr ((CC_OK, Some (l_fresh w)), w1) \<and> grown w (l_fresh w) [] w1) \<or>
    (\<exists>w1. list_new_conf w = Inr ((CC_ERR_ALLOC, None), w1) \<and> nodes w1 = nodes w \<and> lists w1 = lists w)"
  using assms
  by (cases "fst (draw (l_sched w))")
    (auto simp: list_new_conf_def calloc_list_def bnd_def l_draw_ok gets_def modify_def ret_def clean_def grown_def is_list_def
      sizeof_list_def)

lemma grown_fresh: "grown w k cs w1 \<Longrightarrow> l_fresh w \<le> l_fresh w1"
  using is_list_fresh by (fastforce simp: grown_def)

lemma grown_add:
  assumes g: "grown w k cs w1"
  shows "(\<exists>w2 p. list_add k d w1 = Inr (CC_OK, w2) \<and> grown w k (cs @ [(p, d)]) w2) \<or>
    (\<exists>w2. list_add k d w1 = Inr (CC_ERR_ALLOC, w2) \<and> grown w k cs w2)"
proof (cases "fst (draw (l_sched w1))")
  case True
  have k: "is_list w1 k (cs @ [])" using g by (simp add: grown_def)
  have "grown w k (cs @ [(l_fresh w1, d)]) (with_inserted k cs d [] w1)"
    using g list_inserted [OF k, of d] with_inserted_outside [OF k] grown_fresh [OF g]
    by (auto simp: grown_def)
  then show ?thesis using list_add_last_ok [of w1 k cs d] True k by (auto simp: list_add_def)
next
  case False
  then show ?thesis using g list_add_fails(1) [OF False] by (auto simp: list_add_def grown_def)
qed

lemma grown_destroy:
  assumes g: "grown w k cs w1" and c: "clean w" and f: "length cs < l_fuel w"
  shows "\<exists>w2. list_destroy k w1 = Inr ((), w2) \<and> nodes w2 = nodes w \<and> lists w2 = lists w"
proof -
  have k: "is_list w1 k cs" and "length cs < l_fuel w1" using g f by (simp_all add: grown_def)
  from list_destroy_ok [OF this] obtain w2 where d: "list_destroy k w1 = Inr ((), w2)" "lists w2 k = None"
    "\<forall>p\<in>fst ` set cs. nodes w2 p = None" "elsewhere k (fst ` set cs) w1 w2" "l_fresh w2 = l_fresh w1"
    "\<forall>p\<ge>l_fresh w2. nodes w2 p = None \<and> lists w2 p = None" by blast
  note fr = grown_fresh [OF g]
  have "nodes w2 p = nodes w p" for p
  proof (cases "p \<in> fst ` set cs")
    case True
    have "nodes w2 p = None" using d(3) True by (rule bspec)
    moreover have "l_fresh w \<le> p" using g True unfolding grown_def by blast
    ultimately show ?thesis using c by (simp add: clean_def)
  next
    case False
    then show ?thesis using d(4,5,6) g c fr by (cases "p < l_fresh w1") (auto simp: grown_def clean_def elsewhere_def)
  qed
  moreover have "lists w2 j = lists w j" for j
  proof (cases "j = k")
    case True
    then show ?thesis using d(2) g c by (auto simp: grown_def clean_def)
  next
    case False
    then show ?thesis using d(4,5,6) g c fr by (cases "j < l_fresh w1") (auto simp: grown_def clean_def elsewhere_def)
  qed
  ultimately show ?thesis using d(1) by blast
qed

lemma grown_other:
  assumes g: "grown w k cs w1" and l: "is_list w l qs"
  shows "is_list w1 l qs \<and> l \<noteq> k \<and> fst ` set cs \<inter> fst ` set qs = {}"
proof -
  have old: "l < l_fresh w" "\<forall>p\<in>fst ` set qs. p < l_fresh w" using is_list_fresh [OF l] by auto
  have new: "\<forall>p\<in>fst ` set cs. l_fresh w \<le> p" "l_fresh w \<le> k" using g unfolding grown_def by blast+
  have apart: "fst ` set cs \<inter> fst ` set qs = {}" "l \<noteq> k" using old new by (meson disjoint_iff not_less, simp)
  have "nodes w1 p = nodes w p" if "p \<in> fst ` set qs" for p using that apart(1) g unfolding grown_def by blast
  then have "seg (nodes w1) NULL qs NULL" using l seg_agree [of qs "nodes w1" "nodes w"] by (simp add: is_list_def)
  moreover have "lists w1 l = lists w l" using apart g by (simp add: grown_def)
  ultimately show ?thesis using g l apart by (auto simp: grown_def is_list_def)
qed

text \<open>The loop of the two copying operations, with a copy function that has no effect on the lists.\<close>

lemma copy_loop:
  assumes l: "is_list w l qs" and f: "length qs < l_fuel w" and g: "grown w k [] w0"
  shows "\<exists>r w'. each_node (\<lambda>d (_ :: unit). bnd (list_add k (h d)) (\<lambda>stat.
       if stat \<noteq> CC_OK then bnd (list_destroy k) (\<lambda>_. ret (Inr stat)) else ret (Inl ()))) (first_of qs NULL) () w0 = Inr (r, w') \<and>
     (case r of Inl _ \<Rightarrow> \<exists>cs. grown w k cs w' \<and> map snd cs = map (h \<circ> snd) qs
      | Inr st \<Rightarrow> st = CC_ERR_ALLOC \<and> nodes w' = nodes w \<and> lists w' = lists w)"
proof -
  let ?body = "\<lambda>d (_ :: unit). bnd (list_add k (h d)) (\<lambda>stat.
       if stat \<noteq> CC_OK then bnd (list_destroy k) (\<lambda>_. ret (Inr stat)) else ret (Inl ()))"
  define I where "I rs u w' \<longleftrightarrow> (\<exists>ds cs. qs = ds @ rs \<and> grown w k cs w' \<and> map snd cs = map (h \<circ> snd) ds)"
    for rs and u :: unit and w'
  define Q where "Q st w' \<longleftrightarrow> st = CC_ERR_ALLOC \<and> nodes w' = nodes w \<and> lists w' = lists w" for st and w' :: lmem
  have "\<exists>r w'. each_node ?body (first_of qs NULL) () w0 = Inr (r, w') \<and> (case r of Inl y \<Rightarrow> I [] y w' | Inr z \<Rightarrow> Q z w')"
  proof (rule each_node_each)
    fix q rs x w1 assume "I (q # rs) x w1"
    then obtain ds cs where ds: "qs = ds @ q # rs" and g1: "grown w k cs w1" "map snd cs = map (h \<circ> snd) ds" by (auto simp: I_def)
    have node: "fst q \<noteq> NULL" "\<exists>nd. nodes w' (fst q) = Some nd \<and> n_data nd = snd q \<and> n_next nd = first_of rs NULL" if "grown w k cs' w'" for cs' w'
      using grown_other [OF that l] ds by (auto simp: is_list_def seg_append)
    from grown_add [OF g1(1), of "h (snd q)"]
    have "\<exists>r w'. ?body (snd q) () w1 = Inr (r, w') \<and>
      (case r of Inl y \<Rightarrow> I rs y w' \<and> (\<exists>nd'. nodes w' (fst q) = Some nd' \<and> n_next nd' = first_of rs NULL) | Inr z \<Rightarrow> Q z w')"
    proof (elim disjE exE conjE)
      fix w2 p assume a: "list_add k (h (snd q)) w1 = Inr (CC_OK, w2)" "grown w k (cs @ [(p, h (snd q))]) w2"
      then have "I rs () w2" using ds g1(2) unfolding I_def
        by (intro exI [of _ "ds @ [q]"] exI [of _ "cs @ [(p, h (snd q))]"]) simp
      with a node [OF a(2)] show ?thesis by (auto simp: bnd_def ret_def)
    next
      fix w2 assume a: "list_add k (h (snd q)) w1 = Inr (CC_ERR_ALLOC, w2)" "grown w k cs w2"
      have "length cs < l_fuel w" using f ds arg_cong [OF g1(2), of length] by simp
      from grown_destroy [OF a(2) is_list_clean [OF l] this] a(1) show ?thesis by (auto simp: bnd_def ret_def Q_def)
    qed
    with node [OF g1(1)] show "\<exists>nd r w'. fst q \<noteq> NULL \<and> nodes w1 (fst q) = Some nd \<and> ?body (n_data nd) x w1 = Inr (r, w') \<and>
        (case r of Inl y \<Rightarrow> I rs y w' \<and> (\<exists>nd'. nodes w' (fst q) = Some nd' \<and> n_next nd' = first_of rs NULL) | Inr z \<Rightarrow> Q z w')"
      by fastforce
  qed (use g f in \<open>auto simp: I_def grown_def\<close>)
  then obtain r w' where r: "each_node ?body (first_of qs NULL) () w0 = Inr (r, w')" "case r of Inl y \<Rightarrow> I [] y w' | Inr z \<Rightarrow> Q z w'" by blast
  then show ?thesis by (intro exI [of _ r] exI [of _ w']) (auto simp: I_def Q_def split: sum.splits)
qed

lemma list_copy_deep_ok:
  assumes l: "is_list w l qs" and f: "length qs < l_fuel w"
  shows "(\<exists>w' k cs. list_copy_deep l (\<lambda>d. ret (h d)) w = Inr ((CC_OK, Some k), w') \<and> grown w k cs w' \<and> map snd cs = map (h \<circ> snd) qs) \<or>
    (\<exists>w'. list_copy_deep l (\<lambda>d. ret (h d)) w = Inr ((CC_ERR_ALLOC, None), w') \<and> nodes w' = nodes w \<and> lists w' = lists w)"
  using list_new_conf_cases [OF is_list_clean [OF l]]
proof (elim disjE exE conjE)
  fix w1 assume n: "list_new_conf w = Inr ((CC_OK, Some (l_fresh w)), w1)" and g: "grown w (l_fresh w) [] w1"
  note L = is_list_struct(1) [OF conjunct1 [OF grown_other [OF g l]]]
  have h: "first_of qs NULL = NULL \<longleftrightarrow> qs = []" by (rule first_of_NULL [OF is_list_struct(2) [OF l]])
  show ?thesis
  proof (cases "qs = []")
    case True
    then show ?thesis using n g L by (auto simp: list_copy_deep_def bnd_def get_list_ok ret_def)
  next
    case False
    from copy_loop [OF l f g, of h] obtain r w' where
      "each_node (\<lambda>d (_ :: unit). bnd (list_add (l_fresh w) (h d)) (\<lambda>stat.
         if stat \<noteq> CC_OK then bnd (list_destroy (l_fresh w)) (\<lambda>_. ret (Inr stat)) else ret (Inl ()))) (first_of qs NULL) () w1 = Inr (r, w')"
      "case r of Inl _ \<Rightarrow> \<exists>cs. grown w (l_fresh w) cs w' \<and> map snd cs = map (h \<circ> snd) qs
        | Inr st \<Rightarrow> st = CC_ERR_ALLOC \<and> nodes w' = nodes w \<and> lists w' = lists w" by blast
    then show ?thesis using n L h False
      by (cases r) (auto simp: list_copy_deep_def bnd_Inr_step [where m = list_new_conf and s = w, OF n]
        bnd_Inr_step [where m = "get_list l" and s = w1, OF get_list_ok [OF L]] bnd_Inr_step [where s = w1] ret_def)
  qed
next
  fix w1 assume "list_new_conf w = Inr ((CC_ERR_ALLOC, None), w1)" "nodes w1 = nodes w" "lists w1 = lists w"
  then show ?thesis by (auto simp: list_copy_deep_def bnd_def ret_def)
qed

lemma list_copy_shallow_deep: "list_copy_shallow l = list_copy_deep l ret"
  by (simp add: list_copy_shallow_def list_copy_deep_def cong: option.case_cong if_cong)

text \<open>C33: \<open>list_copy_shallow\<close> ends, and either gives a new list of the same elements that shares no node with the original, which
  is as it was, or reports that memory has run out and leaves the lists exactly as they were, with nothing leaked.\<close>

theorem list_copy_all_or_nothing:
  assumes "is_list w l qs" and "length qs < l_fuel w"
  shows "(\<exists>w' k cs. list_copy_shallow l w = Inr ((CC_OK, Some k), w') \<and> is_list w' k cs \<and> map snd cs = map snd qs \<and>
      is_list w' l qs \<and> l \<noteq> k \<and> fst ` set cs \<inter> fst ` set qs = {}) \<or>
    (\<exists>w'. list_copy_shallow l w = Inr ((CC_ERR_ALLOC, None), w') \<and> nodes w' = nodes w \<and> lists w' = lists w)"
  using list_copy_deep_ok [OF assms, of "\<lambda>d. d"]
proof (elim disjE exE conjE)
  fix w' k cs assume "list_copy_deep l ret w = Inr ((CC_OK, Some k), w')" "grown w k cs w'" "map snd cs = map ((\<lambda>d. d) \<circ> snd) qs"
  then show ?thesis
    using grown_other [OF _ assms(1), of k cs w'] unfolding list_copy_shallow_deep
    by (intro disjI1 exI [of _ w'] exI [of _ k] exI [of _ cs]) (simp add: comp_def, simp add: grown_def)
qed (simp add: list_copy_shallow_deep)

theorem list_copy_all_or_nothing_witness:
  "(\<exists>w' k cs. list_copy_shallow 1 two_used_lists = Inr ((CC_OK, Some k), w') \<and> is_list w' k cs \<and>
      map snd cs = map snd [(97 :: addr, 5), (121, 6)] \<and> is_list w' 1 [(97, 5), (121, 6)] \<and> 1 \<noteq> k \<and>
      fst ` set cs \<inter> fst ` set [(97 :: addr, 5 :: addr), (121, 6)] = {}) \<or>
    (\<exists>w'. list_copy_shallow 1 two_used_lists = Inr ((CC_ERR_ALLOC, None), w') \<and> nodes w' = nodes two_used_lists \<and>
      lists w' = lists two_used_lists)"
  by (rule list_copy_all_or_nothing [OF two_used_lists_ok(1)]) (simp add: two_used_lists_ok)

section \<open>What splicing does\<close>

lemma put_idem: "ns p = Some n \<Longrightarrow> n_prev n = v \<Longrightarrow> put_prev p v ns = ns" "ns p = Some n \<Longrightarrow> n_next n = v \<Longrightarrow> put_next p v ns = ns"
  by (auto simp: put_prev_def put_next_def fun_upd_idem_iff)

text \<open>The nodes of one list between two neighbours of another.\<close>

definition spliced :: "addr \<Rightarrow> addr \<Rightarrow> addr \<Rightarrow> addr \<Rightarrow> (addr \<Rightarrow> node option) \<Rightarrow> addr \<Rightarrow> node option" where
  "spliced b h t e ns = put_next t e (put_prev e t (put_prev h b (put_next b h ns)))"

lemma seg_spliced:
  assumes A: "seg ns NULL (xs @ ys) NULL" and M: "seg ns NULL ms NULL" and m: "ms \<noteq> []"
    and D: "distinct (map fst (xs @ ms @ ys))"
    and ns': "ns' = spliced (final_of NULL xs) (first_of ms NULL) (final_of NULL ms) (first_of ys NULL) ns"
  shows "seg ns' NULL (xs @ ms @ ys) NULL" "r \<notin> fst ` set (xs @ ms @ ys) \<Longrightarrow> ns' r = ns r"
proof -
  let ?b = "final_of NULL xs" and ?e = "first_of ys NULL" and ?h = "first_of ms NULL" and ?t = "final_of NULL ms"
  have d: "fst ` set xs \<inter> fst ` set ys = {}" "fst ` set xs \<inter> fst ` set ms = {}" "fst ` set ms \<inter> fst ` set ys = {}" "distinct (map fst ms)"
    "fst ` set ys \<inter> fst ` set ms = {}"
    using D by auto
  have A': "seg ns NULL xs ?e" "seg ns ?b ys NULL" using A by (simp_all add: seg_append)
  note e = seg_ends [OF A' d(1)] and f = seg_ends [OF A'(1) M d(2)] and g = seg_ends [OF M A'(2) d(3)]
  have hin: "?h \<in> fst ` set ms" "?t \<in> fst ` set ms" using first_of_in [OF m] final_of_in [OF m] by auto
  have mid: "seg ns' ?b ms ?e"
  proof -
    have "seg (put_next ?b ?h ns) NULL ms NULL" using M f(3) by simp
    then have "seg (put_prev ?h ?b (put_next ?b ?h ns)) ?b ms NULL" using seg_put_prev d(4) by blast
    then have "seg (put_prev ?e ?t (put_prev ?h ?b (put_next ?b ?h ns))) ?b ms NULL" using g(4) by simp
    then show ?thesis unfolding ns' spliced_def using seg_put_next d(4) by blast
  qed
  have out: "ns' r = put_next ?b ?h (put_prev ?e ?t ns) r" if "r \<notin> fst ` set ms" for r
  proof -
    have "r \<noteq> ?h" "r \<noteq> ?t" using that hin by auto
    then show ?thesis unfolding ns' spliced_def put_commute by (simp add: put_next_at put_prev_at)
  qed
  show "seg ns' NULL (xs @ ms @ ys) NULL"
  proof (rule seg_middle [where M = "[]" and ns = ns])
    show "ns' r = put_next ?b ?h (put_prev ?e ?t ns) r" if "r \<in> fst ` set xs \<union> fst ` set ys" for r
      using that d(2,3) by (intro out) blast
  qed (use A D m mid in auto)
  show "ns' r = ns r" if "r \<notin> fst ` set (xs @ ms @ ys)"
  proof -
    have "r \<notin> fst ` set xs" "r \<notin> fst ` set ms" "r \<notin> fst ` set ys" using that by auto
    then show ?thesis using e(7,8) [of r] by (auto simp: out put_next_at put_prev_at)
  qed
qed

lemma splice_between_ok:
  assumes l1: "is_list w l1 (xs @ ys)" "xs @ ys \<noteq> []" and l2: "is_list w l2 ms" "ms \<noteq> []" and l: "l1 \<noteq> l2"
    and d: "fst ` set (xs @ ys) \<inter> fst ` set ms = {}"
  shows "splice_between l1 l2 (final_of NULL xs) (first_of ys NULL) w = Inr ((), w\<lparr>
    nodes := spliced (final_of NULL xs) (first_of ms NULL) (final_of NULL ms) (first_of ys NULL) (nodes w),
    lists := (lists w)(l1 \<mapsto> \<lparr>l_size = length (xs @ ms @ ys), l_head = first_of (xs @ ms @ ys) NULL, l_tail = final_of NULL (xs @ ms @ ys)\<rparr>,
      l2 \<mapsto> \<lparr>l_size = 0, l_head = NULL, l_tail = NULL\<rparr>)\<rparr>)"
proof -
  let ?b = "final_of NULL xs" and ?e = "first_of ys NULL" and ?h = "first_of ms NULL" and ?t = "final_of NULL ms" and ?N = "nodes w"
  note L1 = is_list_struct(1) [OF l1(1)] and L2 = is_list_struct(1) [OF l2(1)]
  note S2 = is_list_struct(2) [OF l2(1)]
  have A: "seg ?N NULL xs ?e" "seg ?N ?b ys NULL" using is_list_struct(2) [OF l1(1)] by (simp_all add: seg_append)
  have "fst ` set xs \<inter> fst ` set ys = {}" "fst ` set xs \<inter> fst ` set ms = {}" "fst ` set ms \<inter> fst ` set ys = {}"
    using l1(1) d by (auto simp: is_list_def)
  note e = seg_ends [OF A this(1)] and f = seg_ends [OF A(1) S2 this(2)] and g = seg_ends [OF S2 A(2) this(3)]
  have hd: "?N ?h = Some n \<Longrightarrow> n_prev n = NULL" "?h \<noteq> NULL" "?N ?h \<noteq> None" "\<exists>n. ?N ?h = Some n \<and> n_prev n = NULL" for n
    using S2 l2(2) by (cases ms; auto)+
  have tl: "?t \<noteq> NULL" "?N ?t \<noteq> None" "\<exists>n. ?N ?t = Some n \<and> n_next n = NULL"
    using S2 l2(2) by (cases ms rule: rev_cases; auto simp: seg_append)+
  have tb: "?t \<noteq> ?b" "?b \<noteq> ?h" using f(3) final_of_in [OF l2(2), of NULL] first_of_in [OF l2(2), of NULL] by metis+
  let ?c = "\<lparr>l_size = length (xs @ ys), l_head = first_of (xs @ ms @ ys) NULL, l_tail = final_of NULL (xs @ ms @ ys)\<rparr>"
  let ?w = "w\<lparr>nodes := spliced ?b ?h ?t ?e ?N, lists := (lists w)(l1 \<mapsto> ?c)\<rparr>"
  have part: "(if ?b = NULL then block [
       bnd (get_list l1) (\<lambda>c1. bnd (get_list l2) (\<lambda>c2. set_prev (l_head c1) (l_tail c2))),
       bnd (get_list l1) (\<lambda>c1. bnd (get_list l2) (\<lambda>c2. set_next (l_tail c2) (l_head c1))),
       bnd (get_list l2) (\<lambda>c2. upd_list l1 (\<lambda>c. c\<lparr>l_head := l_head c2\<rparr>))]
     else if ?e = NULL then block [
       bnd (get_list l1) (\<lambda>c1. bnd (get_list l2) (\<lambda>c2. set_next (l_tail c1) (l_head c2))),
       bnd (get_list l1) (\<lambda>c1. bnd (get_list l2) (\<lambda>c2. set_prev (l_head c2) (l_tail c1))),
       bnd (get_list l2) (\<lambda>c2. upd_list l1 (\<lambda>c. c\<lparr>l_tail := l_tail c2\<rparr>))]
     else block [
       bnd (get_list l2) (\<lambda>c2. set_next ?b (l_head c2)),
       bnd (get_list l2) (\<lambda>c2. set_prev (l_head c2) ?b),
       bnd (get_list l2) (\<lambda>c2. set_prev ?e (l_tail c2)),
       bnd (get_list l2) (\<lambda>c2. set_next (l_tail c2) ?e)]) w = Inr ((), ?w)" (is "?m w = _")
  proof (cases "xs = []"; cases "ys = []")
    assume x: "xs = []" and y: "ys \<noteq> []"
    have "put_prev ?h NULL ?N = ?N" using hd(4) put_idem(1) by blast
    moreover have "?e \<noteq> NULL" "?N ?e \<noteq> None" using e(2,6) y by auto
    ultimately show ?thesis using x L1 L2 tl l
      by (simp add: bnd_def get_list_ok set_prev_ok set_next_ok upd_list_ok ret_def spliced_def first_of_append final_of_append
          first_of_nonempty [OF l2(2), of "?e" NULL] final_of_nonempty [OF y, of ?t NULL])
  next
    assume x: "xs \<noteq> []" and y: "ys = []"
    define n1 where "n1 = put_prev ?h ?b (put_next ?b ?h ?N)"
    have "\<exists>n. n1 ?t = Some n \<and> n_next n = NULL" using tl tb by (auto simp: n1_def put_next_at put_prev_at)
    then have tn: "put_next ?t NULL n1 = n1" using put_idem(2) by blast
    have "?b \<noteq> NULL" "?N ?b \<noteq> None" using e(1,5) x by auto
    then show ?thesis using x y L1 L2 tl hd l tn [unfolded n1_def]
      by (simp add: bnd_def get_list_ok set_prev_ok set_next_ok upd_list_ok ret_def spliced_def first_of_append final_of_append
          first_of_nonempty [OF x, of ?h NULL] final_of_nonempty [OF l2(2), of ?b NULL])
  next
    assume x: "xs \<noteq> []" and y: "ys \<noteq> []"
    have "?b \<noteq> NULL" "?N ?b \<noteq> None" "?e \<noteq> NULL" "?N ?e \<noteq> None" using e(1,2,5,6) x y by auto
    then show ?thesis using x y L1 L2 tl hd l
      by (simp add: bnd_def get_list_ok set_prev_ok set_next_ok upd_list_ok ret_def spliced_def first_of_append final_of_append
          first_of_nonempty [OF x, of ?e NULL] first_of_nonempty [OF x, of "first_of ms ?e" NULL] final_of_nonempty [OF y, of ?b NULL]
          final_of_nonempty [OF y, of "final_of ?b ms" NULL] fun_upd_idem)
  qed (use l1(2) in simp)
  show ?thesis
    unfolding splice_between_def
    by (rule block_eqI, rule part) (use l L2 in \<open>simp add: bnd_def get_list_ok upd_list_ok ret_def add_ac\<close>)
qed

lemma nodes_around_ok:
  assumes w: "is_list w l qs" and "qs \<noteq> []" and i: "i \<le> length qs"
  shows "nodes_around l i w = Inr ((final_of NULL (take i qs), first_of (drop i qs) NULL), w)"
proof (cases "i < length qs")
  case True
  then have q: "qs = take i qs @ qs ! i # drop (Suc i) qs" by (simp add: id_take_nth_drop [symmetric])
  have "seg (nodes w) NULL (take i qs @ qs ! i # drop (Suc i) qs) NULL" using is_list_struct(2) [OF w] q by simp
  then have n: "nodes w (fst (qs ! i)) = Some \<lparr>n_data = snd (qs ! i), n_next = first_of (drop (Suc i) qs) NULL, n_prev = final_of NULL (take i qs)\<rparr>"
    "fst (qs ! i) \<noteq> NULL" by (simp_all add: seg_append)
  have "first_of (drop i qs) NULL = fst (qs ! i)" using True by (simp add: Cons_nth_drop_Suc [symmetric])
  then show ?thesis using True n by (simp add: nodes_around_def bnd_def get_node_at_ok [OF w] deref_ok ret_def)
next
  case False
  then have "i = length qs" "pred_size i < length qs" "pred_size i = length qs - 1" using i assms(2) by (auto simp: pred_size_def)
  moreover have "final_of NULL qs = fst (qs ! (length qs - 1))" using assms(2) by (simp add: final_of_def last_conv_nth)
  ultimately show ?thesis by (simp add: nodes_around_def bnd_def get_node_at_ok [OF w] ret_def)
qed

lemma is_list_emptied:
  assumes w: "is_list w l ms" and "clean w'" and "lists w' l = Some \<lparr>l_size = 0, l_head = NULL, l_tail = NULL\<rparr>"
  shows "is_list w' l []"
  using assms by (simp add: is_list_def clean_def)

text \<open>C32: \<open>list_splice_at\<close> moves all nodes of the second list, in order, to the first, before the node at the given index or, when the
  index is the size, to the end, and leaves the second empty. An empty second list changes nothing and gives \<open>CC_OK\<close>, whatever the index; otherwise
  an index beyond the size changes nothing and is reported. (The comment of the function says after the index, and reports every index
  that is not in range.)\<close>

theorem list_splice_at_moves:
  assumes l1: "is_list w l1 qs" and l2: "is_list w l2 ms" and l: "l1 \<noteq> l2" and d: "fst ` set qs \<inter> fst ` set ms = {}"
  shows "if ms \<noteq> [] \<and> i \<le> length qs then (\<exists>w'. list_splice_at l1 l2 i w = Inr (CC_OK, w') \<and>
      is_list w' l1 (take i qs @ ms @ drop i qs) \<and> is_list w' l2 [] \<and>
      (\<forall>k. k \<noteq> l1 \<and> k \<noteq> l2 \<longrightarrow> lists w' k = lists w k) \<and> (\<forall>p. p \<notin> fst ` set (qs @ ms) \<longrightarrow> nodes w' p = nodes w p))
    else list_splice_at l1 l2 i w = Inr (if ms = [] then CC_OK else CC_ERR_OUT_OF_RANGE, w)"
proof (cases "ms \<noteq> [] \<and> i \<le> length qs")
  case False
  then show ?thesis
    by (subst if_not_P) (auto simp: list_splice_at_def bnd_def get_list_ok [OF is_list_struct(1) [OF l1]] get_list_ok [OF is_list_struct(1) [OF l2]] ret_def)
next
  case True
  note L1 = is_list_struct(1) [OF l1] and L2 = is_list_struct(1) [OF l2]
  note S1 = is_list_struct(2) [OF l1] and S2 = is_list_struct(2) [OF l2]
  let ?rs = "take i qs @ ms @ drop i qs"
  let ?n = "spliced (final_of NULL (take i qs)) (first_of ms NULL) (final_of NULL ms) (first_of (drop i qs) NULL) (nodes w)"
  let ?w = "w\<lparr>nodes := ?n, lists := (lists w)(l1 \<mapsto> \<lparr>l_size = length ?rs, l_head = first_of ?rs NULL, l_tail = final_of NULL ?rs\<rparr>,
      l2 \<mapsto> \<lparr>l_size = 0, l_head = NULL, l_tail = NULL\<rparr>)\<rparr>"
  have m: "ms \<noteq> []" and i: "i \<le> length qs" using True by auto
  have tk: "fst ` set (take i qs) \<subseteq> fst ` set qs" "fst ` set (drop i qs) \<subseteq> fst ` set qs" by (auto dest: in_set_takeD in_set_dropD)
  have "distinct (map fst (take i qs @ drop i qs))" "distinct (map fst ms)" using l1 l2 by (simp_all add: is_list_def)
  moreover have "fst ` set (take i qs) \<inter> fst ` set ms = {}" "fst ` set ms \<inter> fst ` set (drop i qs) = {}" using d tk by blast+
  ultimately have D: "distinct (map fst ?rs)"
    unfolding map_append distinct_append set_append set_map image_Un Int_Un_distrib by simp
  have A: "seg (nodes w) NULL (take i qs @ drop i qs) NULL" using S1 by simp
  have set: "fst ` set ?rs = fst ` set (qs @ ms)" 
  proof -
    have "set qs = set (take i qs) \<union> set (drop i qs)" by (metis append_take_drop_id set_append)
    then show ?thesis by (simp add: image_Un Un_ac)
  qed
  note seg = seg_spliced [OF A S2 m D refl]
  have run: "list_splice_at l1 l2 i w = Inr (CC_OK, ?w)"
  proof (cases "qs = []")
    case True
    have "\<exists>n. nodes w (first_of ms NULL) = Some n \<and> n_prev n = NULL" using S2 m by (cases ms) auto
    moreover have "\<exists>n. nodes w (final_of NULL ms) = Some n \<and> n_next n = NULL"
      using S2 m by (cases ms rule: rev_cases) (auto simp: seg_append)
    ultimately have "put_prev (first_of ms NULL) NULL (nodes w) = nodes w" "put_next (final_of NULL ms) NULL (nodes w) = nodes w"
      using put_idem by blast+
    then have "?n = nodes w" using True by (simp add: spliced_def)
    then show ?thesis using True m L1 L2 l i
      by (simp add: list_splice_at_def bnd_def get_list_ok upd_list_ok ret_def)
  next
    case False
    have l1': "is_list w l1 (take i qs @ drop i qs)" "take i qs @ drop i qs \<noteq> []" using l1 False by simp_all
    have "fst ` set (take i qs @ drop i qs) \<inter> fst ` set ms = {}" using d by simp
    from splice_between_ok [OF l1' l2 m l this] show ?thesis
      using m i False by (simp add: list_splice_at_def bnd_def get_list_ok [OF L1] get_list_ok [OF L2] nodes_around_ok [OF l1 False i] ret_def)
  qed
  have out: "?n p = nodes w p" if "p \<notin> fst ` set (qs @ ms)" for p using seg(2) [of p] that set by blast
  have clean: "clean ?w" unfolding clean_def
  proof (intro conjI allI impI)
    show "0 < l_fresh ?w" using l1 by (simp add: is_list_def)
    fix p assume p: "l_fresh ?w \<le> p"
    then have p': "l_fresh w \<le> p" by simp
    then have new: "p \<notin> fst ` set qs" "p \<notin> fst ` set ms" "p \<noteq> l1" "p \<noteq> l2"
      using is_list_fresh [OF l1] is_list_fresh [OF l2] by (meson not_less)+
    have "nodes w p = None" "lists w p = None" using l1 p' by (simp_all add: is_list_def)
    moreover have "?n p = nodes w p" using new(1,2) by (intro out) (simp add: image_Un)
    ultimately show "nodes ?w p = None" "lists ?w p = None" using new(3,4) by simp_all
  qed
  have "is_list ?w l1 ?rs" using l1 l seg(1) D clean unfolding is_list_def clean_def by simp
  moreover have "is_list ?w l2 []" by (rule is_list_emptied [OF l2 clean]) simp
  ultimately show ?thesis using run out unfolding if_P [OF True] by (intro exI [of _ ?w] conjI) simp_all
qed

theorem list_splice_at_moves_witness:
  "\<exists>w'. list_splice_at 1 49 1 two_used_lists = Inr (CC_OK, w') \<and> is_list w' 1 [(97, 5), (145, 7), (121, 6)] \<and> is_list w' 49 []"
  using list_splice_at_moves [OF two_used_lists_ok(1,2), of 1] by simp blast

end
