(* ===== verification/Clist_Iter.thy ===== *)
theory Clist_Iter
  imports Clist_Bulk
begin

text \<open>
  The iterators of lib/collectc/list.c: forwards, backwards, and over two lists at once, with the loop
  LIST_FOREACH of list.h. An iterator is a record that every operation returns updated. The macro
  LIST_FOREACH_ZIP is not modelled: it declares one variable and initialises another, so no use of it compiles.
\<close>

section \<open>Forwards\<close>

record list_iter =
  i_index :: nat
  i_list :: addr
  i_last :: addr
  i_next :: addr

definition inc_size :: "clist \<Rightarrow> clist" where
  "inc_size c = c\<lparr>l_size := l_size c + 1\<rparr>"

definition list_iter_init :: "addr \<Rightarrow> list_iter L" where
  "list_iter_init l =
     bnd (get_list l) (\<lambda>c. ret \<lparr>i_index = 0, i_list = l, i_last = NULL, i_next = l_head c\<rparr>)"

definition list_iter_remove :: "list_iter \<Rightarrow> ((cc_stat \<times> addr option) \<times> list_iter) L" where
  "list_iter_remove it =
     (if i_last it = NULL then ret ((CC_ERR_VALUE_NOT_FOUND, None), it) else
      bnd (unlink (i_list it) (i_last it)) (\<lambda>e.
      ret ((CC_OK, Some e), it\<lparr>i_last := NULL\<rparr>)))"

definition list_iter_add :: "list_iter \<Rightarrow> addr \<Rightarrow> (cc_stat \<times> list_iter) L" where
  "list_iter_add it element =
     bnd calloc_node (\<lambda>p.
     if p = NULL then ret (CC_ERR_ALLOC, it) else
     bnd (block [
       set_data p element,
       link_after (i_last it) p,
       bnd (get_list (i_list it)) (\<lambda>c. whenM (i_index it = l_size c) (upd_list (i_list it) (\<lambda>c. c\<lparr>l_tail := p\<rparr>))),
       upd_list (i_list it) inc_size]) (\<lambda>_.
     ret (CC_OK, it\<lparr>i_index := i_index it + 1\<rparr>)))"

definition list_iter_replace :: "list_iter \<Rightarrow> addr \<Rightarrow> (cc_stat \<times> addr option) L" where
  "list_iter_replace it element =
     (if i_last it = NULL then ret (CC_ERR_VALUE_NOT_FOUND, None) else
      bnd (deref (i_last it)) (\<lambda>nd.
      bnd (set_data (i_last it) element) (\<lambda>_.
      ret (CC_OK, Some (n_data nd)))))"

definition list_iter_index :: "list_iter \<Rightarrow> nat" where
  "list_iter_index it = pred_size (i_index it)"

definition list_iter_next :: "list_iter \<Rightarrow> ((cc_stat \<times> addr option) \<times> list_iter) L" where
  "list_iter_next it =
     (if i_next it = NULL then ret ((CC_ITER_END, None), it) else
      bnd (deref (i_next it)) (\<lambda>nd.
      ret ((CC_OK, Some (n_data nd)),
        it\<lparr>i_last := i_next it, i_next := n_next nd, i_index := i_index it + 1\<rparr>)))"

text \<open>The body may work on the lists but not on the iterator, which the macro hides.\<close>

definition foreach_in_list :: "addr \<Rightarrow> (addr \<Rightarrow> unit L) \<Rightarrow> unit L" where
  "foreach_in_list l body =
     bnd (list_iter_init l) (\<lambda>it.
     bnd (gets l_fuel) (\<lambda>n.
     loopM n (\<lambda>it.
       bnd (list_iter_next it) (\<lambda>((stat, val), it').
       case val of None \<Rightarrow> ret (Inr ()) | Some v \<Rightarrow> bnd (body v) (\<lambda>_. ret (Inl it')))) it))"

section \<open>Backwards\<close>

definition list_diter_init :: "addr \<Rightarrow> list_iter L" where
  "list_diter_init l =
     bnd (get_list l) (\<lambda>c. ret \<lparr>i_index = l_size c, i_list = l, i_last = NULL, i_next = l_tail c\<rparr>)"

definition list_diter_add :: "list_iter \<Rightarrow> addr \<Rightarrow> (cc_stat \<times> list_iter) L" where
  "list_diter_add it element =
     bnd calloc_node (\<lambda>p.
     if p = NULL then ret (CC_ERR_ALLOC, it) else
     bnd (block [
       set_data p element,
       whenM (i_index it = 0) (upd_list (i_list it) (\<lambda>c. c\<lparr>l_head := p\<rparr>)),
       link_behind (i_last it) p,
       upd_list (i_list it) inc_size]) (\<lambda>_.
     ret (CC_OK, it\<lparr>i_last := p\<rparr>)))"

definition list_diter_remove :: "list_iter \<Rightarrow> ((cc_stat \<times> addr option) \<times> list_iter) L" where
  "list_diter_remove it =
     (if i_last it = NULL then ret ((CC_ERR_VALUE_NOT_FOUND, None), it) else
      bnd (unlink (i_list it) (i_last it)) (\<lambda>e.
      ret ((CC_OK, Some e), it\<lparr>i_last := NULL\<rparr>)))"

definition list_diter_replace :: "list_iter \<Rightarrow> addr \<Rightarrow> (cc_stat \<times> addr option) L" where
  "list_diter_replace it element =
     (if i_last it = NULL then ret (CC_ERR_VALUE_NOT_FOUND, None) else
      bnd (deref (i_last it)) (\<lambda>nd.
      bnd (set_data (i_last it) element) (\<lambda>_.
      ret (CC_OK, Some (n_data nd)))))"

definition list_diter_index :: "list_iter \<Rightarrow> nat" where
  "list_diter_index it = pred_size (i_index it)"

definition list_diter_next :: "list_iter \<Rightarrow> ((cc_stat \<times> addr option) \<times> list_iter) L" where
  "list_diter_next it =
     (if i_next it = NULL then ret ((CC_ITER_END, None), it) else
      bnd (deref (i_next it)) (\<lambda>nd.
      ret ((CC_OK, Some (n_data nd)),
        it\<lparr>i_last := i_next it, i_next := n_prev nd, i_index := pred_size (i_index it)\<rparr>)))"

section \<open>Two lists at once\<close>

record list_zip_iter =
  z_l1 :: addr
  z_l2 :: addr
  z_l1_last :: addr
  z_l2_last :: addr
  z_l1_next :: addr
  z_l2_next :: addr
  z_index :: nat

definition list_zip_iter_init :: "addr \<Rightarrow> addr \<Rightarrow> list_zip_iter L" where
  "list_zip_iter_init l1 l2 =
     bnd (get_list l1) (\<lambda>c1.
     bnd (get_list l2) (\<lambda>c2.
     ret \<lparr>z_l1 = l1, z_l2 = l2, z_l1_last = NULL, z_l2_last = NULL,
       z_l1_next = l_head c1, z_l2_next = l_head c2, z_index = 0\<rparr>))"

definition list_zip_iter_next :: "list_zip_iter \<Rightarrow> ((cc_stat \<times> (addr \<times> addr) option) \<times> list_zip_iter) L" where
  "list_zip_iter_next it =
     (if z_l1_next it = NULL \<or> z_l2_next it = NULL then ret ((CC_ITER_END, None), it) else
      bnd (deref (z_l1_next it)) (\<lambda>a.
      bnd (deref (z_l2_next it)) (\<lambda>b.
      ret ((CC_OK, Some (n_data a, n_data b)),
        it\<lparr>z_l1_last := z_l1_next it, z_l2_last := z_l2_next it,
          z_l1_next := n_next a, z_l2_next := n_next b, z_index := z_index it + 1\<rparr>))))"

definition list_zip_iter_add :: "list_zip_iter \<Rightarrow> addr \<Rightarrow> addr \<Rightarrow> (cc_stat \<times> list_zip_iter) L" where
  "list_zip_iter_add it e1 e2 =
     bnd calloc_node (\<lambda>p1.
     if p1 = NULL then ret (CC_ERR_ALLOC, it) else
     bnd calloc_node (\<lambda>p2.
     if p2 = NULL then bnd (free_node p1) (\<lambda>_. ret (CC_ERR_ALLOC, it)) else
     bnd (block [
       set_data p1 e1,
       set_data p2 e2,
       link_after (z_l1_last it) p1,
       link_after (z_l2_last it) p2,
       bnd (get_list (z_l1 it)) (\<lambda>c. whenM (z_index it = l_size c) (upd_list (z_l1 it) (\<lambda>c. c\<lparr>l_tail := p1\<rparr>))),
       bnd (get_list (z_l2 it)) (\<lambda>c. whenM (z_index it = l_size c) (upd_list (z_l2 it) (\<lambda>c. c\<lparr>l_tail := p2\<rparr>))),
       upd_list (z_l1 it) inc_size,
       upd_list (z_l2 it) inc_size]) (\<lambda>_.
     ret (CC_OK, it\<lparr>z_index := z_index it + 1\<rparr>))))"

definition list_zip_iter_remove :: "list_zip_iter \<Rightarrow> ((cc_stat \<times> (addr \<times> addr) option) \<times> list_zip_iter) L" where
  "list_zip_iter_remove it =
     (if z_l1_last it = NULL \<or> z_l2_last it = NULL then ret ((CC_ERR_VALUE_NOT_FOUND, None), it) else
      bnd (unlink (z_l1 it) (z_l1_last it)) (\<lambda>e1.
      bnd (unlink (z_l2 it) (z_l2_last it)) (\<lambda>e2.
      ret ((CC_OK, Some (e1, e2)), it\<lparr>z_l1_last := NULL, z_l2_last := NULL\<rparr>))))"

definition list_zip_iter_replace :: "list_zip_iter \<Rightarrow> addr \<Rightarrow> addr \<Rightarrow> (cc_stat \<times> (addr \<times> addr) option) L" where
  "list_zip_iter_replace it e1 e2 =
     (if z_l1_last it = NULL \<or> z_l2_last it = NULL then ret (CC_ERR_VALUE_NOT_FOUND, None) else
      bnd (deref (z_l1_last it)) (\<lambda>a.
      bnd (deref (z_l2_last it)) (\<lambda>b.
      bnd (set_data (z_l1_last it) e1) (\<lambda>_.
      bnd (set_data (z_l2_last it) e2) (\<lambda>_.
      ret (CC_OK, Some (n_data a, n_data b)))))))"

definition list_zip_iter_index :: "list_zip_iter \<Rightarrow> nat" where
  "list_zip_iter_index it = pred_size (z_index it)"

section \<open>What the iterators do\<close>

text \<open>\<open>n\<close> calls of \<open>list_iter_next\<close> in a row, and of \<open>list_diter_next\<close>.\<close>

primrec next_n :: "(list_iter \<Rightarrow> ((cc_stat \<times> addr option) \<times> list_iter) L) \<Rightarrow> nat \<Rightarrow> list_iter \<Rightarrow> ((cc_stat \<times> addr option) list \<times> list_iter) L" where
  "next_n step 0 it = ret ([], it)"
| "next_n step (Suc n) it = bnd (step it) (\<lambda>(r, it'). bnd (next_n step n it') (\<lambda>(rs, it''). ret (r # rs, it'')))"

lemma iter_end: "i_next it = NULL \<Longrightarrow> next_n list_iter_next n it w = Inr ((replicate n (CC_ITER_END, None), it), w)"
  "i_next it = NULL \<Longrightarrow> next_n list_diter_next n it w = Inr ((replicate n (CC_ITER_END, None), it), w)"
  by (induction n) (simp_all add: list_iter_next_def list_diter_next_def bnd_def ret_def)

lemma iter_next_n:
  "seg (nodes w) pv qs NULL \<Longrightarrow> i_next it = first_of qs NULL \<Longrightarrow>
   \<exists>it'. next_n list_iter_next (length qs + k) it w =
     Inr ((map (\<lambda>q. (CC_OK, Some (snd q))) qs @ replicate k (CC_ITER_END, None), it'), w) \<and> i_index it' = i_index it + length qs"
proof (induction qs arbitrary: pv it)
  case Nil
  then show ?case using iter_end(1) by simp
next
  case (Cons q qs)
  let ?it = "it\<lparr>i_last := fst q, i_next := first_of qs NULL, i_index := i_index it + 1\<rparr>"
  have "list_iter_next it w = Inr (((CC_OK, Some (snd q)), ?it), w)"
    using Cons.prems by (simp add: list_iter_next_def bnd_def deref_ok ret_def)
  then show ?case using Cons.IH [of "fst q" ?it] Cons.prems by (auto simp: bnd_def ret_def)
qed

lemma diter_next_n:
  "seg (nodes w) NULL qs nx \<Longrightarrow> i_next it = final_of NULL qs \<Longrightarrow>
   \<exists>it'. next_n list_diter_next (length qs + k) it w =
     Inr ((map (\<lambda>q. (CC_OK, Some (snd q))) (rev qs) @ replicate k (CC_ITER_END, None), it'), w)"
proof (induction qs arbitrary: nx it rule: rev_induct)
  case Nil
  then show ?case using iter_end(2) by simp
next
  case (snoc q qs)
  let ?it = "it\<lparr>i_last := fst q, i_next := final_of NULL qs, i_index := pred_size (i_index it)\<rparr>"
  have s: "seg (nodes w) NULL qs (fst q)" "nodes w (fst q) = Some \<lparr>n_data = snd q, n_next = nx, n_prev = final_of NULL qs\<rparr>" "fst q \<noteq> NULL"
    using snoc.prems(1) by (simp_all add: seg_append)
  have "list_diter_next it w = Inr (((CC_OK, Some (snd q)), ?it), w)"
    using s snoc.prems(2) by (simp add: list_diter_next_def bnd_def deref_ok ret_def)
  then show ?case using snoc.IH [OF s(1), of ?it] by (auto simp: bnd_def ret_def)
qed

text \<open>an iterator over a list returns its elements from the first to the last, one from the other end returns them from
  the last to the first, and then both report the end, however often they are asked; the memory is unchanged.\<close>

lemma iterators_visit_all:
  assumes "is_list w l qs"
  shows "\<exists>it it' dit dit'. list_iter_init l w = Inr (it, w) \<and>
    next_n list_iter_next (length qs + k) it w =
      Inr ((map (\<lambda>q. (CC_OK, Some (snd q))) qs @ replicate k (CC_ITER_END, None), it'), w) \<and>
    list_diter_init l w = Inr (dit, w) \<and>
    next_n list_diter_next (length qs + k) dit w =
      Inr ((map (\<lambda>q. (CC_OK, Some (snd q))) (rev qs) @ replicate k (CC_ITER_END, None), dit'), w)"
proof -
  note L = is_list_struct(1) [OF assms] and S = is_list_struct(2) [OF assms]
  let ?it = "\<lparr>i_index = 0, i_list = l, i_last = NULL, i_next = first_of qs NULL\<rparr>"
  let ?dit = "\<lparr>i_index = length qs, i_list = l, i_last = NULL, i_next = final_of NULL qs\<rparr>"
  have "list_iter_init l w = Inr (?it, w)" "list_diter_init l w = Inr (?dit, w)"
    by (simp_all add: list_iter_init_def list_diter_init_def bnd_def get_list_ok [OF L] ret_def)
  with iter_next_n [OF S, of ?it k] diter_next_n [OF S, of ?dit k] show ?thesis by fastforce
qed

text \<open>\<open>list_iter_add\<close> behind the nodes \<open>xs\<close> that the iterator has returned.\<close>

lemma list_iter_add_ok:
  assumes w: "is_list w l (xs @ ys)" and x: "xs \<noteq> []" and d: "fst (draw (l_sched w))"
    and it: "i_list it = l" "i_last it = final_of NULL xs" "i_index it = length xs"
  shows "list_iter_add it x w = Inr ((CC_OK, it\<lparr>i_index := i_index it + 1\<rparr>), with_inserted l xs x ys w)"
proof -
  let ?p = "l_fresh w" and ?a = "final_of NULL xs" and ?b = "first_of ys NULL"
  note L = is_list_struct(1) [OF w]
  have p: "?p \<noteq> NULL" using w by (auto simp: is_list_def)
  have S: "seg (nodes w) NULL xs ?b" "seg (nodes w) ?a ys NULL" and D: "fst ` set xs \<inter> fst ` set ys = {}"
    using w by (auto simp: is_list_def seg_append)
  note e = seg_ends [OF S D]
  have pn: "?p \<notin> fst ` set xs" "?p \<notin> fst ` set ys" using is_list_fresh [OF w] by (auto simp: image_Un simp del: image_iff)
  have ap: "?a \<noteq> ?p" "?b \<noteq> ?p" using e(7) [OF pn(1) p] e(8) [OF pn(2) p] by auto
  have a: "?a \<noteq> NULL" using e(1) x by simp
  obtain n where n: "nodes w ?a = Some n" "n_next n = ?b"
    using S(1) x by (cases xs rule: rev_cases) (auto simp: seg_append)
  have ab: "?a \<noteq> ?b" using e(3,4) x final_of_in [of xs NULL] by metis
  show ?thesis
  proof (cases "ys = []")
    case True
    then show ?thesis using L p ap a n it x
      by (auto simp: list_iter_add_def bnd_def calloc_node_ok(1) [OF d] with_node_def set_data_def upd_node_def upd_list_ok
          ret_def set_prev_def set_next_def put_next_def put_prev_def fun_upd_twist with_inserted_def Let_def link_after_def
          whenM_def deref_def get_list_ok inc_size_def first_of_append first_of_nonempty [OF x, of ?p NULL])
  next
    case False
    obtain m where m: "nodes w ?b = Some m" "?b \<noteq> NULL" using e(2,6) False by auto
    then show ?thesis using L p ap a n it x ab False
      by (auto simp: list_iter_add_def bnd_def calloc_node_ok(1) [OF d] with_node_def set_data_def upd_node_def upd_list_ok
          ret_def set_prev_def set_next_def put_next_def put_prev_def fun_upd_twist with_inserted_def Let_def link_after_def
          whenM_def deref_def get_list_ok inc_size_def first_of_nonempty [OF x, of ?p NULL] first_of_nonempty [OF x, of ?b NULL]
          final_of_nonempty [OF False, of ?p NULL] final_of_nonempty [OF False, of ?a NULL] final_of_append first_of_append)
  qed
qed

lemma iter_prefix:
  "seg (nodes w) pv (xs @ ys) NULL \<Longrightarrow> i_next it = first_of (xs @ ys) NULL \<Longrightarrow>
   \<exists>it'. next_n list_iter_next (length xs) it w = Inr ((map (\<lambda>q. (CC_OK, Some (snd q))) xs, it'), w) \<and>
     i_list it' = i_list it \<and> i_last it' = final_of (i_last it) xs \<and> i_next it' = first_of ys NULL \<and>
     i_index it' = i_index it + length xs"
proof (induction xs arbitrary: pv it)
  case Nil
  then show ?case by (simp add: ret_def)
next
  case (Cons q xs)
  let ?it = "it\<lparr>i_last := fst q, i_next := first_of (xs @ ys) NULL, i_index := i_index it + 1\<rparr>"
  have "list_iter_next it w = Inr (((CC_OK, Some (snd q)), ?it), w)"
    using Cons.prems by (simp add: list_iter_next_def bnd_def deref_ok ret_def)
  then show ?case using Cons.IH [of "fst q" ?it] Cons.prems by (auto simp: bnd_def ret_def)
qed

text \<open>\<open>list_iter_add\<close> in the middle of an iteration puts the element right behind those that the iterator has returned,
  keeps the list well formed, and the iterator goes on with the elements that it has not returned yet.\<close>

lemma list_iter_add_inserts:
  assumes w: "is_list w l (xs @ ys)" and x: "xs \<noteq> []" and d: "fst (draw (l_sched w))"
  shows "\<exists>it0 it it' it'' w'. list_iter_init l w = Inr (it0, w) \<and>
    next_n list_iter_next (length xs) it0 w = Inr ((map (\<lambda>q. (CC_OK, Some (snd q))) xs, it), w) \<and>
    list_iter_add it e w = Inr ((CC_OK, it'), w') \<and> is_list w' l (xs @ (l_fresh w, e) # ys) \<and>
    next_n list_iter_next (length ys) it' w' = Inr ((map (\<lambda>q. (CC_OK, Some (snd q))) ys, it''), w')"
proof -
  let ?it0 = "\<lparr>i_index = 0, i_list = l, i_last = NULL, i_next = first_of (xs @ ys) NULL\<rparr>"
  let ?w = "with_inserted l xs e ys w"
  have i: "list_iter_init l w = Inr (?it0, w)"
    using is_list_struct(1) [OF w] by (simp add: list_iter_init_def bnd_def get_list_ok ret_def)
  obtain it where n: "next_n list_iter_next (length xs) ?it0 w = Inr ((map (\<lambda>q. (CC_OK, Some (snd q))) xs, it), w)"
    "i_list it = l" "i_last it = final_of NULL xs" "i_next it = first_of ys NULL" "i_index it = length xs"
    using iter_prefix [OF is_list_struct(2) [OF w], of ?it0] by auto
  have l: "is_list ?w l (xs @ (l_fresh w, e) # ys)" using list_inserted [OF w] by simp
  have "seg (nodes ?w) NULL ((xs @ [(l_fresh w, e)]) @ ys) NULL" using is_list_struct(2) [OF l] by simp
  then have "seg (nodes ?w) (final_of NULL (xs @ [(l_fresh w, e)])) (ys @ []) NULL" by (simp add: seg_append)
  from iter_prefix [OF this, of "it\<lparr>i_index := i_index it + 1\<rparr>"] n(4) obtain it'' where
    "next_n list_iter_next (length ys) (it\<lparr>i_index := i_index it + 1\<rparr>) ?w = Inr ((map (\<lambda>q. (CC_OK, Some (snd q))) ys, it''), ?w)"
    by auto
  then show ?thesis using i n(1) list_iter_add_ok [OF w x d n(2,3,5)] l by blast
qed

text \<open>After \<open>list_iter_remove\<close> the index of the iterator is too large by one: \<open>list_iter_add\<close> at the end then does not set the tail.\<close>

definition remove_then_add :: "unit L" where
  "remove_then_add =
     bnd (list_iter_init 1) (\<lambda>it.
     bnd (list_iter_next it) (\<lambda>(_, it).
     bnd (list_iter_remove it) (\<lambda>(_, it).
     bnd (list_iter_next it) (\<lambda>(_, it).
     bnd (list_iter_add it 9) (\<lambda>_. ret ())))))"

lemma iter_add_leaves_stale_tail:
  "case remove_then_add two_used_lists of
     Inl e \<Rightarrow> False
   | Inr (_, w) \<Rightarrow> lists w 1 = Some \<lparr>l_size = 2, l_head = 121, l_tail = 121\<rparr> \<and>
       nodes w 121 = Some \<lparr>n_data = 6, n_next = 169, n_prev = NULL\<rparr>"
  by code_simp

lemma diter_index_off_by_one:
  "case bnd (list_diter_init 1) list_diter_next two_used_lists of
     Inl e \<Rightarrow> False
   | Inr ((r, it), _) \<Rightarrow> r = (CC_OK, Some 6) \<and> list_diter_index it = 0"
  by code_simp

lemma add_all_at_empty_crashes:
  "list_add_all_at 1 49 0 (two_used_lists\<lparr>lists := (lists two_used_lists)(1 \<mapsto> \<lparr>l_size = 0, l_head = NULL, l_tail = NULL\<rparr>)\<rparr>) =
    Inl Bad_pointer"
  by (simp add: list_add_all_at_def two_used_lists_def bnd_def get_list_def ret_def link_all_externally_def calloc_node_def
      l_draw_def zoom_def draw_block_def gets_def modify_def deref_def set_data_def set_next_def set_prev_def upd_node_def
      nodes_around_def get_node_at_def pred_size_def sizeof_node_def)

end
