(* ===== verification/Call_Once.thy ===== *)
theory Call_Once
  imports Prelude
begin

text \<open>
  \<open>call_once\<close> of lib/tinycthread/tinycthread.c, in the variant for Windows, as a step relation: every access to the shared
  flag is a step of one thread, so that all interleavings of any number of threads are covered. The critical sections of the
  operating system are the parameter \<open>'c cs_api\<close>; what the code relies on of them is \<open>critical_sections\<close>. What a
  callback does is not looked at: its start and its end are two steps.
\<close>

section \<open>Critical sections of the operating system\<close>

record 'c cs_api =
  cs_new :: 'c
  cs_enter :: "nat \<Rightarrow> 'c \<Rightarrow> 'c option"
  cs_leave :: "nat \<Rightarrow> 'c \<Rightarrow> 'c"

text \<open>Documented behaviour: a new section is free, a thread that has entered it may enter again, others wait, and the section is
  free when its owner has left as often as entered. \<open>held\<close> reads the owner and the number of entries.\<close>

definition critical_sections :: "('c, 'x) cs_api_scheme \<Rightarrow> ('c \<Rightarrow> (nat \<times> nat) option) \<Rightarrow> bool" where
  "critical_sections api held \<longleftrightarrow>
     held (cs_new api) = None \<and>
     (\<forall>t c. held c = None \<longrightarrow> (\<exists>d. cs_enter api t c = Some d \<and> held d = Some (t, 1))) \<and>
     (\<forall>t n c. held c = Some (t, n) \<longrightarrow> (\<exists>d. cs_enter api t c = Some d \<and> held d = Some (t, Suc n))) \<and>
     (\<forall>t u n c. held c = Some (u, n) \<longrightarrow> u \<noteq> t \<longrightarrow> cs_enter api t c = None) \<and>
     (\<forall>t n c. held c = Some (t, Suc n) \<longrightarrow> held (cs_leave api t c) = (if n = 0 then None else Some (t, n)))"

lemma critical_sectionsD:
  assumes "critical_sections api held"
  shows "held (cs_new api) = None" "held c = None \<Longrightarrow> \<exists>d. cs_enter api t c = Some d \<and> held d = Some (t, 1)"
    "held c = Some (u, n) \<Longrightarrow> u \<noteq> t \<Longrightarrow> cs_enter api t c = None" "held c = Some (t, 1) \<Longrightarrow> held (cs_leave api t c) = None"
    "held c = Some (t, n) \<Longrightarrow> \<exists>d. cs_enter api t c = Some d \<and> held d = Some (t, Suc n)"
    "held c = Some (t, Suc n) \<Longrightarrow> held (cs_leave api t c) = (if n = 0 then None else Some (t, n))"
  using assms by (simp_all add: critical_sections_def)

section \<open>The steps of call_once\<close>

datatype once_pc =
    Outside | Test | Switch | Exchange | Init | Enter | Mark_running | Call | In_callback | Mark_done | Leave
  | Wait_enter | Wait_leave | Returned

text \<open>\<open>flag_lock\<close> is \<open>None\<close> before \<open>InitializeCriticalSection\<close>; to enter it then is undefined. \<open>begun\<close> and \<open>ended\<close> count
  calls of the callback.\<close>

record 'c once_flag =
  status :: "32 word"
  flag_lock :: "'c option"
  at :: "nat \<Rightarrow> once_pc"
  begun :: nat
  ended :: nat

definition goto :: "nat \<Rightarrow> once_pc \<Rightarrow> 'c once_flag \<Rightarrow> 'c once_flag" where
  "goto t pc s = s\<lparr>at := (at s)(t := pc)\<rparr>"

definition enter_lock :: "'c cs_api \<Rightarrow> nat \<Rightarrow> once_pc \<Rightarrow> 'c once_flag \<Rightarrow> error + 'c once_flag" where
  "enter_lock api t pc s =
     (case flag_lock s of
        None \<Rightarrow> Inl Undefined_behaviour
      | Some c \<Rightarrow> (case cs_enter api t c of
          None \<Rightarrow> Inl Would_block
        | Some d \<Rightarrow> Inr (goto t pc (s\<lparr>flag_lock := Some d\<rparr>))))"

definition leave_lock :: "'c cs_api \<Rightarrow> nat \<Rightarrow> once_pc \<Rightarrow> 'c once_flag \<Rightarrow> error + 'c once_flag" where
  "leave_lock api t pc s =
     (case flag_lock s of
        None \<Rightarrow> Inl Undefined_behaviour
      | Some c \<Rightarrow> Inr (goto t pc (s\<lparr>flag_lock := Some (cs_leave api t c)\<rparr>)))"

definition call_once_step :: "'c cs_api \<Rightarrow> nat \<Rightarrow> 'c once_flag \<Rightarrow> error + 'c once_flag" where
  "call_once_step api t s =
     (case at s t of
        Outside \<Rightarrow> Inr (goto t Test s)
      | Test \<Rightarrow> Inr (goto t (if status s <s 3 then Switch else Returned) s)
      | Switch \<Rightarrow> Inr (goto t
          (if status s = 0 then Exchange else if status s = 2 then Wait_enter else Test) s)
      | Exchange \<Rightarrow>
          Inr (if status s = 0 then goto t Init (s\<lparr>status := 1\<rparr>) else goto t Test s)
      | Init \<Rightarrow> Inr (goto t Enter (s\<lparr>flag_lock := Some (cs_new api)\<rparr>))
      | Enter \<Rightarrow> enter_lock api t Mark_running s
      | Mark_running \<Rightarrow> Inr (goto t Call (s\<lparr>status := 2\<rparr>))
      | Call \<Rightarrow> Inr (goto t In_callback (s\<lparr>begun := begun s + 1\<rparr>))
      | In_callback \<Rightarrow> Inr (goto t Mark_done (s\<lparr>ended := ended s + 1\<rparr>))
      | Mark_done \<Rightarrow> Inr (goto t Leave (s\<lparr>status := 3\<rparr>))
      | Leave \<Rightarrow> leave_lock api t Returned s
      | Wait_enter \<Rightarrow> enter_lock api t Wait_leave s
      | Wait_leave \<Rightarrow> leave_lock api t Test s
      | Returned \<Rightarrow> Inr (goto t Test s))"

text \<open>\<open>ONCE_FLAG_INIT\<close>, and any interleaving of threads from there.\<close>

definition once_flag_init :: "'c once_flag" where
  "once_flag_init = \<lparr>status = 0, flag_lock = None, at = (\<lambda>_. Outside), begun = 0, ended = 0\<rparr>"

inductive once_reachable :: "'c cs_api \<Rightarrow> 'c once_flag \<Rightarrow> bool" for api where
  start: "once_reachable api once_flag_init"
| step: "once_reachable api s \<Longrightarrow> call_once_step api t s = Inr s' \<Longrightarrow> once_reachable api s'"

section \<open>The invariant\<close>

text \<open>Threads past the exchange, one at most.\<close>

definition winner :: "once_pc \<Rightarrow> bool" where
  "winner pc \<longleftrightarrow> pc \<in> {Init, Enter, Mark_running, Call, In_callback, Mark_done, Leave}"

definition holds :: "('c \<Rightarrow> (nat \<times> nat) option) \<Rightarrow> nat \<Rightarrow> 'c once_flag \<Rightarrow> bool" where
  "holds held t s \<longleftrightarrow> (\<exists>c. flag_lock s = Some c \<and> held c = Some (t, 1))"

definition pc_ok :: "('c \<Rightarrow> (nat \<times> nat) option) \<Rightarrow> nat \<Rightarrow> 'c once_flag \<Rightarrow> bool" where
  "pc_ok held t s =
     (case at s t of
        Init \<Rightarrow> status s = 1 \<and> flag_lock s = None \<and> begun s = 0 \<and> ended s = 0
      | Enter \<Rightarrow> status s = 1 \<and> (\<exists>c. flag_lock s = Some c \<and> held c = None) \<and> begun s = 0 \<and> ended s = 0
      | Mark_running \<Rightarrow> status s = 1 \<and> holds held t s \<and> begun s = 0 \<and> ended s = 0
      | Call \<Rightarrow> status s = 2 \<and> holds held t s \<and> begun s = 0 \<and> ended s = 0
      | In_callback \<Rightarrow> status s = 2 \<and> holds held t s \<and> begun s = 1 \<and> ended s = 0
      | Mark_done \<Rightarrow> status s = 2 \<and> holds held t s \<and> begun s = 1 \<and> ended s = 1
      | Leave \<Rightarrow> status s = 3 \<and> holds held t s \<and> begun s = 1 \<and> ended s = 1
      | Wait_enter \<Rightarrow> status s = 2 \<or> status s = 3
      | Wait_leave \<Rightarrow> status s = 3 \<and> holds held t s
      | Returned \<Rightarrow> status s = 3
      | _ \<Rightarrow> True)"

definition settled :: "('c \<Rightarrow> (nat \<times> nat) option) \<Rightarrow> 'c once_flag \<Rightarrow> bool" where
  "settled held s \<longleftrightarrow>
     status s = 0 \<and> flag_lock s = None \<and> begun s = 0 \<and> ended s = 0 \<or>
     status s = 3 \<and> (\<exists>c. flag_lock s = Some c \<and> (\<forall>u n. held c = Some (u, n) \<longrightarrow> n = 1 \<and> at s u = Wait_leave)) \<and>
       begun s = 1 \<and> ended s = 1"

definition once_inv :: "('c \<Rightarrow> (nat \<times> nat) option) \<Rightarrow> 'c once_flag \<Rightarrow> bool" where
  "once_inv held s \<longleftrightarrow>
     (\<forall>t u. winner (at s t) \<longrightarrow> winner (at s u) \<longrightarrow> t = u) \<and> (\<forall>t. pc_ok held t s) \<and>
     ((\<forall>t. \<not> winner (at s t)) \<longrightarrow> settled held s)"

lemma goto_simps [simp]:
  "at (goto t pc s) = (at s)(t := pc)" "status (goto t pc s) = status s" "flag_lock (goto t pc s) = flag_lock s"
  "begun (goto t pc s) = begun s" "ended (goto t pc s) = ended s"
  by (simp_all add: goto_def)

lemma pc_okD: "once_inv held s \<Longrightarrow> pc_ok held t s"
  by (simp add: once_inv_def)

lemma once_inv_init: "once_inv held once_flag_init"
  by (simp add: once_inv_def once_flag_init_def winner_def pc_ok_def settled_def)

lemma winner_simps [simp]:
  "winner Init" "winner Enter" "winner Mark_running" "winner Call" "winner In_callback" "winner Mark_done" "winner Leave"
  "\<not> winner Outside" "\<not> winner Test" "\<not> winner Switch" "\<not> winner Exchange" "\<not> winner Wait_enter" "\<not> winner Wait_leave"
  "\<not> winner Returned"
  by (simp_all add: winner_def)

text \<open>A step that only moves a thread that is not past the exchange.\<close>

lemma once_inv_move:
  assumes "once_inv held s" and "\<not> winner (at s t)" "\<not> winner pc" "at s t \<noteq> Wait_leave" and "pc_ok held t (goto t pc s)"
  shows "once_inv held (goto t pc s)"
proof -
  have w: "winner (at (goto t pc s) u) = winner (at s u)" for u using assms(2,3) by simp
  have p: "pc_ok held u (goto t pc s)" for u
  proof (cases "u = t")
    case True
    then show ?thesis using assms(5) by simp
  next
    case False
    have "pc_ok held u s" using assms(1) by (simp add: once_inv_def)
    then show ?thesis using False by (simp add: pc_ok_def holds_def cong: once_pc.case_cong)
  qed
  have "settled held s \<Longrightarrow> settled held (goto t pc s)"
    using assms(4) by (auto simp: settled_def)
  then show ?thesis using assms(1) w p by (auto simp: once_inv_def)
qed

text \<open>While a thread is past the exchange, its step leaves all others in order when they are in order for the new status.\<close>

lemma once_inv_winner:
  assumes "once_inv held s" and "winner (at s t)" and "winner (at s' t)" and "pc_ok held t s'"
    and "\<And>u. u \<noteq> t \<Longrightarrow> at s' u = at s u" and "status s' = status s \<or> status s = 1 \<and> status s' = 2 \<or> status s = 2 \<and> status s' = 3"
    and "\<And>u. u \<noteq> t \<Longrightarrow> at s u \<noteq> Wait_leave"
  shows "once_inv held s'"
proof -
  have u: "\<not> winner (at s u)" if "u \<noteq> t" for u using assms(1,2) that by (auto simp: once_inv_def)
  have p: "pc_ok held u s'" for u
  proof (cases "u = t")
    case True
    then show ?thesis using assms(4) by simp
  next
    case False
    then have "pc_ok held u s" using assms(1) by (simp add: once_inv_def)
    then show ?thesis using u [OF False] assms(5) [OF False] assms(6) assms(7) [OF False]
      by (auto simp: pc_ok_def split: once_pc.splits)
  qed
  have "\<forall>v w. winner (at s' v) \<longrightarrow> winner (at s' w) \<longrightarrow> v = w"
    using u assms(5) by metis
  then show ?thesis using p assms(3) by (auto simp: once_inv_def)
qed

text \<open>Only one thread holds the lock.\<close>

lemma no_waiting_owner:
  assumes "once_inv held s" and "winner (at s t)" and "u \<noteq> t"
  shows "at s u \<noteq> Wait_leave"
proof
  assume w: "at s u = Wait_leave"
  have "pc_ok held t s" "pc_ok held u s" using assms(1) by (simp_all add: once_inv_def)
  then show False using w assms(2,3) by (auto simp: pc_ok_def holds_def winner_def)
qed

text \<open>What the invariant says of the status and of the owner of the lock.\<close>

lemma once_phases:
  assumes "once_inv held s"
  shows "status s \<in> {0, 1, 2, 3}" "flag_lock s = Some c \<Longrightarrow> held c = Some (u, n) \<Longrightarrow> n = 1 \<and> (winner (at s u) \<or> at s u = Wait_leave)"
    "\<forall>t. \<not> winner (at s t) \<Longrightarrow> settled held s"
proof -
  show s: "\<forall>t. \<not> winner (at s t) \<Longrightarrow> settled held s" using assms by (simp add: once_inv_def)
  have w: "status s \<in> {1, 2, 3} \<and> (\<forall>c u n. flag_lock s = Some c \<longrightarrow> held c = Some (u, n) \<longrightarrow> u = t \<and> n = 1)"
    if "winner (at s t)" for t
  proof -
    have "pc_ok held t s" using assms by (simp add: once_inv_def)
    then show ?thesis using that by (auto simp: pc_ok_def holds_def winner_def)
  qed
  show "status s \<in> {0, 1, 2, 3}"
    using w s by (cases "\<exists>t. winner (at s t)") (auto simp: settled_def)
  show "flag_lock s = Some c \<Longrightarrow> held c = Some (u, n) \<Longrightarrow> n = 1 \<and> (winner (at s u) \<or> at s u = Wait_leave)"
  proof (cases "\<exists>t. winner (at s t)")
    case True
    then show "flag_lock s = Some c \<Longrightarrow> held c = Some (u, n) \<Longrightarrow> ?thesis" using w by blast
  next
    case False
    then have "settled held s" using s by blast
    then show "flag_lock s = Some c \<Longrightarrow> held c = Some (u, n) \<Longrightarrow> ?thesis" by (auto simp: settled_def)
  qed
qed

lemma waiting_settled:
  assumes inv: "once_inv held s" and "at s t = Wait_leave \<or> at s t = Wait_enter \<and> flag_lock s = Some c \<and> held c = None"
  shows "settled held s \<and> status s = 3"
proof -
  have pc: "pc_ok held t s" using inv by (simp add: once_inv_def)
  have "\<not> winner (at s u)" for u
  proof
    assume w: "winner (at s u)"
    have "pc_ok held u s" using inv by (simp add: once_inv_def)
    then show False using w assms(2) pc by (auto simp: pc_ok_def holds_def winner_def)
  qed
  then have "settled held s" using once_phases(3) [OF inv] by blast
  then show ?thesis using pc assms(2) by (auto simp: pc_ok_def settled_def)
qed

lemma enter_lock_cases:
  assumes api: "critical_sections api held" and inv: "once_inv held s" and at: "\<not> winner (at s t) \<or> at s t = Enter" "at s t \<noteq> Wait_leave"
    and run: "enter_lock api t pc s = Inr s'"
  shows "\<exists>c d. flag_lock s = Some c \<and> held c = None \<and> held d = Some (t, 1) \<and> s' = goto t pc (s\<lparr>flag_lock := Some d\<rparr>)"
proof -
  obtain c d where c: "flag_lock s = Some c" "cs_enter api t c = Some d" "s' = goto t pc (s\<lparr>flag_lock := Some d\<rparr>)"
    using run by (auto simp: enter_lock_def split: option.splits)
  have n: "held c = None"
  proof (rule ccontr)
    assume "held c \<noteq> None"
    then obtain u n where h: "held c = Some (u, n)" by auto
    then have "u = t" using critical_sectionsD(3) [OF api h, of t] c(2) by fastforce
    then have "winner (at s t) \<or> at s t = Wait_leave" using once_phases(2) [OF inv c(1) h] by simp
    then have "at s t = Enter" using at by blast
    then have "held c = None" using pc_okD [OF inv, of t] c(1) by (simp add: pc_ok_def)
    then show False using h by simp
  qed
  then have "held d = Some (t, 1)" using critical_sectionsD(2) [OF api n, of t] c(2) by auto
  then show ?thesis using c n by blast
qed

lemma leave_lock_cases:
  assumes "critical_sections api held" and "holds held t s" and "leave_lock api t pc s = Inr s'"
  shows "\<exists>d. held d = None \<and> s' = goto t pc (s\<lparr>flag_lock := Some d\<rparr>)"
  using assms critical_sectionsD(4) [OF assms(1)] by (fastforce simp: leave_lock_def holds_def)

lemma once_inv_step:
  assumes api: "critical_sections api held" and inv: "once_inv held s" and step: "call_once_step api t s = Inr s'"
  shows "once_inv held s'"
proof -
  have pc: "pc_ok held t s" using inv by (simp add: once_inv_def)
  have wait: "at s u \<noteq> Wait_leave" if "winner (at s t)" "u \<noteq> t" for u using no_waiting_owner [OF inv that] .
  note unf = call_once_step_def pc_ok_def holds_def enter_lock_def leave_lock_def
  show ?thesis
  proof (cases "at s t")
    case Outside
    then show ?thesis using step inv by (auto simp: unf intro!: once_inv_move)
  next
    case Test
    have "status s = 3" if "\<not> status s <s 3"
      using once_phases(1) [OF inv] that by (auto simp: word_sless_alt)
    then show ?thesis
      using Test step inv by (cases "status s <s 3") (auto simp: unf intro!: once_inv_move)
  next
    case Switch
    then show ?thesis
      using step inv by (cases "status s = 0"; cases "status s = 2") (auto simp: unf intro!: once_inv_move)
  next
    case Exchange
    show ?thesis
    proof (cases "status s = 0")
      case True
      then have s': "s' = goto t Init (s\<lparr>status := 1\<rparr>)" using Exchange step by (simp add: unf)
      have o: "\<not> winner (at s u) \<and> at s u \<notin> {Wait_enter, Wait_leave, Returned}" for u
        using pc_okD [OF inv, of u] True by (auto simp: pc_ok_def winner_def)
      then have "settled held s" using once_phases(3) [OF inv] by blast
      then have "pc_ok held u s'" for u
        using s' True o [of u] by (cases "at s u") (auto simp: pc_ok_def settled_def)
      then show ?thesis using o s' by (auto simp: once_inv_def)
    next
      case False
      then show ?thesis using Exchange step inv by (auto simp: unf intro!: once_inv_move)
    qed
  next
    case Init
    then have s': "s' = goto t Enter (s\<lparr>flag_lock := Some (cs_new api)\<rparr>)" using step by (simp add: unf)
    show ?thesis
      by (rule once_inv_winner [OF inv, of t]) (use s' Init pc wait api in \<open>auto simp: unf critical_sections_def\<close>)
  next
    case Enter
    then obtain c d where c: "flag_lock s = Some c" "held d = Some (t, 1)" "s' = goto t Mark_running (s\<lparr>flag_lock := Some d\<rparr>)"
      using enter_lock_cases [OF api inv, of t Mark_running s'] step by (auto simp: call_once_step_def)
    show ?thesis by (rule once_inv_winner [OF inv, of t]) (use c Enter pc wait in \<open>auto simp: pc_ok_def holds_def\<close>)
  next
    case Mark_running
    then have s': "s' = goto t Call (s\<lparr>status := 2\<rparr>)" using step by (simp add: unf)
    show ?thesis by (rule once_inv_winner [OF inv, of t]) (use s' Mark_running pc wait in \<open>auto simp: unf\<close>)
  next
    case Call
    then have s': "s' = goto t In_callback (s\<lparr>begun := begun s + 1\<rparr>)" using step by (simp add: unf)
    show ?thesis by (rule once_inv_winner [OF inv, of t]) (use s' Call pc wait in \<open>auto simp: unf\<close>)
  next
    case In_callback
    then have s': "s' = goto t Mark_done (s\<lparr>ended := ended s + 1\<rparr>)" using step by (simp add: unf)
    show ?thesis by (rule once_inv_winner [OF inv, of t]) (use s' In_callback pc wait in \<open>auto simp: unf\<close>)
  next
    case Mark_done
    then have s': "s' = goto t Leave (s\<lparr>status := 3\<rparr>)" using step by (simp add: unf)
    show ?thesis by (rule once_inv_winner [OF inv, of t]) (use s' Mark_done pc wait in \<open>auto simp: unf\<close>)
  next
    case Leave
    then obtain d where d: "held d = None" "s' = goto t Returned (s\<lparr>flag_lock := Some d\<rparr>)"
      using leave_lock_cases [OF api, of t s Returned s'] step pc by (auto simp: call_once_step_def pc_ok_def)
    have o: "\<not> winner (at s u) \<and> at s u \<noteq> Wait_leave" if "u \<noteq> t" for u
      using wait [of u] that inv Leave by (auto simp: once_inv_def)
    have "pc_ok held u s'" for u
      using pc_okD [OF inv, of u] o [of u] d Leave pc by (cases "u = t"; cases "at s u") (auto simp: pc_ok_def)
    moreover have "settled held s'" using d pc Leave by (auto simp: settled_def pc_ok_def)
    moreover have "\<not> winner (at s' u)" for u using d(2) o [of u] by simp
    ultimately show ?thesis by (simp add: once_inv_def)
  next
    case Wait_enter
    then obtain c d where c: "flag_lock s = Some c" "held c = None" "held d = Some (t, 1)"
      "s' = goto t Wait_leave (s\<lparr>flag_lock := Some d\<rparr>)"
      using enter_lock_cases [OF api inv, of t Wait_leave s'] step by (auto simp: call_once_step_def)
    have st: "settled held s" "status s = 3" using waiting_settled [OF inv] Wait_enter c(1,2) by blast+
    have o: "\<not> winner (at s u) \<and> at s u \<noteq> Wait_leave" for u
      using pc_okD [OF inv, of u] st c(1,2) by (auto simp: pc_ok_def holds_def settled_def winner_def)
    have "pc_ok held u s'" for u
      using pc_okD [OF inv, of u] o [of u] c st by (cases "u = t"; cases "at s u") (auto simp: pc_ok_def holds_def)
    moreover have "settled held s'" using c st by (auto simp: settled_def)
    moreover have "\<not> winner (at s' u)" for u using c(4) o [of u] by simp
    ultimately show ?thesis by (simp add: once_inv_def)
  next
    case Wait_leave
    then obtain d where d: "held d = None" "s' = goto t Test (s\<lparr>flag_lock := Some d\<rparr>)"
      using leave_lock_cases [OF api, of t s Test s'] step pc by (auto simp: call_once_step_def pc_ok_def)
    have st: "settled held s" "status s = 3" using waiting_settled [OF inv] Wait_leave by blast+
    obtain c where c: "flag_lock s = Some c" "held c = Some (t, 1)" using pc Wait_leave by (auto simp: pc_ok_def holds_def)
    have o: "\<not> winner (at s u) \<and> (u \<noteq> t \<longrightarrow> at s u \<noteq> Wait_leave)" for u
      using pc_okD [OF inv, of u] st c by (auto simp: pc_ok_def holds_def settled_def winner_def)
    have "pc_ok held u s'" for u
      using pc_okD [OF inv, of u] o [of u] d by (cases "u = t"; cases "at s u") (auto simp: pc_ok_def)
    moreover have "settled held s'" using d st by (auto simp: settled_def)
    moreover have "\<not> winner (at s' u)" for u using d(2) o [of u] by simp
    ultimately show ?thesis by (simp add: once_inv_def)
  next
    case Returned
    then show ?thesis using step inv by (auto simp: unf intro!: once_inv_move)
  qed
qed


lemma once_reachable_inv: "once_reachable api s \<Longrightarrow> critical_sections api held \<Longrightarrow> once_inv held s"
  by (induction rule: once_reachable.induct) (auto intro: once_inv_init once_inv_step)

section \<open>Progress\<close>

definition once_runs :: "'c cs_api \<Rightarrow> 'c once_flag \<Rightarrow> 'c once_flag \<Rightarrow> bool" where
  "once_runs api = (\<lambda>s s'. \<exists>t. call_once_step api t s = Inr s')\<^sup>*\<^sup>*"

lemma once_runs_inv:
  assumes "once_runs api s s'" and "critical_sections api held" and "once_inv held s"
  shows "once_inv held s'"
  using assms(1) unfolding once_runs_def
  by (induction rule: rtranclp_induct) (auto intro: once_inv_step assms(2,3))

text \<open>Nobody but \<open>t\<close> is past the exchange or holds the lock.\<close>

definition unhindered :: "nat \<Rightarrow> 'c once_flag \<Rightarrow> bool" where
  "unhindered t s \<longleftrightarrow> (\<forall>u. u \<noteq> t \<longrightarrow> \<not> winner (at s u) \<and> at s u \<noteq> Wait_leave)"

text \<open>How many steps an unhindered thread is away from its return.\<close>

definition steps_left :: "nat \<Rightarrow> 'c once_flag \<Rightarrow> nat" where
  "steps_left t s =
     (case at s t of
        Outside \<Rightarrow> 11 | Test \<Rightarrow> if status s = 0 then 10 else 1 | Switch \<Rightarrow> if status s = 0 then 9 else 2
      | Exchange \<Rightarrow> if status s = 0 then 8 else 2 | Init \<Rightarrow> 7 | Enter \<Rightarrow> 6 | Mark_running \<Rightarrow> 5 | Call \<Rightarrow> 4 | In_callback \<Rightarrow> 3
      | Mark_done \<Rightarrow> 2 | Leave \<Rightarrow> 1 | Wait_enter \<Rightarrow> 3 | Wait_leave \<Rightarrow> 2 | Returned \<Rightarrow> 0)"

lemma unhindered_status:
  assumes "once_inv held s" and "unhindered t s" and "\<not> winner (at s t)"
  shows "settled held s" "status s = 0 \<or> status s = 3"
proof -
  show "settled held s" using once_phases(3) [OF assms(1)] assms(2,3) unfolding unhindered_def by metis
  then show "status s = 0 \<or> status s = 3" by (auto simp: settled_def)
qed

lemma unhindered_enter:
  assumes api: "critical_sections api held" and inv: "once_inv held s" and un: "unhindered t s"
    and at: "at s t = Enter \<or> at s t = Wait_enter"
  shows "\<exists>d. enter_lock api t pc s = Inr (goto t pc (s\<lparr>flag_lock := Some d\<rparr>))"
proof -
  obtain c where c: "flag_lock s = Some c"
    using at pc_okD [OF inv, of t] unhindered_status [OF inv un] by (auto simp: pc_ok_def settled_def)
  have "held c = None"
  proof (rule ccontr)
    assume "held c \<noteq> None"
    then obtain u n where h: "held c = Some (u, n)" by auto
    then have "u = t" using once_phases(2) [OF inv c h] un by (auto simp: unhindered_def)
    then have "winner (at s t)" using once_phases(2) [OF inv c h] at by auto
    then have "at s t = Enter" using at by auto
    then show False using pc_okD [OF inv, of t] c h by (simp add: pc_ok_def)
  qed
  from critical_sectionsD(2) [OF api this, of t] c show ?thesis by (auto simp: enter_lock_def)
qed

lemma unhindered_step:
  assumes api: "critical_sections api held" and inv: "once_inv held s" and un: "unhindered t s" and "at s t \<noteq> Returned"
  shows "\<exists>s'. call_once_step api t s = Inr s' \<and> unhindered t s' \<and> (\<forall>u. u \<noteq> t \<longrightarrow> at s' u = at s u) \<and>
    steps_left t s' < steps_left t s"
proof -
  note pc = pc_okD [OF inv, of t] and st = unhindered_status [OF inv un] and en = unhindered_enter [OF api inv un]
  have lv: "\<exists>d. leave_lock api t pc s = Inr (goto t pc (s\<lparr>flag_lock := Some d\<rparr>))" if "holds held t s" for pc
    using that by (auto simp: leave_lock_def holds_def)
  have "(0 :: 32 word) <s 3" "\<not> (3 :: 32 word) <s 3" by (simp_all add: word_sless_alt)
  then show ?thesis
    using un pc st en [of Mark_running] en [of Wait_leave] lv [of Returned] lv [of Test] assms(4)
    by (cases "at s t") (auto simp: call_once_step_def steps_left_def unhindered_def pc_ok_def)
qed

lemma unhindered_returns:
  assumes "critical_sections api held" and "once_inv held s" and "unhindered t s"
  shows "\<exists>s'. once_runs api s s' \<and> at s' t = Returned \<and> (\<forall>u. u \<noteq> t \<longrightarrow> at s' u = at s u)"
  using assms(2,3)
proof (induction "steps_left t s" arbitrary: s rule: less_induct)
  case less
  show ?case
  proof (cases "at s t = Returned")
    case True
    then show ?thesis by (auto simp: once_runs_def)
  next
    case False
    from unhindered_step [OF assms(1) less.prems False] obtain s1 where s1: "call_once_step api t s = Inr s1"
      "unhindered t s1" "\<And>u. u \<noteq> t \<Longrightarrow> at s1 u = at s u" "steps_left t s1 < steps_left t s" by blast
    from less.hyps [OF s1(4) once_inv_step [OF assms(1) less.prems(1) s1(1)] s1(2)] obtain s' where
      s': "once_runs api s1 s'" "at s' t = Returned" "\<And>u. u \<noteq> t \<Longrightarrow> at s' u = at s1 u" by blast
    have "once_runs api s s'"
      unfolding once_runs_def by (rule converse_rtranclp_into_rtranclp) (use s1(1) s'(1) in \<open>auto simp: once_runs_def\<close>)
    then show ?thesis using s' s1(3) by auto
  qed
qed


text \<open>Whatever state the threads have got into, first the thread past the exchange returns, then a thread that holds the lock,
  and then no thread is hindered.\<close>

lemma someone_unhindered:
  assumes "once_inv held s" and "winner (at s t) \<or> (\<forall>u. \<not> winner (at s u)) \<and> at s t = Wait_leave"
  shows "unhindered t s"
proof (cases "winner (at s t)")
  case True
  then show ?thesis using no_waiting_owner [OF assms(1) True] assms(1) by (auto simp: unhindered_def once_inv_def)
next
  case False
  then have t: "at s t = Wait_leave" "\<And>u. \<not> winner (at s u)" using assms(2) by auto
  have "at s u \<noteq> Wait_leave" if "u \<noteq> t" for u
    using pc_okD [OF assms(1), of t] pc_okD [OF assms(1), of u] t(1) that by (auto simp: pc_ok_def holds_def)
  then show ?thesis using t(2) by (auto simp: unhindered_def)
qed

lemma all_unhindered:
  assumes api: "critical_sections api held" and inv: "once_inv held s"
  shows "\<exists>s'. once_runs api s s' \<and> once_inv held s' \<and> (\<forall>u. \<not> winner (at s' u) \<and> at s' u \<noteq> Wait_leave)"
proof (cases "\<exists>t. winner (at s t) \<or> (\<forall>u. \<not> winner (at s u)) \<and> at s t = Wait_leave")
  case True
  then obtain t where un: "unhindered t s" using someone_unhindered [OF inv] by blast
  from unhindered_returns [OF api inv this] obtain s' where s': "once_runs api s s'" "at s' t = Returned"
    "\<And>u. u \<noteq> t \<Longrightarrow> at s' u = at s u" by blast
  have "\<not> winner (at s' u) \<and> at s' u \<noteq> Wait_leave" for u
    using s'(2,3) un by (cases "u = t") (auto simp: unhindered_def)
  then show ?thesis using s'(1) once_runs_inv [OF s'(1) api inv] by blast
next
  case False
  have "once_runs api s s" by (simp add: once_runs_def)
  then show ?thesis using False inv by blast
qed

section \<open>Properties\<close>

text \<open>Critical sections as their owner and the number of entries.\<close>

definition counting_sections :: "(nat \<times> nat) option cs_api" where
  "counting_sections = \<lparr>cs_new = None,
     cs_enter = (\<lambda>t c. case c of None \<Rightarrow> Some (Some (t, 1)) | Some (u, n) \<Rightarrow> if u = t then Some (Some (t, Suc n)) else None),
     cs_leave = (\<lambda>t c. case c of Some (u, Suc (Suc n)) \<Rightarrow> Some (u, Suc n) | _ \<Rightarrow> None)\<rparr>"

lemma counting_sections_ok: "critical_sections counting_sections (\<lambda>c. c)"
  by (auto simp: critical_sections_def counting_sections_def split: nat.splits)

text \<open>C14: However many threads call \<open>call_once\<close> and however their accesses interleave, the callback is started at most once, a call
  returns only after the callback has ended, and no thread enters or leaves a critical section that has not been set up.\<close>

theorem callback_runs_once:
  assumes "critical_sections api held" and "once_reachable api s"
  shows "begun s \<le> 1 \<and> ended s \<le> begun s \<and> (at s t = Returned \<longrightarrow> ended s = 1) \<and>
    call_once_step api t s \<noteq> Inl Undefined_behaviour"
proof -
  have inv: "once_inv held s" by (rule once_reachable_inv [OF assms(2,1)])
  have b: "begun s \<le> 1 \<and> ended s \<le> begun s \<and> (status s = 3 \<longrightarrow> ended s = 1) \<and> (status s = 2 \<or> status s = 3 \<longrightarrow> flag_lock s \<noteq> None)"
  proof (cases "\<exists>u. winner (at s u)")
    case True
    then obtain u where "winner (at s u)" by blast
    then show ?thesis using pc_okD [OF inv, of u] by (auto simp: pc_ok_def holds_def winner_def)
  next
    case False
    then show ?thesis using once_phases(3) [OF inv] by (auto simp: settled_def)
  qed
  have "call_once_step api t s \<noteq> Inl Undefined_behaviour"
    using pc_okD [OF inv, of t] b
    by (cases "at s t") (auto simp: call_once_step_def enter_lock_def leave_lock_def pc_ok_def holds_def split: option.splits)
  then show ?thesis using b pc_okD [OF inv, of t] by (auto simp: pc_ok_def)
qed

text \<open>C15: \<open>call_once\<close> never gets stuck: from every state that the threads can reach, some continuation brings any given thread to
  its return, with the callback run to its end.\<close>

theorem call_once_can_return:
  assumes "critical_sections api held" and "once_reachable api s"
  shows "\<exists>s'. once_runs api s s' \<and> at s' t = Returned \<and> ended s' = 1"
proof -
  from all_unhindered [OF assms(1) once_reachable_inv [OF assms(2,1)]] obtain s1 where
    s1: "once_runs api s s1" "once_inv held s1" "unhindered t s1" by (auto simp: unhindered_def)
  from unhindered_returns [OF assms(1) s1(2,3)] obtain s' where s': "once_runs api s1 s'" "at s' t = Returned" by blast
  have run: "once_runs api s s'"
    unfolding once_runs_def by (rule rtranclp_trans) (use s1(1) s'(1) in \<open>auto simp: once_runs_def\<close>)
  have inv: "once_inv held s'" by (rule once_runs_inv [OF s'(1) assms(1) s1(2)])
  have st: "status s' = 3" using pc_okD [OF inv, of t] s'(2) by (simp add: pc_ok_def)
  have "ended s' = 1"
  proof (cases "\<exists>u. winner (at s' u)")
    case True
    then obtain u where "winner (at s' u)" by blast
    then show ?thesis using pc_okD [OF inv, of u] st by (auto simp: pc_ok_def winner_def)
  next
    case False
    then show ?thesis using once_phases(3) [OF inv] st by (auto simp: settled_def)
  qed
  then show ?thesis using run s'(2) by blast
qed

text \<open>Thread 1 has won and is in the callback while thread 2 waits for the lock.\<close>

primrec call_once_steps :: "'c cs_api \<Rightarrow> nat list \<Rightarrow> 'c once_flag \<Rightarrow> error + 'c once_flag" where
  "call_once_steps api [] s = Inr s"
| "call_once_steps api (t # ts) s = (case call_once_step api t s of Inl e \<Rightarrow> Inl e | Inr s' \<Rightarrow> call_once_steps api ts s')"

lemma call_once_steps_reachable:
  "once_reachable api s \<Longrightarrow> call_once_steps api ts s = Inr s' \<Longrightarrow> once_reachable api s'"
  by (induction ts arbitrary: s) (auto split: sum.splits intro: once_reachable.step)

definition second_waits :: "(nat \<times> nat) option once_flag" where
  "second_waits = \<lparr>status = 2, flag_lock = Some (Some (1, 1)),
     at = (\<lambda>_. Outside)(1 := In_callback, 2 := Wait_enter), begun = 1, ended = 0\<rparr>"

lemma second_waits_reachable: "once_reachable counting_sections second_waits"
proof (rule call_once_steps_reachable [OF once_reachable.start])
  have "((\<lambda>_. Outside)(Suc 0 := In_callback, 2 := Wait_enter)) = ((\<lambda>_. Outside)(2 := Wait_enter, Suc 0 := In_callback))"
    by auto
  then show "call_once_steps counting_sections [1, 1, 1, 1, 1, 1, 1, 1, 2, 2, 2] once_flag_init = Inr second_waits"
    by (simp add: call_once_step_def once_flag_init_def goto_def enter_lock_def counting_sections_def second_waits_def word_sless_alt)
qed

theorem callback_runs_once_witness:
  "once_reachable counting_sections second_waits \<and> begun second_waits = 1 \<and>
     call_once_step counting_sections 2 second_waits = Inl Would_block \<and> begun second_waits \<le> 1"
proof -
  have "call_once_step counting_sections 2 second_waits = Inl Would_block"
    by (simp add: call_once_step_def enter_lock_def counting_sections_def second_waits_def)
  then show ?thesis
    using callback_runs_once [OF counting_sections_ok second_waits_reachable] second_waits_reachable
    by (simp add: second_waits_def)
qed

theorem call_once_can_return_witness:
  "\<exists>s'. once_runs counting_sections second_waits s' \<and> at s' 2 = Returned \<and> ended s' = 1"
  by (rule call_once_can_return [OF counting_sections_ok second_waits_reachable])

end
