(* ===== verification/Tss.thy ===== *)
theory Tss
  imports World
begin

text \<open>
  Thread-specific storage of lib/tinycthread/tinycthread.c in the variant for Windows, as one thread sees it: for each
  key with a value a block \<open>TinyCThreadTSSData\<close>, whose address is in the slot that the operating system keeps for the key, and a singly
  linked list of these blocks, from which the values are destroyed when the thread ends. The slots are the parameter
  \<open>'s tls_api\<close>, what the code relies on of them is \<open>tls_laws\<close>; the destructors are code of the client, the parameter
  \<open>client\<close>.
\<close>

section \<open>Slots of the operating system\<close>

type_synonym tss_t = "32 word"

record 's tls_api =
  TlsAlloc :: "'s \<Rightarrow> tss_t \<times> 's"
  TlsFree :: "tss_t \<Rightarrow> 's \<Rightarrow> 's"
  TlsGetValue :: "'s \<Rightarrow> tss_t \<Rightarrow> addr"
  TlsSetValue :: "tss_t \<Rightarrow> addr \<Rightarrow> 's \<Rightarrow> bool \<times> 's"

definition TLS_OUT_OF_INDEXES :: tss_t where "TLS_OUT_OF_INDEXES = - 1"

definition tls_laws :: "'s tls_api \<Rightarrow> bool" where
  "tls_laws api \<longleftrightarrow>
     (\<forall>k v s s'. TlsSetValue api k v s = (True, s') \<longrightarrow> TlsGetValue api s' = (TlsGetValue api s)(k := v)) \<and>
     (\<forall>k v s s'. TlsSetValue api k v s = (False, s') \<longrightarrow> TlsGetValue api s' = TlsGetValue api s) \<and>
     (\<forall>k s s'. TlsAlloc api s = (k, s') \<longrightarrow> k \<noteq> TLS_OUT_OF_INDEXES \<longrightarrow> TlsGetValue api s' = (TlsGetValue api s)(k := NULL)) \<and>
     (\<forall>s s'. TlsAlloc api s = (TLS_OUT_OF_INDEXES, s') \<longrightarrow> TlsGetValue api s' = TlsGetValue api s) \<and>
     (\<forall>k s. TlsGetValue api (TlsFree api k s) = (TlsGetValue api s)(k := NULL))"

section \<open>State\<close>

record tss_data =
  td_value :: addr
  td_key :: tss_t
  td_next :: addr

text \<open>\<open>tss_calls\<close> is for a client that records the calls of its destructors.\<close>

record 's tss =
  tls :: 's
  datas :: "addr \<Rightarrow> tss_data option"
  tss_head :: addr
  tss_tail :: addr
  tss_dtors :: "tss_t \<Rightarrow> nat option"
  tss_calls :: "(nat \<times> addr) list"
  tss_fresh :: addr
  tss_sched :: mem_schedule
  tss_fuel :: nat

definition sizeof_tss_data :: int where "sizeof_tss_data = 24"

definition thrd_error :: int where "thrd_error = 0"
definition thrd_success :: int where "thrd_success = 1"

definition td_read :: "addr \<Rightarrow> ('s tss, tss_data) M" where
  "td_read p w = (case datas w p of None \<Rightarrow> Inl Bad_pointer | Some d \<Rightarrow> Inr (d, w))"

definition td_write :: "addr \<Rightarrow> (tss_data \<Rightarrow> tss_data) \<Rightarrow> ('s tss, unit) M" where
  "td_write p f w =
     (case datas w p of
        None \<Rightarrow> Inl Bad_pointer
      | Some d \<Rightarrow> Inr ((), w\<lparr>datas := (datas w)(p \<mapsto> f d)\<rparr>))"

definition td_free :: "addr \<Rightarrow> ('s tss, unit) M" where
  "td_free p = bnd (td_read p) (\<lambda>_. modify (\<lambda>w. w\<lparr>datas := (datas w)(p := None)\<rparr>))"

definition td_malloc :: "('s tss, addr) M" where
  "td_malloc =
     bnd (zoom tss_sched (\<lambda>m w. w\<lparr>tss_sched := m\<rparr>) draw_block) (\<lambda>ok.
     if \<not> ok then ret NULL else
     bnd (gets tss_fresh) (\<lambda>p.
     bnd (modify (\<lambda>w. w\<lparr>datas := (datas w)(p \<mapsto> \<lparr>td_value = NULL, td_key = 0, td_next = NULL\<rparr>),
       tss_fresh := p + sizeof_tss_data\<rparr>)) (\<lambda>_.
     ret p)))"

text \<open>\<open>_tinycthread_tss_dtors\<close> has 1088 entries.\<close>

definition read_dtor :: "tss_t \<Rightarrow> ('s tss, nat option) M" where
  "read_dtor k = (if unat k < 1088 then gets (\<lambda>w. tss_dtors w k) else fail Undefined_behaviour)"

definition write_dtor :: "tss_t \<Rightarrow> nat option \<Rightarrow> ('s tss, unit) M" where
  "write_dtor k f =
     (if unat k < 1088 then modify (\<lambda>w. w\<lparr>tss_dtors := (tss_dtors w)(k := f)\<rparr>) else fail Undefined_behaviour)"

section \<open>Keys and values\<close>

definition tss_create :: "'s tls_api \<Rightarrow> nat option \<Rightarrow> ('s tss, int \<times> tss_t) M" where
  "tss_create api dtor =
     bnd (gets (\<lambda>w. TlsAlloc api (tls w))) (\<lambda>r.
     bnd (modify (\<lambda>w. w\<lparr>tls := snd r\<rparr>)) (\<lambda>_.
     let key = fst r in
     if key = TLS_OUT_OF_INDEXES then ret (thrd_error, key)
     else bnd (write_dtor key dtor) (\<lambda>_. ret (thrd_success, key))))"

definition tss_get :: "'s tls_api \<Rightarrow> tss_t \<Rightarrow> ('s tss, addr) M" where
  "tss_get api key =
     bnd (gets (\<lambda>w. TlsGetValue api (tls w) key)) (\<lambda>data.
     if data = NULL then ret NULL else bnd (td_read data) (\<lambda>d. ret (td_value d)))"

text \<open>Linking a new block into the list of the thread.\<close>

definition td_append :: "addr \<Rightarrow> ('s tss, unit) M" where
  "td_append data =
     bnd (gets tss_tail) (\<lambda>tail.
     bnd (if tail \<noteq> NULL then td_write tail (\<lambda>d. d\<lparr>td_next := data\<rparr>)
          else modify (\<lambda>w. w\<lparr>tss_tail := data\<rparr>)) (\<lambda>_.
     modify (\<lambda>w. if tss_head w = NULL then w\<lparr>tss_head := data\<rparr> else w)))"

definition tss_set :: "'s tls_api \<Rightarrow> tss_t \<Rightarrow> addr \<Rightarrow> ('s tss, int) M" where
  "tss_set api key val =
     bnd (gets (\<lambda>w. TlsGetValue api (tls w) key)) (\<lambda>data.
     if data \<noteq> NULL then bnd (td_write data (\<lambda>d. d\<lparr>td_value := val\<rparr>)) (\<lambda>_. ret thrd_success)
     else
       bnd td_malloc (\<lambda>data.
       if data = NULL then ret thrd_error else
       bnd (td_write data (\<lambda>_. \<lparr>td_value = NULL, td_key = key, td_next = NULL\<rparr>)) (\<lambda>_.
       bnd (td_append data) (\<lambda>_.
       bnd (gets (\<lambda>w. TlsSetValue api key data (tls w))) (\<lambda>r.
       bnd (modify (\<lambda>w. w\<lparr>tls := snd r\<rparr>)) (\<lambda>_.
       if \<not> fst r then bnd (td_free data) (\<lambda>_. ret thrd_error)
       else bnd (td_write data (\<lambda>d. d\<lparr>td_value := val\<rparr>)) (\<lambda>_. ret thrd_success)))))))"

text \<open>\<open>while (prev->next != data) prev = prev->next\<close>.\<close>

definition tss_before :: "addr \<Rightarrow> addr \<Rightarrow> ('s tss, addr) M" where
  "tss_before data start =
     bnd (gets tss_fuel) (\<lambda>n.
     loopM n (\<lambda>prev. bnd (td_read prev) (\<lambda>d. ret (if td_next d \<noteq> data then Inl (td_next d) else Inr prev))) start)"

definition tss_delete :: "'s tls_api \<Rightarrow> tss_t \<Rightarrow> ('s tss, unit) M" where
  "tss_delete api key =
     bnd (gets (\<lambda>w. TlsGetValue api (tls w) key)) (\<lambda>data.
     bnd (whenM (data \<noteq> NULL)
       (bnd (gets tss_head) (\<lambda>head.
        bnd (if data = head then
               bnd (td_read data) (\<lambda>d. bnd (modify (\<lambda>w. w\<lparr>tss_head := td_next d\<rparr>)) (\<lambda>_. ret NULL))
             else if head \<noteq> NULL then tss_before data head else ret head) (\<lambda>prev.
        bnd (modify (\<lambda>w. if data = tss_tail w then w\<lparr>tss_tail := prev\<rparr> else w)) (\<lambda>_.
        td_free data))))) (\<lambda>_.
     block [write_dtor key None, modify (\<lambda>w. w\<lparr>tls := TlsFree api key (tls w)\<rparr>)]))"

section \<open>The end of a thread\<close>

text \<open>One pass over the blocks. The result says whether a destructor has been called.\<close>

definition sweep_at :: "(nat \<Rightarrow> addr \<Rightarrow> ('s tss, unit) M) \<Rightarrow> addr \<times> bool \<Rightarrow> ('s tss, addr \<times> bool + bool) M" where
  "sweep_at client = (\<lambda>(data, again).
     if data = NULL then ret (Inr again) else
     bnd (td_read data) (\<lambda>d.
     bnd (if td_value d \<noteq> NULL then
            bnd (td_write data (\<lambda>d. d\<lparr>td_value := NULL\<rparr>)) (\<lambda>_.
            bnd (read_dtor (td_key d)) (\<lambda>dtor.
            case dtor of
              None \<Rightarrow> ret again
            | Some f \<Rightarrow> bnd (client f (td_value d)) (\<lambda>_. ret True)))
          else ret again) (\<lambda>again.
     bnd (td_read data) (\<lambda>d. ret (Inl (td_next d, again))))))"

definition tss_sweep :: "(nat \<Rightarrow> addr \<Rightarrow> ('s tss, unit) M) \<Rightarrow> ('s tss, bool) M" where
  "tss_sweep client =
     bnd (gets tss_head) (\<lambda>head. bnd (gets tss_fuel) (\<lambda>n. loopM n (sweep_at client) (head, False)))"

primrec tss_sweeps :: "(nat \<Rightarrow> addr \<Rightarrow> ('s tss, unit) M) \<Rightarrow> nat \<Rightarrow> ('s tss, unit) M" where
  "tss_sweeps client 0 = ret ()"
| "tss_sweeps client (Suc n) = bnd (tss_sweep client) (\<lambda>again. whenM again (tss_sweeps client n))"

definition TSS_DTOR_ITERATIONS :: nat where "TSS_DTOR_ITERATIONS = 4"

definition tss_free_all :: "('s tss, unit) M" where
  "tss_free_all =
     bnd (gets tss_fuel) (\<lambda>n.
     loopM n (\<lambda>_.
       bnd (gets tss_head) (\<lambda>head.
       if head = NULL then ret (Inr ()) else
       bnd (td_read head) (\<lambda>d.
       bnd (td_free head) (\<lambda>_.
       bnd (modify (\<lambda>w. w\<lparr>tss_head := td_next d\<rparr>)) (\<lambda>_. ret (Inl ())))))) ())"

definition tss_cleanup :: "(nat \<Rightarrow> addr \<Rightarrow> ('s tss, unit) M) \<Rightarrow> ('s tss, unit) M" where
  "tss_cleanup client = block [
     tss_sweeps client TSS_DTOR_ITERATIONS,
     tss_free_all,
     modify (\<lambda>w. w\<lparr>tss_head := NULL, tss_tail := NULL\<rparr>)]"

definition DLL_PROCESS_DETACH :: nat where "DLL_PROCESS_DETACH = 0"
definition DLL_THREAD_DETACH :: nat where "DLL_THREAD_DETACH = 3"

definition tss_callback :: "(nat \<Rightarrow> addr \<Rightarrow> ('s tss, unit) M) \<Rightarrow> nat \<Rightarrow> ('s tss, unit) M" where
  "tss_callback client reason =
     bnd (gets tss_head) (\<lambda>head.
     whenM (head \<noteq> NULL \<and> (reason = DLL_THREAD_DETACH \<or> reason = DLL_PROCESS_DETACH)) (tss_cleanup client))"

text \<open>What runs in a new thread: its function, then the end of its storage.\<close>

definition thrd_wrapper_function :: "(nat \<Rightarrow> addr \<Rightarrow> ('s tss, unit) M) \<Rightarrow> (addr \<Rightarrow> ('s tss, int) M) \<Rightarrow> addr \<Rightarrow> ('s tss, int) M" where
  "thrd_wrapper_function client func arg =
     bnd (func arg) (\<lambda>res.
     bnd (gets tss_head) (\<lambda>head.
     bnd (whenM (head \<noteq> NULL) (tss_cleanup client)) (\<lambda>_.
     ret res)))"

text \<open>\<open>thrd_exit\<close>, up to \<open>ExitThread\<close> with the code that it gives.\<close>

definition thrd_exit_win :: "(nat \<Rightarrow> addr \<Rightarrow> ('s tss, unit) M) \<Rightarrow> int \<Rightarrow> ('s tss, 32 word) M" where
  "thrd_exit_win client res =
     bnd (gets tss_head) (\<lambda>head.
     bnd (whenM (head \<noteq> NULL) (tss_cleanup client)) (\<lambda>_.
     ret (word_of_int res)))"

section \<open>Setting and getting\<close>

lemma td_read_Inr [simp]: "td_read p w = Inr r \<longleftrightarrow> (\<exists>d. datas w p = Some d \<and> r = (d, w))"
  by (auto simp: td_read_def split: option.splits)

lemma td_write_Inr [simp]:
  "td_write p f w = Inr r \<longleftrightarrow> (\<exists>d. datas w p = Some d \<and> r = ((), w\<lparr>datas := (datas w)(p \<mapsto> f d)\<rparr>))"
  by (auto simp: td_write_def split: option.splits)

definition slots_ok :: "'s tls_api \<Rightarrow> 's tss \<Rightarrow> bool" where
  "slots_ok api w \<longleftrightarrow>
     0 < tss_fresh w \<and> (\<forall>p d. datas w p = Some d \<longrightarrow> 0 < p \<and> p < tss_fresh w) \<and>
     (\<forall>k. TlsGetValue api (tls w) k \<noteq> NULL \<longrightarrow> (\<exists>d. datas w (TlsGetValue api (tls w) k) = Some d \<and> td_key d = k))"

definition tss_ok :: "'s tls_api \<Rightarrow> 's tss \<Rightarrow> bool" where
  "tss_ok api w \<longleftrightarrow> slots_ok api w \<and> (tss_tail w \<noteq> NULL \<longrightarrow> datas w (tss_tail w) \<noteq> None)"

text \<open>The value of a key, read off the memory.\<close>

definition value_of :: "'s tls_api \<Rightarrow> 's tss \<Rightarrow> tss_t \<Rightarrow> addr" where
  "value_of api w k = (case datas w (TlsGetValue api (tls w) k) of None \<Rightarrow> NULL | Some d \<Rightarrow> td_value d)"

lemma slots_okD:
  assumes "slots_ok api w"
  shows "0 < tss_fresh w" "datas w p = Some d \<Longrightarrow> 0 < p" "datas w p = Some d \<Longrightarrow> p < tss_fresh w"
    "TlsGetValue api (tls w) k \<noteq> NULL \<Longrightarrow> \<exists>d. datas w (TlsGetValue api (tls w) k) = Some d \<and> td_key d = k"
  using assms unfolding slots_ok_def by blast+

lemma tss_okD: "tss_ok api w \<Longrightarrow> slots_ok api w" "tss_ok api w \<Longrightarrow> tss_tail w \<noteq> NULL \<Longrightarrow> datas w (tss_tail w) \<noteq> None"
  by (simp_all add: tss_ok_def)

lemma tss_get_value:
  assumes "slots_ok api w"
  shows "tss_get api k w = Inr (value_of api w k, w)"
proof -
  let ?p = "TlsGetValue api (tls w) k"
  have "datas w NULL \<noteq> Some d" for d using assms unfolding slots_ok_def by (metis less_irrefl)
  then have null: "datas w NULL = None" by (cases "datas w NULL") auto
  show ?thesis
  proof (cases "?p = NULL")
    case True
    then show ?thesis using null by (simp add: tss_get_def value_of_def bnd_gets ret_def)
  next
    case False
    then obtain d where "datas w ?p = Some d" using assms by (auto simp: slots_ok_def)
    then show ?thesis using False by (simp add: tss_get_def value_of_def bnd_def gets_def td_read_def ret_def)
  qed
qed

lemma tls_lawsD:
  assumes laws: "tls_laws api"
  shows "TlsSetValue api k v s = (True, s') \<Longrightarrow> TlsGetValue api s' = (TlsGetValue api s)(k := v)"
    "TlsSetValue api k v s = (False, s') \<Longrightarrow> TlsGetValue api s' = TlsGetValue api s"
    "TlsGetValue api (TlsFree api k s) = (TlsGetValue api s)(k := NULL)"
  using laws unfolding tls_laws_def by blast+

text \<open>The first value of a key. The new block is linked behind the tail, but does not become the tail.\<close>

definition appended :: "addr \<Rightarrow> 's tss \<Rightarrow> 's tss" where
  "appended p w = w\<lparr>
     datas := (if tss_tail w = NULL then datas w
       else (datas w)(tss_tail w := map_option (\<lambda>d. d\<lparr>td_next := p\<rparr>) (datas w (tss_tail w)))),
     tss_tail := if tss_tail w = NULL then p else tss_tail w, tss_head := if tss_head w = NULL then p else tss_head w\<rparr>"

lemma appended_simps [simp]:
  "tls (appended p w) = tls w" "tss_fresh (appended p w) = tss_fresh w" "tss_sched (appended p w) = tss_sched w"
  "tss_dtors (appended p w) = tss_dtors w" "tss_calls (appended p w) = tss_calls w" "tss_fuel (appended p w) = tss_fuel w"
  "q \<noteq> tss_tail w \<Longrightarrow> datas (appended p w) q = datas w q"
  by (simp_all add: appended_def)

lemma td_append_runs: "tss_tail w = NULL \<or> datas w (tss_tail w) \<noteq> None \<Longrightarrow> td_append p w = Inr ((), appended p w)"
  by (cases w) (auto simp: td_append_def bnd_def gets_def modify_def td_write_def appended_def)

text \<open>The block that \<open>tss_set\<close> makes, before it is linked.\<close>

definition allocated :: "tss_data \<Rightarrow> mem_schedule \<Rightarrow> 's tss \<Rightarrow> 's tss" where
  "allocated d m w = w\<lparr>datas := (datas w)(tss_fresh w \<mapsto> d), tss_fresh := tss_fresh w + sizeof_tss_data, tss_sched := m\<rparr>"

lemma allocated_simps [simp]:
  "tls (allocated d m w) = tls w" "tss_head (allocated d m w) = tss_head w" "tss_tail (allocated d m w) = tss_tail w"
  "tss_dtors (allocated d m w) = tss_dtors w" "tss_calls (allocated d m w) = tss_calls w" "tss_fuel (allocated d m w) = tss_fuel w"
  "tss_fresh (allocated d m w) = tss_fresh w + sizeof_tss_data" "datas (allocated d m w) = (datas w)(tss_fresh w \<mapsto> d)"
  "tss_sched (allocated d m w) = m"
  by (simp_all add: allocated_def)

lemma td_malloc_runs:
  "draw (tss_sched w) = (ok, m) \<Longrightarrow>
   td_malloc w = (if ok then Inr (tss_fresh w, allocated \<lparr>td_value = NULL, td_key = 0, td_next = NULL\<rparr> m w)
     else Inr (NULL, w\<lparr>tss_sched := m\<rparr>))"
  by (simp add: td_malloc_def zoom_def draw_block_def bnd_def gets_def modify_def ret_def allocated_def)

lemma td_write_allocated:
  "td_write (tss_fresh w) f (allocated d m w) = Inr ((), allocated (f d) m w)"
  by (simp add: td_write_def allocated_def)

definition add_data :: "tss_t \<Rightarrow> addr \<Rightarrow> mem_schedule \<Rightarrow> 's \<Rightarrow> 's tss \<Rightarrow> 's tss" where
  "add_data key v m s w = (appended (tss_fresh w) (allocated \<lparr>td_value = v, td_key = key, td_next = NULL\<rparr> m w))\<lparr>tls := s\<rparr>"

text \<open>A key without a value: no memory, no slot, or a new block.\<close>

lemma tss_set_new:
  assumes ok: "tss_ok api w" and slot: "TlsGetValue api (tls w) key = NULL" and draw: "draw (tss_sched w) = (b, m)"
    and set: "TlsSetValue api key (tss_fresh w) (tls w) = (c, s)"
  shows "tss_set api key val w =
    (if \<not> b then Inr (thrd_error, w\<lparr>tss_sched := m\<rparr>)
     else if c then Inr (thrd_success, add_data key val m s w)
     else Inr (thrd_error, (add_data key NULL m s w)\<lparr>datas := (datas (add_data key NULL m s w))(tss_fresh w := None)\<rparr>))"
proof -
  let ?p = "tss_fresh w"
  have f: "?p \<noteq> NULL" "tss_tail w \<noteq> ?p" using ok by (auto simp: tss_ok_def slots_ok_def)
  show ?thesis
  proof (cases b)
    case False
    then show ?thesis using slot td_malloc_runs [OF draw] by (simp add: tss_set_def bnd_def gets_def ret_def)
  next
    case True
    let ?a = "allocated \<lparr>td_value = NULL, td_key = key, td_next = NULL\<rparr> m w"
    have app: "td_append ?p ?a = Inr ((), appended ?p ?a)"
      by (rule td_append_runs) (use ok in \<open>auto simp: tss_ok_def\<close>)
    have d: "datas (appended ?p ?a) ?p = Some \<lparr>td_value = NULL, td_key = key, td_next = NULL\<rparr>"
      using f by simp
    have upd: "(appended ?p ?a)\<lparr>tls := s, datas := (datas (appended ?p ?a))(?p \<mapsto> \<lparr>td_value = val, td_key = key, td_next = NULL\<rparr>)\<rparr>
        = add_data key val m s w"
      using f by (simp add: add_data_def appended_def allocated_def fun_upd_twist)
    have "tss_set api key val w =
        bnd (gets (\<lambda>w. TlsSetValue api key ?p (tls w))) (\<lambda>r.
         bnd (modify (\<lambda>w. w\<lparr>tls := snd r\<rparr>)) (\<lambda>_.
         if \<not> fst r then bnd (td_free ?p) (\<lambda>_. ret thrd_error)
         else bnd (td_write ?p (\<lambda>d. d\<lparr>td_value := val\<rparr>)) (\<lambda>_. ret thrd_success))) (appended ?p ?a)"
      using slot f True td_malloc_runs [OF draw]
      by (simp add: tss_set_def bnd_Inr_step [where m = "td_append ?p", OF app]
        bnd_Inr_step [where m = "td_write ?p g" for g, OF td_write_allocated] bnd_gets bnd_def [of td_malloc])
    also have "\<dots> = (if c then Inr (thrd_success, add_data key val m s w)
       else Inr (thrd_error, (add_data key NULL m s w)\<lparr>datas := (datas (add_data key NULL m s w))(?p := None)\<rparr>))"
      using set d upd by (simp add: bnd_def gets_def modify_def ret_def td_free_def td_read_def td_write_def add_data_def)
    finally show ?thesis using True by simp
  qed
qed


lemma add_data_simps [simp]:
  "tls (add_data key v m s w) = s" "tss_fresh (add_data key v m s w) = tss_fresh w + sizeof_tss_data"
  "tss_dtors (add_data key v m s w) = tss_dtors w" "tss_calls (add_data key v m s w) = tss_calls w"
  "tss_fuel (add_data key v m s w) = tss_fuel w" "tss_sched (add_data key v m s w) = m"
  "tss_tail (add_data key v m s w) = (if tss_tail w = NULL then tss_fresh w else tss_tail w)"
  "tss_head (add_data key v m s w) = (if tss_head w = NULL then tss_fresh w else tss_head w)"
  by (simp_all add: add_data_def) (simp_all add: appended_def)

lemma add_data_datas:
  assumes "tss_ok api w"
  shows "datas (add_data key v m s w) q =
    (if q = tss_fresh w then Some \<lparr>td_value = v, td_key = key, td_next = NULL\<rparr>
     else if q = tss_tail w then map_option (\<lambda>d. d\<lparr>td_next := tss_fresh w\<rparr>) (datas w q) else datas w q)"
proof -
  have f: "tss_tail w \<noteq> tss_fresh w" "datas w NULL = None"
    using assms by (auto simp: tss_ok_def slots_ok_def intro: option.exhaust [of "datas w NULL"])
  then show ?thesis by (auto simp: add_data_def appended_def)
qed

lemma sizeof_tss_data_pos [simp]: "0 < sizeof_tss_data"
  by (simp add: sizeof_tss_data_def)

lemma add_data_ok:
  assumes ok: "tss_ok api w" and s: "TlsGetValue api s = (TlsGetValue api (tls w))(key := tss_fresh w)"
  shows "tss_ok api (add_data key v m s w)"
proof -
  let ?w = "add_data key v m s w"
  note d = add_data_datas [OF ok]
  note r = slots_okD [OF tss_okD(1) [OF ok]] and t = tss_okD(2) [OF ok]
  have "0 < p \<and> p < tss_fresh ?w" if "datas ?w p = Some x" for p x
    using that r(1) r(2,3) [of p] by (auto simp: d sizeof_tss_data_def split: if_splits)
  moreover have "\<exists>x. datas ?w (TlsGetValue api s k) = Some x \<and> td_key x = k" if nz: "TlsGetValue api s k \<noteq> NULL" for k
  proof (cases "k = key")
    case True
    then show ?thesis using s by (simp add: d)
  next
    case False
    then have e: "TlsGetValue api s k = TlsGetValue api (tls w) k" using s by simp
    then obtain x where x: "datas w (TlsGetValue api s k) = Some x" "td_key x = k" using r(4) [of k] nz unfolding e by blast
    then have "TlsGetValue api s k \<noteq> tss_fresh w" using r(3) [of "TlsGetValue api s k"] by auto
    then show ?thesis using x by (auto simp: d)
  qed
  moreover have "datas ?w (tss_tail ?w) \<noteq> None" using t by (auto simp: d)
  ultimately show ?thesis using r(1) by (simp add: tss_ok_def slots_ok_def sizeof_tss_data_def)
qed

lemma add_data_value:
  assumes ok: "tss_ok api w" and s: "TlsGetValue api s = (TlsGetValue api (tls w))(key := tss_fresh w)"
  shows "value_of api (add_data key v m s w) k = (if k = key then v else value_of api w k)"
proof (cases "k = key")
  case True
  then show ?thesis using s add_data_datas [OF ok] by (simp add: value_of_def)
next
  case False
  let ?a = "TlsGetValue api (tls w) k"
  have "?a \<noteq> tss_fresh w"
  proof
    assume a: "?a = tss_fresh w"
    then have "?a \<noteq> NULL" using ok by (auto simp: tss_ok_def slots_ok_def)
    then obtain d where "datas w ?a = Some d" using ok unfolding tss_ok_def slots_ok_def by blast
    then show False using a ok unfolding tss_ok_def slots_ok_def by (metis less_irrefl)
  qed
  then show ?thesis using False s add_data_datas [OF ok] by (auto simp: value_of_def split: option.splits)
qed


lemma tss_set_old:
  assumes ok: "tss_ok api w" and slot: "TlsGetValue api (tls w) key \<noteq> NULL"
  shows "\<exists>w'. tss_set api key val w = Inr (thrd_success, w') \<and> tss_ok api w' \<and>
    (\<forall>k. value_of api w' k = (if k = key then val else value_of api w k))"
proof -
  let ?a = "TlsGetValue api (tls w) key"
  obtain d where d: "datas w ?a = Some d" "td_key d = key" using ok slot unfolding tss_ok_def slots_ok_def by blast
  let ?w = "w\<lparr>datas := (datas w)(?a \<mapsto> d\<lparr>td_value := val\<rparr>)\<rparr>"
  have run: "tss_set api key val w = Inr (thrd_success, ?w)"
    using slot d by (simp add: tss_set_def bnd_def gets_def ret_def td_write_def)
  note r = slots_okD [OF tss_okD(1) [OF ok]] and t = tss_okD(2) [OF ok]
  have o: "TlsGetValue api (tls w) k \<noteq> ?a" if "k \<noteq> key" for k
    using r(4) [of k] d slot that by (metis option.inject)
  have "\<exists>x. datas ?w (TlsGetValue api (tls w) k) = Some x \<and> td_key x = k" if "TlsGetValue api (tls w) k \<noteq> NULL" for k
    using r(4) [OF that] o [of k] d(2) by (cases "k = key") auto
  moreover have "0 < p \<and> p < tss_fresh w" if "datas ?w p = Some x" for p x
    using that r(2,3) [of p] r(2,3) [OF d(1)] by (auto split: if_splits)
  ultimately have "tss_ok api ?w" using r(1) t by (auto simp: tss_ok_def slots_ok_def)
  moreover note o
  then have "value_of api ?w k = (if k = key then val else value_of api w k)" for k
    by (auto simp: value_of_def)
  ultimately show ?thesis using run by blast
qed

text \<open>What holds when \<open>tss_set\<close> fails: every value is as before.\<close>

lemma tss_set_outcome:
  assumes laws: "tls_laws api" and ok: "tss_ok api w"
  shows "\<exists>w'. tss_set api key val w = Inr (thrd_success, w') \<and> tss_ok api w' \<and>
      (\<forall>k. value_of api w' k = (if k = key then val else value_of api w k)) \<or>
    tss_set api key val w = Inr (thrd_error, w') \<and> slots_ok api w' \<and> (\<forall>k. value_of api w' k = value_of api w k)"
proof (cases "TlsGetValue api (tls w) key = NULL")
  case False
  from tss_set_old [OF ok this] show ?thesis by blast
next
  case slot: True
  obtain b m c s where b: "draw (tss_sched w) = (b, m)" and c: "TlsSetValue api key (tss_fresh w) (tls w) = (c, s)"
    by fastforce
  note run = tss_set_new [OF ok slot b c]
  consider "\<not> b" | "b" "c" | "b" "\<not> c" by blast
  then show ?thesis
  proof cases
    case 1
    have "slots_ok api (w\<lparr>tss_sched := m\<rparr>)" using ok by (auto simp: tss_ok_def slots_ok_def)
    then show ?thesis using run 1 by (auto simp: value_of_def)
  next
    case 2
    have s: "TlsGetValue api s = (TlsGetValue api (tls w))(key := tss_fresh w)"
      by (rule tls_lawsD(1) [OF laws]) (use c 2 in simp)
    have "tss_set api key val w = Inr (thrd_success, add_data key val m s w)" using run 2 by simp
    then show ?thesis using add_data_ok [OF ok s] add_data_value [OF ok s] by blast
  next
    case 3
    have s: "TlsGetValue api s = TlsGetValue api (tls w)"
      by (rule tls_lawsD(2) [OF laws]) (use c 3 in simp)
    let ?w = "(add_data key NULL m s w)\<lparr>datas := (datas (add_data key NULL m s w))(tss_fresh w := None)\<rparr>"
    note d = add_data_datas [OF ok]
    note r = slots_okD [OF tss_okD(1) [OF ok]]
    have dv: "map_option (\<lambda>d. (td_value d, td_key d)) (datas ?w q) = map_option (\<lambda>d. (td_value d, td_key d)) (datas w q)" for q
      using r(3) [of "tss_fresh w"] by (cases "datas w q") (auto simp: d)
    have "\<exists>x. datas ?w (TlsGetValue api s k) = Some x \<and> td_key x = k" if nz: "TlsGetValue api s k \<noteq> NULL" for k
    proof -
      obtain x where x: "datas w (TlsGetValue api s k) = Some x" "td_key x = k" using r(4) [of k] nz unfolding s by blast
      then show ?thesis using dv [of "TlsGetValue api s k"] by auto
    qed
    moreover have "0 < p \<and> p < tss_fresh ?w" if "datas ?w p = Some x" for p x
      using that r(1) r(2,3) [of p] by (auto simp: d sizeof_tss_data_def split: if_splits)
    ultimately have "slots_ok api ?w" using r(1) by (simp add: slots_ok_def sizeof_tss_data_def)
    moreover have "value_of api ?w k = value_of api w k" for k
      using dv [of "TlsGetValue api (tls w) k"] s by (auto simp: value_of_def split: option.splits)
    ultimately show ?thesis using run 3 by (intro exI [of _ ?w] disjI2) simp
  qed
qed


section \<open>Values that the end of a thread forgets\<close>

text \<open>A client that records which destructor is called with which value.\<close>

definition record_call :: "nat \<Rightarrow> addr \<Rightarrow> ('s tss, unit) M" where
  "record_call f v = modify (\<lambda>w. w\<lparr>tss_calls := tss_calls w @ [(f, v)]\<rparr>)"

text \<open>The list of a thread whose tail is still its first block: that block and one more.\<close>

definition two_linked :: "addr \<Rightarrow> tss_data \<Rightarrow> addr \<Rightarrow> tss_data \<Rightarrow> 's tss \<Rightarrow> bool" where
  "two_linked a da b db w \<longleftrightarrow> tss_head w = a \<and> tss_tail w = a \<and> a \<noteq> NULL \<and> b \<noteq> NULL \<and> a \<noteq> b \<and>
     datas w a = Some da \<and> datas w b = Some db \<and> td_next da = b \<and> td_next db = NULL"

lemma loopM_Suc: "0 < n \<Longrightarrow> loopM n body x = bnd (body x) (\<lambda>r. case r of Inl y \<Rightarrow> loopM (n - 1) body y | Inr z \<Rightarrow> ret z)"
  by (cases n) simp_all

definition visited :: "addr \<Rightarrow> 's tss \<Rightarrow> 's tss" where
  "visited a w = w\<lparr>datas := (datas w)(a := map_option (\<lambda>d. d\<lparr>td_value := NULL\<rparr>) (datas w a)),
     tss_calls := tss_calls w @ (case datas w a of
       Some d \<Rightarrow> if td_value d \<noteq> NULL then (case tss_dtors w (td_key d) of Some f \<Rightarrow> [(f, td_value d)] | None \<Rightarrow> []) else []
     | None \<Rightarrow> [])\<rparr>"


text \<open>The body of the sweep at one block, when nothing but the record of calls is written by destructors.\<close>

lemma sweep_round:
  assumes "datas w p = Some d" and "p \<noteq> NULL" and "unat (td_key d) < 1088"
  shows "sweep_at record_call (p, again) w =
    Inr (Inl (td_next d, again \<or> td_value d \<noteq> NULL \<and> tss_dtors w (td_key d) \<noteq> None), visited p w)"
  using assms
  by (cases "tss_dtors w (td_key d)"; cases w; cases d)
    (auto simp: sweep_at_def bnd_def ret_def td_write_def td_read_def read_dtor_def gets_def record_call_def modify_def visited_def
      fun_upd_idem)

lemma visited_simps [simp]:
  "tss_head (visited p w) = tss_head w" "tss_tail (visited p w) = tss_tail w" "tss_fuel (visited p w) = tss_fuel w"
  "tss_dtors (visited p w) = tss_dtors w" "q \<noteq> p \<Longrightarrow> datas (visited p w) q = datas w q"
  "datas w p = Some d \<Longrightarrow> datas (visited p w) p = Some (d\<lparr>td_value := NULL\<rparr>)" "tls (visited p w) = tls w"
  by (simp_all add: visited_def)

lemma sweep_two:
  assumes l: "two_linked a da b db w" and k: "unat (td_key da) < 1088" "unat (td_key db) < 1088" and f: "2 < tss_fuel w"
  shows "tss_sweep record_call w =
    Inr (td_value da \<noteq> NULL \<and> tss_dtors w (td_key da) \<noteq> None \<or> td_value db \<noteq> NULL \<and> tss_dtors w (td_key db) \<noteq> None,
      visited b (visited a w))"
proof -
  have n: "tss_fuel w = Suc (Suc (Suc (tss_fuel w - 3)))" using f by simp
  have a: "datas w a = Some da" "a \<noteq> NULL" "td_next da = b" and b: "datas (visited a w) b = Some db" "b \<noteq> NULL" "td_next db = NULL"
    using l by (auto simp: two_linked_def)
  have s: "sweep_at record_call (a, False) w =
      Inr (Inl (b, td_value da \<noteq> NULL \<and> tss_dtors w (td_key da) \<noteq> None), visited a w)"
    "\<And>again. sweep_at record_call (b, again) (visited a w) =
      Inr (Inl (NULL, again \<or> td_value db \<noteq> NULL \<and> tss_dtors w (td_key db) \<noteq> None), visited b (visited a w))"
    using sweep_round [OF a(1,2) k(1), of False] sweep_round [OF b(1,2) k(2)] a(3) b(3) by simp_all
  have e: "sweep_at record_call (NULL, again) v = Inr (Inr again, v)" for again v
    by (simp add: sweep_at_def ret_def)
  have h: "tss_head w = a" using l by (simp add: two_linked_def)
  show ?thesis
    unfolding tss_sweep_def bnd_gets h by (subst n) (simp only: loopM.simps bnd_def s e sum.case fst_conv snd_conv ret_def simp_thms)
qed


lemma visited_two:
  assumes "two_linked a da b db w"
  shows "two_linked a (da\<lparr>td_value := NULL\<rparr>) b (db\<lparr>td_value := NULL\<rparr>) (visited b (visited a w))"
    "datas (visited b (visited a w)) =
      (datas w)(a \<mapsto> da\<lparr>td_value := NULL\<rparr>, b \<mapsto> db\<lparr>td_value := NULL\<rparr>)"
  using assms by (auto simp: two_linked_def visited_def)

lemma visited_calls:
  assumes "two_linked a da b db w"
  shows "td_value da = NULL \<Longrightarrow> td_value db = NULL \<Longrightarrow> tss_calls (visited b (visited a w)) = tss_calls w"
    "td_value da \<noteq> NULL \<Longrightarrow> td_value db \<noteq> NULL \<Longrightarrow> tss_dtors w (td_key da) = Some f \<Longrightarrow> tss_dtors w (td_key db) = Some g \<Longrightarrow>
     tss_calls (visited b (visited a w)) = tss_calls w @ [(f, td_value da), (g, td_value db)]"
  using assms by (auto simp: two_linked_def visited_def)

lemma free_two:
  assumes l: "two_linked a da b db w" and f: "2 < tss_fuel w"
  shows "tss_free_all w = Inr ((), w\<lparr>datas := (datas w)(a := None, b := None), tss_head := NULL\<rparr>)"
proof -
  have n: "tss_fuel w = Suc (Suc (Suc (tss_fuel w - 3)))" using f by simp
  show ?thesis
    unfolding tss_free_all_def bnd_gets
    by (subst n) (use l in \<open>auto simp: two_linked_def bnd_def gets_def td_read_def td_free_def modify_def ret_def\<close>)
qed

lemma cleanup_two:
  assumes l: "two_linked a da b db w" and k: "unat (td_key da) < 1088" "unat (td_key db) < 1088" and n: "2 < tss_fuel w"
    and v: "td_value da \<noteq> NULL" "td_value db \<noteq> NULL" and d: "tss_dtors w (td_key da) = Some f" "tss_dtors w (td_key db) = Some g"
  shows "\<exists>w'. tss_cleanup record_call w = Inr ((), w') \<and> tss_calls w' = tss_calls w @ [(f, td_value da), (g, td_value db)] \<and>
    datas w' = (datas w)(a := None, b := None) \<and> tss_head w' = NULL \<and> tss_tail w' = NULL"
proof -
  let ?w1 = "visited b (visited a w)"
  let ?w2 = "visited b (visited a ?w1)"
  note l1 = visited_two(1) [OF l] and l2 = visited_two(1) [OF visited_two(1) [OF l]]
  have s1: "tss_sweep record_call w = Inr (True, ?w1)" using sweep_two [OF l k n] v d by simp
  have s2: "tss_sweep record_call ?w1 = Inr (False, ?w2)" using sweep_two [OF l1] k n by simp
  have sw: "tss_sweeps record_call TSS_DTOR_ITERATIONS w = Inr ((), ?w2)"
    by (simp add: TSS_DTOR_ITERATIONS_def eval_nat_numeral bnd_def s1 s2 whenM_def ret_def)
  let ?w3 = "?w2\<lparr>datas := (datas ?w2)(a := None, b := None), tss_head := NULL\<rparr>"
  have fr: "tss_free_all ?w2 = Inr ((), ?w3)" by (rule free_two [OF l2]) (use n in simp)
  have "tss_cleanup record_call w = Inr ((), ?w3\<lparr>tss_head := NULL, tss_tail := NULL\<rparr>)"
    by (simp add: tss_cleanup_def bnd_def sw fr modify_def ret_def)
  moreover have "tss_calls ?w2 = tss_calls w @ [(f, td_value da), (g, td_value db)]"
    using visited_calls(1) [OF l1] visited_calls(2) [OF l v d] by simp
  moreover have "(datas ?w2)(a := None, b := None) = (datas w)(a := None, b := None)"
    unfolding visited_two(2) [OF l1] visited_two(2) [OF l] by auto
  ultimately show ?thesis by simp
qed

text \<open>Setting several keys one after the other, each with success.\<close>

definition set_all :: "'s tls_api \<Rightarrow> (tss_t \<times> addr) list \<Rightarrow> ('s tss, unit) M" where
  "set_all api kvs = forM kvs (\<lambda>(k, v). bnd (tss_set api k v) (\<lambda>st. assertM (st = thrd_success)))"

lemma tss_set_success:
  assumes laws: "tls_laws api" and ok: "tss_ok api w" and slot: "TlsGetValue api (tls w) key = NULL"
    and run: "bnd (tss_set api key v) (\<lambda>st. assertM (st = thrd_success)) w = Inr (u, w')"
  shows "\<exists>m s. w' = add_data key v m s w \<and> TlsGetValue api s = (TlsGetValue api (tls w))(key := tss_fresh w) \<and> tss_ok api w'"
proof -
  obtain b m c s where b: "draw (tss_sched w) = (b, m)" and c: "TlsSetValue api key (tss_fresh w) (tls w) = (c, s)"
    by fastforce
  have "w' = add_data key v m s w \<and> c"
    using run tss_set_new [OF ok slot b c, of v] by (auto simp: bnd_Inr thrd_error_def thrd_success_def split: if_splits)
  moreover from this have "TlsGetValue api s = (TlsGetValue api (tls w))(key := tss_fresh w)"
    by (intro tls_lawsD(1) [OF laws]) (use c in simp)
  ultimately show ?thesis using add_data_ok [OF ok] by blast
qed

text \<open>The first block \<open>a\<close> is linked to the last one \<open>b\<close>; those in between are in memory, but in no list.\<close>

definition only_last_linked :: "'s tls_api \<Rightarrow> addr \<Rightarrow> tss_data \<Rightarrow> (tss_t \<times> addr) list \<Rightarrow> 's tss \<Rightarrow> 's tss \<Rightarrow> addr \<Rightarrow> tss_data \<Rightarrow> bool" where
  "only_last_linked api a da kvs w w' b da' \<longleftrightarrow>
     tss_ok api w' \<and> two_linked a da' b \<lparr>td_value = snd (last kvs), td_key = fst (last kvs), td_next = NULL\<rparr> w' \<and>
     td_value da' = td_value da \<and> td_key da' = td_key da \<and> tss_dtors w' = tss_dtors w \<and> tss_calls w' = tss_calls w \<and>
     tss_fuel w' = tss_fuel w \<and> datas w b = None \<and> (\<forall>p. p \<noteq> a \<longrightarrow> datas w p \<noteq> None \<longrightarrow> datas w' p = datas w p) \<and>
     (\<forall>j. j \<notin> fst ` set kvs \<longrightarrow> TlsGetValue api (tls w') j = TlsGetValue api (tls w) j) \<and>
     (\<forall>j\<in>fst ` set (butlast kvs). datas w' (TlsGetValue api (tls w') j) \<noteq> None \<and> TlsGetValue api (tls w') j \<notin> {a, b})"

lemma set_all_links:
  assumes laws: "tls_laws api" and ok: "tss_ok api w" and l: "tss_head w = a" "tss_tail w = a" "a \<noteq> NULL" "datas w a = Some da"
    and keys: "distinct (map fst kvs)" "\<forall>k\<in>fst ` set kvs. TlsGetValue api (tls w) k = NULL"
    and ne: "kvs \<noteq> []" and run: "set_all api kvs w = Inr (u, w')"
  shows "\<exists>b da'. only_last_linked api a da kvs w w' b da'"
  using ok l keys ne run
proof (induction kvs arbitrary: w da)
  case Nil
  then show ?case by simp
next
  case (Cons kv kvs)
  obtain k v where kv: "kv = (k, v)" by fastforce
  from Cons.prems(9) obtain w1 where s1: "bnd (tss_set api k v) (\<lambda>st. assertM (st = thrd_success)) w = Inr ((), w1)"
    and rest: "set_all api kvs w1 = Inr (u, w')" by (auto simp: set_all_def kv bnd_Inr)
  have slot: "TlsGetValue api (tls w) k = NULL" using Cons.prems(7) kv by simp
  from tss_set_success [OF laws Cons.prems(1) slot s1] obtain m s where
    w1: "w1 = add_data k v m s w" "TlsGetValue api s = (TlsGetValue api (tls w))(k := tss_fresh w)" "tss_ok api w1" by blast
  let ?b = "tss_fresh w"
  note d = add_data_datas [OF Cons.prems(1)]
  have ab: "?b \<noteq> a" "?b \<noteq> NULL"
    using slots_okD(1) [OF tss_okD(1) [OF Cons.prems(1)]] slots_okD(3) [OF tss_okD(1) [OF Cons.prems(1)] Cons.prems(5)] by auto
  have a1: "datas w1 a = Some (da\<lparr>td_next := ?b\<rparr>)" using ab Cons.prems(3,5) by (simp add: w1(1) d)
  have b1: "datas w1 ?b = Some \<lparr>td_value = v, td_key = k, td_next = NULL\<rparr>" by (simp add: w1(1) d)
  have old: "datas w1 p = datas w p" if "p \<noteq> a" "datas w p \<noteq> None" for p
    using that slots_okD(3) [OF tss_okD(1) [OF Cons.prems(1)], of ?b] Cons.prems(3) by (auto simp: w1(1) d)
  have fresh: "datas w ?b = None"
    using slots_okD(3) [OF tss_okD(1) [OF Cons.prems(1)], of ?b] by (cases "datas w ?b") auto
  have ht: "tss_head w1 = a" "tss_tail w1 = a" using Cons.prems(2-4) by (simp_all add: w1(1))
  show ?case
  proof (cases "kvs = []")
    case True
    then have "w' = w1" using rest by (simp add: set_all_def)
    moreover have "two_linked a (da\<lparr>td_next := ?b\<rparr>) ?b \<lparr>td_value = v, td_key = k, td_next = NULL\<rparr> w1"
      using ht a1 b1 ab Cons.prems(4) by (auto simp: two_linked_def)
    ultimately show ?thesis unfolding only_last_linked_def
      using True kv old w1(2,3) fresh by (intro exI [of _ ?b] exI [of _ "da\<lparr>td_next := ?b\<rparr>"]) (auto simp: w1(1))
  next
    case False
    have "\<forall>j\<in>fst ` set kvs. TlsGetValue api (tls w1) j = NULL"
      using Cons.prems(6,7) kv w1(1,2) by auto
    from Cons.IH [OF w1(3) ht Cons.prems(4) a1 _ this False rest] Cons.prems(6) obtain b da' where
      r: "only_last_linked api a (da\<lparr>td_next := ?b\<rparr>) kvs w1 w' b da'" by auto
    then have b: "two_linked a da' b \<lparr>td_value = snd (last kvs), td_key = fst (last kvs), td_next = NULL\<rparr> w'"
      and w': "td_value da' = td_value da" "td_key da' = td_key da" "tss_dtors w' = tss_dtors w" "tss_calls w' = tss_calls w"
        "tss_fuel w' = tss_fuel w"
      by (simp_all add: only_last_linked_def w1(1))
    from r have kept: "p \<noteq> a \<Longrightarrow> datas w1 p \<noteq> None \<Longrightarrow> datas w' p = datas w1 p" for p by (simp add: only_last_linked_def)
    from r have slots: "j \<notin> fst ` set kvs \<Longrightarrow> TlsGetValue api (tls w') j = TlsGetValue api (tls w1) j" for j
      by (simp add: only_last_linked_def)
    from r have nb: "datas w1 b = None" by (simp add: only_last_linked_def)
    have kept': "datas w' p = datas w p" if "p \<noteq> a" "datas w p \<noteq> None" for p
      using that old [of p] kept [of p] by auto
    have "b \<noteq> ?b" using nb b1 by auto
    then have mid: "datas w' (TlsGetValue api (tls w') k) \<noteq> None \<and> TlsGetValue api (tls w') k \<notin> {a, b}"
      using kept [of ?b] b1 ab slots [of k] Cons.prems(6) kv w1(1,2) by auto
    have mid': "datas w' (TlsGetValue api (tls w') j) \<noteq> None \<and> TlsGetValue api (tls w') j \<notin> {a, b}"
      if "j \<in> fst ` set (butlast (kv # kvs))" for j
      using that mid r False kv by (auto simp: only_last_linked_def)
    have slots': "TlsGetValue api (tls w') j = TlsGetValue api (tls w) j" if "j \<notin> fst ` set (kv # kvs)" for j
      using that slots [of j] w1(1,2) kv by auto
    have "b \<noteq> a" using b by (simp add: two_linked_def)
    then have "datas w b = None" using nb old [of b] by (cases "datas w b") auto
    moreover have "tss_ok api w'" using r by (simp add: only_last_linked_def)
    ultimately have "only_last_linked api a da (kv # kvs) w w' b da'"
      unfolding only_last_linked_def using b w' kept' slots' mid' False by simp
    then show ?thesis by blast
  qed
qed


text \<open>A thread that has no value for any key yet.\<close>

definition no_values :: "'s tls_api \<Rightarrow> 's tss \<Rightarrow> bool" where
  "no_values api w \<longleftrightarrow> 0 < tss_fresh w \<and> 2 < tss_fuel w \<and> tss_head w = NULL \<and> tss_tail w = NULL \<and> (\<forall>p. datas w p = None) \<and>
     (\<forall>k. TlsGetValue api (tls w) k = NULL)"

lemma set_all_from_nothing:
  assumes laws: "tls_laws api" and w: "no_values api w" and keys: "distinct (map fst kvs)" "1 < length kvs"
    and run: "set_all api kvs w = Inr ((), w1)"
  shows "\<exists>a da b. two_linked a da b \<lparr>td_value = snd (last kvs), td_key = fst (last kvs), td_next = NULL\<rparr> w1 \<and>
    td_value da = snd (hd kvs) \<and> td_key da = fst (hd kvs) \<and> tss_dtors w1 = tss_dtors w \<and> tss_calls w1 = tss_calls w \<and>
    tss_fuel w1 = tss_fuel w \<and> tss_ok api w1 \<and>
    (\<forall>k\<in>fst ` set (butlast (tl kvs)). datas w1 (TlsGetValue api (tls w1) k) \<noteq> None \<and> TlsGetValue api (tls w1) k \<notin> {a, b})"
proof -
  obtain k v rest where kvs: "kvs = (k, v) # rest" "rest \<noteq> []" using keys(2) by (cases kvs) auto
  have ok: "tss_ok api w" using w by (simp add: no_values_def tss_ok_def slots_ok_def)
  have slot: "TlsGetValue api (tls w) k = NULL" using w by (simp add: no_values_def)
  from run kvs obtain v1 where s1: "bnd (tss_set api k v) (\<lambda>st. assertM (st = thrd_success)) w = Inr ((), v1)"
    and r1: "set_all api rest v1 = Inr ((), w1)" by (auto simp: set_all_def bnd_Inr)
  from tss_set_success [OF laws ok slot s1] obtain m s where
    v1: "v1 = add_data k v m s w" "TlsGetValue api s = (TlsGetValue api (tls w))(k := tss_fresh w)" "tss_ok api v1" by blast
  let ?a = "tss_fresh w"
  have a: "tss_head v1 = ?a" "tss_tail v1 = ?a" "?a \<noteq> NULL" "datas v1 ?a = Some \<lparr>td_value = v, td_key = k, td_next = NULL\<rparr>"
    using w by (auto simp: v1(1) no_values_def add_data_datas [OF ok])
  have "distinct (map fst rest)" "\<forall>j\<in>fst ` set rest. TlsGetValue api (tls v1) j = NULL"
    using keys(1) kvs w by (auto simp: v1(1,2) no_values_def)
  from set_all_links [OF laws v1(3) a this kvs(2) r1] obtain b da' where
    "only_last_linked api ?a \<lparr>td_value = v, td_key = k, td_next = NULL\<rparr> rest v1 w1 b da'" by blast
  then show ?thesis using kvs by (intro exI [of _ ?a] exI [of _ da'] exI [of _ b]) (simp add: only_last_linked_def v1(1))
qed

text \<open>The search for the block before one that is in no list runs past the end.\<close>

lemma before_lost:
  assumes l: "two_linked a da b db w" and "datas w NULL = None" and p: "p \<noteq> b" "p \<noteq> NULL" and n: "2 < tss_fuel w"
  shows "tss_before p a w = Inl Bad_pointer"
proof -
  have n: "tss_fuel w = Suc (Suc (Suc (tss_fuel w - 3)))" using n by simp
  show ?thesis
    unfolding tss_before_def bnd_gets
    by (subst n) (use l assms(2) p in \<open>auto simp: two_linked_def bnd_def td_read_def ret_def\<close>)
qed

text \<open>Slots as an array and the next free index.\<close>

definition array_slots :: "((tss_t \<Rightarrow> addr) \<times> tss_t) tls_api" where
  "array_slots = \<lparr>
     TlsAlloc = (\<lambda>(g, n). if n = TLS_OUT_OF_INDEXES then (n, (g, n)) else (n, (g(n := NULL), n + 1))),
     TlsFree = (\<lambda>k (g, n). (g(k := NULL), n)),
     TlsGetValue = (\<lambda>(g, n) k. g k),
     TlsSetValue = (\<lambda>k v (g, n). (True, (g(k := v), n)))\<rparr>"

lemma array_slots_ok: "tls_laws array_slots"
  by (auto simp: tls_laws_def array_slots_def fun_eq_iff split: if_splits)

definition new_thread :: "((tss_t \<Rightarrow> addr) \<times> tss_t) tss" where
  "new_thread = \<lparr>tls = (\<lambda>_. NULL, 3), datas = Map.empty, tss_head = NULL, tss_tail = NULL, tss_dtors = (\<lambda>_. Some 7),
     tss_calls = [], tss_fresh = 1, tss_sched = [], tss_fuel = 5\<rparr>"

lemma new_thread_ok: "no_values array_slots new_thread" "tss_ok array_slots new_thread"
  by (simp_all add: no_values_def new_thread_def array_slots_def tss_ok_def slots_ok_def)

lemma new_thread_sets: "\<exists>w1. set_all array_slots [(0, 100), (1, 200), (2, 300)] new_thread = Inr ((), w1)"
proof -
  have "\<not> isl (set_all array_slots [(0, 100), (1, 200), (2, 300)] new_thread)" by code_simp
  then show ?thesis by (cases "set_all array_slots [(0, 100), (1, 200), (2, 300)] new_thread") auto
qed

section \<open>Properties\<close>

text \<open>\<open>tss_set\<close> always returns. When it succeeds \<open>tss_get\<close> gives the new value for the key and for every other key what it gave
  before; when it fails, for lack of memory or of a slot, all values are as before.\<close>

lemma tss_set_then_get:
  assumes "tls_laws api" and "tss_ok api w"
  shows "\<exists>st w'. tss_set api key val w = Inr (st, w') \<and> (st = thrd_success \<or> st = thrd_error) \<and>
    (st = thrd_success \<longrightarrow> tss_ok api w') \<and>
    (\<forall>k. \<exists>v. tss_get api k w = Inr (v, w) \<and>
      tss_get api k w' = Inr (if st = thrd_success \<and> k = key then val else v, w'))"
proof -
  have "thrd_error \<noteq> thrd_success" by (simp add: thrd_error_def thrd_success_def)
  then show ?thesis
    using tss_set_outcome [OF assms, of key val] tss_get_value [of api] tss_okD(1) [of api] assms(2) by fastforce
qed

text \<open>C35: A thread that sets two or more keys has only the first and the last of its values destroyed when it ends: \<open>tss_set\<close> links a new
  block behind the tail of the list but leaves the tail where it was, so that every block in between is unlinked by
  the next one. The destructors of those values are never called and their blocks are still allocated after the
  cleanup.\<close>
theorem only_first_and_last_destroyed:
  assumes "tls_laws api" and "no_values api w" and "distinct (map fst kvs)" "1 < length kvs"
    and "\<forall>(k, v)\<in>set kvs. v \<noteq> NULL \<and> unat k < 1088 \<and> tss_dtors w k = Some (f k)"
    and "set_all api kvs w = Inr ((), w1)"
  shows "\<exists>w2. tss_cleanup record_call w1 = Inr ((), w2) \<and>
    tss_calls w2 = tss_calls w @ [(f (fst (hd kvs)), snd (hd kvs)), (f (fst (last kvs)), snd (last kvs))] \<and>
    tss_head w2 = NULL \<and> (\<forall>k\<in>fst ` set (butlast (tl kvs)). datas w2 (TlsGetValue api (tls w1) k) \<noteq> None)"
proof -
  let ?db = "\<lparr>td_value = snd (last kvs), td_key = fst (last kvs), td_next = NULL\<rparr>"
  from set_all_from_nothing [OF assms(1-4,6)] obtain a da b where l: "two_linked a da b ?db w1"
    and da: "td_value da = snd (hd kvs)" "td_key da = fst (hd kvs)"
    and w1: "tss_dtors w1 = tss_dtors w" "tss_calls w1 = tss_calls w" "tss_fuel w1 = tss_fuel w"
    and mid: "\<And>k. k \<in> fst ` set (butlast (tl kvs)) \<Longrightarrow>
      datas w1 (TlsGetValue api (tls w1) k) \<noteq> None \<and> TlsGetValue api (tls w1) k \<notin> {a, b}" by blast
  have ne: "kvs \<noteq> []" using assms(4) by auto
  have p: "v \<noteq> NULL" "unat k < 1088" "tss_dtors w k = Some (f k)" if "(k, v) \<in> set kvs" for k v using assms(5) that by auto
  note h = p [of "fst (hd kvs)" "snd (hd kvs)"] and t = p [of "fst (last kvs)" "snd (last kvs)"]
  have "\<exists>w2. tss_cleanup record_call w1 = Inr ((), w2) \<and>
      tss_calls w2 = tss_calls w1 @ [(f (fst (hd kvs)), td_value da), (f (fst (last kvs)), td_value ?db)] \<and>
      datas w2 = (datas w1)(a := None, b := None) \<and> tss_head w2 = NULL \<and> tss_tail w2 = NULL"
    using assms(2) da w1 h t ne by (intro cleanup_two [OF l]) (simp_all add: no_values_def)
  then show ?thesis using mid da w1 by auto
qed

theorem only_first_and_last_destroyed_witness:
  "\<exists>w1 w2. set_all array_slots [(0, 100), (1, 200), (2, 300)] new_thread = Inr ((), w1) \<and>
     tss_cleanup record_call w1 = Inr ((), w2) \<and> tss_calls w2 = [(7, 100), (7, 300)]"
proof -
  obtain w1 where run: "set_all array_slots [(0, 100), (1, 200), (2, 300)] new_thread = Inr ((), w1)" using new_thread_sets by blast
  from only_first_and_last_destroyed [OF array_slots_ok new_thread_ok(1) _ _ _ run, of "\<lambda>_. 7"] run
  show ?thesis by (auto simp: new_thread_def)
qed

text \<open>Deleting the key of such a forgotten block crashes: \<open>tss_delete\<close> looks for the block before it in the list, in which it is
  not, and reads through NULL at the end.\<close>

lemma tss_delete_crashes:
  assumes "tls_laws api" and "no_values api w" and "distinct (map fst kvs)" "1 < length kvs"
    and "set_all api kvs w = Inr ((), w1)" and "k \<in> fst ` set (butlast (tl kvs))"
  shows "tss_delete api k w1 = Inl Bad_pointer"
proof -
  from set_all_from_nothing [OF assms(1-5)] obtain a da b db where l: "two_linked a da b db w1"
    and n: "tss_fuel w1 = tss_fuel w" and ok: "tss_ok api w1"
    and mid: "datas w1 (TlsGetValue api (tls w1) k) \<noteq> None \<and> TlsGetValue api (tls w1) k \<notin> {a, b}" using assms(6) by blast
  have null: "datas w1 NULL = None" using slots_okD(2) [OF tss_okD(1) [OF ok], of NULL] by (cases "datas w1 NULL") auto
  then have p: "TlsGetValue api (tls w1) k \<noteq> NULL" using mid by auto
  have "tss_before (TlsGetValue api (tls w1) k) a w1 = Inl Bad_pointer"
    by (rule before_lost [OF l null]) (use mid p n assms(2) in \<open>auto simp: no_values_def\<close>)
  then show ?thesis
    using l mid p by (simp add: tss_delete_def bnd_gets whenM_def) (auto simp: two_linked_def bnd_def gets_def)
qed


text \<open>Deleting the key of the block that is linked last frees it without unlinking it: the cleanup of the thread then reads a freed
  block.\<close>

lemma tss_delete_leaves_dangling:
  "(case bnd (set_all array_slots [(0, 100), (1, 200)]) (\<lambda>_.
      bnd (tss_delete array_slots 1) (\<lambda>_. tss_cleanup record_call)) new_thread of
    Inl e \<Rightarrow> e = Bad_pointer | Inr _ \<Rightarrow> False)"
  by code_simp

end
