(* ===== verification/Thread_Time.thy ===== *)
theory Thread_Time
  imports Tss "HOL-Library.Signed_Division"
begin

text \<open>
  Time in lib/tinycthread/tinycthread.c: how the functions with a deadline turn it into a span to wait, in both variants,
  \<open>thrd_sleep\<close>, the polling \<open>mtx_timedlock\<close> for systems without timed mutexes, and the creation and joining of threads. The clock, sleeping and
  the mutexes of the system are parameters. Seconds are unbounded; a \<open>DWORD\<close> of milliseconds keeps its 32 bits.
\<close>

section \<open>Points in time\<close>

record timespec =
  tv_sec :: int
  tv_nsec :: int

definition nanoseconds :: "timespec \<Rightarrow> int" where
  "nanoseconds ts = tv_sec ts * 1000000000 + tv_nsec ts"

definition normalised :: "timespec \<Rightarrow> bool" where
  "normalised ts \<longleftrightarrow> 0 \<le> tv_nsec ts \<and> tv_nsec ts < 1000000000"

text \<open>The test \<open>(cur.tv_sec > ts->tv_sec) || ((cur.tv_sec == ts->tv_sec) && (cur.tv_nsec >= ts->tv_nsec))\<close>.\<close>

definition reached :: "timespec \<Rightarrow> timespec \<Rightarrow> bool" where
  "reached ts cur \<longleftrightarrow> tv_sec ts < tv_sec cur \<or> tv_sec cur = tv_sec ts \<and> tv_nsec ts \<le> tv_nsec cur"

lemma reached_iff: "normalised ts \<Longrightarrow> normalised cur \<Longrightarrow> reached ts cur \<longleftrightarrow> nanoseconds ts \<le> nanoseconds cur"
  by (auto simp: normalised_def reached_def nanoseconds_def)

definition thrd_timedout :: int where "thrd_timedout = 2"
definition thrd_busy :: int where "thrd_busy = 3"
definition thrd_nomem :: int where "thrd_nomem = 4"

section \<open>Milliseconds for Windows\<close>

definition timedlock_timeout :: "timespec \<Rightarrow> timespec \<Rightarrow> 32 word" where
  "timedlock_timeout ts cur =
     (if reached ts cur then 0
      else word_of_int (tv_sec ts - tv_sec cur) * 1000 + word_of_int ((tv_nsec ts - tv_nsec cur) sdiv 1000000) + 1)"

text \<open>\<open>unsigned long long\<close> has 64 bits.\<close>

definition milliseconds :: "timespec \<Rightarrow> 64 word" where
  "milliseconds ts = word_of_int (tv_sec ts * 1000 + tv_nsec ts sdiv 1000000)"

definition timedwait_timeout :: "timespec \<Rightarrow> timespec \<Rightarrow> 32 word" where
  "timedwait_timeout ts now =
     (if milliseconds ts > milliseconds now then ucast (milliseconds ts - milliseconds now) else 0)"

section \<open>Polling for a mutex\<close>

text \<open>The time to sleep after a failed attempt: the rest of the time, but at most 5 ms.\<close>

definition poll_pause :: "timespec \<Rightarrow> timespec \<Rightarrow> timespec" where
  "poll_pause ts cur =
     (let sec = tv_sec ts - tv_sec cur; nsec = tv_nsec ts - tv_nsec cur;
          dur = if nsec < 0 then \<lparr>tv_sec = sec - 1, tv_nsec = nsec + 1000000000\<rparr> else \<lparr>tv_sec = sec, tv_nsec = nsec\<rparr>
      in if tv_sec dur \<noteq> 0 \<or> tv_nsec dur > 5000000 then \<lparr>tv_sec = 0, tv_nsec = 5000000\<rparr> else dur)"

text \<open>The system: an attempt to lock with its result, the clock, and sleeping.\<close>

record 's posix =
  trylock :: "'s \<Rightarrow> int \<times> 's"
  clock :: "'s \<Rightarrow> timespec \<times> 's"
  nanosleep :: "timespec \<Rightarrow> 's \<Rightarrow> 's"

definition EBUSY :: int where "EBUSY = 16"
definition ETIMEDOUT :: int where "ETIMEDOUT = 110"

definition poll_once :: "'s posix \<Rightarrow> timespec \<Rightarrow> unit \<Rightarrow> ('s, unit + int) M" where
  "poll_once sys ts = (\<lambda>_ s.
     (let (rc, s) = trylock sys s in
      if rc \<noteq> EBUSY then Inr (Inr rc, s) else
      let (cur, s) = clock sys s in
      if reached ts cur then Inr (Inr rc, s)
      else Inr (Inl (), nanosleep sys (poll_pause ts cur) s)))"

definition mtx_timedlock :: "nat \<Rightarrow> 's posix \<Rightarrow> timespec \<Rightarrow> ('s, int) M" where
  "mtx_timedlock n sys ts =
     bnd (loopM n (poll_once sys ts) ()) (\<lambda>rc.
     ret (if rc = 0 then thrd_success else if rc = ETIMEDOUT \<or> rc = EBUSY then thrd_timedout else thrd_error))"

section \<open>Sleeping\<close>

text \<open>\<open>SleepEx\<close> in milliseconds, rounded up.\<close>

definition sleep_milliseconds :: "timespec \<Rightarrow> 32 word" where
  "sleep_milliseconds duration =
     word_of_int (tv_sec duration * 1000 + tv_nsec duration sdiv 1000000 + (if tv_nsec duration smod 1000000 = 0 then 0 else 1))"

definition WAIT_IO_COMPLETION :: "32 word" where "WAIT_IO_COMPLETION = 192"

text \<open>\<open>start\<close> and \<open>now\<close> are the two readings of the clock, \<open>t\<close> the result of \<open>SleepEx\<close>; the second result is what is stored through
  \<open>remaining\<close>, if it is written.\<close>

definition thrd_sleep :: "32 word \<Rightarrow> timespec \<Rightarrow> timespec \<Rightarrow> int \<times> timespec option" where
  "thrd_sleep t start now =
     (if t = 0 then (0, None) else
      let sec = tv_sec now - tv_sec start; nsec = tv_nsec now - tv_nsec start;
          rest = if nsec < 0 then \<lparr>tv_sec = sec - 1, tv_nsec = nsec + 1000000000\<rparr> else \<lparr>tv_sec = sec, tv_nsec = nsec\<rparr>
      in (if t = WAIT_IO_COMPLETION then - 1 else - 2, Some rest))"

text \<open>The clock of Windows has milliseconds.\<close>

definition TIME_UTC :: int where "TIME_UTC = 1"

definition timespec_get :: "int \<times> int \<Rightarrow> int \<Rightarrow> int \<times> timespec option" where
  "timespec_get tb base =
     (if base \<noteq> TIME_UTC then (0, None) else (base, Some \<lparr>tv_sec = fst tb, tv_nsec = 1000000 * snd tb\<rparr>))"

section \<open>Threads\<close>

text \<open>The information handed to a new thread is allocated by its creator and freed by the thread, or by the creator if the
  system makes no thread. \<open>create\<close> is what the system gives for the new thread, 0 if it makes none.\<close>

record thread_start =
  mFunction :: nat
  mArg :: addr

record start_mem =
  infos :: "addr \<Rightarrow> thread_start option"
  info_fresh :: addr
  info_sched :: mem_schedule

definition sizeof_thread_start :: int where "sizeof_thread_start = 16"

definition thrd_create :: "(addr \<Rightarrow> addr) \<Rightarrow> nat \<Rightarrow> addr \<Rightarrow> (start_mem, int \<times> addr option) M" where
  "thrd_create create func arg =
     bnd (zoom info_sched (\<lambda>m w. w\<lparr>info_sched := m\<rparr>) draw_block) (\<lambda>ok.
     if \<not> ok then ret (thrd_nomem, None) else
     bnd (gets info_fresh) (\<lambda>ti.
     bnd (modify (\<lambda>w. w\<lparr>infos := (infos w)(ti \<mapsto> \<lparr>mFunction = func, mArg = arg\<rparr>), info_fresh := ti + sizeof_thread_start\<rparr>)) (\<lambda>_.
     let thr = create ti in
     if thr = NULL then bnd (modify (\<lambda>w. w\<lparr>infos := (infos w)(ti := None)\<rparr>)) (\<lambda>_. ret (thrd_error, Some thr))
     else ret (thrd_success, Some thr))))"

text \<open>The start of the wrapper function in the new thread.\<close>

definition thrd_begin :: "addr \<Rightarrow> (start_mem, nat \<times> addr) M" where
  "thrd_begin ti w =
     (case infos w ti of
        None \<Rightarrow> Inl Bad_pointer
      | Some i \<Rightarrow> Inr ((mFunction i, mArg i), w\<lparr>infos := (infos w)(ti := None)\<rparr>))"

text \<open>\<open>thrd_join\<close>: the results of waiting and of reading the exit code are the system's.\<close>

definition thrd_join :: "bool \<Rightarrow> 32 word option \<Rightarrow> bool \<Rightarrow> int \<times> int option" where
  "thrd_join wait_failed code with_res =
     (if wait_failed then (thrd_error, None)
      else if with_res then (case code of None \<Rightarrow> (thrd_error, None) | Some c \<Rightarrow> (thrd_success, Some (sint c)))
      else (thrd_success, None))"

text \<open>\<open>thrd_detach\<close> closes the handle of the thread.\<close>

definition thrd_detach_win :: "int \<Rightarrow> int" where
  "thrd_detach_win closed = (if closed \<noteq> 0 then thrd_success else thrd_error)"

section \<open>How long to wait\<close>

lemma sdiv_million:
  fixes n :: int
  shows "n \<le> (n sdiv 1000000) * 1000000 + 999999" "(n sdiv 1000000) * 1000000 \<le> n + 999999"
    "n \<le> 0 \<Longrightarrow> n \<le> (n sdiv 1000000) * 1000000" "0 \<le> n \<Longrightarrow> (n sdiv 1000000) * 1000000 \<le> n"
proof -
  have q: "n sdiv 1000000 = (if 0 \<le> n then n div 1000000 else - ((- n) div 1000000))"
    by (simp add: signed_divide_int_def sgn_if)
  have "m div 1000000 * 1000000 \<le> m \<and> m \<le> m div 1000000 * 1000000 + 999999" for m :: int
    using div_mult_mod_eq [of m 1000000] pos_mod_bound [of 1000000 m] pos_mod_sign [of 1000000 m] by linarith
  from this [of n] this [of "- n"] q
  show "n \<le> (n sdiv 1000000) * 1000000 + 999999" "(n sdiv 1000000) * 1000000 \<le> n + 999999"
    "n \<le> 0 \<Longrightarrow> n \<le> (n sdiv 1000000) * 1000000" "0 \<le> n \<Longrightarrow> (n sdiv 1000000) * 1000000 \<le> n"
    by (auto split: if_splits)
qed

lemma poll_pause_bounds:
  assumes "normalised ts" and "normalised cur" and "\<not> reached ts cur"
  shows "normalised (poll_pause ts cur)" "tv_sec (poll_pause ts cur) = 0" "0 < nanoseconds (poll_pause ts cur)"
    "nanoseconds (poll_pause ts cur) = min 5000000 (nanoseconds ts - nanoseconds cur)"
proof -
  have r: "nanoseconds cur < nanoseconds ts" using assms reached_iff [OF assms(1,2)] by simp
  show p: "nanoseconds (poll_pause ts cur) = min 5000000 (nanoseconds ts - nanoseconds cur)"
    using assms by (auto simp: poll_pause_def nanoseconds_def normalised_def reached_def Let_def min_def)
  then show "0 < nanoseconds (poll_pause ts cur)" using r by simp
  show "normalised (poll_pause ts cur)" "tv_sec (poll_pause ts cur) = 0"
    using assms by (auto simp: poll_pause_def normalised_def Let_def)
qed

text \<open>The clock of the system runs on: \<open>now\<close> is the time in nanoseconds.\<close>

definition clock_runs :: "'s posix \<Rightarrow> ('s \<Rightarrow> int) \<Rightarrow> bool" where
  "clock_runs sys now \<longleftrightarrow>
     (\<forall>s. now s \<le> now (snd (trylock sys s)) \<and> fst (trylock sys s) \<noteq> ETIMEDOUT) \<and>
     (\<forall>s. normalised (fst (clock sys s)) \<and> nanoseconds (fst (clock sys s)) = now s \<and> now (snd (clock sys s)) = now s) \<and>
     (\<forall>d s. now s + nanoseconds d \<le> now (nanosleep sys d s))"

lemma clock_runsD:
  assumes "clock_runs sys now"
  shows "now s \<le> now (snd (trylock sys s))" "fst (trylock sys s) \<noteq> ETIMEDOUT" "normalised (fst (clock sys s))"
    "nanoseconds (fst (clock sys s)) = now s" "now (snd (clock sys s)) = now s" "now s + nanoseconds d \<le> now (nanosleep sys d s)"
  using assms by (simp_all add: clock_runs_def)

lemma poll_progress:
  assumes sys: "clock_runs sys now" and ts: "normalised ts"
  shows "\<exists>r s'. poll_once sys ts u s = Inr (r, s') \<and>
    (case r of Inl _ \<Rightarrow> now s < nanoseconds ts \<and> min (now s + 5000000) (nanoseconds ts) \<le> now s'
     | Inr rc \<Rightarrow> rc \<noteq> ETIMEDOUT \<and> (rc = EBUSY \<longrightarrow> nanoseconds ts \<le> now s'))"
proof -
  obtain rc s1 where t: "trylock sys s = (rc, s1)" by fastforce
  obtain cur s2 where c: "clock sys s1 = (cur, s2)" by fastforce
  have f: "now s \<le> now s1" "rc \<noteq> ETIMEDOUT" "normalised cur" "nanoseconds cur = now s1" "now s2 = now s1"
    using clock_runsD(1,2) [OF sys, of s] clock_runsD(3-5) [OF sys, of s1] t c by simp_all
  show ?thesis
  proof (cases "rc = EBUSY \<and> \<not> reached ts cur")
    case True
    let ?s3 = "nanosleep sys (poll_pause ts cur) s2"
    have "now s2 + nanoseconds (poll_pause ts cur) \<le> now ?s3" by (rule clock_runsD(6) [OF sys])
    then have "min (now s1 + 5000000) (nanoseconds ts) \<le> now ?s3"
      using poll_pause_bounds(4) [OF ts f(3)] True f(4,5) by (simp add: min_def split: if_splits)
    moreover have "now s1 < nanoseconds ts" using True reached_iff [OF ts f(3)] f(4) by simp
    ultimately show ?thesis using True t c f(1) by (simp add: poll_once_def min_def split: if_splits)
  next
    case False
    then show ?thesis using t c f reached_iff [OF ts f(3)] by (auto simp: poll_once_def)
  qed
qed

text \<open>\<open>mtx_timedlock\<close> by polling: it always returns, after one attempt for every 5 ms at most, and says that it has timed out only when
  the time has come.\<close>

lemma timedlock_polls_until_deadline:
  assumes sys: "clock_runs sys now" and ts: "normalised ts" and n: "nat ((nanoseconds ts - now s) div 5000000) + 2 < n"
  shows "\<exists>st s'. mtx_timedlock n sys ts s = Inr (st, s') \<and> st \<in> {thrd_success, thrd_timedout, thrd_error} \<and>
    (st = thrd_timedout \<longrightarrow> nanoseconds ts \<le> now s')"
proof -
  define left where "left = (\<lambda>s. if now s < nanoseconds ts then nat ((nanoseconds ts - now s) div 5000000) + 2 else 1)"
  have "\<exists>rc s'. loopM n (poll_once sys ts) () s = Inr (rc, s') \<and> rc \<noteq> ETIMEDOUT \<and> (rc = EBUSY \<longrightarrow> nanoseconds ts \<le> now s')"
  proof (rule loopM_ends [where I = "\<lambda>_ _. True" and \<mu> = "\<lambda>_. left"])
    fix u :: unit and s
    from poll_progress [OF sys ts] obtain r s' where p: "poll_once sys ts u s = Inr (r, s')"
      "case r of Inl _ \<Rightarrow> now s < nanoseconds ts \<and> min (now s + 5000000) (nanoseconds ts) \<le> now s'
       | Inr rc \<Rightarrow> rc \<noteq> ETIMEDOUT \<and> (rc = EBUSY \<longrightarrow> nanoseconds ts \<le> now s')" by blast
    have "left s' < left s" if "now s < nanoseconds ts" "min (now s + 5000000) (nanoseconds ts) \<le> now s'"
    proof (cases "now s' < nanoseconds ts")
      case True
      then have "nanoseconds ts - now s' \<le> nanoseconds ts - now s - 5000000" using that by (simp add: min_def split: if_splits)
      then have "(nanoseconds ts - now s') div 5000000 \<le> (nanoseconds ts - now s - 5000000) div 5000000"
        by (rule zdiv_mono1) simp
      also have "\<dots> = (nanoseconds ts - now s) div 5000000 - 1" by simp
      finally show ?thesis using True that(1) by (simp add: left_def)
    next
      case False
      then show ?thesis using that(1) by (simp add: left_def)
    qed
    then show "\<exists>y s1. poll_once sys ts u s = Inr (y, s1) \<and> (case y of
        Inl z \<Rightarrow> True \<and> left s1 < left s | Inr r \<Rightarrow> r \<noteq> ETIMEDOUT \<and> (r = EBUSY \<longrightarrow> nanoseconds ts \<le> now s1))"
      using p by (cases r) auto
  qed (use n in \<open>auto simp: left_def\<close>)
  then obtain rc s' where "loopM n (poll_once sys ts) () s = Inr (rc, s')" "rc \<noteq> ETIMEDOUT" "rc = EBUSY \<longrightarrow> nanoseconds ts \<le> now s'"
    by blast
  then show ?thesis
    by (auto simp: mtx_timedlock_def bnd_def ret_def thrd_timedout_def thrd_success_def thrd_error_def)
qed


lemma timedlock_timeout_word:
  assumes "\<not> reached ts cur"
  shows "timedlock_timeout ts cur =
    word_of_int ((tv_sec ts - tv_sec cur) * 1000 + (tv_nsec ts - tv_nsec cur) sdiv 1000000 + 1)"
  using assms by (simp add: timedlock_timeout_def)

lemma timedlock_span:
  assumes "normalised ts" and "normalised cur"
  defines "x \<equiv> (tv_sec ts - tv_sec cur) * 1000 + (tv_nsec ts - tv_nsec cur) sdiv 1000000 + 1"
  shows "nanoseconds ts - nanoseconds cur \<le> x * 1000000" "x * 1000000 \<le> nanoseconds ts - nanoseconds cur + 2000000"
proof -
  note s = sdiv_million(1,2) [of "tv_nsec ts - tv_nsec cur"]
  show "nanoseconds ts - nanoseconds cur \<le> x * 1000000" using s unfolding x_def nanoseconds_def by (simp add: ring_distribs)
  show "x * 1000000 \<le> nanoseconds ts - nanoseconds cur + 2000000" using s unfolding x_def nanoseconds_def by (simp add: ring_distribs)
qed

text \<open>\<open>cnd_timedwait\<close> rounds both times down to milliseconds: it can give up while up to a millisecond of the time is left.\<close>

lemma timedwait_gives_up_early:
  "\<exists>ts now. normalised ts \<and> normalised now \<and> nanoseconds ts - nanoseconds now = 999999 \<and> timedwait_timeout ts now = 0"
  by (rule exI [of _ "\<lparr>tv_sec = 5, tv_nsec = 999999\<rparr>"], rule exI [of _ "\<lparr>tv_sec = 5, tv_nsec = 0\<rparr>"])
    (simp add: normalised_def nanoseconds_def timedwait_timeout_def milliseconds_def signed_divide_int_def sgn_if)

text \<open>An interrupted \<open>thrd_sleep\<close> stores the time that has passed, not the time that is left.\<close>

lemma thrd_sleep_reports_elapsed:
  assumes "t \<noteq> 0" and "normalised start" and "normalised now"
  shows "\<exists>st r. thrd_sleep t start now = (st, Some r) \<and> st < 0 \<and> normalised r \<and> nanoseconds r = nanoseconds now - nanoseconds start"
  using assms by (auto simp: thrd_sleep_def Let_def normalised_def nanoseconds_def)

text \<open>Whatever happens, the start information of a thread is either freed or in the hands of the new thread, which finds in it what
  its creator wrote and frees it.\<close>

lemma thrd_create_hands_over:
  assumes "infos w (info_fresh w) = None"
  shows "\<exists>st thr w'. thrd_create create func arg w = Inr ((st, thr), w') \<and>
    (st = thrd_success \<longrightarrow> (\<exists>w''. thrd_begin (info_fresh w) w' = Inr ((func, arg), w'') \<and> infos w'' = infos w)) \<and>
    (st \<noteq> thrd_success \<longrightarrow> infos w' = infos w)"
proof -
  obtain b m where d: "draw (info_sched w) = (b, m)" by fastforce
  have n: "thrd_error \<noteq> thrd_success" "thrd_nomem \<noteq> thrd_success" by (simp_all add: thrd_error_def thrd_success_def thrd_nomem_def)
  have i: "(infos w)(info_fresh w := None) = infos w" using assms by auto
  show ?thesis
    by (cases b; cases "create (info_fresh w) = NULL")
      (use d n i in \<open>simp_all add: thrd_create_def zoom_def draw_block_def bnd_def gets_def modify_def ret_def thrd_begin_def\<close>)
qed

section \<open>Properties\<close>

text \<open>C34: The number of milliseconds that \<open>mtx_timedlock\<close> passes to Windows is never too short: as long as it fits into a \<open>DWORD\<close> (49 days)
  the wait lasts at least until the given time, and at most two milliseconds longer.\<close>

theorem timedlock_waits_long_enough:
  assumes "normalised ts" and "normalised cur" and "\<not> reached ts cur"
    and "nanoseconds ts - nanoseconds cur \<le> (2 ^ 32 - 3) * 1000000"
  shows "nanoseconds ts - nanoseconds cur \<le> uint (timedlock_timeout ts cur) * 1000000 \<and>
    uint (timedlock_timeout ts cur) * 1000000 \<le> nanoseconds ts - nanoseconds cur + 2000000"
proof -
  define x where "x = (tv_sec ts - tv_sec cur) * 1000 + (tv_nsec ts - tv_nsec cur) sdiv 1000000 + 1"
  note x = timedlock_span [OF assms(1,2), folded x_def]
  have "0 < nanoseconds ts - nanoseconds cur" using assms(3) reached_iff [OF assms(1,2)] by simp
  then have "0 \<le> x" using x(1) by linarith
  moreover have "x < 2 ^ 32" using x(2) assms(4) by simp
  ultimately have "uint (timedlock_timeout ts cur) = x"
    unfolding timedlock_timeout_word [OF assms(3), folded x_def] by (simp add: uint_word_of_int take_bit_int_eq_self)
  then show ?thesis using x by simp
qed

theorem timedlock_waits_long_enough_witness:
  "uint (timedlock_timeout \<lparr>tv_sec = 7, tv_nsec = 1\<rparr> \<lparr>tv_sec = 5, tv_nsec = 999999999\<rparr>) * 1000000 \<ge> 1000000002"
  using timedlock_waits_long_enough [of "\<lparr>tv_sec = 7, tv_nsec = 1\<rparr>" "\<lparr>tv_sec = 5, tv_nsec = 999999999\<rparr>"]
  by (simp add: normalised_def reached_def nanoseconds_def)

end
