(* ===== verification/Win_Sync.thy ===== *)
theory Win_Sync
  imports Call_Once Thread_Time
begin

text \<open>
  Mutexes and condition variables of lib/tinycthread/tinycthread.c in the variant for Windows. A mutex is a critical section, or, if
  it is timed, a mutex object of the system, with a flag in front that makes it non-recursive; a condition variable is a
  number of waiters and two events. The objects of the system are the parameter \<open>'c win_api\<close>.
\<close>

section \<open>Mutexes\<close>

record 'c win_api = "'c cs_api" +
  cs_try :: "nat \<Rightarrow> 'c \<Rightarrow> 'c option"
  create_mutex :: "'c option"
  wait_mutex :: "nat \<Rightarrow> 32 word \<Rightarrow> 'c \<Rightarrow> (32 word \<times> 'c) option"
  release_mutex :: "nat \<Rightarrow> 'c \<Rightarrow> bool \<times> 'c"

definition WAIT_OBJECT_0 :: "32 word" where "WAIT_OBJECT_0 = 0"
definition WAIT_TIMEOUT :: "32 word" where "WAIT_TIMEOUT = 258"
definition WAIT_FAILED :: "32 word" where "WAIT_FAILED = - 1"
definition INFINITE :: "32 word" where "INFINITE = - 1"

definition mtx_timed :: "32 word" where "mtx_timed = 1"
definition mtx_recursive :: "32 word" where "mtx_recursive = 2"

text \<open>The union of the handles, and which of its members is in use.\<close>

datatype 'c mtx_handle = Section 'c | Mutex_object 'c | Null_handle

record 'c mtx_t =
  mHandle :: "'c mtx_handle"
  mAlreadyLocked :: bool
  mRecursive :: bool
  mTimed :: bool

type_synonym ('c, 'a) X = "('c mtx_t, 'a) M"

definition mtx_init :: "'c win_api \<Rightarrow> 32 word \<Rightarrow> ('c, int) X" where
  "mtx_init api type m =
     (let m = m\<lparr>mAlreadyLocked := False, mRecursive := type AND mtx_recursive \<noteq> 0, mTimed := type AND mtx_timed \<noteq> 0\<rparr> in
      if \<not> mTimed m then Inr (thrd_success, m\<lparr>mHandle := Section (cs_new api)\<rparr>)
      else (case create_mutex api of
              None \<Rightarrow> Inr (thrd_error, m\<lparr>mHandle := Null_handle\<rparr>)
            | Some c \<Rightarrow> Inr (thrd_success, m\<lparr>mHandle := Mutex_object c\<rparr>)))"

text \<open>Closing what \<open>mtx_init\<close> has opened; the handle is unusable afterwards.\<close>

definition mtx_destroy_win :: "('c, unit) X" where
  "mtx_destroy_win =
     bnd (gets mTimed) (\<lambda>timed. bnd (gets mHandle) (\<lambda>h.
     case h of
       Section c \<Rightarrow> if timed then fail Undefined_behaviour else modify (\<lambda>m. m\<lparr>mHandle := Null_handle\<rparr>)
     | _ \<Rightarrow> if timed then modify (\<lambda>m. m\<lparr>mHandle := Null_handle\<rparr>) else fail Undefined_behaviour))"

text \<open>Calls of the system; to use the other member of the union is undefined. \<open>None\<close> is a call that does not return now.\<close>

definition on_section :: "('c \<Rightarrow> 'c option) \<Rightarrow> ('c, unit) X" where
  "on_section f m =
     (case mHandle m of
        Section c \<Rightarrow> (case f c of None \<Rightarrow> Inl Would_block | Some d \<Rightarrow> Inr ((), m\<lparr>mHandle := Section d\<rparr>))
      | _ \<Rightarrow> Inl Undefined_behaviour)"

definition try_section :: "('c \<Rightarrow> 'c option) \<Rightarrow> ('c, bool) X" where
  "try_section f m =
     (case mHandle m of
        Section c \<Rightarrow> (case f c of None \<Rightarrow> Inr (False, m) | Some d \<Rightarrow> Inr (True, m\<lparr>mHandle := Section d\<rparr>))
      | _ \<Rightarrow> Inl Undefined_behaviour)"

definition on_object :: "('c \<Rightarrow> ('r \<times> 'c) option) \<Rightarrow> ('c, 'r) X" where
  "on_object f m =
     (case mHandle m of
        Mutex_object c \<Rightarrow> (case f c of None \<Rightarrow> Inl Would_block | Some (r, d) \<Rightarrow> Inr (r, m\<lparr>mHandle := Mutex_object d\<rparr>))
      | _ \<Rightarrow> Inl Undefined_behaviour)"

text \<open>\<open>while (mtx->mAlreadyLocked) Sleep(1); mtx->mAlreadyLocked = TRUE\<close>.\<close>

definition mark_locked :: "('c, unit) X" where
  "mark_locked =
     bnd (gets mRecursive) (\<lambda>r. whenM (\<not> r)
       (bnd (gets mAlreadyLocked) (\<lambda>l. if l then fail Would_block else modify (\<lambda>m. m\<lparr>mAlreadyLocked := True\<rparr>))))"

definition mtx_lock_win :: "'c win_api \<Rightarrow> nat \<Rightarrow> ('c, int) X" where
  "mtx_lock_win api t =
     bnd (gets mTimed) (\<lambda>timed.
     bnd (if \<not> timed then bnd (on_section (cs_enter api t)) (\<lambda>_. ret WAIT_OBJECT_0)
          else on_object (wait_mutex api t INFINITE)) (\<lambda>r.
     if r \<noteq> WAIT_OBJECT_0 then ret thrd_error else bnd mark_locked (\<lambda>_. ret thrd_success)))"

definition mtx_timedlock_win :: "'c win_api \<Rightarrow> nat \<Rightarrow> timespec \<Rightarrow> timespec \<Rightarrow> ('c, int) X" where
  "mtx_timedlock_win api t current_ts ts =
     bnd (gets mTimed) (\<lambda>timed.
     if \<not> timed then ret thrd_error else
     bnd (on_object (wait_mutex api t (timedlock_timeout ts current_ts))) (\<lambda>r.
     if r = WAIT_TIMEOUT then ret thrd_timedout else
     if r \<noteq> WAIT_OBJECT_0 then ret thrd_error else bnd mark_locked (\<lambda>_. ret thrd_success)))"

definition mtx_trylock :: "'c win_api \<Rightarrow> nat \<Rightarrow> ('c, int) X" where
  "mtx_trylock api t =
     bnd (gets mTimed) (\<lambda>timed.
     bnd (if \<not> timed then try_section (cs_try api t)
          else bnd (on_object (wait_mutex api t 0)) (\<lambda>r. ret (r = WAIT_OBJECT_0))) (\<lambda>got.
     bnd (gets mRecursive) (\<lambda>recursive.
     if \<not> recursive \<and> got then
       bnd (gets mAlreadyLocked) (\<lambda>locked.
       if locked then bnd (on_section (\<lambda>c. Some (cs_leave api t c))) (\<lambda>_. ret thrd_busy)
       else bnd (modify (\<lambda>m. m\<lparr>mAlreadyLocked := True\<rparr>)) (\<lambda>_. ret thrd_success))
     else ret (if got then thrd_success else thrd_busy))))"

definition mtx_unlock_win :: "'c win_api \<Rightarrow> nat \<Rightarrow> ('c, int) X" where
  "mtx_unlock_win api t =
     bnd (modify (\<lambda>m. m\<lparr>mAlreadyLocked := False\<rparr>)) (\<lambda>_.
     bnd (gets mTimed) (\<lambda>timed.
     if \<not> timed then bnd (on_section (\<lambda>c. Some (cs_leave api t c))) (\<lambda>_. ret thrd_success)
     else bnd (on_object (\<lambda>c. Some (release_mutex api t c))) (\<lambda>ok. ret (if ok then thrd_success else thrd_error))))"

text \<open>\<open>mtx_init\<close> and \<open>mtx_destroy\<close> agree on the member of the union, also when the mutex object could not be made.\<close>

lemma mtx_init_then_destroy:
  "\<exists>st m' m''. mtx_init api type m = Inr (st, m') \<and> mtx_destroy_win m' = Inr ((), m'') \<and> mHandle m'' = Null_handle"
  by (cases "type AND mtx_timed = 0"; cases "create_mutex api")
    (simp_all add: mtx_init_def mtx_destroy_win_def bnd_def gets_def modify_def)

section \<open>Condition variables\<close>

text \<open>The calls of the system that a condition variable makes are recorded. An event that could not be created is no handle.\<close>

datatype os_call = Set_one | Set_all | Reset_all | Unlock_mutex | Lock_mutex | Close_one | Close_all

record cnd_t =
  mWaitersCount :: "32 word"
  event_one :: bool
  event_all :: bool
  os_calls :: "os_call list"

definition os_call :: "os_call \<Rightarrow> (cnd_t, unit) M" where
  "os_call x = modify (\<lambda>c. c\<lparr>os_calls := os_calls c @ [x]\<rparr>)"

definition cnd_init :: "bool \<Rightarrow> bool \<Rightarrow> (cnd_t, int) M" where
  "cnd_init one_made all_made =
     bnd (modify (\<lambda>c. c\<lparr>mWaitersCount := 0, event_one := one_made\<rparr>)) (\<lambda>_.
     if \<not> one_made then bnd (modify (\<lambda>c. c\<lparr>event_all := False\<rparr>)) (\<lambda>_. ret thrd_error) else
     bnd (modify (\<lambda>c. c\<lparr>event_all := all_made\<rparr>)) (\<lambda>_.
     if \<not> all_made then bnd (os_call Close_one) (\<lambda>_. bnd (modify (\<lambda>c. c\<lparr>event_one := False\<rparr>)) (\<lambda>_. ret thrd_error))
     else ret thrd_success))"

definition cnd_destroy :: "(cnd_t, unit) M" where
  "cnd_destroy =
     bnd (gets event_one) (\<lambda>one. bnd (whenM one (os_call Close_one)) (\<lambda>_.
     bnd (gets event_all) (\<lambda>all. whenM all (os_call Close_all))))"

definition cnd_signal :: "bool \<Rightarrow> (cnd_t, int) M" where
  "cnd_signal set_ok =
     bnd (gets mWaitersCount) (\<lambda>n.
     if n > 0 then bnd (os_call Set_one) (\<lambda>_. ret (if set_ok then thrd_success else thrd_error)) else ret thrd_success)"

definition cnd_broadcast :: "bool \<Rightarrow> (cnd_t, int) M" where
  "cnd_broadcast set_ok =
     bnd (gets mWaitersCount) (\<lambda>n.
     if n > 0 then bnd (os_call Set_all) (\<lambda>_. ret (if set_ok then thrd_success else thrd_error)) else ret thrd_success)"

text \<open>\<open>_cnd_timedwait_win32\<close> up to \<open>WaitForMultipleObjects\<close> and from its result on.\<close>

definition wait_begin :: "(cnd_t, unit) M" where
  "wait_begin = block [modify (\<lambda>c. c\<lparr>mWaitersCount := mWaitersCount c + 1\<rparr>), os_call Unlock_mutex]"

definition wait_end :: "32 word \<Rightarrow> bool \<Rightarrow> (cnd_t, int) M" where
  "wait_end result reset_ok =
     (if result = WAIT_TIMEOUT then bnd (os_call Lock_mutex) (\<lambda>_. ret thrd_timedout)
      else if result = WAIT_FAILED then bnd (os_call Lock_mutex) (\<lambda>_. ret thrd_error)
      else
        bnd (modify (\<lambda>c. c\<lparr>mWaitersCount := mWaitersCount c - 1\<rparr>)) (\<lambda>_.
        bnd (gets mWaitersCount) (\<lambda>n.
        let lastWaiter = result = WAIT_OBJECT_0 + 1 \<and> n = 0 in
        bnd (whenM lastWaiter (os_call Reset_all)) (\<lambda>_.
        bnd (os_call Lock_mutex) (\<lambda>_.
        ret (if lastWaiter \<and> \<not> reset_ok then thrd_error else thrd_success))))))"

definition cnd_timedwait_win32 :: "32 word \<Rightarrow> bool \<Rightarrow> (cnd_t, int) M" where
  "cnd_timedwait_win32 result reset_ok = bnd wait_begin (\<lambda>_. wait_end result reset_ok)"

text \<open>\<open>wait\<close> is what \<open>WaitForMultipleObjects\<close> gives for a time to wait, \<open>now\<close> the reading of the clock, if there is one.\<close>

definition cnd_wait :: "(32 word \<Rightarrow> 32 word) \<Rightarrow> bool \<Rightarrow> (cnd_t, int) M" where
  "cnd_wait wait reset_ok = cnd_timedwait_win32 (wait INFINITE) reset_ok"

definition cnd_timedwait :: "(32 word \<Rightarrow> 32 word) \<Rightarrow> timespec option \<Rightarrow> timespec \<Rightarrow> bool \<Rightarrow> (cnd_t, int) M" where
  "cnd_timedwait wait now ts reset_ok =
     (case now of
        Some n \<Rightarrow> cnd_timedwait_win32 (wait (timedwait_timeout ts n)) reset_ok
      | None \<Rightarrow> ret thrd_error)"

section \<open>What a mutex does\<close>

text \<open>The system: critical sections, also for a thread that only tries.\<close>

definition win_laws :: "'c win_api \<Rightarrow> ('c \<Rightarrow> (nat \<times> nat) option) \<Rightarrow> bool" where
  "win_laws api held \<longleftrightarrow> critical_sections api held \<and> (\<forall>t c. cs_try api t c = cs_enter api t c)"

lemma win_lawsD:
  assumes "win_laws api held"
  shows "critical_sections api held" "cs_try api t c = cs_enter api t c"
  using assms by (simp_all add: win_laws_def)

text \<open>A plain mutex that nobody holds, and one that \<open>t\<close> has locked.\<close>

definition free_mutex :: "('c \<Rightarrow> (nat \<times> nat) option) \<Rightarrow> 'c mtx_t \<Rightarrow> bool" where
  "free_mutex held m \<longleftrightarrow> \<not> mTimed m \<and> \<not> mRecursive m \<and> \<not> mAlreadyLocked m \<and> (\<exists>c. mHandle m = Section c \<and> held c = None)"

definition locked_mutex :: "('c \<Rightarrow> (nat \<times> nat) option) \<Rightarrow> nat \<Rightarrow> 'c mtx_t \<Rightarrow> bool" where
  "locked_mutex held t m \<longleftrightarrow>
     \<not> mTimed m \<and> \<not> mRecursive m \<and> mAlreadyLocked m \<and> (\<exists>c. mHandle m = Section c \<and> held c = Some (t, 1))"

lemmas mtx_defs = on_section_def try_section_def mark_locked_def monad_defs

lemma mtx_init_free: "win_laws api held \<Longrightarrow> \<exists>m'. mtx_init api 0 m = Inr (thrd_success, m') \<and> free_mutex held m'"
  using critical_sectionsD(1) [of api held] by (simp add: win_laws_def mtx_init_def free_mutex_def)

lemma mtx_lock_free:
  assumes "win_laws api held" and "free_mutex held m"
  shows "\<exists>m'. mtx_lock_win api t m = Inr (thrd_success, m') \<and> locked_mutex held t m'"
proof -
  obtain c where c: "mHandle m = Section c" "held c = None" using assms(2) by (auto simp: free_mutex_def)
  obtain d where "cs_enter api t c = Some d" "held d = Some (t, 1)" using critical_sectionsD(2) [OF win_lawsD(1) [OF assms(1)] c(2)] by blast
  then show ?thesis using c assms(2) by (simp add: mtx_lock_win_def mtx_defs free_mutex_def locked_mutex_def WAIT_OBJECT_0_def)
qed

lemma mtx_lock_held:
  assumes "win_laws api held" and "locked_mutex held t m"
  shows "mtx_lock_win api u m = Inl Would_block"
proof -
  obtain c where c: "mHandle m = Section c" "held c = Some (t, 1)" using assms(2) by (auto simp: locked_mutex_def)
  show ?thesis
  proof (cases "u = t")
    case True
    then obtain d where "cs_enter api u c = Some d" using critical_sectionsD(5) [OF win_lawsD(1) [OF assms(1)] c(2)] by blast
    then show ?thesis using c assms(2) by (simp add: mtx_lock_win_def mtx_defs locked_mutex_def WAIT_OBJECT_0_def)
  next
    case False
    then show ?thesis
      using c critical_sectionsD(3) [OF win_lawsD(1) [OF assms(1)] c(2), of u] assms(2) by (simp add: mtx_lock_win_def mtx_defs locked_mutex_def)
  qed
qed

lemma mtx_trylock_held:
  assumes "win_laws api held" and "locked_mutex held t m"
  shows "\<exists>m'. mtx_trylock api u m = Inr (thrd_busy, m') \<and> locked_mutex held t m'"
proof -
  obtain c where c: "mHandle m = Section c" "held c = Some (t, 1)" using assms(2) by (auto simp: locked_mutex_def)
  show ?thesis
  proof (cases "u = t")
    case True
    then obtain d where d: "cs_enter api u c = Some d" "held d = Some (t, Suc 1)" using critical_sectionsD(5) [OF win_lawsD(1) [OF assms(1)] c(2)] by blast
    then have "held (cs_leave api u d) = Some (t, 1)" using critical_sectionsD(6) [OF win_lawsD(1) [OF assms(1)] d(2)] True by simp
    then show ?thesis
      using c d assms(2) win_lawsD(2) [OF assms(1)] by (simp add: mtx_trylock_def mtx_defs locked_mutex_def)
  next
    case False
    then show ?thesis
      using c critical_sectionsD(3) [OF win_lawsD(1) [OF assms(1)] c(2), of u] win_lawsD(2) [OF assms(1)] assms(2)
      by (simp add: mtx_trylock_def mtx_defs locked_mutex_def)
  qed
qed

lemma mtx_unlock_held:
  assumes "win_laws api held" and "locked_mutex held t m"
  shows "\<exists>m'. mtx_unlock_win api t m = Inr (thrd_success, m') \<and> free_mutex held m'"
proof -
  obtain c where c: "mHandle m = Section c" "held c = Some (t, Suc 0)" using assms(2) by (auto simp: locked_mutex_def)
  then show ?thesis
    using critical_sectionsD(6) [OF win_lawsD(1) [OF assms(1)] c(2)] assms(2) by (simp add: mtx_unlock_win_def mtx_defs free_mutex_def locked_mutex_def)
qed

text \<open>A timed mutex is not a critical section, but \<open>mtx_trylock\<close> leaves it as one when its own thread holds it already.\<close>

lemma timed_trylock_undefined:
  assumes "mTimed m" "\<not> mRecursive m" "mAlreadyLocked m" and "mHandle m = Mutex_object c"
    and "wait_mutex api t 0 c = Some (WAIT_OBJECT_0, d)"
  shows "mtx_trylock api t m = Inl Undefined_behaviour"
  using assms by (simp add: mtx_trylock_def on_object_def mtx_defs)

section \<open>Waiters that are counted for ever\<close>

primrec times :: "nat \<Rightarrow> ('s, unit) M \<Rightarrow> ('s, unit) M" where
  "times 0 m = ret ()"
| "times (Suc n) m = bnd m (\<lambda>_. times n m)"

definition timed_out_wait :: "(cnd_t, unit) M" where
  "timed_out_wait = bnd (cnd_timedwait_win32 WAIT_TIMEOUT True) (\<lambda>_. ret ())"

definition woken_by_all :: "(cnd_t, unit) M" where
  "woken_by_all = bnd (wait_end (WAIT_OBJECT_0 + 1) True) (\<lambda>_. ret ())"

definition resets :: "cnd_t \<Rightarrow> nat" where
  "resets c = count_list (os_calls c) Reset_all"

lemma wait_begin_runs: "wait_begin c = Inr ((), c\<lparr>mWaitersCount := mWaitersCount c + 1, os_calls := os_calls c @ [Unlock_mutex]\<rparr>)"
  by (simp add: wait_begin_def os_call_def monad_defs)

lemma timed_out_wait_runs:
  "timed_out_wait c = Inr ((), c\<lparr>mWaitersCount := mWaitersCount c + 1, os_calls := os_calls c @ [Unlock_mutex, Lock_mutex]\<rparr>)"
  by (simp add: timed_out_wait_def cnd_timedwait_win32_def wait_end_def os_call_def bnd_Inr_step [OF wait_begin_runs] bnd_assoc
      bnd_def modify_def ret_def)

lemma woken_by_all_runs:
  "\<exists>c'. woken_by_all c = Inr ((), c') \<and> mWaitersCount c' = mWaitersCount c - 1 \<and>
    resets c' = resets c + (if mWaitersCount c = 1 then 1 else 0)"
  by (simp add: woken_by_all_def wait_end_def WAIT_OBJECT_0_def WAIT_TIMEOUT_def WAIT_FAILED_def os_call_def Let_def monad_defs resets_def)

lemma times_timed_out:
  "\<exists>c'. times k timed_out_wait c = Inr ((), c') \<and> mWaitersCount c' = mWaitersCount c + of_nat k \<and> resets c' = resets c"
proof (induction k arbitrary: c)
  case 0
  then show ?case by (simp add: ret_def)
next
  case (Suc k)
  let ?c = "c\<lparr>mWaitersCount := mWaitersCount c + 1, os_calls := os_calls c @ [Unlock_mutex, Lock_mutex]\<rparr>"
  from Suc.IH [of ?c] show ?case by (simp add: bnd_Inr_step [OF timed_out_wait_runs] resets_def add.assoc)
qed

lemma times_begin:
  "\<exists>c'. times k wait_begin c = Inr ((), c') \<and> mWaitersCount c' = mWaitersCount c + of_nat k \<and> resets c' = resets c"
proof (induction k arbitrary: c)
  case 0
  then show ?case by (simp add: ret_def)
next
  case (Suc k)
  let ?c = "c\<lparr>mWaitersCount := mWaitersCount c + 1, os_calls := os_calls c @ [Unlock_mutex]\<rparr>"
  from Suc.IH [of ?c] show ?case by (simp add: bnd_Inr_step [OF wait_begin_runs] resets_def add.assoc)
qed

lemma times_woken:
  assumes "mWaitersCount c = of_nat (m + k)" and "m + k < 2 ^ 32"
  shows "\<exists>c'. times k woken_by_all c = Inr ((), c') \<and> mWaitersCount c' = of_nat m \<and>
    resets c' = resets c + (if m = 0 \<and> k \<noteq> 0 then 1 else 0)"
  using assms
proof (induction k arbitrary: c)
  case 0
  then show ?case by (simp add: ret_def)
next
  case (Suc k)
  from woken_by_all_runs [of c] obtain c1 where c1: "woken_by_all c = Inr ((), c1)" "mWaitersCount c1 = mWaitersCount c - 1"
    "resets c1 = resets c + (if mWaitersCount c = 1 then 1 else 0)" by blast
  have one: "mWaitersCount c = 1 \<longleftrightarrow> m + k = 0"
  proof -
    have "mWaitersCount c = 1 \<longleftrightarrow> unat (of_nat (m + Suc k) :: 32 word) = 1"
      unfolding Suc.prems(1) by (metis unat_1 word_unat_eq_iff)
    also have "unat (of_nat (m + Suc k) :: 32 word) = m + Suc k" unfolding unat_of_nat using Suc.prems(2) by simp
    finally show ?thesis by simp
  qed
  have "mWaitersCount c1 = of_nat (m + k)" using c1(2) Suc.prems(1) by simp
  from Suc.IH [OF this] Suc.prems(2) obtain c' where c': "times k woken_by_all c1 = Inr ((), c')" "mWaitersCount c' = of_nat m"
    "resets c' = resets c1 + (if m = 0 \<and> k \<noteq> 0 then 1 else 0)" by auto
  then show ?case using c1 one by (auto simp: bnd_def)
qed

section \<open>Properties\<close>

text \<open>C36: Waits that time out stay counted. After \<open>k\<close> of them, \<open>n\<close> threads that wait and are all woken by one broadcast leave \<open>k\<close> waiters
  in the count, and the last of them resets the event of the broadcast exactly when \<open>k = 0\<close>: after a single timeout the event stays set for
  good, and every later wait returns at once.\<close>

theorem timeouts_keep_event_set:
  assumes "mWaitersCount c = 0" and "0 < n" and "k + n < 2 ^ 32"
  shows "\<exists>c'. block [times k timed_out_wait, times n wait_begin, bnd (cnd_broadcast True) (\<lambda>_. ret ()), times n woken_by_all] c =
      Inr ((), c') \<and> mWaitersCount c' = of_nat k \<and> (resets c' = resets c \<longleftrightarrow> k \<noteq> 0)"
proof -
  from times_timed_out [of k c] obtain c1 where c1: "times k timed_out_wait c = Inr ((), c1)"
    "mWaitersCount c1 = of_nat k" "resets c1 = resets c" using assms(1) by auto
  from times_begin [of n c1] obtain c2 where c2: "times n wait_begin c1 = Inr ((), c2)"
    "mWaitersCount c2 = of_nat (k + n)" "resets c2 = resets c" using c1 by auto
  obtain c3 where c3: "bnd (cnd_broadcast True) (\<lambda>_. ret ()) c2 = Inr ((), c3)" "mWaitersCount c3 = mWaitersCount c2" "resets c3 = resets c"
    using c2(3) by (cases "0 < mWaitersCount c2") (simp_all add: cnd_broadcast_def os_call_def resets_def monad_defs)
  from times_woken [of c3 k n] c2(2) c3(2) assms(3) obtain c' where "times n woken_by_all c3 = Inr ((), c')"
    "mWaitersCount c' = of_nat k" "resets c' = resets c3 + (if k = 0 \<and> n \<noteq> 0 then 1 else 0)" by auto
  then show ?thesis using c1(1) c2(1) c3(1,3) assms(2) by (simp add: bnd_def ret_def)
qed

theorem timeouts_keep_event_set_witness:
  "\<exists>c'. block [times 1 timed_out_wait, times 2 wait_begin, bnd (cnd_broadcast True) (\<lambda>_. ret ()), times 2 woken_by_all]
      \<lparr>mWaitersCount = 0, event_one = True, event_all = True, os_calls = []\<rparr> = Inr ((), c') \<and> mWaitersCount c' = 1 \<and> resets c' = 0"
  using timeouts_keep_event_set [of "\<lparr>mWaitersCount = 0, event_one = True, event_all = True, os_calls = []\<rparr>" 2 1]
  by (simp add: resets_def)

end
