(* ===== verification/Posix_Threads.thy ===== *)
theory Posix_Threads
  imports Win_Sync Workers
begin

text \<open>
  lib/tinycthread/tinycthread.c in the variant for POSIX, which the library is built with on systems without threads.h. Every
  function passes a call on to pthread and translates its result; the calls of pthread are the parameter
  \<open>('m, 's) pthreads\<close>, on mutexes \<open>'m\<close> and a state \<open>'s\<close> of the system. With recursive mutexes as POSIX documents them
  (\<open>recursive_mutexes\<close>) these functions do what the mutexes of theory \<open>Locker\<close> do.
\<close>

section \<open>The calls of pthread\<close>

datatype mutex_type = PTHREAD_MUTEX_DEFAULT | PTHREAD_MUTEX_RECURSIVE

text \<open>A call that may have to wait gives \<open>None\<close> while it does; the first argument is then the calling thread. A call gives a
  number, 0 for success.\<close>

record ('m, 's) pthreads =
  mutex_init :: "'m \<Rightarrow> mutex_type \<Rightarrow> 's \<Rightarrow> int \<times> 's"
  mutex_destroy :: "'m \<Rightarrow> 's \<Rightarrow> int \<times> 's"
  mutex_lock :: "thread_id \<Rightarrow> 'm \<Rightarrow> 's \<Rightarrow> (int \<times> 's) option"
  mutex_timedlock :: "thread_id \<Rightarrow> 'm \<Rightarrow> timespec \<Rightarrow> 's \<Rightarrow> (int \<times> 's) option"
  mutex_trylock :: "thread_id \<Rightarrow> 'm \<Rightarrow> 's \<Rightarrow> int \<times> 's"
  mutex_unlock :: "thread_id \<Rightarrow> 'm \<Rightarrow> 's \<Rightarrow> int \<times> 's"
  cond_init :: "addr \<Rightarrow> 's \<Rightarrow> int \<times> 's"
  cond_destroy :: "addr \<Rightarrow> 's \<Rightarrow> int \<times> 's"
  cond_signal :: "addr \<Rightarrow> 's \<Rightarrow> int \<times> 's"
  cond_broadcast :: "addr \<Rightarrow> 's \<Rightarrow> int \<times> 's"
  cond_wait :: "thread_id \<Rightarrow> addr \<Rightarrow> 'm \<Rightarrow> 's \<Rightarrow> (int \<times> 's) option"
  cond_timedwait :: "thread_id \<Rightarrow> addr \<Rightarrow> 'm \<Rightarrow> timespec \<Rightarrow> 's \<Rightarrow> (int \<times> 's) option"

definition now :: "('s \<Rightarrow> int \<times> 's) \<Rightarrow> ('s, int) M" where
  "now f s = Inr (f s)"

definition waits :: "('s \<Rightarrow> (int \<times> 's) option) \<Rightarrow> ('s, int) M" where
  "waits f s = (case f s of None \<Rightarrow> Inl Would_block | Some r \<Rightarrow> Inr r)"

text \<open>\<open>... == 0 ? thrd_success : thrd_error\<close>\<close>

definition thrd_status :: "int \<Rightarrow> int" where
  "thrd_status r = (if r = 0 then thrd_success else thrd_error)"

section \<open>Mutexes\<close>

definition mtx_init_posix :: "('m, 's) pthreads \<Rightarrow> 'm \<Rightarrow> 32 word \<Rightarrow> ('s, int) M" where
  "mtx_init_posix sys mtx type =
     (let attr = PTHREAD_MUTEX_DEFAULT;
          attr = (if type AND mtx_recursive \<noteq> 0 then PTHREAD_MUTEX_RECURSIVE else attr)
      in bnd (now (mutex_init sys mtx attr)) (\<lambda>r. ret (thrd_status r)))"

definition mtx_destroy_posix :: "('m, 's) pthreads \<Rightarrow> 'm \<Rightarrow> ('s, unit) M" where
  "mtx_destroy_posix sys mtx = bnd (now (mutex_destroy sys mtx)) (\<lambda>_. ret ())"

definition mtx_lock_posix :: "('m, 's) pthreads \<Rightarrow> thread_id \<Rightarrow> 'm \<Rightarrow> ('s, int) M" where
  "mtx_lock_posix sys t mtx = bnd (waits (mutex_lock sys t mtx)) (\<lambda>r. ret (thrd_status r))"

definition mtx_timedlock_posix :: "('m, 's) pthreads \<Rightarrow> thread_id \<Rightarrow> 'm \<Rightarrow> timespec \<Rightarrow> ('s, int) M" where
  "mtx_timedlock_posix sys t mtx ts =
     bnd (waits (mutex_timedlock sys t mtx ts)) (\<lambda>r.
     ret (if r = 0 then thrd_success else if r = ETIMEDOUT then thrd_timedout else thrd_error))"

definition mtx_trylock_posix :: "('m, 's) pthreads \<Rightarrow> thread_id \<Rightarrow> 'm \<Rightarrow> ('s, int) M" where
  "mtx_trylock_posix sys t mtx =
     bnd (now (mutex_trylock sys t mtx)) (\<lambda>r. ret (if r = 0 then thrd_success else thrd_busy))"

definition mtx_unlock_posix :: "('m, 's) pthreads \<Rightarrow> thread_id \<Rightarrow> 'm \<Rightarrow> ('s, int) M" where
  "mtx_unlock_posix sys t mtx = bnd (now (mutex_unlock sys t mtx)) (\<lambda>r. ret (thrd_status r))"

section \<open>Condition variables\<close>

definition cnd_init_posix :: "('m, 's) pthreads \<Rightarrow> addr \<Rightarrow> ('s, int) M" where
  "cnd_init_posix sys cond = bnd (now (cond_init sys cond)) (\<lambda>r. ret (thrd_status r))"

definition cnd_destroy_posix :: "('m, 's) pthreads \<Rightarrow> addr \<Rightarrow> ('s, unit) M" where
  "cnd_destroy_posix sys cond = bnd (now (cond_destroy sys cond)) (\<lambda>_. ret ())"

definition cnd_signal_posix :: "('m, 's) pthreads \<Rightarrow> addr \<Rightarrow> ('s, int) M" where
  "cnd_signal_posix sys cond = bnd (now (cond_signal sys cond)) (\<lambda>r. ret (thrd_status r))"

definition cnd_broadcast_posix :: "('m, 's) pthreads \<Rightarrow> addr \<Rightarrow> ('s, int) M" where
  "cnd_broadcast_posix sys cond = bnd (now (cond_broadcast sys cond)) (\<lambda>r. ret (thrd_status r))"

definition cnd_wait_posix :: "('m, 's) pthreads \<Rightarrow> thread_id \<Rightarrow> addr \<Rightarrow> 'm \<Rightarrow> ('s, int) M" where
  "cnd_wait_posix sys t cond mtx = bnd (waits (cond_wait sys t cond mtx)) (\<lambda>r. ret (thrd_status r))"

definition cnd_timedwait_posix :: "('m, 's) pthreads \<Rightarrow> thread_id \<Rightarrow> addr \<Rightarrow> 'm \<Rightarrow> timespec \<Rightarrow> ('s, int) M" where
  "cnd_timedwait_posix sys t cond mtx ts =
     bnd (waits (cond_timedwait sys t cond mtx ts)) (\<lambda>r.
     if r = ETIMEDOUT then ret thrd_timedout else ret (thrd_status r))"

section \<open>Threads and time\<close>

text \<open>What \<open>thrd_create\<close> stores as the new thread: \<open>created\<close> is the result of \<open>pthread_create\<close> and the thread it has made.\<close>

definition create_posix :: "(addr \<Rightarrow> int \<times> addr) \<Rightarrow> addr \<Rightarrow> addr" where
  "create_posix created ti = (if fst (created ti) \<noteq> 0 then 0 else snd (created ti))"

definition thrd_create_posix :: "(addr \<Rightarrow> int \<times> addr) \<Rightarrow> nat \<Rightarrow> addr \<Rightarrow> (start_mem, int \<times> addr option) M" where
  "thrd_create_posix created = thrd_create (create_posix created)"

text \<open>\<open>(void *)(intptr_t)res\<close>: the number becomes a pointer, as it is returned by the wrapper function and passed to \<open>pthread_exit\<close>.\<close>

definition exit_pointer :: "32 word \<Rightarrow> 64 word" where
  "exit_pointer res = scast res"

definition thrd_wrapper_posix :: "(nat \<Rightarrow> addr \<Rightarrow> (start_mem, 32 word) M) \<Rightarrow> addr \<Rightarrow> (start_mem, 64 word) M" where
  "thrd_wrapper_posix run ti =
     bnd (thrd_begin ti) (\<lambda>(fun, arg).
     bnd (run fun arg) (\<lambda>res.
     ret (exit_pointer res)))"

definition thrd_exit_posix :: "32 word \<Rightarrow> 64 word" where
  "thrd_exit_posix res = exit_pointer res"

definition thrd_detach_posix :: "int \<Rightarrow> int" where
  "thrd_detach_posix detached = thrd_status detached"

text \<open>\<open>joined\<close> is the result of \<open>pthread_join\<close> and the pointer that the thread has returned.\<close>

definition thrd_join_posix :: "int \<times> 64 word \<Rightarrow> bool \<Rightarrow> int \<times> 32 word option" where
  "thrd_join_posix joined with_res =
     (if fst joined \<noteq> 0 then (thrd_error, None)
      else (thrd_success, if with_res then Some (ucast (snd joined)) else None))"

definition EINTR :: int where "EINTR = 4"

definition thrd_sleep_posix :: "int \<Rightarrow> int \<Rightarrow> int" where
  "thrd_sleep_posix res errno = (if res = 0 then 0 else if errno = EINTR then - 1 else - 2)"

text \<open>\<open>timespec_get\<close> with \<open>clock_gettime\<close>, and with \<open>gettimeofday\<close> in seconds and microseconds.\<close>

definition timespec_get_realtime :: "int \<times> timespec \<Rightarrow> int \<Rightarrow> int \<times> timespec option" where
  "timespec_get_realtime got base =
     (if base \<noteq> TIME_UTC then (0, None) else (if fst got = 0 then base else 0, Some (snd got)))"

definition timespec_get_timeofday :: "int \<times> int \<Rightarrow> int \<Rightarrow> int \<times> timespec option" where
  "timespec_get_timeofday tv base =
     (if base \<noteq> TIME_UTC then (0, None) else (base, Some \<lparr>tv_sec = fst tv, tv_nsec = 1000 * snd tv\<rparr>))"

section \<open>Thread-specific storage\<close>

text \<open>\<open>key_set\<close> is the calling thread's.\<close>

record 's pthread_keys =
  key_create :: "nat option \<Rightarrow> 's \<Rightarrow> (int \<times> nat) \<times> 's"
  key_delete :: "nat \<Rightarrow> 's \<Rightarrow> int \<times> 's"
  key_get :: "nat \<Rightarrow> 's \<Rightarrow> addr"
  key_set :: "nat \<Rightarrow> addr \<Rightarrow> 's \<Rightarrow> int \<times> 's"

definition tss_create_posix :: "'s pthread_keys \<Rightarrow> nat option \<Rightarrow> ('s, int \<times> nat) M" where
  "tss_create_posix sys dtor s =
     (let ((r, key), s) = key_create sys dtor s in Inr ((if r \<noteq> 0 then thrd_error else thrd_success, key), s))"

definition tss_delete_posix :: "'s pthread_keys \<Rightarrow> nat \<Rightarrow> ('s, unit) M" where
  "tss_delete_posix sys key = bnd (now (key_delete sys key)) (\<lambda>_. ret ())"

definition tss_get_posix :: "'s pthread_keys \<Rightarrow> nat \<Rightarrow> ('s, addr) M" where
  "tss_get_posix sys key = gets (key_get sys key)"

definition tss_set_posix :: "'s pthread_keys \<Rightarrow> nat \<Rightarrow> addr \<Rightarrow> ('s, int) M" where
  "tss_set_posix sys key val =
     bnd (now (key_set sys key val)) (\<lambda>r. if r \<noteq> 0 then ret thrd_error else ret thrd_success)"

section \<open>Recursive mutexes\<close>

text \<open>What POSIX says of them: \<open>view\<close> gives for each mutex that has been made its owner and how often the owner has taken it
  beyond the first time, which is limited. A thread that is not the owner waits, and may not release the mutex.\<close>

definition recursive_mutexes :: "('m, 's) pthreads \<Rightarrow> ('s \<Rightarrow> 'm \<Rightarrow> (thread_id \<times> nat) option option) \<Rightarrow> nat \<Rightarrow> bool" where
  "recursive_mutexes sys view limit \<longleftrightarrow>
     (\<forall>m s. fst (mutex_init sys m PTHREAD_MUTEX_RECURSIVE s) = 0 \<longrightarrow>
        view (snd (mutex_init sys m PTHREAD_MUTEX_RECURSIVE s)) = (view s)(m \<mapsto> None)) \<and>
     (\<forall>t m s. view s m = Some None \<longrightarrow>
        (\<exists>s'. mutex_lock sys t m s = Some (0, s') \<and> view s' = (view s)(m \<mapsto> Some (t, 0)))) \<and>
     (\<forall>t m s n. view s m = Some (Some (t, n)) \<longrightarrow> n + 1 < limit \<longrightarrow>
        (\<exists>s'. mutex_lock sys t m s = Some (0, s') \<and> view s' = (view s)(m \<mapsto> Some (t, n + 1)))) \<and>
     (\<forall>t m s u n. view s m = Some (Some (u, n)) \<longrightarrow> u \<noteq> t \<longrightarrow> mutex_lock sys t m s = None) \<and>
     (\<forall>t m s n. view s m = Some (Some (t, n)) \<longrightarrow>
        (\<exists>s'. mutex_unlock sys t m s = (0, s') \<and> view s' = (view s)(m \<mapsto> (if n = 0 then None else Some (t, n - 1))))) \<and>
     (\<forall>t m s v. view s m = Some v \<longrightarrow> (\<forall>n. v \<noteq> Some (t, n)) \<longrightarrow>
        (\<exists>r s'. mutex_unlock sys t m s = (r, s') \<and> r \<noteq> 0 \<and> view s' = view s))"

lemma recursive_mutexesD:
  assumes "recursive_mutexes sys view limit"
  shows "fst (mutex_init sys m PTHREAD_MUTEX_RECURSIVE s) = 0 \<Longrightarrow>
      view (snd (mutex_init sys m PTHREAD_MUTEX_RECURSIVE s)) = (view s)(m \<mapsto> None)"
    "view s m = Some None \<Longrightarrow> \<exists>s'. mutex_lock sys t m s = Some (0, s') \<and> view s' = (view s)(m \<mapsto> Some (t, 0))"
    "view s m = Some (Some (t, n)) \<Longrightarrow> n + 1 < limit \<Longrightarrow>
      \<exists>s'. mutex_lock sys t m s = Some (0, s') \<and> view s' = (view s)(m \<mapsto> Some (t, n + 1))"
    "view s m = Some (Some (u, n)) \<Longrightarrow> u \<noteq> t \<Longrightarrow> mutex_lock sys t m s = None"
    "view s m = Some (Some (t, n)) \<Longrightarrow>
      \<exists>s'. mutex_unlock sys t m s = (0, s') \<and> view s' = (view s)(m \<mapsto> (if n = 0 then None else Some (t, n - 1)))"
    "view s m = Some v \<Longrightarrow> (\<And>n. v \<noteq> Some (t, n)) \<Longrightarrow> \<exists>r s'. mutex_unlock sys t m s = (r, s') \<and> r \<noteq> 0 \<and> view s' = view s"
  using assms by (simp_all add: recursive_mutexes_def)

text \<open>Taking and releasing mutexes in any order by any threads, with pthread and as theory \<open>Locker\<close> has it; the second says
  which result a call should have.\<close>

datatype mutex_op = Take lockref | Release lockref

primrec mutex_of :: "mutex_op \<Rightarrow> lockref" where
  "mutex_of (Take r) = r"
| "mutex_of (Release r) = r"

fun posix_step :: "(lockref, 's) pthreads \<Rightarrow> thread_id \<times> mutex_op \<Rightarrow> ('s, int) M" where
  "posix_step sys (t, Take r) = mtx_lock_posix sys t r"
| "posix_step sys (t, Release r) = mtx_unlock_posix sys t r"

definition holds :: "thread_id \<Rightarrow> lockref \<Rightarrow> world \<Rightarrow> bool" where
  "holds t r w \<longleftrightarrow> (\<exists>n. mutexes w r = Some (t, n))"

fun core_step :: "thread_id \<times> mutex_op \<Rightarrow> int W" where
  "core_step (t, Take r) = bnd (as_thread t (mtx_lock r)) (\<lambda>_. ret thrd_success)"
| "core_step (t, Release r) =
     bnd (gets (holds t r)) (\<lambda>h. bnd (as_thread t (mtx_unlock r)) (\<lambda>_. ret (if h then thrd_success else thrd_error)))"

primrec steps :: "('x \<Rightarrow> ('s, 'a) M) \<Rightarrow> 'x list \<Rightarrow> ('s, 'a list) M" where
  "steps f [] = ret []"
| "steps f (x # xs) = bnd (f x) (\<lambda>a. bnd (steps f xs) (\<lambda>as. ret (a # as)))"

text \<open>As \<open>idlock_init\<close> makes them.\<close>

definition mtx_plain :: "32 word" where "mtx_plain = 0"

definition make_mutexes :: "(lockref, 's) pthreads \<Rightarrow> lockref list \<Rightarrow> ('s, int list) M" where
  "make_mutexes sys = steps (\<lambda>r. mtx_init_posix sys r (mtx_plain OR mtx_recursive))"

lemma recursive_bit: "(mtx_plain OR mtx_recursive) AND mtx_recursive \<noteq> 0"
  by (simp add: mtx_plain_def mtx_recursive_def)

lemma status_success: "thrd_status r = thrd_success \<longleftrightarrow> r = 0" "thrd_error \<noteq> thrd_success"
  by (simp_all add: thrd_status_def thrd_success_def thrd_error_def)

lemma make_mutexes_free:
  assumes sys: "recursive_mutexes sys view limit"
  shows "make_mutexes sys rs s = Inr (sts, s') \<Longrightarrow> set sts \<subseteq> {thrd_success} \<Longrightarrow>
    view s' = (\<lambda>m. if m \<in> set rs then Some None else view s m)"
  unfolding make_mutexes_def
proof (induction rs arbitrary: s sts)
  case (Cons r rs)
  let ?init = "mutex_init sys r PTHREAD_MUTEX_RECURSIVE s"
  from Cons.prems(1) obtain sts' where rest: "steps (\<lambda>r. mtx_init_posix sys r (mtx_plain OR mtx_recursive)) rs (snd ?init) = Inr (sts', s')"
    and sts: "sts = thrd_status (fst ?init) # sts'"
    using recursive_bit by (cases ?init) (auto simp: bnd_Inr mtx_init_posix_def now_def)
  have "fst ?init = 0" using sts Cons.prems(2) status_success by simp
  then have "view (snd ?init) = (view s)(r \<mapsto> None)" by (rule recursive_mutexesD(1) [OF sys])
  then show ?case using Cons.IH [OF rest] sts Cons.prems(2) by (auto simp: fun_eq_iff)
qed simp

definition agree :: "('s \<Rightarrow> lockref \<Rightarrow> (thread_id \<times> nat) option option) \<Rightarrow> lockref set \<Rightarrow> nat \<Rightarrow> 's \<Rightarrow> world \<Rightarrow> bool" where
  "agree view R k s w \<longleftrightarrow> (\<forall>r\<in>R. view s r = Some (mutexes w r) \<and> (\<forall>t n. mutexes w r = Some (t, n) \<longrightarrow> n + 1 < k))"

lemma step_agrees:
  assumes sys: "recursive_mutexes sys view limit" and a: "agree view R k s w" and k: "0 < k" "k < limit" and r: "mutex_of (snd x) \<in> R"
  shows "case core_step x w of Inl e \<Rightarrow> posix_step sys x s = Inl e
    | Inr (st, w') \<Rightarrow> \<exists>s'. posix_step sys x s = Inr (st, s') \<and> agree view R (Suc k) s' w'"
proof -
  obtain t op where x: "x = (t, op)" by fastforce
  note law = recursive_mutexesD [OF sys]
  have v: "view s (mutex_of op) = Some (mutexes w (mutex_of op))" using a r x by (simp add: agree_def)
  have upd: "agree view R (Suc k) s' w'"
    if "view s' = (view s)(q \<mapsto> o')" "mutexes w' = (mutexes w)(q := o')" "\<forall>t n. o' = Some (t, n) \<longrightarrow> n < k" for q s' w' o'
    using a that by (auto simp: agree_def less_SucI)
  have same: "agree view R (Suc k) s' w'" if "view s' = view s" "mutexes w' = mutexes w" for s' w'
    using a that by (auto simp: agree_def less_SucI)
  have small: "n + 1 < k" if "mutexes w (mutex_of op) = Some (u, n)" for u n using a r x that by (simp add: agree_def)
  note defs = x mtx_lock_posix_def mtx_unlock_posix_def waits_def now_def bnd_def gets_def ret_def as_thread_def mtx_lock_def
    mtx_unlock_def holds_def thrd_status_def
  show ?thesis
  proof (cases op)
    case (Take q)
    consider "mutexes w q = None" | n where "mutexes w q = Some (t, n)" | u n where "mutexes w q = Some (u, n)" "u \<noteq> t"
      by (cases "mutexes w q") auto
    then show ?thesis
    proof cases
      case 1
      with v Take law(2) [of s q t] obtain s' where "mutex_lock sys t q s = Some (0, s')" "view s' = (view s)(q \<mapsto> Some (t, 0))"
        by auto
      then show ?thesis using 1 Take upd [of s' q "Some (t, 0)"] k by (simp add: defs)
    next
      case (2 n)
      then have "n + 1 < k" using small Take by simp
      with 2 v Take k law(3) [of s q t n] obtain s' where
        "mutex_lock sys t q s = Some (0, s')" "view s' = (view s)(q \<mapsto> Some (t, n + 1))" by auto
      then show ?thesis using 2 Take upd [of s' q "Some (t, n + 1)"] \<open>n + 1 < k\<close> by (simp add: defs)
    next
      case (3 u n)
      with v Take law(4) [of s q u n t] show ?thesis by (simp add: defs)
    qed
  next
    case (Release q)
    show ?thesis
    proof (cases "\<exists>n. mutexes w q = Some (t, n)")
      case True
      then obtain n where n: "mutexes w q = Some (t, n)" by blast
      let ?o = "if n = 0 then None else Some (t, n - 1)"
      from n v Release law(5) [of s q t n] obtain s' where "mutex_unlock sys t q s = (0, s')" "view s' = (view s)(q \<mapsto> ?o)"
        by auto
      then show ?thesis using n Release upd [of s' q ?o] small [of t n] by (simp add: defs)
    next
      case False
      with v Release law(6) [of s q "mutexes w q" t] obtain r s' where
        "mutex_unlock sys t q s = (r, s')" "r \<noteq> 0" "view s' = view s" by auto
      moreover have "mtx_unlock q (w\<lparr>self := t\<rparr>) = Inr ((), w\<lparr>self := t\<rparr>)"
        using False by (auto simp: mtx_unlock_def split: option.splits)
      ultimately show ?thesis using False Release same [of s' "w\<lparr>self := t\<rparr>"]
        by (auto simp: x mtx_unlock_posix_def now_def bnd_def gets_def ret_def as_thread_def holds_def thrd_status_def)
    qed
  qed
qed

lemma steps_agree:
  assumes sys: "recursive_mutexes sys view limit"
  shows "agree view R k s w \<Longrightarrow> 0 < k \<Longrightarrow> k + length ops \<le> limit \<Longrightarrow> (\<forall>x\<in>set ops. mutex_of (snd x) \<in> R) \<Longrightarrow>
    (case steps core_step ops w of Inl e \<Rightarrow> steps (posix_step sys) ops s = Inl e
     | Inr (sts, w') \<Rightarrow> \<exists>s'. steps (posix_step sys) ops s = Inr (sts, s') \<and> (\<forall>r\<in>R. view s' r = Some (mutexes w' r)))"
proof (induction ops arbitrary: k s w)
  case Nil
  then show ?case by (simp add: agree_def ret_def)
next
  case (Cons x ops)
  note one = step_agrees [OF sys Cons.prems(1,2), of x]
  show ?case
  proof (cases "core_step x w")
    case (Inl e)
    with one Cons.prems show ?thesis by (simp add: bnd_def)
  next
    case (Inr r)
    then obtain st w1 where w1: "core_step x w = Inr (st, w1)" by (cases r) simp
    with one Cons.prems obtain s1 where s1: "posix_step sys x s = Inr (st, s1)" "agree view R (Suc k) s1 w1" by auto
    have "case steps core_step ops w1 of Inl e \<Rightarrow> steps (posix_step sys) ops s1 = Inl e
     | Inr (sts, w') \<Rightarrow> \<exists>s'. steps (posix_step sys) ops s1 = Inr (sts, s') \<and> (\<forall>r\<in>R. view s' r = Some (mutexes w' r))"
      using Cons.prems by (intro Cons.IH [OF s1(2)]) simp_all
    with w1 s1(1) show ?thesis by (auto simp: bnd_def ret_def split: sum.splits)
  qed
qed

section \<open>Exit codes, errors and time\<close>

lemma exit_pointer_back: "ucast (exit_pointer res) = res"
proof (rule bit_word_eqI)
  fix n assume "n < LENGTH(32)"
  then have "n < 31 \<or> n = 31" by auto
  then show "bit (ucast (exit_pointer res) :: 32 word) n = bit res n"
    by (auto simp: exit_pointer_def bit_unsigned_iff bit_signed_iff)
qed

text \<open>What a thread returns, or passes to \<open>thrd_exit\<close>, is what \<open>thrd_join\<close> gives, negative numbers included.\<close>

lemma exit_code_roundtrip:
  assumes "infos w (info_fresh w) = None" and "thrd_create_posix created func arg w = Inr ((thrd_success, thr), w1)"
    and "run func arg w2 = Inr (res, w3)" and "w2 = w1\<lparr>infos := infos w\<rparr>"
  shows "\<exists>p. thrd_wrapper_posix run (info_fresh w) w1 = Inr (p, w3) \<and> thrd_join_posix (0, p) True = (thrd_success, Some res)"
proof -
  obtain w'' where b: "thrd_begin (info_fresh w) w1 = Inr ((func, arg), w'')" "infos w'' = infos w"
    using thrd_create_hands_over [OF assms(1), of "create_posix created" func arg] assms(2) by (auto simp: thrd_create_posix_def)
  then have "w'' = w2" using assms(4) by (auto simp: thrd_begin_def split: option.splits)
  then show ?thesis
    using b(1) assms(3) by (simp add: thrd_wrapper_posix_def bnd_def ret_def thrd_join_posix_def exit_pointer_back)
qed

text \<open>\<open>mtx_trylock\<close> has no \<open>thrd_error\<close>: whatever keeps pthread from trying is reported as a busy mutex.\<close>

lemma trylock_hides_errors: "fst (mutex_trylock sys t m s) \<noteq> 0 \<Longrightarrow> \<exists>s'. mtx_trylock_posix sys t m s = Inr (thrd_busy, s')"
  by (cases "mutex_trylock sys t m s") (simp add: mtx_trylock_posix_def now_def bnd_def ret_def)

text \<open>If pthread numbers the new thread 0, \<open>thrd_create\<close> takes it for a failure and frees the start information, which the thread
  then reads.\<close>

lemma thread_zero_reads_freed:
  assumes "created (info_fresh w) = (0, 0)" and "info_sched w = []"
  shows "\<exists>thr w1. thrd_create_posix created func arg w = Inr ((thrd_error, thr), w1) \<and>
    thrd_wrapper_posix run (info_fresh w) w1 = Inl Bad_pointer"
  using assms
  by (simp add: thrd_create_posix_def create_posix_def thrd_create_def zoom_def draw_block_def bnd_def gets_def modify_def ret_def
      thrd_wrapper_posix_def thrd_begin_def)

lemma timeofday_normalised: "0 \<le> snd tv \<Longrightarrow> snd tv < 1000000 \<Longrightarrow> timespec_get_timeofday tv TIME_UTC = (TIME_UTC, Some ts) \<Longrightarrow> normalised ts"
  by (auto simp: timespec_get_timeofday_def normalised_def)

section \<open>Properties\<close>

text \<open>C40: On POSIX the mutexes that the library makes are the ones that theory \<open>Locker\<close> has: when \<open>mtx_init\<close> has made them as
  \<open>idlock_init\<close> asks for, threads that take and release them in any order get through and wait at the same calls, with the same
  results and the same owners, as long as no thread takes a mutex more often than pthread allows.\<close>

theorem mutexes_are_recursive:
  assumes "recursive_mutexes sys view limit" and "make_mutexes sys rs s0 = Inr (sts, s)" and "set sts \<subseteq> {thrd_success}"
    and "length ops < limit" and "\<forall>x\<in>set ops. mutex_of (snd x) \<in> set rs" and "mutexes w = Map.empty"
  shows "case steps core_step ops w of Inl e \<Rightarrow> steps (posix_step sys) ops s = Inl e
    | Inr (sts, w') \<Rightarrow> \<exists>s'. steps (posix_step sys) ops s = Inr (sts, s') \<and> (\<forall>r\<in>set rs. view s' r = Some (mutexes w' r))"
proof (rule steps_agree [OF assms(1), where k = 1])
  show "agree view (set rs) 1 s w"
    using make_mutexes_free [OF assms(1-3)] assms(6) by (simp add: agree_def)
qed (use assms(4,5) in simp_all)

text \<open>A system that keeps exactly the owners.\<close>

definition owners_only :: "(lockref, lockref \<Rightarrow> (thread_id \<times> nat) option option) pthreads" where
  "owners_only =
     \<lparr>mutex_init = (\<lambda>m k s. (0, if k = PTHREAD_MUTEX_RECURSIVE then s(m \<mapsto> None) else s)),
      mutex_destroy = (\<lambda>m s. (0, s(m := None))),
      mutex_lock = (\<lambda>t m s. case s m of Some (Some (u, n)) \<Rightarrow> if u = t then Some (0, s(m \<mapsto> Some (t, n + 1))) else None
        | _ \<Rightarrow> Some (0, s(m \<mapsto> Some (t, 0)))),
      mutex_timedlock = (\<lambda>t m ts s. None),
      mutex_trylock = (\<lambda>t m s. (EBUSY, s)),
      mutex_unlock = (\<lambda>t m s. case s m of
          Some (Some (u, n)) \<Rightarrow> if u = t then (0, s(m \<mapsto> (if n = 0 then None else Some (t, n - 1)))) else (1, s)
        | _ \<Rightarrow> (1, s)),
      cond_init = (\<lambda>c s. (0, s)), cond_destroy = (\<lambda>c s. (0, s)), cond_signal = (\<lambda>c s. (0, s)),
      cond_broadcast = (\<lambda>c s. (0, s)), cond_wait = (\<lambda>t c m s. None), cond_timedwait = (\<lambda>t c m ts s. None)\<rparr>"

lemma owners_only_recursive: "recursive_mutexes owners_only (\<lambda>s. s) limit"
  by (auto simp: recursive_mutexes_def owners_only_def split: option.splits)

theorem mutexes_are_recursive_witness:
  "\<exists>s s'. make_mutexes owners_only [LObj 8] Map.empty = Inr ([thrd_success], s) \<and>
     steps (posix_step owners_only) [(1, Take (LObj 8)), (1, Take (LObj 8)), (2, Release (LObj 8)), (1, Release (LObj 8))] s =
       Inr ([thrd_success, thrd_success, thrd_error, thrd_success], s') \<and> s' (LObj 8) = Some (Some (1, 0))"
proof -
  let ?ops = "[(1, Take (LObj 8)), (1, Take (LObj 8)), (2, Release (LObj 8)), (1, Release (LObj 8))]"
  have m: "make_mutexes owners_only [LObj 8] Map.empty = Inr ([thrd_success], [LObj 8 \<mapsto> None])"
    using recursive_bit
    by (simp add: make_mutexes_def mtx_init_posix_def owners_only_def now_def bnd_def ret_def thrd_status_def)
  have "\<exists>w'. steps core_step ?ops (boot 0) = Inr ([thrd_success, thrd_success, thrd_error, thrd_success], w') \<and>
      mutexes w' (LObj 8) = Some (1, 0)"
    by (simp add: bnd_def ret_def as_thread_def mtx_lock_def mtx_unlock_def gets_def holds_def boot_def)
  then obtain w' where c: "steps core_step ?ops (boot 0) = Inr ([thrd_success, thrd_success, thrd_error, thrd_success], w')"
    "mutexes w' (LObj 8) = Some (1, 0)" by blast
  from mutexes_are_recursive [OF owners_only_recursive m, where limit = 9 and ops = ?ops and w = "boot 0"] show ?thesis
    unfolding c(1) using m c(2) by (auto simp: boot_def)
qed

end
