(* ===== verification/Spec2Isabelle.thy ===== *)
theory Spec2Isabelle
  imports Chains Cycles Clist_Sort Clist_Reverse Clist_Copy Clist_Iter Posix_Threads
begin

text \<open>
  A model of the garbage collector acid (Brandt, Krishnan, Busch, Sharma: concurrent reference counting with
  strong, weak and phantom counts), a C library of src/*.c on top of the containers of lib/collectc.

  Parts. A client program allocates objects (src/acid.c), which have a header (src/object.c) with three counts, a hash
  table of links (src/link.c, lib/collectc/hashtable.c) and the collector that looks after them. A collector
  (src/collector.c) keeps five queues of objects (src/safelist.c) and a counter (src/counter.c), and runs as a task
  (src/task.c) in the worker threads (src/worker.c). Every lock has an id, and locks are taken through
  src/locker.c, which sorts them. Collectors that meet are merged: one forwards to the other.

  Theories, from the bottom. \<open>Prelude\<close>: the state and error monad, Hoare triples, frames. \<open>Hashtable\<close>: hashtable.c,
  refined to maps. \<open>World\<close>: the memory of the program, one record for each struct of src/*.h. \<open>Memory\<close>: memory.c.
  \<open>Locker\<close>: idlock.c, locker.c. \<open>Sections\<close>: brackets of locker_start and locker_end, total correctness. \<open>Safelist\<close>:
  counter.c, safelist.c. \<open>Tasks\<close>: the scheduling half of task.c and worker.c. \<open>Collector\<close>: collector.c without
  collector_run. \<open>Objects\<close>: object.c, link.c. \<open>Pool\<close>: collector_run and the running half of task.c and worker.c. \<open>Acid\<close>:
  acid.c, include/acid.h. \<open>Workers\<close>: the threads as a step relation. \<open>Examples\<close>: the programs of examples/main.c
  beside a worker. \<open>Clist\<close>: list.c and list.h of lib/collectc on a heap of nodes, the operations on single
  elements; \<open>Clist_Bulk\<close>: those on whole lists; \<open>Clist_Sort\<close>: sorting; \<open>Clist_Iter\<close>: the iterators. Of lib/tinycthread, in
  the variant for Windows: \<open>Call_Once\<close>: call_once; \<open>Tss\<close>: thread-specific storage; \<open>Thread_Time\<close>: clocks, timeouts and the
  creation of threads; \<open>Win_Sync\<close>: mutexes and condition variables. \<open>Posix_Threads\<close>: the variant for POSIX, whose
  mutexes are those of \<open>Locker\<close>. The theories of the collector keep a \<open>List\<close> by value, as
  the sequence of its elements.

  Lemmas. \<open>Balance\<close>: every operation gives back its locks. \<open>Invariants\<close>: the locale \<open>gc_invariant\<close>, in which any
  invariant of the basic steps is shown to hold for all operations of the collector, and \<open>heap_invariant\<close> with those of a
  client; their interpretations are the allocator, the books of the tasks and the link tables (\<open>Accounts\<close>, with the locale
  \<open>table_invariant\<close> for whatever holds of every table) and the reference counts (\<open>Refs\<close>). \<open>Workers\<close> lifts them to all
  reachable states of all threads. \<open>Layout\<close>: a locale for invariants that look at where blocks lie; \<open>Census\<close>: objects created
  and collected account for the memory. \<open>Effects\<close>: what the operations on objects do, as total correctness. \<open>Reclaim\<close>: how the
  workers take a heap of strong links apart; \<open>Mutator\<close>: a client that builds such heaps beside workers, whose garbage is
  collected; \<open>Symbolic\<close>: rules that run the code forward on a symbolic memory; \<open>Cycles\<close>: with them, the whole collection of an object
  that refers to itself, from the last reference to the end of its collector, and its recovery when other references are left;
  \<open>Chains\<close>: the programs of the example that build chains return and leave nothing, from the start of \<open>main\<close> to the
  end of \<open>acid_stop\<close>. \<open>Clist_Spec\<close>: any sequence of list operations refines the same operations on a sequence (locale
  \<open>simulation\<close>), which is why keeping a \<open>List\<close> by value is right. \<open>Clist_Sort\<close>: the merge sort is a stable sort for every \<open>comparator\<close>. \<open>Clist_Reverse\<close>, \<open>Clist_Copy\<close>,
  \<open>Clist_Iter\<close>: relinking, splicing, copying, filtering and iterating, down to the nodes.

  Bounds. Loops that follow pointers or empty queues run with the fuel of the memory (\<open>fuel\<close>, never written), one unit
  for each round; the theorems of total correctness ask for more fuel than the length of the queue or chain. The lists
  have a fuel of their own (\<open>l_fuel\<close>), more than the length of the list. The loop of
  xmalloc has one round for each scheduled failure. An allocator that fails is a schedule of outcomes in the memory (\<open>mem\<close>, \<open>l_sched\<close>):
  \<open>Memory\<close>, the lists and the hash table are verified for every schedule, but the program starts (\<open>boot\<close>) with the empty one, an
  allocator that never fails, and so do the states that are reachable in \<open>Workers\<close>, the runs of a client in \<open>Mutator\<close> and the main
  programs; \<open>ready\<close> and the hypotheses \<open>mem w = []\<close> say the same. The reason is in the code: it ignores the failures of
  list_add_last in locker_start and worker_add_task, after which the locks are lost (theorem on locker_start in \<open>Locker\<close>) or
  a task is. Counters keep their width and wrap; the counts of an
  object are C ints whose overflow is an error. Addresses are unbounded and never used twice.

  Not modelled: interleavings inside one operation of a thread (a step runs an operation as a whole, and a mutex that
  another thread holds is an error of the operation), thrd_current, thrd_equal, thrd_yield and the macro call_once for
  POSIX of lib/tinycthread (each only names a call of the system), the printing of examples/main.c, the C++ test framework in spec/, the macro LIST_FOREACH_ZIP (no use
  of it compiles). The library function qsort is a parameter of \<open>list_sort\<close>, the objects of Windows and the calls of pthread are parameters of the
  theories that use them. Iterating an empty hash table, reading a
  freed block or a NULL pointer, a failed assertion and signed overflow are errors of the model.
\<close>

end
